(* ===== verification/Prelude.thy ===== *)
theory Prelude
  imports Complex_Main "HOL-Library.Word" "HOL-Library.Multiset"
begin

text \<open>
  Shared vocabulary of the development: the C++ integer types, the outcomes of a call that
  throws, aborts or runs into undefined behaviour, the access operations of \<open>std::vector\<close>,
  and generic facts on words and lists that the component theories use.
\<close>

section \<open>Types and outcomes\<close>

type_synonym u8 = "8 word"
type_synonym u16 = "16 word"
type_synonym u32 = "32 word"
type_synonym u64 = "64 word"

text \<open>
  Every way in which a call of the modelled code does not return normally.
  \<open>ThrownPointer\<close> is the program's \<open>throw new std::runtime_error(...)\<close>, which throws a pointer;
  \<open>FatalError\<close> and \<open>AbortMsg\<close> are \<open>NS_FATAL_ERROR\<close> and \<open>NS_ABORT_MSG_IF\<close>;
  \<open>Undefined\<close> is undefined behaviour of the language, with what causes it.
\<close>

datatype cpp_error =
    OutOfRange
  | RuntimeError string
  | ThrownPointer string
  | FatalError string
  | AbortMsg string
  | AssertFailed string
  | Undefined string

type_synonym 'a res = "cpp_error + 'a"

fun res_bind :: "'a res \<Rightarrow> ('a \<Rightarrow> 'b res) \<Rightarrow> 'b res" where
  "res_bind (Inl e) f = Inl e"
| "res_bind (Inr x) f = f x"

fun res_ok :: "'a res \<Rightarrow> bool" where
  "res_ok (Inl e) = False"
| "res_ok (Inr x) = True"

lemma res_bind_cong [fundef_cong]:
  "r = r' \<Longrightarrow> (\<And>x. r' = Inr x \<Longrightarrow> f x = g x) \<Longrightarrow> res_bind r f = res_bind r' g"
  by (cases r') auto

lemma res_bind_Inr_iff:
  "res_bind r f = Inr y \<longleftrightarrow> (\<exists>x. r = Inr x \<and> f x = Inr y)"
  by (cases r) auto

lemma res_bind_Inl_iff:
  "res_bind r f = Inl e \<longleftrightarrow> r = Inl e \<or> (\<exists>x. r = Inr x \<and> f x = Inl e)"
  by (cases r) auto

lemma res_ok_iff: "res_ok r \<longleftrightarrow> (\<exists>x. r = Inr x)"
  by (cases r) auto

text \<open>\<open>vec_at\<close> is \<open>std::vector::at\<close>, which throws \<open>std::out_of_range\<close>.\<close>

definition vec_at :: "'a list \<Rightarrow> nat \<Rightarrow> 'a res" where
  "vec_at xs i = (if i < length xs then Inr (xs ! i) else Inl OutOfRange)"

lemma vec_at_Inr [simp]: "i < length xs \<Longrightarrow> vec_at xs i = Inr (xs ! i)"
  by (simp add: vec_at_def)

lemma vec_at_Inl [simp]: "length xs \<le> i \<Longrightarrow> vec_at xs i = Inl OutOfRange"
  by (simp add: vec_at_def)

lemma vec_at_ok_iff: "res_ok (vec_at xs i) \<longleftrightarrow> i < length xs"
  by (simp add: vec_at_def)

text \<open>A loop over a list whose body may fail stops at the first failure.\<close>

fun res_fold :: "('a \<Rightarrow> 's \<Rightarrow> 's res) \<Rightarrow> 'a list \<Rightarrow> 's \<Rightarrow> 's res" where
  "res_fold f [] s = Inr s"
| "res_fold f (x # xs) s = res_bind (f x s) (res_fold f xs)"

lemma res_fold_append:
  "res_fold f (xs @ ys) s = res_bind (res_fold f xs s) (res_fold f ys)"
proof (induction xs arbitrary: s)
  case Nil
  then show ?case by simp
next
  case (Cons x xs)
  then show ?case by (cases "f x s") auto
qed

lemma res_fold_invariant:
  assumes "res_fold f xs s = Inr t" and "P s"
    and "\<And>x s t. x \<in> set xs \<Longrightarrow> P s \<Longrightarrow> f x s = Inr t \<Longrightarrow> P t"
  shows "P t"
  using assms
proof (induction xs arbitrary: s)
  case Nil
  then show ?case by simp
next
  case (Cons x xs)
  then obtain s' where s': "f x s = Inr s'" "res_fold f xs s' = Inr t"
    by (auto simp: res_bind_Inr_iff)
  show ?case
    by (rule Cons.IH [OF s'(2)])
      (use Cons.prems s' in \<open>auto intro: Cons.prems(3) [of x]\<close>)
qed

lemma res_fold_total:
  assumes "\<And>x s. x \<in> set xs \<Longrightarrow> P s \<Longrightarrow> \<exists>t. f x s = Inr t \<and> P t" and "P s"
  shows "\<exists>t. res_fold f xs s = Inr t \<and> P t"
  using assms
proof (induction xs arbitrary: s)
  case Nil
  then show ?case by simp
next
  case (Cons x xs)
  then obtain s' where "f x s = Inr s'" "P s'"
    by force
  then show ?case using Cons by auto
qed

section \<open>Words\<close>

named_theorems u32_simps \<open>reading 32-bit arithmetic as natural numbers\<close>

declare of_nat_unat [simp del]

lemma unat_pos_iff: "0 < unat w \<longleftrightarrow> w \<noteq> 0"
  by (simp add: unat_gt_0)

declare unat_eq_zero [simp]

lemma of_nat_unat_id [simp]: "(of_nat (unat w) :: 'a :: len word) = w"
  by (simp add: of_nat_unat)

lemma unat_u32_lt [simp]: "unat (x :: u32) < 4294967296"
  using unsigned_less [of x, where 'a = nat] by simp

lemma unat_u64_lt [simp]: "unat (x :: u64) < 18446744073709551616"
  using unsigned_less [of x, where 'a = nat] by simp

lemma unat_ucast_u32_u64 [simp]: "unat (ucast (x :: u32) :: u64) = unat x"
proof -
  have "unat x < 2 ^ 64" using unat_u32_lt [of x] by (simp del: unat_u32_lt)
  then show ?thesis by (simp add: unsigned_ucast_eq take_bit_nat_eq_self)
qed

lemma unat_u32_of_nat [u32_simps]: "unat (of_nat n :: u32) = n mod 4294967296"
  by (simp add: unat_of_nat)

lemma unat_u32_add [u32_simps]: "unat (a + b :: u32) = (unat a + unat b) mod 4294967296"
  by (simp add: unat_word_ariths)

lemma unat_u32_mult [u32_simps]: "unat (a * b :: u32) = (unat a * unat b) mod 4294967296"
  by (simp add: unat_word_ariths)

lemma unat_u32_of_nat_small [simp]:
  "n < 4294967296 \<Longrightarrow> unat (of_nat n :: u32) = n"
  by (simp add: unat_u32_of_nat)

lemma unat_u32_power2: "(2::nat) ^ k < 4294967296 \<Longrightarrow> unat (2 ^ k :: u32) = 2 ^ k"
  using unat_u32_of_nat_small [of "2 ^ k"] by simp

lemma unat_u64_of_nat_small [simp]:
  "n < 18446744073709551616 \<Longrightarrow> unat (of_nat n :: u64) = n"
  by (simp add: unat_of_nat)

lemma u32_of_nat_add: "(of_nat a + of_nat b :: u32) = of_nat (a + b)"
  by simp

lemma unat_sum_list_u32:
  "unat (sum_list (map of_nat ns) :: u32) = sum_list ns mod 4294967296"
proof -
  have "(sum_list (map of_nat ns) :: u32) = of_nat (sum_list ns)"
    by (induction ns) auto
  then show ?thesis by (simp add: unat_u32_of_nat)
qed

section \<open>Lists\<close>

lemma upt_Suc_Cons: "m < n \<Longrightarrow> [m..<n] = m # [Suc m..<n]"
  by (simp add: upt_rec)

lemma list_all_nth_update:
  "list_all P xs \<Longrightarrow> P y \<Longrightarrow> list_all P (xs[i := y])"
  by (auto simp: list_all_iff dest: set_update_subset_insert [THEN subsetD])

lemma sum_list_map_update:
  fixes f :: "'a \<Rightarrow> nat"
  assumes "i < length xs"
  shows "sum_list (map f (xs[i := y])) + f (xs ! i) = sum_list (map f xs) + f y"
  using assms
proof (induction xs arbitrary: i)
  case Nil
  then show ?case by simp
next
  case (Cons x xs)
  then show ?case by (cases i) auto
qed

lemma sum_list_map_nth_upt:
  "sum_list (map (\<lambda>i. f (xs ! i)) [0..<length xs]) = sum_list (map f xs)"
proof -
  have "map (\<lambda>i. f (xs ! i)) [0..<length xs] = map f (map ((!) xs) [0..<length xs])"
    by simp
  then show ?thesis by (simp add: map_nth)
qed

text \<open>
  \<open>std::max_element\<close> on a range: it walks once, keeping the element it would replace only by one
  the comparator calls larger. An empty range gives the end iterator, here \<open>None\<close>.
\<close>

fun max_element :: "('a \<Rightarrow> 'a \<Rightarrow> bool) \<Rightarrow> 'a list \<Rightarrow> 'a option" where
  "max_element lt [] = None"
| "max_element lt (x # xs) = Some (foldl (\<lambda>best y. if lt best y then y else best) x xs)"

lemma max_element_mem: "max_element lt xs = Some m \<Longrightarrow> m \<in> set xs"
proof (cases xs)
  case (Cons x ys)
  have "foldl (\<lambda>best y. if lt best y then y else best) x ys \<in> set (x # ys)" for x
    by (induction ys arbitrary: x) auto
  then show "max_element lt xs = Some m \<Longrightarrow> m \<in> set xs" using Cons by auto
qed simp

lemma max_element_key:
  fixes f :: "'a \<Rightarrow> 'b :: linorder"
  assumes "max_element (\<lambda>a b. f a < f b) xs = Some m" and "x \<in> set xs"
  shows "f x \<le> f m"
proof (cases xs)
  case Nil
  then show ?thesis using assms by simp
next
  case (Cons y ys)
  have "\<forall>x \<in> set (y # ys). f x \<le> f (foldl (\<lambda>best y. if f best < f y then y else best) y ys)" for y
  proof (induction ys arbitrary: y)
    case Nil
    then show ?case by simp
  next
    case (Cons z zs)
    show ?case
    proof (cases "f y < f z")
      case True
      then show ?thesis using Cons.IH [of z] by (auto intro: order.trans [of "f y" "f z"])
    next
      case False
      then show ?thesis using Cons.IH [of y] by (auto intro: order.trans [of "f z" "f y"])
    qed
  qed
  then show ?thesis using assms Cons by auto
qed

lemma max_element_None [simp]: "max_element lt xs = None \<longleftrightarrow> xs = []"
  by (cases xs) auto

text \<open>Collecting results: the first failure wins.\<close>

fun res_map :: "('a \<Rightarrow> 'b res) \<Rightarrow> 'a list \<Rightarrow> 'b list res" where
  "res_map f [] = Inr []"
| "res_map f (x # xs) = res_bind (f x) (\<lambda>y. res_bind (res_map f xs) (\<lambda>ys. Inr (y # ys)))"

lemma res_map_Inr_iff:
  "res_map f xs = Inr ys \<longleftrightarrow> list_all2 (\<lambda>x y. f x = Inr y) xs ys"
proof (induction xs arbitrary: ys)
  case Nil
  then show ?case by auto
next
  case (Cons x xs)
  then show ?case by (cases ys) (auto simp: res_bind_Inr_iff)
qed

lemma res_map_eqI: "(\<And>x. x \<in> set xs \<Longrightarrow> f x = Inr (g x)) \<Longrightarrow> res_map f xs = Inr (map g xs)"
  by (induction xs) auto

text \<open>A loop that reads two vectors at the same index walks over their pairs.\<close>

lemma res_fold_cong_set:
  "(\<And>x s. x \<in> set xs \<Longrightarrow> f x s = g x s) \<Longrightarrow> res_fold f xs s = res_fold g xs s"
proof (induction xs arbitrary: s)
  case Nil
  then show ?case by simp
next
  case (Cons x xs)
  then show ?case by (cases "g x s") auto
qed

lemma res_fold_cong_inv:
  assumes "\<And>x s. x \<in> set xs \<Longrightarrow> P s \<Longrightarrow> f x s = g x s"
    and "\<And>x s t. P s \<Longrightarrow> g x s = Inr t \<Longrightarrow> P t" and "P s"
  shows "res_fold f xs s = res_fold g xs s"
  using assms(1,3)
proof (induction xs arbitrary: s)
  case Nil
  then show ?case by simp
next
  case (Cons x xs)
  then show ?case using assms(2) [of s x] by (cases "g x s") auto
qed

lemma res_fold_map: "res_fold f (map h xs) s = res_fold (\<lambda>x. f (h x)) xs s"
proof (induction xs arbitrary: s)
  case Nil
  then show ?case by simp
next
  case (Cons x xs)
  then show ?case by (cases "f (h x) s") auto
qed

lemma res_fold_index_zip:
  assumes "length ys = length xs"
  shows "res_fold (\<lambda>j s. res_bind (vec_at xs j) (\<lambda>x. res_bind (vec_at ys j) (\<lambda>y. g x y s)))
      [0..<length xs] s = res_fold (\<lambda>(x, y) s. g x y s) (zip xs ys) s"
proof -
  have z: "zip xs ys = map (\<lambda>j. (xs ! j, ys ! j)) [0..<length xs]"
    using assms by (intro nth_equalityI) auto
  show ?thesis
    unfolding z res_fold_map using assms by (intro res_fold_cong_set) auto
qed

end
