(* ===== verification/Binary64.thy ===== *)
theory Binary64
  imports Prelude "HOL-Library.Log_Nat"
begin

text \<open>
  The C++ \<open>double\<close> of the target (IEEE 754 binary64, round to nearest, ties to even) as exact
  rationals with a rounding step after every operation, plus the two infinities and one NaN.
  The model does not tell \<open>-0\<close> from \<open>0\<close>: every divisor in the modelled code is a converted
  unsigned integer, which is never \<open>-0\<close>.
\<close>

section \<open>Rounding a rational to 53 significant bits\<close>

definition rne :: "rat \<Rightarrow> int" where
  "rne y = (let f = \<lfloor>y\<rfloor>; d = y - of_int f
            in if d < 1 / 2 \<or> (d = 1 / 2 \<and> even f) then f else f + 1)"

definition ilog2 :: "rat \<Rightarrow> int" where
  "ilog2 x = (let (p, q) = quotient_of x; k = bitlen p - bitlen q
              in if 2 powi k \<le> x then k else k - 1)"

definition fexp :: "rat \<Rightarrow> int" where
  "fexp x = max (ilog2 \<bar>x\<bar> - 52) (- 1074)"

definition fl :: "rat \<Rightarrow> rat" where
  "fl x = (if x = 0 then 0 else of_int (rne (x / 2 powi fexp x)) * 2 powi fexp x)"

subsection \<open>Round to nearest, ties to even\<close>

lemma rne_of_int [simp]: "rne (of_int n) = n"
  by (simp add: rne_def)

lemma rne_ge_floor: "\<lfloor>y\<rfloor> \<le> rne y" and rne_le_floor: "rne y \<le> \<lfloor>y\<rfloor> + 1"
  by (simp_all add: rne_def Let_def)

lemma rne_mono:
  assumes "y \<le> z"
  shows "rne y \<le> rne z"
proof (cases "\<lfloor>y\<rfloor> = \<lfloor>z\<rfloor>")
  case True
  with assms show ?thesis by (auto simp: rne_def Let_def)
next
  case False
  with floor_mono [OF assms] have "\<lfloor>y\<rfloor> + 1 \<le> \<lfloor>z\<rfloor>" by linarith
  then show ?thesis using rne_le_floor [of y] rne_ge_floor [of z] by linarith
qed

lemma rne_minus: "rne (- y) = - rne y"
proof (cases "y = of_int \<lfloor>y\<rfloor>")
  case True
  then obtain n where "y = of_int n" by blast
  then have "- y = of_int (- n)" by simp
  with \<open>y = of_int n\<close> show ?thesis by (metis rne_of_int)
next
  case False
  have lt: "of_int \<lfloor>y\<rfloor> < y" using False of_int_floor_le [of y] by (metis order_le_less)
  have fl: "\<lfloor>- y\<rfloor> = - \<lfloor>y\<rfloor> - 1"
  proof (rule floor_unique)
    show "of_int (- \<lfloor>y\<rfloor> - 1) \<le> - y"
      using floor_correct [of y] by simp
    show "- y < of_int (- \<lfloor>y\<rfloor> - 1) + 1"
      using lt by simp
  qed
  show ?thesis
    unfolding rne_def fl Let_def using lt by auto
qed

lemma rne_ge_of_int: "of_int n \<le> y \<Longrightarrow> n \<le> rne y"
  using rne_mono [of "of_int n" y] by simp

lemma rne_le_of_int: "y \<le> of_int n \<Longrightarrow> rne y \<le> n"
  using rne_mono [of y "of_int n"] by simp

subsection \<open>The binary exponent of a positive rational\<close>

lemma powi_pos [simp]: "(0::rat) < 2 powi k"
  by (simp add: power_int_def)

lemma powi_le_iff [simp]: "(2::rat) powi a \<le> 2 powi b \<longleftrightarrow> a \<le> b"
  using power_int_le_imp_le_exp [of "2::rat" a b] power_int_increasing [of a b "2::rat"]
    power_int_strict_increasing [of b a "2::rat"]
  by (metis linorder_not_less one_less_numeral_iff one_le_numeral semiring_norm(76))

lemma powi_less_iff [simp]: "(2::rat) powi a < 2 powi b \<longleftrightarrow> a < b"
  by (metis linorder_not_less powi_le_iff)

lemma powi_add: "(2::rat) powi (a + b) = 2 powi a * 2 powi b"
  by (simp add: power_int_add)

lemma powi_diff: "(2::rat) powi (a - b) = 2 powi a / 2 powi b"
  by (simp add: power_int_diff)

lemma bitlen_powi:
  assumes "0 < p"
  shows "(2::rat) powi (bitlen p - 1) \<le> of_int p" and "of_int p < (2::rat) powi (bitlen p)"
proof -
  have b: "0 < bitlen p"
    using assms bitlen_nonneg [of p] bitlen_eq_zero_iff [of p] by linarith
  have l: "2 ^ nat (bitlen p - 1) \<le> p" and u: "p < 2 ^ nat (bitlen p)"
    using bitlen_bounds [OF assms] by auto
  show "(2::rat) powi (bitlen p - 1) \<le> of_int p"
    using of_int_le_iff [of "2 ^ nat (bitlen p - 1)" p, where 'a = rat] l b
    by (simp add: power_int_def)
  show "of_int p < (2::rat) powi (bitlen p)"
    using of_int_less_iff [of p "2 ^ nat (bitlen p)", where 'a = rat] u b
    by (simp add: power_int_def)
qed

lemma ilog2_bounds:
  assumes "0 < x"
  shows "2 powi (ilog2 x) \<le> x" and "x < 2 powi (ilog2 x + 1)"
proof -
  obtain p q where pq: "quotient_of x = (p, q)" by (cases "quotient_of x")
  have q: "0 < q" and x: "x = of_int p / of_int q"
    using quotient_of_denom_pos [OF pq] quotient_of_div [OF pq] by auto
  have p: "0 < p" using assms q x by (simp add: zero_less_divide_iff)
  define k where "k = bitlen p - bitlen q"
  have up: "x < 2 powi (k + 1)"
  proof -
    have "of_int p < (2::rat) powi (k + 1) * 2 powi (bitlen q - 1)"
      using bitlen_powi(2) [OF p] by (simp add: k_def flip: powi_add)
    also have "\<dots> \<le> 2 powi (k + 1) * of_int q"
      using bitlen_powi(1) [OF q] by simp
    finally show ?thesis using q by (simp add: x divide_less_eq)
  qed
  have lo: "2 powi (k - 1) \<le> x"
  proof -
    have "(2::rat) powi (k - 1) * of_int q \<le> 2 powi (k - 1) * 2 powi (bitlen q)"
      using bitlen_powi(2) [OF q] by simp
    also have "\<dots> = 2 powi (bitlen p - 1)"
      by (simp add: k_def flip: powi_add)
    also have "\<dots> \<le> of_int p" by (rule bitlen_powi(1) [OF p])
    finally show ?thesis using q by (simp add: x le_divide_eq)
  qed
  show "2 powi (ilog2 x) \<le> x" and "x < 2 powi (ilog2 x + 1)"
    using up lo by (auto simp: ilog2_def pq k_def Let_def)
qed

lemma ilog2_le: "0 < x \<Longrightarrow> x < 2 powi (k + 1) \<Longrightarrow> ilog2 x \<le> k"
  using ilog2_bounds(1) [of x] powi_less_iff [of "ilog2 x" "k + 1"] by linarith

lemma ilog2_ge: "0 < x \<Longrightarrow> 2 powi k \<le> x \<Longrightarrow> k \<le> ilog2 x"
  using ilog2_bounds(2) [of x] powi_less_iff [of k "ilog2 x + 1"] by linarith

lemma ilog2_mono: "0 < x \<Longrightarrow> x \<le> y \<Longrightarrow> ilog2 x \<le> ilog2 y"
  by (rule ilog2_ge) (use ilog2_bounds(1) [of x] in auto)

subsection \<open>Exactness and monotonicity of rounding\<close>

lemma fl_0 [simp]: "fl 0 = 0"
  by (simp add: fl_def)

lemma fexp_minus [simp]: "fexp (- x) = fexp x"
  by (simp add: fexp_def)

lemma fl_minus: "fl (- x) = - fl x"
  by (simp add: fl_def rne_minus)

lemma fl_representable:
  assumes m: "\<bar>m\<bar> \<le> 2 ^ 53 - 1" and e: "- 1074 \<le> e" and x: "x = of_int m * 2 powi e"
  shows "fl x = x"
proof (cases "m = 0")
  case True
  then show ?thesis by (simp add: x)
next
  case False
  have "\<bar>x\<bar> = of_int \<bar>m\<bar> * 2 powi e" by (simp add: x abs_mult)
  also have "\<dots> < 2 powi 53 * 2 powi e"
  proof -
    have "(of_int \<bar>m\<bar> :: rat) \<le> of_int (2 ^ 53 - 1)" using m by (subst of_int_le_iff)
    then show ?thesis by simp
  qed
  finally have "\<bar>x\<bar> < 2 powi (52 + e + 1)"
    by (simp add: powi_add)
  then have "ilog2 \<bar>x\<bar> \<le> 52 + e"
    using False by (intro ilog2_le) (auto simp: x)
  then have le: "fexp x \<le> e" using e by (simp add: fexp_def)
  have "x / 2 powi fexp x = of_int m * 2 powi (e - fexp x)"
    by (simp add: x powi_diff)
  also have "\<dots> = of_int (m * 2 ^ nat (e - fexp x))"
    using le by (simp add: power_int_nonneg_exp)
  finally have q: "x / 2 powi fexp x = of_int (m * 2 ^ nat (e - fexp x))" .
  have "fl x = x / 2 powi fexp x * 2 powi fexp x"
    using False x unfolding fl_def q rne_of_int by simp
  then show ?thesis by simp
qed

lemma fl_powi:
  assumes "- 1074 \<le> k"
  shows "fl (2 powi k) = 2 powi k"
  by (rule fl_representable [of 1 k]) (use assms in auto)

lemma fl_of_int:
  assumes "\<bar>n\<bar> \<le> 2 ^ 53"
  shows "fl (of_int n) = of_int n"
proof (cases "\<bar>n\<bar> = 2 ^ 53")
  case False
  with assms show ?thesis by (intro fl_representable [of n 0]) auto
next
  case True
  then have "n = 2 ^ 53 \<or> n = - (2 ^ 53)" by linarith
  moreover have "fl (2 powi 53) = 2 powi 53" by (rule fl_powi) simp
  ultimately show ?thesis by (auto simp: fl_minus)
qed

lemma fl_of_nat: "n \<le> 2 ^ 53 \<Longrightarrow> fl (of_nat n) = of_nat n"
  using fl_of_int [of "int n"] by simp

lemma fl_mono_pos:
  assumes "0 < x" and "x \<le> y"
  shows "fl x \<le> fl y"
proof -
  have y: "0 < y" using assms by simp
  have le: "fexp x \<le> fexp y"
    using ilog2_mono [OF assms] assms by (simp add: fexp_def)
  show ?thesis
  proof (cases "fexp x = fexp y")
    case True
    have "rne (x / 2 powi fexp y) \<le> rne (y / 2 powi fexp y)"
      using assms by (intro rne_mono divide_right_mono) auto
    then show ?thesis using assms y True by (simp add: fl_def)
  next
    case False
    define ex ey where "ex = fexp x" and "ey = fexp y"
    have lt: "ex + 1 \<le> ey" using False le by (simp add: ex_def ey_def)
    have eq: "ilog2 y = ey + 52" and ex: "ilog2 x \<le> ex + 52"
      using lt y assms(1) by (auto simp: ex_def ey_def fexp_def)
    have "(2::rat) powi 52 \<le> y / 2 powi ey"
      using ilog2_bounds(1) [OF y] by (simp add: eq powi_add field_simps)
    then have "2 ^ 52 \<le> rne (y / 2 powi ey)"
      by (intro rne_ge_of_int) simp
    then have fy: "2 powi (52 + ey) \<le> fl y"
      using y of_int_le_iff [of "2 ^ 52" "rne (y / 2 powi ey)", where 'a = rat]
      by (simp add: fl_def ey_def powi_add)
    have "(2::rat) powi (ilog2 x + 1) \<le> 2 powi (ex + 53)" using ex by simp
    with ilog2_bounds(2) [OF assms(1)] have "x < 2 powi (ex + 53)" by linarith
    then have "x / 2 powi ex \<le> of_int (2 ^ 53)"
      by (simp add: powi_add field_simps)
    then have "rne (x / 2 powi ex) \<le> 2 ^ 53" by (rule rne_le_of_int)
    then have "fl x \<le> 2 powi 53 * 2 powi ex"
      using assms(1) of_int_le_iff [of "rne (x / 2 powi ex)" "2 ^ 53", where 'a = rat]
      by (simp add: fl_def ex_def)
    also have "\<dots> = 2 powi (53 + ex)" by (simp add: powi_add)
    also have "\<dots> \<le> 2 powi (52 + ey)" using lt by simp
    finally show ?thesis using fy by linarith
  qed
qed

lemma fl_nonneg:
  assumes "0 \<le> x"
  shows "0 \<le> fl x"
proof -
  have "0 \<le> rne (x / 2 powi fexp x)"
    using assms by (intro rne_ge_of_int) (simp add: less_imp_le)
  then have "(0::rat) \<le> of_int (rne (x / 2 powi fexp x))" by simp
  then show ?thesis by (simp add: fl_def less_imp_le)
qed

lemma fl_mono:
  assumes "x \<le> y"
  shows "fl x \<le> fl y"
proof -
  consider "0 < x" | "y < 0" | "x \<le> 0" "0 \<le> y" using assms by linarith
  then show ?thesis
  proof cases
    case 1
    then show ?thesis by (rule fl_mono_pos [OF _ assms])
  next
    case 2
    then have "fl (- y) \<le> fl (- x)" using assms by (intro fl_mono_pos) auto
    then show ?thesis by (simp add: fl_minus)
  next
    case 3
    have "0 \<le> fl (- x)" using 3 by (intro fl_nonneg) simp
    moreover have "0 \<le> fl y" using 3 by (intro fl_nonneg)
    ultimately show ?thesis by (simp add: fl_minus)
  qed
qed

lemma fl_le_of_int: "x \<le> of_int n \<Longrightarrow> \<bar>n\<bar> \<le> 2 ^ 53 \<Longrightarrow> fl x \<le> of_int n"
  using fl_mono [of x "of_int n"] by (simp add: fl_of_int)

lemma fl_ge_of_int: "of_int n \<le> x \<Longrightarrow> \<bar>n\<bar> \<le> 2 ^ 53 \<Longrightarrow> of_int n \<le> fl x"
  using fl_mono [of "of_int n" x] by (simp add: fl_of_int)

lemma fl_le_of_nat: "x \<le> of_nat n \<Longrightarrow> n \<le> 2 ^ 53 \<Longrightarrow> fl x \<le> of_nat n"
  using fl_le_of_int [of x "int n"] by simp

lemma fl_ge_minus_of_nat: "- of_nat n \<le> x \<Longrightarrow> n \<le> 2 ^ 53 \<Longrightarrow> - of_nat n \<le> fl x"
  using fl_ge_of_int [of "- int n" x] by simp

section \<open>Doubles and their operations\<close>

datatype dbl = Fin rat | PInf | NInf | NaN

definition rnd :: "rat \<Rightarrow> dbl" where
  "rnd x = (let r = fl x
            in if 2 ^ 1024 \<le> r then PInf else if r \<le> - (2 ^ 1024) then NInf else Fin r)"

fun dneg :: "dbl \<Rightarrow> dbl" where
  "dneg (Fin x) = Fin (- x)"
| "dneg PInf = NInf"
| "dneg NInf = PInf"
| "dneg NaN = NaN"

fun dadd :: "dbl \<Rightarrow> dbl \<Rightarrow> dbl" where
  "dadd (Fin x) (Fin y) = rnd (x + y)"
| "dadd NaN y = NaN"
| "dadd x NaN = NaN"
| "dadd PInf NInf = NaN"
| "dadd NInf PInf = NaN"
| "dadd PInf y = PInf"
| "dadd NInf y = NInf"
| "dadd x PInf = PInf"
| "dadd x NInf = NInf"

definition dsub :: "dbl \<Rightarrow> dbl \<Rightarrow> dbl" where
  "dsub x y = dadd x (dneg y)"

text \<open>The infinity with the sign of a rational (for a non-zero one).\<close>

definition signed_inf :: "rat \<Rightarrow> dbl" where
  "signed_inf x = (if x = 0 then NaN else if 0 < x then PInf else NInf)"

fun dmul :: "dbl \<Rightarrow> dbl \<Rightarrow> dbl" where
  "dmul (Fin x) (Fin y) = rnd (x * y)"
| "dmul NaN y = NaN"
| "dmul x NaN = NaN"
| "dmul PInf (Fin y) = signed_inf y"
| "dmul NInf (Fin y) = signed_inf (- y)"
| "dmul (Fin x) PInf = signed_inf x"
| "dmul (Fin x) NInf = signed_inf (- x)"
| "dmul PInf PInf = PInf"
| "dmul NInf NInf = PInf"
| "dmul PInf NInf = NInf"
| "dmul NInf PInf = NInf"

fun ddiv :: "dbl \<Rightarrow> dbl \<Rightarrow> dbl" where
  "ddiv (Fin x) (Fin y) = (if y = 0 then signed_inf x else rnd (x / y))"
| "ddiv NaN y = NaN"
| "ddiv x NaN = NaN"
| "ddiv (Fin x) PInf = Fin 0"
| "ddiv (Fin x) NInf = Fin 0"
| "ddiv PInf (Fin y) = (if y < 0 then NInf else PInf)"
| "ddiv NInf (Fin y) = (if y < 0 then PInf else NInf)"
| "ddiv PInf y = NaN"
| "ddiv NInf y = NaN"

fun dless :: "dbl \<Rightarrow> dbl \<Rightarrow> bool" where
  "dless (Fin x) (Fin y) = (x < y)"
| "dless NaN y = False"
| "dless x NaN = False"
| "dless NInf y = (y \<noteq> NInf)"
| "dless x PInf = (x \<noteq> PInf)"
| "dless x y = False"

definition deq :: "dbl \<Rightarrow> dbl \<Rightarrow> bool" where
  "deq x y = (x \<noteq> NaN \<and> x = y)"

fun dfloor :: "dbl \<Rightarrow> dbl" where
  "dfloor (Fin x) = Fin (of_int \<lfloor>x\<rfloor>)"
| "dfloor x = x"

fun dabs :: "dbl \<Rightarrow> dbl" where
  "dabs (Fin x) = Fin \<bar>x\<bar>"
| "dabs NInf = PInf"
| "dabs x = x"

text \<open>Integer operands are converted before the operation.\<close>

definition dbl_of_nat :: "nat \<Rightarrow> dbl" where
  "dbl_of_nat n = rnd (of_nat n)"

definition dbl_of_int :: "int \<Rightarrow> dbl" where
  "dbl_of_int n = rnd (of_int n)"

text \<open>
  Conversion to an unsigned integer truncates; a value whose truncation does not fit is
  undefined behaviour (\<open>None\<close>).
\<close>

definition rat_trunc :: "rat \<Rightarrow> int" where
  "rat_trunc x = (if 0 \<le> x then \<lfloor>x\<rfloor> else - \<lfloor>- x\<rfloor>)"

fun dbl_to_nat_below :: "nat \<Rightarrow> dbl \<Rightarrow> nat option" where
  "dbl_to_nat_below b (Fin x) =
     (let t = rat_trunc x in if 0 \<le> t \<and> t < int b then Some (nat t) else None)"
| "dbl_to_nat_below b x = None"

definition dbl_to_u32 :: "dbl \<Rightarrow> u32 option" where
  "dbl_to_u32 d = map_option of_nat (dbl_to_nat_below 4294967296 d)"

subsection \<open>Facts on small values\<close>

named_theorems dbl_simps \<open>doubles that hold small integers\<close>

lemma rnd_small:
  assumes "\<bar>x\<bar> \<le> 2 ^ 53"
  shows "rnd x = Fin (fl x)"
proof -
  have u: "fl x \<le> of_int (2 ^ 53)" using assms by (intro fl_le_of_int) auto
  have l: "of_int (- (2 ^ 53)) \<le> fl x" using assms by (intro fl_ge_of_int) auto
  from u have "fl x < 2 ^ 1024"
    by (rule le_less_trans) simp
  moreover have "- (2 ^ 1024) < (of_int (- (2 ^ 53)) :: rat)" by simp
  then have "- (2 ^ 1024) < fl x" using l by (rule less_le_trans)
  ultimately show ?thesis by (simp add: rnd_def Let_def)
qed

lemma rnd_of_nat [dbl_simps]: "n \<le> 2 ^ 53 \<Longrightarrow> rnd (of_nat n) = Fin (of_nat n)"
  using of_nat_le_iff [of n "2 ^ 53", where 'a = rat]
  by (subst rnd_small) (auto simp: fl_of_nat)

lemma rnd_of_int: "\<bar>n\<bar> \<le> 2 ^ 53 \<Longrightarrow> rnd (of_int n) = Fin (of_int n)"
  using of_int_le_iff [of "\<bar>n\<bar>" "2 ^ 53", where 'a = rat]
  by (subst rnd_small) (auto simp: fl_of_int)

lemma dbl_of_nat_small [dbl_simps]: "n \<le> 2 ^ 53 \<Longrightarrow> dbl_of_nat n = Fin (of_nat n)"
  by (simp add: dbl_of_nat_def rnd_of_nat)

lemma dbl_of_u32 [dbl_simps]: "dbl_of_nat (unat (x :: u32)) = Fin (of_nat (unat x))"
  using unat_u32_lt [of x] by (intro dbl_of_nat_small) (simp del: unat_u32_lt)

lemma dadd_nats:
  assumes "a + b \<le> 2 ^ 53"
  shows "dadd (Fin (of_nat a)) (Fin (of_nat b)) = Fin (of_nat (a + b))"
  using rnd_of_nat [OF assms] by simp

lemma dbl_to_u32_nat [dbl_simps]:
  "n < 4294967296 \<Longrightarrow> dbl_to_u32 (Fin (of_nat n)) = Some (of_nat n)"
  by (simp add: dbl_to_u32_def rat_trunc_def Let_def)

lemma dbl_to_nat_below_bound: "dbl_to_nat_below b d = Some n \<Longrightarrow> n < b"
  by (cases d) (auto simp: Let_def split: if_splits)

text \<open>Summing integers in a \<open>double\<close> accumulator is exact while the sum is at most \<open>2^53\<close>.\<close>

lemma dadd_sum_exact:
  assumes "acc + sum_list ns \<le> 2 ^ 53"
  shows "fold (\<lambda>n s. dadd s (dbl_of_nat n)) ns (Fin (of_nat acc)) = Fin (of_nat (acc + sum_list ns))"
  using assms
proof (induction ns arbitrary: acc)
  case Nil
  then show ?case by simp
next
  case (Cons n ns)
  then have "dadd (Fin (of_nat acc)) (dbl_of_nat n) = Fin (of_nat (acc + n))"
    by (simp add: dbl_of_nat_small rnd_of_nat flip: of_nat_add)
  then show ?case using Cons.IH [of "acc + n"] Cons.prems by (simp add: add.assoc)
qed

end
