(* ===== verification/Run_Data.thy ===== *)
theory Run_Data
  imports Binary64
begin

text \<open>
  The plain data classes: \<open>StrategyTypes\<close>, \<open>RunParameters\<close>, \<open>RunInfo\<close>, \<open>StrategyDataPoint\<close> and
  \<open>SendPacketInfo\<close>, with their constructors and the one computation \<open>RunInfo\<close> carries.
\<close>

section \<open>Strategy types\<close>

datatype StrategyTypes = LINEAR | RANDOM | ROUND_ROBIN | REACTIVE

text \<open>The integer value of an unscoped enumerator, as \<open>std::to_string\<close> sees it.\<close>

fun StrategyTypes_value :: "StrategyTypes \<Rightarrow> nat" where
  "StrategyTypes_value LINEAR = 0"
| "StrategyTypes_value RANDOM = 1"
| "StrategyTypes_value ROUND_ROBIN = 2"
| "StrategyTypes_value REACTIVE = 3"

section \<open>Run parameters and results\<close>

record run_parameters =
  applicationOnePeak :: u32
  applicationTwoPeak :: u32
  applicationThreePeak :: u32
  applicationOneNoise :: u32
  applicationTwoNoise :: u32
  applicationThreeNoise :: u32
  applicationOneShift :: u32
  applicationTwoShift :: u32
  applicationThreeShift :: u32
  rp_strategyType :: StrategyTypes

definition RunParameters ::
  "u32 \<Rightarrow> u32 \<Rightarrow> u32 \<Rightarrow> u32 \<Rightarrow> u32 \<Rightarrow> u32 \<Rightarrow> u32 \<Rightarrow> u32 \<Rightarrow> u32 \<Rightarrow> StrategyTypes \<Rightarrow> run_parameters"
where
  "RunParameters appOnePeak appTwoPeak appThreePeak appOneNoise appTwoNoise appThreeNoise
     appOneShift appTwoShift appThreeShift strategyType =
   \<lparr>applicationOnePeak = appOnePeak, applicationTwoPeak = appTwoPeak,
    applicationThreePeak = appThreePeak, applicationOneNoise = appOneNoise,
    applicationTwoNoise = appTwoNoise, applicationThreeNoise = appThreeNoise,
    applicationOneShift = appOneShift, applicationTwoShift = appTwoShift,
    applicationThreeShift = appThreeShift, rp_strategyType = strategyType\<rparr>"

record run_info =
  totalAmountOfPackets :: u32
  ri_totalCost :: u32
  applicationErrorRates :: "dbl list"
  applicationBandWidth :: "dbl list"
  parameters :: run_parameters

definition RunInfo :: "u32 \<Rightarrow> u32 \<Rightarrow> dbl list \<Rightarrow> dbl list \<Rightarrow> run_parameters \<Rightarrow> run_info" where
  "RunInfo totalPackets cost errorRates bandWidth params =
   \<lparr>totalAmountOfPackets = totalPackets, ri_totalCost = cost,
    applicationErrorRates = errorRates, applicationBandWidth = bandWidth, parameters = params\<rparr>"

text \<open>The quotient has the number of packets on top and the cost below.\<close>

definition getAveragePacketCost :: "run_info \<Rightarrow> dbl" where
  "getAveragePacketCost r =
     (if totalAmountOfPackets r = 0 then dbl_of_nat 0
      else ddiv (dbl_of_nat (unat (totalAmountOfPackets r))) (dbl_of_nat (unat (ri_totalCost r))))"

section \<open>Data points and packet information\<close>

record strategy_data_point =
  dp_totalCost :: u32
  dp_currentCost :: u32
  dp_totalAmountOfPackets :: u32
  dp_currentAmountOfPackets :: u32

definition StrategyDataPoint :: "u32 \<Rightarrow> u32 \<Rightarrow> u32 \<Rightarrow> u32 \<Rightarrow> strategy_data_point" where
  "StrategyDataPoint totalCost currentCost totalAmount currentAmount =
   \<lparr>dp_totalCost = totalCost, dp_currentCost = currentCost,
    dp_totalAmountOfPackets = totalAmount, dp_currentAmountOfPackets = currentAmount\<rparr>"

text \<open>Simulated time is a signed 64-bit number of nanoseconds; here an integer.\<close>

type_synonym sim_time = int

record send_packet_info =
  dateEnqueued :: sim_time
  originatedFrom :: u32

section \<open>The average packet cost\<close>

lemma getAveragePacketCost_zero_packets:
  "totalAmountOfPackets r = 0 \<Longrightarrow> getAveragePacketCost r = Fin 0"
  by (simp add: getAveragePacketCost_def dbl_simps)

lemma getAveragePacketCost_zero_cost:
  "totalAmountOfPackets r \<noteq> 0 \<Longrightarrow> ri_totalCost r = 0 \<Longrightarrow> getAveragePacketCost r = PInf"
  by (simp add: getAveragePacketCost_def dbl_simps signed_inf_def unat_pos_iff)

lemma u32_ratio_small:
  fixes a b :: u32
  assumes "b \<noteq> 0"
  shows "\<bar>of_nat (unat a) / (of_nat (unat b) :: rat)\<bar> \<le> 2 ^ 53"
proof -
  have b: "(1::rat) \<le> of_nat (unat b)"
    using assms unat_pos_iff [of b] by (simp add: Suc_le_eq)
  have "(of_nat (unat a) :: rat) \<le> of_nat (2 ^ 53)"
    using unat_u32_lt [of a] by (intro of_nat_mono) (simp del: unat_u32_lt)
  also have "\<dots> \<le> 2 ^ 53 * of_nat (unat b)" using b by simp
  finally show ?thesis using b by (simp add: divide_le_eq)
qed

lemma getAveragePacketCost_finite:
  assumes "totalAmountOfPackets r \<noteq> 0" and "ri_totalCost r \<noteq> 0"
  shows "getAveragePacketCost r =
    Fin (fl (of_nat (unat (totalAmountOfPackets r)) / of_nat (unat (ri_totalCost r))))"
  using assms rnd_small [OF u32_ratio_small [OF assms(2)]]
  by (simp add: getAveragePacketCost_def dbl_simps)

end
