(* ===== verification/Sim_Utils.thy ===== *)
theory Sim_Utils
  imports Run_Data
begin

text \<open>
  \<open>Utils.h\<close> and \<open>Utils.cpp\<close>: the simulation constants, the rate conversions, the bit-vector
  helpers of the reactive strategy, the enumeration of parameter tuples, the circular map
  iterator and the CSV writers (as lists of cells; how a stream formats a number is left out).
\<close>

section \<open>Constants and rates\<close>

definition PacketSizeBit :: u32 where
  "PacketSizeBit = 1024"

definition PacketSizeByte :: u32 where
  "PacketSizeByte = PacketSizeBit div 8"

definition SeedForRandomGeneration :: u32 where
  "SeedForRandomGeneration = 1"

definition SimulationDurationInSeconds :: u32 where
  "SimulationDurationInSeconds = 1200"

definition ConnectionPort :: u32 where
  "ConnectionPort = 8080"

text \<open>An \<open>ns3::DataRate\<close> is its number of bits per second; the product is a 32-bit one.\<close>

definition ConvertPacketsPerSecondToBitPerSecondToDataRate :: "u32 \<Rightarrow> u64" where
  "ConvertPacketsPerSecondToBitPerSecondToDataRate packetsPerSecond =
     ucast (packetsPerSecond * PacketSizeBit)"

definition ConvertPacketsPerSecondToBitPerSecond :: "u32 \<Rightarrow> u64" where
  "ConvertPacketsPerSecondToBitPerSecond packetsPerSecond =
     ConvertPacketsPerSecondToBitPerSecondToDataRate packetsPerSecond"

section \<open>Bit vectors\<close>

text \<open>Indexing a \<open>std::bitset<32>\<close> beyond its 32 bits is undefined.\<close>

definition getBoolVectorFromInt :: "u32 \<Rightarrow> u32 \<Rightarrow> bool list res" where
  "getBoolVectorFromInt num bit_size =
     (if 32 < unat bit_size then Inl (Undefined ''bitset index'')
      else Inr (rev (map (\<lambda>i. bit num i) [0..<unat bit_size])))"

definition maxIntWithNBits :: "u32 \<Rightarrow> u32 res" where
  "maxIntWithNBits n =
     (if n = 0 then Inr 0
      else if 32 \<le> unat n then Inl (Undefined ''shift count'')
      else Inr (push_bit (unat n) 1 - 1))"

section \<open>All tuples of a given length\<close>

text \<open>
  The recursion appends to \<open>result\<close> every extension of \<open>currentArray\<close> to length \<open>k\<close> over
  \<open>1..n\<close>. A current array that is already longer than \<open>k\<close> would be extended for ever
  when \<open>n\<close> is positive; the loop counter is an \<open>int\<close>, whose increment past \<open>2^31 - 1\<close> is undefined.
\<close>

lemma res_fold_cong [fundef_cong]:
  "xs = ys \<Longrightarrow> s = t \<Longrightarrow> (\<And>x s. x \<in> set ys \<Longrightarrow> f x s = g x s) \<Longrightarrow> res_fold f xs s = res_fold g ys t"
proof (induction xs arbitrary: s t ys)
  case Nil
  then show ?case by auto
next
  case (Cons x xs)
  then have "f x t = g x t" by auto
  with Cons show ?case by (cases "g x t") auto
qed

function generateArrays ::
  "u32 \<Rightarrow> u32 \<Rightarrow> u32 list \<Rightarrow> u32 list list \<Rightarrow> u32 list list res"
where
  "generateArrays k n currentArray result =
     (if length currentArray = unat k then Inr (result @ [currentArray])
      else if 0 < unat n \<and> unat k < length currentArray then Inl (Undefined ''stack overflow'')
      else if 2147483648 \<le> unat n then Inl (Undefined ''int overflow'')
      else res_fold (\<lambda>i r. generateArrays k n (currentArray @ [of_nat i]) r) [1..<unat n + 1] result)"
  by pat_completeness auto
termination
  by (relation "measure (\<lambda>(k, n, currentArray, result). unat k - length currentArray)") auto

declare generateArrays.simps [simp del]

definition getPermutationsWithRepetitionOfKelementsOfLengthN ::
  "u32 \<Rightarrow> u32 \<Rightarrow> u32 list list res"
where
  "getPermutationsWithRepetitionOfKelementsOfLengthN N k = generateArrays N k [] []"

section \<open>The circular successor of a map iterator\<close>

text \<open>
  A \<open>std::map\<close> is the list of its entries in key order; an iterator is a position, \<open>length m\<close>
  being \<open>end()\<close>, and \<open>None\<close> the null iterator the code compares with.
\<close>

definition getNextElement :: "('k \<times> 'v) list \<Rightarrow> nat option \<Rightarrow> nat" where
  "getNextElement m current =
     (if m = [] then length m
      else case current of
        None \<Rightarrow> 0
      | Some i \<Rightarrow> if i = length m then 0
                  else let next = i + 1 in if next = length m then 0 else next)"

section \<open>The CSV writers\<close>

datatype cell = UInt nat | Dbl dbl

text \<open>
  A row is written cell by cell, so an \<open>at\<close> that throws leaves the cells before it in the file.
  The result is what the file holds and the exception, if any.
\<close>

fun emit_cells :: "cell res list \<Rightarrow> cell list \<times> cpp_error option" where
  "emit_cells [] = ([], None)"
| "emit_cells (Inl e # cs) = ([], Some e)"
| "emit_cells (Inr c # cs) = (case emit_cells cs of (out, e) \<Rightarrow> (c # out, e))"

fun emit_rows :: "cell res list list \<Rightarrow> cell list list \<times> cpp_error option" where
  "emit_rows [] = ([], None)"
| "emit_rows (r # rs) =
     (case emit_cells r of
        (out, Some e) \<Rightarrow> ([out], Some e)
      | (out, None) \<Rightarrow> (case emit_rows rs of (outs, e) \<Rightarrow> (out # outs, e)))"

definition data_point_row :: "nat \<Rightarrow> strategy_data_point \<Rightarrow> cell res list" where
  "data_point_row i dataPoint =
     (let trafficIntensity = ddiv (dbl_of_nat (unat (dp_totalAmountOfPackets dataPoint))) (dbl_of_nat (i + 1))
      in [Inr (UInt (i + 1)),
          Inr (UInt (unat (dp_currentCost dataPoint))),
          Inr (UInt (unat (dp_totalCost dataPoint))),
          Inr (UInt (unat (dp_currentAmountOfPackets dataPoint))),
          Inr (UInt (unat (dp_totalAmountOfPackets dataPoint))),
          Inr (Dbl trafficIntensity)])"

definition printDataPointsToFile ::
  "bool \<Rightarrow> strategy_data_point list \<Rightarrow> cell list list \<times> cpp_error option"
where
  "printDataPointsToFile opened dataPoints =
     (if \<not> opened then ([], Some (RuntimeError ''Impossibile aprire il file''))
      else emit_rows (map (\<lambda>i. data_point_row i (dataPoints ! i)) [0..<length dataPoints]))"

definition dbl_cell :: "dbl list \<Rightarrow> nat \<Rightarrow> cell res" where
  "dbl_cell ds i = res_bind (vec_at ds i) (\<lambda>d. Inr (Dbl d))"

definition run_info_row :: "nat \<Rightarrow> run_info \<Rightarrow> cell res list" where
  "run_info_row i result =
     (let bw = applicationBandWidth result; er = applicationErrorRates result; p = parameters result
      in [Inr (UInt (i + 1)),
          dbl_cell bw 0, dbl_cell bw 1, dbl_cell bw 2,
          dbl_cell er 0, dbl_cell er 1, dbl_cell er 2,
          Inr (UInt (unat (applicationOneNoise p))), Inr (UInt (unat (applicationTwoNoise p))),
          Inr (UInt (unat (applicationThreeNoise p))),
          Inr (UInt (unat (applicationOnePeak p))), Inr (UInt (unat (applicationTwoPeak p))),
          Inr (UInt (unat (applicationThreePeak p))),
          Inr (UInt (unat (applicationOneShift p))), Inr (UInt (unat (applicationTwoShift p))),
          Inr (UInt (unat (applicationThreeShift p))),
          Inr (Dbl (getAveragePacketCost result)),
          Inr (UInt (unat (totalAmountOfPackets result))),
          Inr (UInt (unat (ri_totalCost result)))])"

definition printRunInfosToFile ::
  "bool \<Rightarrow> run_info list \<Rightarrow> cell list list \<times> cpp_error option"
where
  "printRunInfosToFile opened results =
     (if \<not> opened then ([], Some (RuntimeError ''Impossibile aprire il file''))
      else emit_rows (map (\<lambda>i. run_info_row i (results ! i)) [0..<length results]))"

section \<open>Rates\<close>

lemma PacketSizeByte_eq: "PacketSizeByte = 128"
  by (simp add: PacketSizeByte_def PacketSizeBit_def)

lemma unat_ConvertToDataRate:
  "unat (ConvertPacketsPerSecondToBitPerSecondToDataRate p) = (unat p * 1024) mod 4294967296"
  by (simp add: ConvertPacketsPerSecondToBitPerSecondToDataRate_def PacketSizeBit_def
      unat_u32_mult)

lemma unat_ConvertToDataRate_small:
  "unat p < 4194304 \<Longrightarrow>
     unat (ConvertPacketsPerSecondToBitPerSecondToDataRate p) = unat p * 1024"
  by (simp add: unat_ConvertToDataRate)

section \<open>Bit vectors\<close>

text \<open>The number a vector of bits denotes, most significant bit first.\<close>

definition bits_value :: "bool list \<Rightarrow> nat" where
  "bits_value bs = horner_sum of_bool 2 (rev bs)"

lemma getBoolVectorFromInt_Inr:
  assumes "unat bit_size \<le> 32"
  obtains bs where "getBoolVectorFromInt num bit_size = Inr bs"
    and "length bs = unat bit_size" and "bits_value bs = unat num mod 2 ^ unat bit_size"
proof -
  have bits: "map (bit num) [0..<unat bit_size] = map (bit (unat num)) [0..<unat bit_size]"
    using assms by (auto simp: bit_unsigned_iff)
  have "bits_value (rev (map (bit num) [0..<unat bit_size])) = take_bit (unat bit_size) (unat num)"
    by (simp add: bits_value_def bits horner_sum_bit_eq_take_bit)
  then show thesis
    using that [of "rev (map (bit num) [0..<unat bit_size])"] assms
    by (simp add: getBoolVectorFromInt_def take_bit_eq_mod)
qed

lemma unat_maxIntWithNBits:
  assumes "unat n < 32"
  shows "\<exists>m. maxIntWithNBits n = Inr m \<and> unat m = 2 ^ unat n - 1"
proof (cases "n = 0")
  case True
  then show ?thesis by (simp add: maxIntWithNBits_def)
next
  case False
  have p: "(2::nat) ^ unat n < 2 ^ 32" using assms by (intro power_strict_increasing) auto
  have e: "unat (push_bit (unat n) 1 :: u32) = 2 ^ unat n"
    using p by (simp add: unat_u32_power2)
  have "(1 :: u32) \<le> push_bit (unat n) 1"
    unfolding word_le_nat_alt e by simp
  then have "unat (push_bit (unat n) 1 - 1 :: u32) = 2 ^ unat n - 1"
    using e by (simp add: unat_sub)
  then show ?thesis using assms False by (simp add: maxIntWithNBits_def)
qed

section \<open>The enumeration of tuples\<close>

fun tuples :: "nat \<Rightarrow> nat \<Rightarrow> u32 list list" where
  "tuples 0 n = [[]]"
| "tuples (Suc d) n = concat (map (\<lambda>i. map ((#) (of_nat i)) (tuples d n)) [1..<n + 1])"

lemma res_fold_collect:
  assumes "\<And>i r. i \<in> set xs \<Longrightarrow> f i r = Inr (r @ g i)"
  shows "res_fold f xs r = Inr (r @ concat (map g xs))"
  using assms by (induction xs arbitrary: r) auto

lemma generateArrays_tuples:
  assumes "unat n < 2147483648" and "length cur \<le> unat k"
  shows "generateArrays k n cur result =
    Inr (result @ map ((@) cur) (tuples (unat k - length cur) (unat n)))"
  using assms
proof (induction "unat k - length cur" arbitrary: cur result)
  case 0
  then show ?case by (simp add: generateArrays.simps [of k n cur result])
next
  case (Suc d)
  have d: "d = unat k - length (cur @ [x])" for x :: u32 using Suc.hyps(2) by simp
  have step: "generateArrays k n (cur @ [of_nat i]) r =
      Inr (r @ map ((@) (cur @ [of_nat i])) (tuples d (unat n)))" for i r
  proof -
    have "length (cur @ [of_nat i]) \<le> unat k" using Suc.hyps(2) by simp
    from Suc.hyps(1) [OF d Suc.prems(1) this] show ?thesis unfolding d [symmetric] by simp
  qed
  have "generateArrays k n cur result =
      res_fold (\<lambda>i r. generateArrays k n (cur @ [of_nat i]) r) [1..<unat n + 1] result"
    using Suc.hyps(2) Suc.prems by (subst generateArrays.simps) auto
  also have "\<dots> = Inr (result @ concat (map (\<lambda>i. map ((@) (cur @ [of_nat i])) (tuples d (unat n)))
      [1..<unat n + 1]))"
    by (rule res_fold_collect) (rule step)
  also have "\<dots> = Inr (result @ map ((@) cur) (tuples (Suc d) (unat n)))"
  proof -
    have "(@) (cur @ [x]) = (\<lambda>xs. cur @ x # xs)" for x :: u32 by (rule ext) simp
    then show ?thesis by (simp add: map_concat comp_def del: upt_Suc)
  qed
  finally show ?case using Suc.hyps(2) by simp
qed

lemma length_tuples: "length (tuples d n) = n ^ d"
  by (induction d) (simp_all add: length_concat comp_def sum_list_triv)

lemma set_tuples:
  "set (tuples d n) = {xs. length xs = d \<and> set xs \<subseteq> of_nat ` {1..n}}"
proof (induction d)
  case 0
  then show ?case by auto
next
  case (Suc d)
  have "set (tuples (Suc d) n) = (\<Union>i\<in>{1..n}. (#) (of_nat i) ` set (tuples d n))"
    by (auto simp: atLeastLessThanSuc_atLeastAtMost simp del: upt_Suc)
  also have "\<dots> = {xs. length xs = Suc d \<and> set xs \<subseteq> of_nat ` {1..n}}"
  proof (rule set_eqI)
    fix xs :: "u32 list"
    show "xs \<in> (\<Union>i\<in>{1..n}. (#) (of_nat i) ` set (tuples d n)) \<longleftrightarrow>
        xs \<in> {xs. length xs = Suc d \<and> set xs \<subseteq> of_nat ` {1..n}}"
      unfolding Suc.IH by (cases xs) auto
  qed
  finally show ?case .
qed

lemma distinct_tuples:
  assumes "n < 4294967296"
  shows "distinct (tuples d n)"
proof (rule card_distinct)
  have inj: "inj_on (of_nat :: nat \<Rightarrow> u32) {1..n}"
    by (rule inj_on_inverseI [of _ unat]) (use assms in auto)
  have "card (set (tuples d n)) = card {xs. set xs \<subseteq> (of_nat :: nat \<Rightarrow> u32) ` {1..n} \<and> length xs = d}"
    by (simp add: set_tuples conj_commute)
  also have "\<dots> = n ^ d"
    by (simp only: card_lists_length_eq finite_imageI finite_atLeastAtMost card_image [OF inj]
        card_atLeastAtMost) simp
  finally show "card (set (tuples d n)) = length (tuples d n)"
    by (simp add: length_tuples)
qed

end
