(* ===== verification/Sin_Gen.thy ===== *)
theory Sin_Gen
  imports Sim_Utils
begin

text \<open>
  \<open>SinGenerator.cpp\<close>: the sampled, noisy sine wave that drives an application. \<open>std::sin\<close>
  (whose last bits the C library does not fix) is the parameter \<open>sinf\<close>, \<open>std::rand\<close> with its
  hidden state the parameter \<open>rand\<close>.
\<close>

type_synonym 'g rand_fun = "'g \<Rightarrow> nat \<times> 'g"

text \<open>The literal of \<open>PI.h\<close>, rounded to the nearest double as the compiler does.\<close>

definition M_PI :: dbl where
  "M_PI = rnd (314159265358979323846 / 100000000000000000000)"

definition sin_frequency :: dbl where
  "sin_frequency = ddiv (dmul (Fin 2) M_PI) (Fin 600)"

definition add_noise :: "'g rand_fun \<Rightarrow> int \<Rightarrow> dbl \<Rightarrow> 'g \<Rightarrow> dbl \<times> 'g" where
  "add_noise rand noise y g =
     (let (r, g1) = rand g
      in if r mod 3 = 0 \<and> 0 < noise then
           let (r2, g2) = rand g1;
               random_offset = int r2 mod (noise + 1);
               (r3, g3) = rand g2;
               random_offset = (if r3 mod 2 = 0 then - random_offset else random_offset)
           in (dadd y (dbl_of_int random_offset), g3)
         else (y, g1))"

definition sample_value ::
  "(dbl \<Rightarrow> dbl) \<Rightarrow> 'g rand_fun \<Rightarrow> dbl \<Rightarrow> int \<Rightarrow> u32 \<Rightarrow> u32 \<Rightarrow> 'g \<Rightarrow> dbl \<times> 'g"
where
  "sample_value sinf rand shift noise horizontalShift x g =
     (let y = dmul (sinf (dmul sin_frequency (dbl_of_nat (unat (x + horizontalShift))))) shift;
          (y, g) = add_noise rand noise (dabs y) g;
          y = (if dless y (Fin 0) then Fin 0 else y)
      in (dfloor y, g))"

text \<open>Storing the sample in a \<open>uint32_t\<close> is undefined when it does not fit.\<close>

definition generate_step ::
  "(dbl \<Rightarrow> dbl) \<Rightarrow> 'g rand_fun \<Rightarrow> dbl \<Rightarrow> int \<Rightarrow> u32 \<Rightarrow> nat \<Rightarrow>
     (u32 \<times> u32) list \<times> 'g \<Rightarrow> ((u32 \<times> u32) list \<times> 'g) res"
where
  "generate_step sinf rand shift noise horizontalShift x s =
     (case s of (values, g) \<Rightarrow>
        (case sample_value sinf rand shift noise horizontalShift (of_nat x) g of
           (y, g') \<Rightarrow>
             (case dbl_to_u32 y of
                None \<Rightarrow> Inl (Undefined ''double to uint32_t'')
              | Some v \<Rightarrow> Inr (values @ [(of_nat x, v)], g'))))"

definition generateValues ::
  "(dbl \<Rightarrow> dbl) \<Rightarrow> 'g rand_fun \<Rightarrow> dbl \<Rightarrow> int \<Rightarrow> u32 \<Rightarrow> 'g \<Rightarrow> ((u32 \<times> u32) list \<times> 'g) res"
where
  "generateValues sinf rand shift noise horizontalShift g =
     res_fold (generate_step sinf rand shift noise horizontalShift)
       [0..<unat SimulationDurationInSeconds + 1] ([], g)"

section \<open>Bounds of the samples\<close>

text \<open>What the code relies on of \<open>std::sin\<close>: a finite result in \<open>[-1, 1]\<close>.\<close>

definition sin_bounded :: "(dbl \<Rightarrow> dbl) \<Rightarrow> bool" where
  "sin_bounded sinf \<longleftrightarrow> (\<forall>z. \<exists>v. sinf z = Fin v \<and> \<bar>v\<bar> \<le> 1)"

lemma sin_product_bounds:
  assumes "sin_bounded sinf" and "p < 4294967296"
  obtains y where "dmul (sinf z) (Fin (of_nat p)) = Fin y" and "\<bar>y\<bar> \<le> of_nat p"
proof -
  obtain v where v: "sinf z = Fin v" "\<bar>v\<bar> \<le> 1"
    using assms(1) unfolding sin_bounded_def by blast
  have le: "\<bar>v * of_nat p\<bar> \<le> of_nat p"
    using v(2) mult_right_mono [of "\<bar>v\<bar>" 1 "of_nat p"] by (simp add: abs_mult)
  have p: "int p \<le> 2 ^ 53" using assms(2) by simp
  have "(of_nat p :: rat) \<le> 2 ^ 53" using p of_int_le_iff [of "int p" "2 ^ 53", where 'a = rat] by simp
  then have r: "dmul (sinf z) (Fin (of_nat p)) = Fin (fl (v * of_nat p))"
    using le by (simp add: v rnd_small)
  have "fl (v * of_nat p) \<le> of_nat p" and "- of_nat p \<le> fl (v * of_nat p)"
    using le assms(2) by (auto intro!: fl_le_of_nat fl_ge_minus_of_nat)
  then show thesis by (intro that [OF r]) simp
qed

lemma add_noise_bounds:
  assumes "0 \<le> y" and "y \<le> of_nat p" and "noise < 2147483647" and "p < 4294967296"
  obtains y' g' where "add_noise rand noise (Fin y) g = (Fin y', g')"
    and "y' \<le> of_nat p + of_int (max 0 noise)" and "- (2 ^ 53) \<le> y'"
proof -
  obtain r g1 where r: "rand g = (r, g1)" by (cases "rand g")
  obtain r2 g2 where r2: "rand g1 = (r2, g2)" by (cases "rand g1")
  obtain r3 g3 where r3: "rand g2 = (r3, g3)" by (cases "rand g2")
  have p: "(of_nat p :: rat) \<le> 4294967296"
    using assms(4) of_nat_le_iff [of p 4294967296, where 'a = rat] by simp
  show thesis
  proof (cases "r mod 3 = 0 \<and> 0 < noise")
    case False
    then show thesis
      using assms(1,2) by (intro that [of y g1]) (auto simp: add_noise_def r)
  next
    case True
    define off where "off = int r2 mod (noise + 1)"
    define soff where "soff = (if r3 mod 2 = 0 then - off else off)"
    have "0 \<le> off" and "off < noise + 1"
      unfolding off_def using True pos_mod_bound [of "noise + 1" "int r2"] by simp_all
    then have so: "- noise \<le> soff" "soff \<le> noise" "\<bar>soff\<bar> \<le> 2147483647"
      using assms(3) by (auto simp: soff_def)
    have rs: "(of_int soff :: rat) \<le> of_int noise" "(of_int (- noise) :: rat) \<le> of_int soff"
      using so(1,2) by (simp_all only: of_int_le_iff)
    have rn: "(of_int noise :: rat) \<le> 2147483647"
      using assms(3) of_int_le_iff [of noise 2147483647, where 'a = rat] by simp
    have ro: "dbl_of_int soff = Fin (of_int soff)"
      using so(3) by (simp add: dbl_of_int_def rnd_of_int)
    have small: "\<bar>y + of_int soff\<bar> \<le> 2 ^ 53"
      using assms(1,2) p rs rn by simp
    have "dadd (Fin y) (dbl_of_int soff) = Fin (fl (y + of_int soff))"
      using small by (simp add: ro rnd_small)
    then have add_noise_eq: "add_noise rand noise (Fin y) g = (Fin (fl (y + of_int soff)), g3)"
      using True unfolding soff_def off_def
      by (cases "r3 mod 2 = 0") (simp_all add: add_noise_def r r2 r3 Let_def)
    have "fl (y + of_int soff) \<le> of_int (int p + noise)"
      using assms(2,3,4) rs True by (intro fl_le_of_int) auto
    moreover have "of_int (- (2 ^ 53)) \<le> fl (y + of_int soff)"
      using small by (intro fl_ge_of_int) auto
    ultimately show thesis
      by (intro that [OF add_noise_eq]) simp_all
  qed
qed

lemma sample_value_bounds:
  assumes "sin_bounded sinf" and "noise < 2147483647" and "int p + max 0 noise < 4294967296"
  obtains v g' where "sample_value sinf rand (Fin (of_nat p)) noise h x g = (Fin (of_nat v), g')"
    and "int v \<le> int p + max 0 noise"
proof -
  have pb: "p < 4294967296" using assms(3) by linarith
  obtain y where y: "dmul (sinf (dmul sin_frequency (dbl_of_nat (unat (x + h))))) (Fin (of_nat p)) = Fin y"
    and "\<bar>y\<bar> \<le> of_nat p"
    by (rule sin_product_bounds [OF assms(1) pb])
  then obtain y' g' where y': "add_noise rand noise (Fin \<bar>y\<bar>) g = (Fin y', g')"
    "y' \<le> of_nat p + of_int (max 0 noise)"
    by (auto intro: add_noise_bounds [of "\<bar>y\<bar>" p noise rand g, OF _ _ assms(2) pb])
  define z where "z = (if y' < 0 then 0 else y')"
  have z: "0 \<le> z" "z \<le> of_int (int p + max 0 noise)"
    using y'(2) by (auto simp: z_def)
  then have f: "0 \<le> \<lfloor>z\<rfloor>" "\<lfloor>z\<rfloor> \<le> int p + max 0 noise"
    using floor_mono [OF z(2)] by simp_all
  have "sample_value sinf rand (Fin (of_nat p)) noise h x g = (Fin (of_nat (nat \<lfloor>z\<rfloor>)), g')"
    using f(1) by (auto simp: sample_value_def y y'(1) z_def Let_def)
  then show thesis using f by (intro that [of "nat \<lfloor>z\<rfloor>" g']) auto
qed

lemma generate_step_bounds:
  assumes "sin_bounded sinf" and "noise < 2147483647" and "int p + max 0 noise < 4294967296"
  shows "\<exists>v g'. generate_step sinf rand (Fin (of_nat p)) noise h x (vs, g) =
      Inr (vs @ [(of_nat x, v)], g') \<and> int (unat v) \<le> int p + max 0 noise"
proof -
  obtain v g' where v: "sample_value sinf rand (Fin (of_nat p)) noise h (of_nat x) g = (Fin (of_nat v), g')"
    "int v \<le> int p + max 0 noise"
    by (rule sample_value_bounds [OF assms])
  then have "v < 4294967296" using assms(3) by linarith
  then show ?thesis using v by (auto simp: generate_step_def dbl_simps)
qed

text \<open>What every run of the generator returns.\<close>

definition samples_ok :: "nat \<Rightarrow> int \<Rightarrow> nat \<Rightarrow> (u32 \<times> u32) list \<Rightarrow> bool" where
  "samples_ok p noise n vs \<longleftrightarrow>
     map fst vs = map of_nat [0..<n] \<and> (\<forall>v \<in> set vs. int (unat (snd v)) \<le> int p + max 0 noise)"

lemma generateValues_ok:
  assumes "sin_bounded sinf" and "noise < 2147483647" and "int p + max 0 noise < 4294967296"
  shows "\<exists>vs g'. generateValues sinf rand (Fin (of_nat p)) noise h g = Inr (vs, g') \<and>
    samples_ok p noise 1201 vs"
proof -
  have "\<exists>vs g'. res_fold (generate_step sinf rand (Fin (of_nat p)) noise h) [0..<n] ([], g) =
      Inr (vs, g') \<and> samples_ok p noise n vs" for n
  proof (induction n)
    case 0
    then show ?case by (simp add: samples_ok_def)
  next
    case (Suc n)
    then obtain vs g' where IH:
      "res_fold (generate_step sinf rand (Fin (of_nat p)) noise h) [0..<n] ([], g) = Inr (vs, g')"
      "samples_ok p noise n vs" by blast
    obtain v g2 where "generate_step sinf rand (Fin (of_nat p)) noise h n (vs, g') =
        Inr (vs @ [(of_nat n, v)], g2)" "int (unat v) \<le> int p + max 0 noise"
      using generate_step_bounds [OF assms, of rand h n vs g'] by blast
    then show ?case using IH by (auto simp: res_fold_append samples_ok_def)
  qed
  from this [of 1201] show ?thesis
    by (simp only: generateValues_def SimulationDurationInSeconds_def) simp
qed

end
