(* ===== verification/Sdwan_App.thy ===== *)
theory Sdwan_App
  imports Sin_Gen
begin

text \<open>
  \<open>SDWanApplication\<close>, \<open>SDWanStaticApplication\<close> and \<open>SinApplication\<close>: the traffic sources. The class
  hierarchy is a record with two extensions; a \<open>shared_ptr<SDWanApplication>\<close> is the datatype
  \<open>application\<close>, whose constructor is the dynamic type the virtual calls dispatch on.
\<close>

section \<open>The base class\<close>

record sdwan_application =
  applicationId :: u32
  generatedPackets :: u32
  requiredDelay :: u32
  pendingpackets :: "u32 list"
  app_errorRate :: u32

definition SDWanApplication_default :: sdwan_application where
  "SDWanApplication_default =
     \<lparr>applicationId = 0, generatedPackets = 0, requiredDelay = 0, pendingpackets = [],
      app_errorRate = 0\<rparr>"

definition SDWanApplication :: "u32 \<Rightarrow> u32 \<Rightarrow> u32 \<Rightarrow> sdwan_application" where
  "SDWanApplication ident delay err =
     \<lparr>applicationId = ident, generatedPackets = 0, requiredDelay = delay, pendingpackets = [],
      app_errorRate = err\<rparr>"

definition SDWanApplication_copy :: "sdwan_application \<Rightarrow> sdwan_application" where
  "SDWanApplication_copy data =
     \<lparr>applicationId = applicationId data, generatedPackets = generatedPackets data,
      requiredDelay = requiredDelay data, pendingpackets = pendingpackets data,
      app_errorRate = app_errorRate data\<rparr>"

text \<open>The move constructor copies the members as well; both assignments leave the target as it is.\<close>

definition SDWanApplication_move :: "sdwan_application \<Rightarrow> sdwan_application" where
  "SDWanApplication_move data =
     \<lparr>applicationId = applicationId data, generatedPackets = generatedPackets data,
      requiredDelay = requiredDelay data, pendingpackets = pendingpackets data,
      app_errorRate = app_errorRate data\<rparr>"

definition SDWanApplication_assign :: "sdwan_application \<Rightarrow> sdwan_application \<Rightarrow> sdwan_application" where
  "SDWanApplication_assign self data = self"

definition SDWanApplication_move_assign ::
  "sdwan_application \<Rightarrow> sdwan_application \<Rightarrow> sdwan_application" where
  "SDWanApplication_move_assign self data = self"

text \<open>The loop both subclasses run to generate packets: push the index, count it.\<close>

definition push_packet :: "nat \<Rightarrow> 'a sdwan_application_scheme \<Rightarrow> 'a sdwan_application_scheme" where
  "push_packet i a =
     a\<lparr>pendingpackets := pendingpackets a @ [of_nat i], generatedPackets := generatedPackets a + 1\<rparr>"

definition push_packets :: "nat \<Rightarrow> 'a sdwan_application_scheme \<Rightarrow> 'a sdwan_application_scheme" where
  "push_packets n a = fold push_packet [0..<n] a"

section \<open>The static application\<close>

record sdwan_static = sdwan_application +
  amountOfPacketsToSend :: u32
  st_allPacketsGenerated :: bool
  st_requiredDataRate :: u64

text \<open>The constructor does not initialise \<open>allPacketsGenerated\<close>: \<open>garbage\<close> is what the memory held.\<close>

definition SDWanStaticApplication ::
  "bool \<Rightarrow> u32 \<Rightarrow> u64 \<Rightarrow> u32 \<Rightarrow> u32 \<Rightarrow> u32 \<Rightarrow> sdwan_static" where
  "SDWanStaticApplication garbage ident rate delay err amount =
     sdwan_application.extend (SDWanApplication ident delay err)
       (sdwan_static.fields amount garbage rate)"

definition static_OnApplicationStart :: "sdwan_static \<Rightarrow> sdwan_static" where
  "static_OnApplicationStart a =
     (let amountOfPackets = unat (amountOfPacketsToSend a);
          a = push_packets amountOfPackets a
      in a\<lparr>st_allPacketsGenerated := True\<rparr>)"

definition static_OnUpdate :: "sdwan_static \<Rightarrow> sdwan_static" where
  "static_OnUpdate a = a"

definition static_getHasStoppedGeneratingData :: "sdwan_static \<Rightarrow> bool" where
  "static_getHasStoppedGeneratingData a = (pendingpackets a = [] \<and> st_allPacketsGenerated a)"

definition static_getRequiredDataRate :: "sdwan_static \<Rightarrow> u64" where
  "static_getRequiredDataRate a = st_requiredDataRate a"

section \<open>The sinusoidal application\<close>

record sin_application = sdwan_application +
  sin_allPacketsGenerated :: bool
  sinValues :: "(u32 \<times> u32) list"
  currentSample :: u32
  sin_noise :: u32
  sin_shift :: u32
  horizontalShift :: u32

text \<open>Neither constructor initialises \<open>horizontalShift\<close>, the default one nor \<open>noise\<close> and \<open>shift\<close>.\<close>

definition SinApplication_default :: "u32 \<Rightarrow> u32 \<Rightarrow> u32 \<Rightarrow> sin_application" where
  "SinApplication_default garbage1 garbage2 garbage3 =
     sdwan_application.extend SDWanApplication_default
       (sin_application.fields False [] 0 garbage1 garbage2 garbage3)"

definition SinApplication ::
  "(dbl \<Rightarrow> dbl) \<Rightarrow> 'g rand_fun \<Rightarrow> u32 \<Rightarrow> u32 \<Rightarrow> u32 \<Rightarrow> u32 \<Rightarrow> u32 \<Rightarrow> u32 \<Rightarrow> u32 \<Rightarrow> 'g \<Rightarrow>
     (sin_application \<times> 'g) res"
where
  "SinApplication sinf rand garbage ident delay err shift noise hshift g =
     res_bind (generateValues sinf rand (dbl_of_nat (unat shift)) (sint noise) hshift g)
       (\<lambda>(values, g). Inr
          (sdwan_application.extend (SDWanApplication ident delay err)
             (sin_application.fields False values 0 noise shift garbage), g))"

definition getTotalData :: "sin_application \<Rightarrow> u32" where
  "getTotalData a = foldl (\<lambda>total p. total + snd p) 0 (sinValues a)"

text \<open>Dereferencing the end iterator of an empty range is undefined.\<close>

definition sin_getRequiredDataRate :: "sin_application \<Rightarrow> u64 res" where
  "sin_getRequiredDataRate a =
     (case max_element (\<lambda>a b. snd a < snd b) (sinValues a) of
        None \<Rightarrow> Inl (Undefined ''end iterator dereferenced'')
      | Some maxTuple \<Rightarrow> Inr (ConvertPacketsPerSecondToBitPerSecondToDataRate (snd maxTuple)))"

definition sin_getHasStoppedGeneratingData :: "sin_application \<Rightarrow> bool" where
  "sin_getHasStoppedGeneratingData a = (pendingpackets a = [] \<and> sin_allPacketsGenerated a)"

definition enqueuePacketsForCurrentSample :: "sin_application \<Rightarrow> sin_application res" where
  "enqueuePacketsForCurrentSample a =
     (if sin_allPacketsGenerated a then Inr a
      else res_bind (vec_at (sinValues a) (unat (currentSample a)))
        (\<lambda>packetsStart.
           let amountOfPackets = unat (snd packetsStart);
               a = push_packets amountOfPackets a;
               a = a\<lparr>currentSample := currentSample a + 1\<rparr>
           in Inr (if currentSample a = SimulationDurationInSeconds
                   then a\<lparr>sin_allPacketsGenerated := True\<rparr> else a)))"

definition sin_OnUpdate :: "sin_application \<Rightarrow> sin_application res" where
  "sin_OnUpdate a = enqueuePacketsForCurrentSample a"

definition sin_OnApplicationStart :: "sin_application \<Rightarrow> sin_application res" where
  "sin_OnApplicationStart a = enqueuePacketsForCurrentSample a"

section \<open>Virtual dispatch\<close>

datatype application = StaticApp sdwan_static | SinApp sin_application

fun app_base :: "application \<Rightarrow> sdwan_application" where
  "app_base (StaticApp a) = sdwan_application.truncate a"
| "app_base (SinApp a) = sdwan_application.truncate a"

fun app_id :: "application \<Rightarrow> u32" where
  "app_id (StaticApp a) = applicationId a"
| "app_id (SinApp a) = applicationId a"

fun app_pending :: "application \<Rightarrow> u32 list" where
  "app_pending (StaticApp a) = pendingpackets a"
| "app_pending (SinApp a) = pendingpackets a"

fun app_generated :: "application \<Rightarrow> u32" where
  "app_generated (StaticApp a) = generatedPackets a"
| "app_generated (SinApp a) = generatedPackets a"

fun app_requiredDelay :: "application \<Rightarrow> u32" where
  "app_requiredDelay (StaticApp a) = requiredDelay a"
| "app_requiredDelay (SinApp a) = requiredDelay a"

fun app_maxErrorRate :: "application \<Rightarrow> u32" where
  "app_maxErrorRate (StaticApp a) = app_errorRate a"
| "app_maxErrorRate (SinApp a) = app_errorRate a"

text \<open>\<open>pendingpackets.pop()\<close>; popping an empty \<open>std::queue\<close> is undefined.\<close>

fun app_pop :: "application \<Rightarrow> application res" where
  "app_pop (StaticApp a) =
     (if pendingpackets a = [] then Inl (Undefined ''pop of an empty queue'')
      else Inr (StaticApp (a\<lparr>pendingpackets := tl (pendingpackets a)\<rparr>)))"
| "app_pop (SinApp a) =
     (if pendingpackets a = [] then Inl (Undefined ''pop of an empty queue'')
      else Inr (SinApp (a\<lparr>pendingpackets := tl (pendingpackets a)\<rparr>)))"

fun getHasStoppedGeneratingData :: "application \<Rightarrow> bool" where
  "getHasStoppedGeneratingData (StaticApp a) = static_getHasStoppedGeneratingData a"
| "getHasStoppedGeneratingData (SinApp a) = sin_getHasStoppedGeneratingData a"

fun getRequiredDataRate :: "application \<Rightarrow> u64 res" where
  "getRequiredDataRate (StaticApp a) = Inr (static_getRequiredDataRate a)"
| "getRequiredDataRate (SinApp a) = sin_getRequiredDataRate a"

fun OnApplicationStart :: "application \<Rightarrow> application res" where
  "OnApplicationStart (StaticApp a) = Inr (StaticApp (static_OnApplicationStart a))"
| "OnApplicationStart (SinApp a) = res_bind (sin_OnApplicationStart a) (\<lambda>a. Inr (SinApp a))"

fun OnUpdate :: "application \<Rightarrow> application res" where
  "OnUpdate (StaticApp a) = Inr (StaticApp (static_OnUpdate a))"
| "OnUpdate (SinApp a) = res_bind (sin_OnUpdate a) (\<lambda>a. Inr (SinApp a))"

definition Update :: "application \<Rightarrow> application res" where
  "Update a = (if \<not> getHasStoppedGeneratingData a then OnUpdate a else Inr a)"

section \<open>What one generation step does\<close>

lemma push_packet_simps [simp]:
  "pendingpackets (push_packet i a) = pendingpackets a @ [of_nat i]"
  "generatedPackets (push_packet i a) = generatedPackets a + 1"
  "applicationId (push_packet i a) = applicationId a"
  "requiredDelay (push_packet i a) = requiredDelay a"
  "app_errorRate (push_packet i a) = app_errorRate a"
  "sdwan_application.more (push_packet i a) = sdwan_application.more a"
  by (simp_all add: push_packet_def)

lemma push_packets_Suc: "push_packets (Suc n) a = push_packet n (push_packets n a)"
  by (simp add: push_packets_def)

lemma push_packets_0 [simp]: "push_packets 0 a = a"
  by (simp add: push_packets_def)

lemma push_packets_simps [simp]:
  "pendingpackets (push_packets n a) = pendingpackets a @ map of_nat [0..<n]"
  "generatedPackets (push_packets n a) = generatedPackets a + of_nat n"
  "applicationId (push_packets n a) = applicationId a"
  "requiredDelay (push_packets n a) = requiredDelay a"
  "app_errorRate (push_packets n a) = app_errorRate a"
  "sdwan_application.more (push_packets n a) = sdwan_application.more a"
  by (induction n) (simp_all add: push_packets_Suc)

lemma push_packets_eq:
  "push_packets n a = a\<lparr>pendingpackets := pendingpackets a @ map of_nat [0..<n],
     generatedPackets := generatedPackets a + of_nat n\<rparr>"
  by (rule sdwan_application.equality) simp_all


section \<open>The sample counter\<close>

text \<open>
  What the constructor establishes and every operation keeps: the counter never runs past the
  simulation's length, the flag says that it has reached it, and as many packets were generated as
  the samples before the counter add up to.
\<close>

definition sin_inv :: "sin_application \<Rightarrow> bool" where
  "sin_inv a \<longleftrightarrow>
     length (sinValues a) = 1201 \<and> unat (currentSample a) \<le> 1200 \<and>
     (sin_allPacketsGenerated a \<longleftrightarrow> unat (currentSample a) = 1200) \<and>
     generatedPackets a = sum_list (map snd (take (unat (currentSample a)) (sinValues a)))"

lemma generateValues_length:
  assumes "generateValues sinf rand shift noise h g = Inr (vs, g')"
  shows "map fst vs = map of_nat [0..<1201]"
proof -
  have "res_fold (generate_step sinf rand shift noise h) [0..<n] ([], g) = Inr (vs, g') \<Longrightarrow>
      map fst vs = map of_nat [0..<n]" for n vs g'
  proof (induction n arbitrary: vs g')
    case 0
    then show ?case by simp
  next
    case (Suc n)
    then obtain ws g1 where 1: "res_fold (generate_step sinf rand shift noise h) [0..<n] ([], g) = Inr (ws, g1)"
      and 2: "generate_step sinf rand shift noise h n (ws, g1) = Inr (vs, g')"
      by (auto simp: res_fold_append res_bind_Inr_iff)
    have "map fst vs = map fst ws @ [of_nat n]"
      using 2 by (auto simp: generate_step_def split: prod.splits option.splits)
    then show ?case using Suc.IH [OF 1] by simp
  qed
  from this [of 1201 vs g'] show ?thesis
    using assms by (simp only: generateValues_def SimulationDurationInSeconds_def) simp
qed

lemma SinApplication_inv:
  assumes "SinApplication sinf rand garbage ident delay err shift noise hs g = Inr (a, g')"
  shows "sin_inv a" and "currentSample a = 0" and "pendingpackets a = []" and "applicationId a = ident"
proof -
  obtain vs where v: "generateValues sinf rand (dbl_of_nat (unat shift)) (sint noise) hs g = Inr (vs, g')"
    and a: "a = sdwan_application.extend (SDWanApplication ident delay err)
             (sin_application.fields False vs 0 noise shift garbage)"
    using assms by (auto simp: SinApplication_def res_bind_Inr_iff)
  have "length vs = 1201"
    using arg_cong [OF generateValues_length [OF v], of length] by simp
  then show "sin_inv a"
    by (simp add: a sin_inv_def SDWanApplication_def sdwan_application.defs sin_application.defs)
  show "currentSample a = 0" "pendingpackets a = []" "applicationId a = ident"
    by (simp_all add: a SDWanApplication_def sdwan_application.defs sin_application.defs)
qed

lemma take_Suc_snoc: "n < length xs \<Longrightarrow> take (Suc n) xs = take n xs @ [xs ! n]"
  by (simp add: take_Suc_conv_app_nth)

lemma unat_u32_Suc: "unat (x :: u32) < 4294967295 \<Longrightarrow> unat (x + 1) = Suc (unat x)"
  by (simp add: unat_u32_add)

lemma u32_eq_numeral_iff: "n < 4294967296 \<Longrightarrow> (x :: u32) = of_nat n \<longleftrightarrow> unat x = n"
  by (metis unat_u32_of_nat_small of_nat_unat_id)

lemma SimulationDuration_iff: "(x :: u32) = SimulationDurationInSeconds \<longleftrightarrow> unat x = 1200"
  using u32_eq_numeral_iff [of 1200 x] by (simp add: SimulationDurationInSeconds_def)

text \<open>One generation step below the limit, and at it.\<close>

lemma enqueue_at_limit:
  "sin_allPacketsGenerated a \<Longrightarrow> enqueuePacketsForCurrentSample a = Inr a"
  by (simp add: enqueuePacketsForCurrentSample_def)

lemma push_packets_sin [simp]:
  "sin_allPacketsGenerated (push_packets n a) = sin_allPacketsGenerated a"
  "sinValues (push_packets n a) = sinValues a"
  "currentSample (push_packets n a) = currentSample a"
  by (simp_all add: push_packets_eq)

lemma enqueue_step:
  assumes "sin_inv a" and "unat (currentSample a) < 1200"
  obtains b where "enqueuePacketsForCurrentSample a = Inr b"
    and "sin_inv b" and "unat (currentSample b) = Suc (unat (currentSample a))"
    and "sinValues b = sinValues a" and "applicationId b = applicationId a"
    and "pendingpackets b = pendingpackets a @
           map of_nat [0..<unat (snd (sinValues a ! unat (currentSample a)))]"
proof -
  define k where "k = unat (snd (sinValues a ! unat (currentSample a)))"
  define c where "c = push_packets k a\<lparr>currentSample := currentSample a + 1\<rparr>"
  define b where "b = c\<lparr>sin_allPacketsGenerated := (currentSample c = SimulationDurationInSeconds)\<rparr>"
  have len: "length (sinValues a) = 1201" and ng: "\<not> sin_allPacketsGenerated a"
    and gen: "generatedPackets a = sum_list (map snd (take (unat (currentSample a)) (sinValues a)))"
    using assms by (auto simp: sin_inv_def)
  have c: "currentSample c = currentSample a + 1" "\<not> sin_allPacketsGenerated c"
    "sinValues c = sinValues a"
    by (simp_all add: c_def ng)
  have nf: "c\<lparr>sin_allPacketsGenerated := False\<rparr> = c"
    using c(2) by (cases c) simp
  have cs: "unat (currentSample a + 1) = Suc (unat (currentSample a))"
    using assms(2) by (intro unat_u32_Suc) simp
  have eb: "enqueuePacketsForCurrentSample a = Inr b"
  proof -
    have "enqueuePacketsForCurrentSample a =
        Inr (if currentSample c = SimulationDurationInSeconds
             then c\<lparr>sin_allPacketsGenerated := True\<rparr> else c)"
      using assms(2) len ng by (simp add: enqueuePacketsForCurrentSample_def c_def k_def Let_def)
    then show ?thesis using nf by (auto simp: b_def)
  qed
  have "sin_inv b"
    using assms(2) cs len gen
    by (simp add: sin_inv_def b_def c SimulationDuration_iff take_Suc_snoc)
      (simp add: c_def k_def)
  moreover have "unat (currentSample b) = Suc (unat (currentSample a))"
    by (simp add: b_def c cs)
  ultimately show thesis
    by (intro that [OF eb]) (simp_all add: b_def c_def k_def)
qed

lemma sin_getTotalData: "getTotalData a = sum_list (map snd (sinValues a))"
proof -
  have "foldl (\<lambda>total p. total + snd p) t ps = t + sum_list (map snd ps)" for t :: u32 and ps :: "(u32 \<times> u32) list"
    by (induction ps arbitrary: t) (simp_all add: add.assoc)
  then show ?thesis by (simp add: getTotalData_def)
qed

text \<open>\<open>getTotalData\<close> also counts the last sample, which is never enqueued.\<close>

lemma getTotalData_exceeds:
  assumes "sin_inv a" and "sin_allPacketsGenerated a"
  shows "getTotalData a = generatedPackets a + snd (last (sinValues a))"
proof -
  have len: "length (sinValues a) = 1201" and cs: "unat (currentSample a) = 1200"
    using assms by (simp_all add: sin_inv_def)
  have ne: "sinValues a \<noteq> []" using len by auto
  have tk: "take 1200 (sinValues a) @ [last (sinValues a)] = sinValues a"
    using append_butlast_last_id [OF ne] len by (simp add: butlast_conv_take)
  have "getTotalData a = sum_list (map snd (take 1200 (sinValues a) @ [last (sinValues a)]))"
    by (simp only: sin_getTotalData tk)
  then show ?thesis using assms(1) cs by (simp add: sin_inv_def)
qed

text \<open>The required rate is that of the largest sample.\<close>

lemma sin_rate_is_max:
  assumes "sin_getRequiredDataRate a = Inr r"
  shows "\<exists>m \<in> set (sinValues a). r = ConvertPacketsPerSecondToBitPerSecondToDataRate (snd m) \<and>
    (\<forall>v \<in> set (sinValues a). snd v \<le> snd m)"
proof -
  obtain m where m: "max_element (\<lambda>a b. snd a < snd b) (sinValues a) = Some m"
    "r = ConvertPacketsPerSecondToBitPerSecondToDataRate (snd m)"
    using assms by (auto simp: sin_getRequiredDataRate_def split: option.splits)
  then show ?thesis
    using max_element_mem [OF m(1)] max_element_key [OF m(1)] by auto
qed

lemma sin_rate_defined: "sinValues a \<noteq> [] \<Longrightarrow> res_ok (sin_getRequiredDataRate a)"
  by (auto simp: sin_getRequiredDataRate_def split: option.splits)

section \<open>Runs of an application\<close>

text \<open>
  The life of a sinusoidal application: it is started, then updated by a timer and popped by the
  strategies in any order. The indices count the updates and the pops.
\<close>

inductive sin_life :: "sin_application \<Rightarrow> nat \<Rightarrow> nat \<Rightarrow> sin_application \<Rightarrow> bool"
  for a0 :: sin_application where
  life_start: "OnApplicationStart (SinApp a0) = Inr (SinApp a) \<Longrightarrow> sin_life a0 0 0 a"
| life_update: "sin_life a0 n k a \<Longrightarrow> Update (SinApp a) = Inr (SinApp b) \<Longrightarrow> sin_life a0 (Suc n) k b"
| life_pop: "sin_life a0 n k a \<Longrightarrow> app_pop (SinApp a) = Inr (SinApp b) \<Longrightarrow> sin_life a0 n (Suc k) b"

lemma Update_sin:
  assumes "sin_inv a"
  shows "Update (SinApp a) = res_bind (enqueuePacketsForCurrentSample a) (\<lambda>a. Inr (SinApp a))"
  by (auto simp: Update_def sin_OnUpdate_def sin_getHasStoppedGeneratingData_def enqueue_at_limit)

text \<open>The facts a run keeps.\<close>

definition sin_progress :: "sin_application \<Rightarrow> nat \<Rightarrow> nat \<Rightarrow> sin_application \<Rightarrow> bool" where
  "sin_progress a0 n k a \<longleftrightarrow>
     sin_inv a \<and> sinValues a = sinValues a0 \<and> applicationId a = applicationId a0 \<and>
     unat (currentSample a) = min 1200 (Suc n) \<and>
     of_nat (length (pendingpackets a) + k) = generatedPackets a"

lemma enqueue_progress:
  assumes "sin_inv a" and "enqueuePacketsForCurrentSample a = Inr b"
    and "of_nat (length (pendingpackets a) + k) = generatedPackets a"
  shows "sin_inv b \<and> sinValues b = sinValues a \<and> applicationId b = applicationId a \<and>
    unat (currentSample b) = min 1200 (Suc (unat (currentSample a))) \<and>
    of_nat (length (pendingpackets b) + k) = generatedPackets b"
proof (cases "unat (currentSample a) < 1200")
  case True
  from assms(1) True show ?thesis
  proof (rule enqueue_step)
    fix b' assume b': "enqueuePacketsForCurrentSample a = Inr b'" "sin_inv b'"
      "unat (currentSample b') = Suc (unat (currentSample a))"
      "sinValues b' = sinValues a" "applicationId b' = applicationId a"
      "pendingpackets b' = pendingpackets a @
           map of_nat [0..<unat (snd (sinValues a ! unat (currentSample a)))]"
    have "generatedPackets b' = generatedPackets a + snd (sinValues a ! unat (currentSample a))"
      using assms(1) b'(2,3,4) True by (simp add: sin_inv_def take_Suc_snoc)
    then show ?thesis
      using b' assms(2,3) True by (auto simp: ac_simps)
  qed
next
  case False
  then have "sin_allPacketsGenerated a" "unat (currentSample a) = 1200"
    using assms(1) by (auto simp: sin_inv_def)
  then show ?thesis using assms by (auto simp: enqueue_at_limit)
qed


lemma sin_life_progress:
  assumes "sin_life a0 n k a"
    and "sin_inv a0" and "currentSample a0 = 0" and "pendingpackets a0 = []"
  shows "sin_progress a0 n k a"
  using assms
proof (induction rule: sin_life.induct)
  case (life_start a)
  then have "enqueuePacketsForCurrentSample a0 = Inr a"
    by (auto simp: sin_OnApplicationStart_def res_bind_Inr_iff)
  moreover have "of_nat (length (pendingpackets a0) + 0) = generatedPackets a0"
    using life_start.prems by (simp add: sin_inv_def)
  ultimately show ?case
    using enqueue_progress [of a0 a 0] life_start.prems by (auto simp: sin_progress_def)
next
  case (life_update n k a b)
  then have a: "sin_progress a0 n k a" by blast
  then have "enqueuePacketsForCurrentSample a = Inr b"
    using life_update.hyps by (simp add: sin_progress_def Update_sin res_bind_Inr_iff)
  then show ?case
    using enqueue_progress [of a b k] a by (auto simp: sin_progress_def)
next
  case (life_pop n k a b)
  then have a: "sin_progress a0 n k a" by blast
  have b: "b = a\<lparr>pendingpackets := tl (pendingpackets a)\<rparr>" "pendingpackets a \<noteq> []"
    using life_pop.hyps by (auto split: if_splits)
  then show ?case
    using a by (cases "pendingpackets a") (auto simp: sin_progress_def sin_inv_def)
qed

lemma Update_sin_total:
  assumes "sin_inv a"
  shows "\<exists>b. Update (SinApp a) = Inr (SinApp b)"
proof (cases "unat (currentSample a) < 1200")
  case True
  then show ?thesis using assms by (auto simp: Update_sin elim: enqueue_step)
next
  case False
  then have "sin_allPacketsGenerated a" using assms by (auto simp: sin_inv_def)
  then show ?thesis using assms by (simp add: Update_sin enqueue_at_limit)
qed

text \<open>A flat application, to instantiate the properties with.\<close>

lemma flat_application:
  obtains a0 a where "SinApplication (\<lambda>_. Fin 0) (\<lambda>g. (0, g)) 0 1 2 3 4 0 0 () = Inr (a0, ())"
    and "sin_life a0 0 0 a"
proof -
  have "sin_bounded (\<lambda>_. Fin 0)" by (simp add: sin_bounded_def)
  from generateValues_ok [OF this, of 0 4 "\<lambda>g. (0, g)" 0 "()"]
  obtain vs where "generateValues (\<lambda>_. Fin 0) (\<lambda>g. (0, g)) (Fin (of_nat 4)) 0 0 () = Inr (vs, ())"
    by auto
  then have "\<exists>a0. SinApplication (\<lambda>_. Fin 0) (\<lambda>g. (0, g)) 0 1 2 3 4 0 0 () = Inr (a0, ())"
    by (simp add: SinApplication_def dbl_simps)
  then obtain a0 where a0: "SinApplication (\<lambda>_. Fin 0) (\<lambda>g. (0, g)) 0 1 2 3 4 0 0 () = Inr (a0, ())"
    by blast
  have inv: "sin_inv a0" "unat (currentSample a0) < 1200"
    using SinApplication_inv [OF a0] by simp_all
  then obtain a where "enqueuePacketsForCurrentSample a0 = Inr a" by (auto elim: enqueue_step)
  then have "sin_life a0 0 0 a"
    by (intro sin_life.life_start) (simp add: sin_OnApplicationStart_def)
  with a0 show thesis by (rule that)
qed

section \<open>Properties\<close>

text \<open>
  C6. Whatever the interleaving of timer updates and pops, a \<open>SinApplication\<close> built by its
  constructor has, after its start and \<open>n\<close> updates, generated exactly the packets of its first
  \<open>min 1200 (n + 1)\<close> samples; pending and popped packets add up to the generated ones; the
  end-of-generation flag is set from the 1199th update on, and the next update does not throw.
\<close>

theorem sin_life_counts:
  assumes "SinApplication sinf rand garbage ident delay err shift noise hs g = Inr (a0, g')"
    and "sin_life a0 n k a"
  shows "generatedPackets a = sum_list (map snd (take (min 1200 (Suc n)) (sinValues a0))) \<and>
    of_nat (length (pendingpackets a) + k) = generatedPackets a \<and>
    (sin_allPacketsGenerated a \<longleftrightarrow> 1199 \<le> n) \<and>
    (\<exists>b. Update (SinApp a) = Inr (SinApp b))"
proof -
  have "sin_progress a0 n k a"
    using sin_life_progress [OF assms(2)] SinApplication_inv [OF assms(1)] by simp
  then show ?thesis
    using Update_sin_total [of a] by (auto simp: sin_progress_def sin_inv_def)
qed

theorem sin_life_counts_witness:
  "\<exists>a0 a. SinApplication (\<lambda>_. Fin 0) (\<lambda>g. (0, g)) 0 1 2 3 4 0 0 () = Inr (a0, ()) \<and>
     sin_life a0 0 0 a \<and> \<not> sin_allPacketsGenerated a \<and>
     generatedPackets a = sum_list (map snd (take 1 (sinValues a0)))"
proof -
  obtain a0 a where 1: "SinApplication (\<lambda>_. Fin 0) (\<lambda>g. (0, g)) 0 1 2 3 4 0 0 () = Inr (a0, ())"
    and 2: "sin_life a0 0 0 a" by (rule flat_application)
  show ?thesis using 1 2 sin_life_counts [OF 1 2] by auto
qed

text \<open>
  C13. When a \<open>SinApplication\<close> has generated everything it ever will, \<open>getTotalData\<close>, from which the
  linear run sizes its static replacements, is larger than the number of packets generated, by the
  last sample, which is computed and never enqueued.
\<close>

theorem getTotalData_counts_one_more:
  assumes "SinApplication sinf rand garbage ident delay err shift noise hs g = Inr (a0, g')"
    and "sin_life a0 n k a" and "1199 \<le> n"
  shows "getTotalData a0 = generatedPackets a + snd (last (sinValues a0))"
proof -
  have p: "sin_progress a0 n k a"
    using sin_life_progress [OF assms(2)] SinApplication_inv [OF assms(1)] by simp
  then have "sin_inv a" "sin_allPacketsGenerated a"
    using assms(3) by (auto simp: sin_progress_def sin_inv_def)
  then show ?thesis
    using getTotalData_exceeds [of a] p by (simp add: sin_progress_def sin_getTotalData)
qed

text \<open>Updating keeps the run going, so every number of updates is reached.\<close>

lemma sin_life_extend:
  assumes "sin_life a0 m k a" and "sin_inv a0" and "currentSample a0 = 0" and "pendingpackets a0 = []"
  shows "\<exists>b. sin_life a0 (m + n) k b"
proof (induction n)
  case 0
  then show ?case using assms(1) by auto
next
  case (Suc n)
  then obtain b where b: "sin_life a0 (m + n) k b" by blast
  then have "sin_inv b" using sin_life_progress [OF b] assms by (simp add: sin_progress_def)
  then obtain c where "Update (SinApp b) = Inr (SinApp c)" using Update_sin_total by blast
  then show ?case using sin_life.life_update [OF b] by auto
qed

theorem getTotalData_counts_one_more_witness:
  "\<exists>a0 a. SinApplication (\<lambda>_. Fin 0) (\<lambda>g. (0, g)) 0 1 2 3 4 0 0 () = Inr (a0, ()) \<and>
     sin_life a0 1199 0 a \<and> getTotalData a0 = generatedPackets a + snd (last (sinValues a0))"
proof -
  obtain a0 a where 1: "SinApplication (\<lambda>_. Fin 0) (\<lambda>g. (0, g)) 0 1 2 3 4 0 0 () = Inr (a0, ())"
    and 2: "sin_life a0 0 0 a" by (rule flat_application)
  obtain b where b: "sin_life a0 1199 0 b"
    using sin_life_extend [OF 2, of 1199] SinApplication_inv [OF 1] by auto
  show ?thesis using 1 b getTotalData_counts_one_more [OF 1 b] by auto
qed

end
