(* ===== verification/Queue_Contract.thy ===== *)
theory Queue_Contract
  imports Prelude
begin

text \<open>
  The contract of a packet queue as its clients use it: packets go in at the back one at a time,
  a test says whether one waits, and fetching returns a flag, the packet at the front and the
  rest. \<open>ISPInterface\<close> provides it; the strategies and the sender loop are its clients.
\<close>

fun drain :: "('q \<Rightarrow> (bool \<times> 'a) \<times> 'q) \<Rightarrow> nat \<Rightarrow> 'q \<Rightarrow> 'a list \<times> 'q" where
  "drain fetch 0 q = ([], q)"
| "drain fetch (Suc n) q =
     (case fetch q of
        ((False, x), q') \<Rightarrow> ([], q')
      | ((True, x), q') \<Rightarrow> (case drain fetch n q' of (xs, q'') \<Rightarrow> (x # xs, q'')))"

locale packet_fifo =
  fixes enq :: "'a \<Rightarrow> 'q \<Rightarrow> 'q"
    and has_any :: "'q \<Rightarrow> bool"
    and fetch :: "'q \<Rightarrow> (bool \<times> 'a) \<times> 'q"
    and contents :: "'q \<Rightarrow> 'a list"
  assumes contents_enq: "contents (enq x q) = contents q @ [x]"
    and has_any_iff: "has_any q \<longleftrightarrow> contents q \<noteq> []"
    and fetch_some: "contents q = x # xs \<Longrightarrow> fst (fetch q) = (True, x) \<and> contents (snd (fetch q)) = xs"
    and fetch_none: "contents q = [] \<Longrightarrow> \<not> fst (fst (fetch q)) \<and> snd (fetch q) = q"
begin

lemma contents_fold_enq: "contents (fold enq xs q) = contents q @ xs"
  by (induction xs arbitrary: q) (simp_all add: contents_enq)

lemma length_fold_enq: "length (contents (fold enq xs q)) = length (contents q) + length xs"
  by (simp add: contents_fold_enq)

lemma fetch_flag: "fst (fst (fetch q)) \<longleftrightarrow> has_any q"
proof (cases "contents q")
  case Nil
  then show ?thesis by (simp add: has_any_iff fetch_none)
next
  case (Cons x xs)
  then show ?thesis using fetch_some [OF Cons] by (simp add: has_any_iff)
qed

lemma drain_contents:
  "fst (drain fetch n q) = take n (contents q) \<and>
   contents (snd (drain fetch n q)) = drop n (contents q)"
proof (induction n arbitrary: q)
  case 0
  then show ?case by simp
next
  case (Suc n)
  show ?case
  proof (cases "contents q")
    case Nil
    obtain b x q' where f: "fetch q = ((b, x), q')" by (metis surj_pair)
    then show ?thesis using fetch_none [OF Nil] Nil by simp
  next
    case (Cons y ys)
    obtain b x q' where f: "fetch q = ((b, x), q')" by (metis surj_pair)
    have "b" "x = y" "contents q' = ys" using fetch_some [OF Cons] by (simp_all add: f)
    moreover obtain zs q'' where "drain fetch n q' = (zs, q'')" by (metis surj_pair)
    ultimately show ?thesis
      using Suc.IH [of q'] Cons by (simp add: f)
  qed
qed

lemma enq_then_drain:
  assumes "contents q = []"
  shows "fst (drain fetch (length xs) (fold enq xs q)) = xs"
    and "\<not> has_any (snd (drain fetch (length xs) (fold enq xs q)))"
  using drain_contents [of "length xs" "fold enq xs q"] assms
  by (simp_all add: contents_fold_enq has_any_iff)

end

end
