(* ===== verification/Isp_Iface.thy ===== *)
theory Isp_Iface
  imports Sim_Utils Queue_Contract
begin

text \<open>
  \<open>ISPInterface.h\<close> and \<open>ISPInterface.cpp\<close>: one network interface of the CPE with its queue of
  packets and its counters. The ns-3 objects it points to are modelled by what the class reads
  of them: the channel's \<open>DataRate\<close> and \<open>Delay\<close>, the error model's \<open>ErrorRate\<close>, the socket by
  an identifier.
\<close>

section \<open>State\<close>

datatype ip_version = IPv4 | IPv6

text \<open>A socket address: invalid, or an IP version with the host and the port.\<close>

datatype address = InvalidAddress | SocketAddress ip_version nat u16

record net_device =
  channelDataRate :: u64
  channelDelay :: sim_time

datatype error_unit = ERROR_UNIT_BIT | ERROR_UNIT_BYTE | ERROR_UNIT_PACKET

record rate_error_model =
  errorEnabled :: bool
  errorUnit :: error_unit
  errorRateAttribute :: dbl

record isp_interface =
  interfaceId :: u32
  interfaceName :: string
  netDevice :: net_device
  outgoingAddress :: address
  socketInfo :: nat
  connected :: bool
  destinationAddress :: address
  errorModel :: rate_error_model
  correctPackages :: u32
  corruptPackages :: u32
  cost :: u32
  if_pendingpackets :: "send_packet_info list"

definition ISPInterface ::
  "u32 \<Rightarrow> string \<Rightarrow> net_device \<Rightarrow> address \<Rightarrow> nat \<Rightarrow> address \<Rightarrow> rate_error_model \<Rightarrow> u32 \<Rightarrow> isp_interface"
where
  "ISPInterface ident name device outgoing sock destination model c =
   \<lparr>interfaceId = ident, interfaceName = name, netDevice = device, outgoingAddress = outgoing,
    socketInfo = sock, connected = False, destinationAddress = destination, errorModel = model,
    correctPackages = 0, corruptPackages = 0, cost = c, if_pendingpackets = []\<rparr>"

definition ISPInterface_copy :: "isp_interface \<Rightarrow> isp_interface" where
  "ISPInterface_copy other =
   \<lparr>interfaceId = interfaceId other, interfaceName = interfaceName other,
    netDevice = netDevice other, outgoingAddress = outgoingAddress other,
    socketInfo = socketInfo other, connected = connected other,
    destinationAddress = destinationAddress other, errorModel = errorModel other,
    correctPackages = correctPackages other, corruptPackages = corruptPackages other,
    cost = cost other, if_pendingpackets = if_pendingpackets other\<rparr>"

text \<open>The copy assignment leaves \<open>cost\<close> as it was.\<close>

definition ISPInterface_assign :: "isp_interface \<Rightarrow> isp_interface \<Rightarrow> isp_interface" where
  "ISPInterface_assign self other =
   self\<lparr>outgoingAddress := outgoingAddress other, socketInfo := socketInfo other,
        destinationAddress := destinationAddress other, errorModel := errorModel other,
        corruptPackages := corruptPackages other, correctPackages := correctPackages other,
        connected := connected other, netDevice := netDevice other,
        if_pendingpackets := if_pendingpackets other, interfaceId := interfaceId other,
        interfaceName := interfaceName other\<rparr>"

section \<open>Operations\<close>

definition if_getDataRate :: "isp_interface \<Rightarrow> u64" where
  "if_getDataRate i = channelDataRate (netDevice i)"

definition getErrorRate :: "isp_interface \<Rightarrow> dbl" where
  "getErrorRate i = dmul (errorRateAttribute (errorModel i)) (dbl_of_nat 100)"

text \<open>\<open>GetMilliSeconds\<close> divides the nanoseconds by \<open>10^6\<close>, truncating; the result is stored in 32 bits.\<close>

definition to_milliseconds :: "sim_time \<Rightarrow> int" where
  "to_milliseconds t = sgn t * (\<bar>t\<bar> div 1000000)"

definition getDelayInMilliseconds :: "isp_interface \<Rightarrow> u32" where
  "getDelayInMilliseconds i = of_int (to_milliseconds (channelDelay (netDevice i)))"

definition enqueuePacket :: "send_packet_info \<Rightarrow> isp_interface \<Rightarrow> isp_interface" where
  "enqueuePacket packet i = i\<lparr>if_pendingpackets := if_pendingpackets i @ [packet]\<rparr>"

definition getHasAnyAvailablePackage :: "isp_interface \<Rightarrow> bool" where
  "getHasAnyAvailablePackage i = (if_pendingpackets i \<noteq> [])"

text \<open>
  On an empty queue the second component is a \<open>SendPacketInfo\<close> whose time is default-constructed
  and whose \<open>originatedFrom\<close> is indeterminate: \<open>junk\<close> stands for it.
\<close>

fun getNextPacket ::
  "send_packet_info \<Rightarrow> isp_interface \<Rightarrow> (bool \<times> send_packet_info) \<times> isp_interface"
where
  "getNextPacket junk i =
     (case if_pendingpackets i of
        [] \<Rightarrow> ((False, junk), i)
      | value # rest \<Rightarrow> ((True, value), i\<lparr>if_pendingpackets := rest\<rparr>))"

definition getDataBitRate :: "isp_interface \<Rightarrow> u64" where
  "getDataBitRate i = if_getDataRate i"

definition getPackageRate :: "isp_interface \<Rightarrow> u64" where
  "getPackageRate i = if_getDataRate i div ucast PacketSizeBit"

definition getAverageWaitingTimeInMilliseconds :: "sim_time \<Rightarrow> isp_interface \<Rightarrow> dbl" where
  "getAverageWaitingTimeInMilliseconds now i =
     (let currentPackets = (of_nat (length (if_pendingpackets i)) :: u32);
          currentTime = dbl_of_int (to_milliseconds now)
      in if deq currentTime (Fin 0) then Fin 0
         else
           let totalAmountOfPackets = dbl_of_nat (unat (correctPackages i + corruptPackages i));
               arrivalRate = ddiv totalAmountOfPackets currentTime
           in if deq arrivalRate (Fin 0) then Fin 0
              else ddiv (dbl_of_nat (unat currentPackets)) arrivalRate)"

section \<open>The queue contract\<close>

interpretation isp_queue: packet_fifo
  enqueuePacket getHasAnyAvailablePackage "getNextPacket junk" if_pendingpackets
  for junk
  by unfold_locales (auto simp: enqueuePacket_def getHasAnyAvailablePackage_def)

text \<open>Enqueueing touches only the queue.\<close>

lemma enqueuePacket_frame [simp]:
  "interfaceId (enqueuePacket p i) = interfaceId i"
  "cost (enqueuePacket p i) = cost i"
  "netDevice (enqueuePacket p i) = netDevice i"
  "outgoingAddress (enqueuePacket p i) = outgoingAddress i"
  "socketInfo (enqueuePacket p i) = socketInfo i"
  "connected (enqueuePacket p i) = connected i"
  "errorModel (enqueuePacket p i) = errorModel i"
  "correctPackages (enqueuePacket p i) = correctPackages i"
  "corruptPackages (enqueuePacket p i) = corruptPackages i"
  by (simp_all add: enqueuePacket_def)

lemma enqueuePacket_queue [simp]:
  "if_pendingpackets (enqueuePacket p i) = if_pendingpackets i @ [p]"
  by (simp add: enqueuePacket_def)

section \<open>Copies\<close>

lemma ISPInterface_copy_id: "ISPInterface_copy other = other"
  by (simp add: ISPInterface_copy_def)

lemma ISPInterface_assign_eq:
  "ISPInterface_assign self other = other\<lparr>cost := cost self\<rparr>"
  by (cases self; cases other) (simp add: ISPInterface_assign_def)

section \<open>Rates, delays and waiting times\<close>

lemma unat_u64_div: "unat (a div b :: u64) = unat a div unat b"
  by (simp add: unat_div_distrib)

lemma getPackageRate_of_packets:
  assumes "unat pps < 4194304"
    and "channelDataRate (netDevice i) = ConvertPacketsPerSecondToBitPerSecond pps"
  shows "unat (getPackageRate i) = unat pps"
  using assms
  by (simp add: getPackageRate_def if_getDataRate_def unat_u64_div PacketSizeBit_def
      ConvertPacketsPerSecondToBitPerSecond_def unat_ConvertToDataRate_small)

lemma getDelayInMilliseconds_exact:
  assumes "channelDelay (netDevice i) = int ms * 1000000" and "ms < 4294967296"
  shows "unat (getDelayInMilliseconds i) = ms"
proof -
  have "to_milliseconds (int ms * 1000000) = int ms"
    by (simp add: to_milliseconds_def abs_mult sgn_mult) (cases "ms = 0"; simp)
  then show ?thesis using assms by (simp add: getDelayInMilliseconds_def)
qed

lemma waiting_time_idle:
  assumes "to_milliseconds now = 0 \<or> correctPackages i + corruptPackages i = 0"
    and "\<bar>to_milliseconds now\<bar> \<le> 2 ^ 53"
  shows "getAverageWaitingTimeInMilliseconds now i = Fin 0"
  using assms
  by (auto simp: getAverageWaitingTimeInMilliseconds_def dbl_of_int_def rnd_of_int deq_def
      dbl_simps Let_def rnd_small)

end
