(* ===== verification/Strategy_Base.thy ===== *)
theory Strategy_Base
  imports Sdwan_App Isp_Iface
begin

text \<open>
  \<open>Strategy.h\<close> and \<open>Strategy.cpp\<close>: the state every strategy shares, its test that all data has been
  sent, and the contract of the strategies that spread the pending packets one at a time
  (\<open>RoundRobinStrategy\<close>, \<open>RandomStrategy\<close>). The vectors of shared pointers are lists of the
  objects, an element being named by its position; the program never stores one object twice.
\<close>

section \<open>State\<close>

record strategy =
  applications :: "application list"
  availableInterfaces :: "isp_interface list"
  strategyData :: "strategy_data_point list"

definition Strategy :: "application list \<Rightarrow> isp_interface list \<Rightarrow> strategy" where
  "Strategy apps ifaces =
     \<lparr>applications = apps, availableInterfaces = ifaces, strategyData = []\<rparr>"

definition getAllDataHasBeenSent :: "'a strategy_scheme \<Rightarrow> bool" where
  "getAllDataHasBeenSent s =
     (let allDataHasBeenGenerated = list_all getHasStoppedGeneratingData (applications s);
          allDataHasBeenSent = list_all (\<lambda>i. \<not> getHasAnyAvailablePackage i) (availableInterfaces s)
      in allDataHasBeenGenerated \<and> allDataHasBeenSent)"

text \<open>The three strategies that keep statistics append a data point with running totals.\<close>

definition push_data_point :: "u32 \<Rightarrow> u32 \<Rightarrow> 'a strategy_scheme \<Rightarrow> 'a strategy_scheme" where
  "push_data_point currentCost currentPendingPackages s =
     (let data = strategyData s;
          totalCost = (if data = [] then currentCost else dp_totalCost (last data) + currentCost);
          totalAmountOfPackets =
            (if data = [] then currentPendingPackages
             else dp_totalAmountOfPackets (last data) + currentPendingPackages)
      in s\<lparr>strategyData := data @
            [StrategyDataPoint totalCost currentCost totalAmountOfPackets currentPendingPackages]\<rparr>)"

text \<open>
  The local variables of a \<open>Compute\<close>, and what it leaves behind: the strategy and the file it
  wrote, if any. \<open>opened\<close> says whether the output file can be opened.
\<close>

record compute_locals =
  currentIndex :: u32
  currentCost :: u32
  currentPendingPackages :: u32

type_synonym 's computed = "'s \<times> (string \<times> cell list list) option"

definition printWhenAllSent ::
  "bool \<Rightarrow> string \<Rightarrow> 'a strategy_scheme \<Rightarrow> 'a strategy_scheme computed res" where
  "printWhenAllSent opened fileName s =
     (if getAllDataHasBeenSent s then
        (case printDataPointsToFile opened (strategyData s) of
           (rows, None) \<Rightarrow> Inr (s, Some (fileName, rows))
         | (rows, Some e) \<Rightarrow> Inl e)
      else Inr (s, None))"

section \<open>Moving one packet\<close>

definition pop_application :: "nat \<Rightarrow> 'a strategy_scheme \<Rightarrow> 'a strategy_scheme res" where
  "pop_application i s =
     res_bind (vec_at (applications s) i) (\<lambda>a.
     res_bind (app_pop a) (\<lambda>a.
     Inr (s\<lparr>applications := (applications s)[i := a]\<rparr>)))"

definition enqueue_on :: "nat \<Rightarrow> send_packet_info \<Rightarrow> 'a strategy_scheme \<Rightarrow> 'a strategy_scheme res" where
  "enqueue_on j packet s =
     res_bind (vec_at (availableInterfaces s) j) (\<lambda>i.
     Inr (s\<lparr>availableInterfaces := (availableInterfaces s)[j := enqueuePacket packet i]\<rparr>))"

definition cost_of :: "nat \<Rightarrow> 'a strategy_scheme \<Rightarrow> u32 res" where
  "cost_of j s = res_bind (vec_at (availableInterfaces s) j) (\<lambda>i. Inr (cost i))"

section \<open>Where the packets end up\<close>

text \<open>
  The reference the strategies are compared with: a list of packets, each with the position of
  the interface it is appended to.
\<close>

fun assign_packets ::
  "(nat \<times> send_packet_info) list \<Rightarrow> isp_interface list \<Rightarrow> isp_interface list" where
  "assign_packets [] ifaces = ifaces"
| "assign_packets ((j, p) # xs) ifaces =
     assign_packets xs (ifaces[j := enqueuePacket p (ifaces ! j)])"

definition packets_from :: "u32 \<Rightarrow> send_packet_info list \<Rightarrow> nat" where
  "packets_from ident ps = length (filter (\<lambda>p. originatedFrom p = ident) ps)"

definition queued_from :: "u32 \<Rightarrow> isp_interface list \<Rightarrow> nat" where
  "queued_from ident ifaces = sum_list (map (\<lambda>i. packets_from ident (if_pendingpackets i)) ifaces)"

definition queued :: "isp_interface list \<Rightarrow> nat" where
  "queued ifaces = sum_list (map (\<lambda>i. length (if_pendingpackets i)) ifaces)"

definition pending_from :: "u32 \<Rightarrow> application list \<Rightarrow> nat" where
  "pending_from ident apps =
     sum_list (map (\<lambda>a. if app_id a = ident then length (app_pending a) else 0) apps)"

definition pending :: "application list \<Rightarrow> nat" where
  "pending apps = sum_list (map (\<lambda>a. length (app_pending a)) apps)"

definition assigned_cost :: "(nat \<times> send_packet_info) list \<Rightarrow> isp_interface list \<Rightarrow> u32" where
  "assigned_cost xs ifaces = sum_list (map (\<lambda>x. cost (ifaces ! fst x)) xs)"

lemma pending_simps [simp]:
  "pending [] = 0"
  "pending (a # apps) = length (app_pending a) + pending apps"
  "pending (apps @ apps') = pending apps + pending apps'"
  by (simp_all add: pending_def)

lemma pending_from_simps [simp]:
  "pending_from x [] = 0"
  "pending_from x (a # apps) = (if app_id a = x then length (app_pending a) else 0) + pending_from x apps"
  "pending_from x (apps @ apps') = pending_from x apps + pending_from x apps'"
  by (simp_all add: pending_from_def)

lemma length_assign_packets [simp]: "length (assign_packets xs ifaces) = length ifaces"
  by (induction xs ifaces rule: assign_packets.induct) auto

lemma assign_packets_append:
  "assign_packets (xs @ ys) ifaces = assign_packets ys (assign_packets xs ifaces)"
  by (induction xs ifaces rule: assign_packets.induct) auto

lemma assign_packets_queue:
  assumes "j < length ifaces"
  shows "if_pendingpackets (assign_packets xs ifaces ! j) =
    if_pendingpackets (ifaces ! j) @ map snd (filter (\<lambda>x. fst x = j) xs)"
  using assms
  by (induction xs ifaces rule: assign_packets.induct) (auto simp: nth_list_update)

lemma nth_assign_frame:
  assumes "\<And>p i. f (enqueuePacket p i) = f i" and "j < length ifaces"
  shows "f (assign_packets xs ifaces ! j) = f (ifaces ! j)"
  using assms(2)
proof (induction xs ifaces rule: assign_packets.induct)
  case (1 ifaces)
  then show ?case by simp
next
  case (2 k p xs ifaces)
  then show ?case by (cases "k = j") (simp_all add: assms(1))
qed

lemma assign_packets_frame:
  assumes "j < length ifaces"
  shows "cost (assign_packets xs ifaces ! j) = cost (ifaces ! j)"
    and "netDevice (assign_packets xs ifaces ! j) = netDevice (ifaces ! j)"
    and "interfaceId (assign_packets xs ifaces ! j) = interfaceId (ifaces ! j)"
    and "connected (assign_packets xs ifaces ! j) = connected (ifaces ! j)"
    and "errorModel (assign_packets xs ifaces ! j) = errorModel (ifaces ! j)"
    and "correctPackages (assign_packets xs ifaces ! j) = correctPackages (ifaces ! j)"
    and "corruptPackages (assign_packets xs ifaces ! j) = corruptPackages (ifaces ! j)"
  using assms by (auto intro!: nth_assign_frame)

lemma map_assign_packets:
  assumes "\<And>p i. f (enqueuePacket p i) = f i"
  shows "map f (assign_packets xs ifaces) = map f ifaces"
  by (rule nth_equalityI) (auto intro!: nth_assign_frame assms)

lemma packets_from_append [simp]:
  "packets_from ident (xs @ ys) = packets_from ident xs + packets_from ident ys"
  by (simp add: packets_from_def)

lemma packets_from_Cons [simp]:
  "packets_from ident (p # ps) = (if originatedFrom p = ident then 1 else 0) + packets_from ident ps"
  by (simp add: packets_from_def)

lemma packets_from_Nil [simp]: "packets_from ident [] = 0"
  by (simp add: packets_from_def)

lemma sum_list_update_plus:
  fixes f :: "'a \<Rightarrow> nat"
  assumes "j < length xs" and "f y = f (xs ! j) + k"
  shows "sum_list (map f (xs[j := y])) = sum_list (map f xs) + k"
  using sum_list_map_update [OF assms(1), of f y] assms(2) by simp

lemma queued_from_assign:
  assumes "list_all (\<lambda>x. fst x < length ifaces) xs"
  shows "queued_from ident (assign_packets xs ifaces) =
    queued_from ident ifaces + packets_from ident (map snd xs)"
  using assms
proof (induction xs ifaces rule: assign_packets.induct)
  case (1 ifaces)
  then show ?case by simp
next
  case (2 j p xs ifaces)
  have "queued_from ident (ifaces[j := enqueuePacket p (ifaces ! j)]) =
      queued_from ident ifaces + packets_from ident [p]"
    unfolding queued_from_def using 2(2) by (intro sum_list_update_plus) auto
  then show ?case using 2 by simp
qed

lemma queued_assign:
  assumes "list_all (\<lambda>x. fst x < length ifaces) xs"
  shows "queued (assign_packets xs ifaces) = queued ifaces + length xs"
  using assms
proof (induction xs ifaces rule: assign_packets.induct)
  case (1 ifaces)
  then show ?case by simp
next
  case (2 j p xs ifaces)
  have "queued (ifaces[j := enqueuePacket p (ifaces ! j)]) = queued ifaces + 1"
    unfolding queued_def using 2(2) by (intro sum_list_update_plus) auto
  then show ?case using 2 by simp
qed

lemma assigned_cost_cong:
  assumes "map cost ifaces = map cost ifaces'" and "list_all (\<lambda>x. fst x < length ifaces) xs"
  shows "assigned_cost xs ifaces = assigned_cost xs ifaces'"
proof -
  have "cost (ifaces ! j) = cost (ifaces' ! j)" if "j < length ifaces" for j
    using that assms(1) by (metis length_map nth_map)
  then show ?thesis
    using assms(2) unfolding assigned_cost_def list_all_iff
    by (intro arg_cong [of _ _ sum_list] map_cong) auto
qed

text \<open>A packet leaves the application it is popped from and reaches the interface it is put on.\<close>

fun app_drained :: "application \<Rightarrow> application" where
  "app_drained (StaticApp a) = StaticApp (a\<lparr>pendingpackets := []\<rparr>)"
| "app_drained (SinApp a) = SinApp (a\<lparr>pendingpackets := []\<rparr>)"

definition app_dropped :: "nat \<Rightarrow> application \<Rightarrow> application" where
  "app_dropped n a =
     (case a of
        StaticApp b \<Rightarrow> StaticApp (b\<lparr>pendingpackets := drop n (pendingpackets b)\<rparr>)
      | SinApp b \<Rightarrow> SinApp (b\<lparr>pendingpackets := drop n (pendingpackets b)\<rparr>))"

lemma app_dropped_simps [simp]:
  "app_id (app_dropped n a) = app_id a"
  "app_pending (app_dropped n a) = drop n (app_pending a)"
  "app_generated (app_dropped n a) = app_generated a"
  "app_dropped 0 a = a"
  "app_dropped m (app_dropped n a) = app_dropped (n + m) a"
  by (cases a; simp add: app_dropped_def add.commute)+

lemma app_dropped_all: "length (app_pending a) \<le> n \<Longrightarrow> app_dropped n a = app_drained a"
  by (cases a) (simp_all add: app_dropped_def)

lemma app_pop_eq:
  "app_pop a = (if app_pending a = [] then Inl (Undefined ''pop of an empty queue'')
                else Inr (app_dropped 1 a))"
  by (cases a) (simp_all add: app_dropped_def drop_Suc)

lemma app_drained_simps [simp]:
  "app_id (app_drained a) = app_id a"
  "app_pending (app_drained a) = []"
  "app_generated (app_drained a) = app_generated a"
  by (cases a; simp)+


section \<open>The statistics\<close>

text \<open>The totals of every data point are the sums of the current values up to it, modulo \<open>2^32\<close>.\<close>

definition running_totals :: "strategy_data_point list \<Rightarrow> bool" where
  "running_totals ds \<longleftrightarrow>
     (\<forall>i < length ds.
        dp_totalCost (ds ! i) = sum_list (map dp_currentCost (take (Suc i) ds)) \<and>
        dp_totalAmountOfPackets (ds ! i) = sum_list (map dp_currentAmountOfPackets (take (Suc i) ds)))"

lemma running_totals_last:
  assumes "running_totals ds" and "ds \<noteq> []"
  shows "dp_totalCost (last ds) = sum_list (map dp_currentCost ds)"
    and "dp_totalAmountOfPackets (last ds) = sum_list (map dp_currentAmountOfPackets ds)"
  using assms unfolding running_totals_def
  by (auto simp: last_conv_nth dest: spec [of _ "length ds - 1"])

lemma push_data_point_simps [simp]:
  "applications (push_data_point c n s) = applications s"
  "availableInterfaces (push_data_point c n s) = availableInterfaces s"
  "strategy.more (push_data_point c n s) = strategy.more s"
  "length (strategyData (push_data_point c n s)) = Suc (length (strategyData s))"
  "butlast (strategyData (push_data_point c n s)) = strategyData s"
  "dp_currentCost (last (strategyData (push_data_point c n s))) = c"
  "dp_currentAmountOfPackets (last (strategyData (push_data_point c n s))) = n"
  by (simp_all add: push_data_point_def StrategyDataPoint_def Let_def)

lemma running_totals_push:
  assumes "running_totals (strategyData s)"
  shows "running_totals (strategyData (push_data_point c n s))"
proof -
  let ?ds = "strategyData s"
  have tot: "dp_totalCost (last ?ds) = sum_list (map dp_currentCost ?ds)"
    "dp_totalAmountOfPackets (last ?ds) = sum_list (map dp_currentAmountOfPackets ?ds)" if "?ds \<noteq> []"
    using running_totals_last [OF assms that] .
  have old: "dp_totalCost (?ds ! i) = sum_list (map dp_currentCost (take (Suc i) ?ds))"
    "dp_totalAmountOfPackets (?ds ! i) = sum_list (map dp_currentAmountOfPackets (take (Suc i) ?ds))"
    if "i < length ?ds" for i
    using assms that by (simp_all add: running_totals_def)
  show ?thesis
    unfolding running_totals_def
    by (intro allI impI) (auto simp: push_data_point_def Let_def StrategyDataPoint_def less_Suc_eq
        nth_append tot old)
qed

lemma emit_rows_Inr:
  "(\<And>row c. row \<in> set rows \<Longrightarrow> c \<in> set row \<Longrightarrow> res_ok c) \<Longrightarrow> snd (emit_rows rows) = None"
proof (induction rows)
  case Nil
  then show ?case by simp
next
  case (Cons row rows)
  have cells: "(\<And>c. c \<in> set row \<Longrightarrow> res_ok c) \<Longrightarrow> snd (emit_cells row) = None"
  proof (induction row)
    case Nil
    then show ?case by simp
  next
    case (Cons c row)
    have "res_ok c" using Cons.prems by simp
    then show ?case using Cons by (cases c) (auto split: prod.split)
  qed
  then have "snd (emit_cells row) = None" using Cons.prems by auto
  moreover have "snd (emit_rows rows) = None" using Cons by auto
  ultimately show ?case by (auto split: prod.split)
qed

lemma printWhenAllSent_opened:
  "\<exists>f. printWhenAllSent True name s = Inr (s, f) \<and> (f = None \<longleftrightarrow> \<not> getAllDataHasBeenSent s)"
proof -
  have "snd (printDataPointsToFile True (strategyData s)) = None"
    unfolding printDataPointsToFile_def
    by (auto intro!: emit_rows_Inr simp: data_point_row_def Let_def)
  then show ?thesis by (auto simp: printWhenAllSent_def split: prod.split option.split)
qed

lemma printWhenAllSent_Inr:
  "printWhenAllSent opened name s = Inr (s', f) \<Longrightarrow> s' = s"
  by (auto simp: printWhenAllSent_def split: if_splits prod.splits option.splits)

end
