(* ===== verification/Spread_Contract.thy ===== *)
theory Spread_Contract
  imports Strategy_Base
begin

text \<open>
  The contract shared by the strategies that walk over the applications and send their pending
  packets one at a time, each to an interface of the strategy's choice. A client gives the step of
  the inner loop, the loop, the visit of an application and the choice; the contract gives what
  the walk over all applications does, whatever the choice is.
\<close>

definition packet_info :: "sim_time \<Rightarrow> u32 \<Rightarrow> send_packet_info" where
  "packet_info now ident = \<lparr>dateEnqueued = now, originatedFrom = ident\<rparr>"

lemma packet_info_simps [simp]:
  "originatedFrom (packet_info now ident) = ident"
  "dateEnqueued (packet_info now ident) = now"
  by (simp_all add: packet_info_def)

text \<open>The packets of the applications in the order a walk meets them.\<close>

definition sweep_packets :: "sim_time \<Rightarrow> application list \<Rightarrow> send_packet_info list" where
  "sweep_packets now apps =
     concat (map (\<lambda>a. replicate (length (app_pending a)) (packet_info now (app_id a))) apps)"

lemma sweep_packets_simps [simp]:
  "sweep_packets now [] = []"
  "sweep_packets now (apps @ [a]) =
     sweep_packets now apps @ replicate (length (app_pending a)) (packet_info now (app_id a))"
  by (simp_all add: sweep_packets_def)

lemma length_sweep_packets: "length (sweep_packets now apps) = pending apps"
  by (induction apps) (simp_all add: sweep_packets_def pending_def)

lemma packets_from_replicate [simp]:
  "packets_from x (replicate n p) = (if originatedFrom p = x then n else 0)"
  by (simp add: packets_from_def)

lemma packets_from_sweep: "packets_from x (sweep_packets now apps) = pending_from x apps"
  by (induction apps) (simp_all add: sweep_packets_def pending_from_def)

text \<open>
  What a stretch of such a walk does: the packets \<open>xs\<close> reach the interfaces they are paired with,
  the local counters follow, and the statistics are not touched.
\<close>

definition spreads ::
  "(nat \<times> send_packet_info) list \<Rightarrow> 'a strategy_scheme \<times> compute_locals \<Rightarrow>
     'a strategy_scheme \<times> compute_locals \<Rightarrow> bool"
where
  "spreads xs s s' \<longleftrightarrow>
     list_all (\<lambda>x. fst x < length (availableInterfaces (fst s))) xs \<and>
     availableInterfaces (fst s') = assign_packets xs (availableInterfaces (fst s)) \<and>
     strategyData (fst s') = strategyData (fst s) \<and>
     currentPendingPackages (snd s') = currentPendingPackages (snd s) + of_nat (length xs) \<and>
     currentCost (snd s') = currentCost (snd s) + assigned_cost xs (availableInterfaces (fst s))"

lemma spreads_Nil [simp]: "spreads [] s s"
  by (simp add: spreads_def assigned_cost_def)

lemma map_cost_assign [simp]: "map cost (assign_packets xs ifaces) = map cost ifaces"
  by (rule map_assign_packets) simp

lemma spreads_trans:
  assumes "spreads xs s t" and "spreads ys t u"
  shows "spreads (xs @ ys) s u"
proof -
  have "assigned_cost ys (availableInterfaces (fst t)) = assigned_cost ys (availableInterfaces (fst s))"
    using assms by (intro assigned_cost_cong) (auto simp: spreads_def)
  then show ?thesis
    using assms by (simp add: spreads_def assign_packets_append assigned_cost_def)
qed

definition moved ::
  "sim_time \<Rightarrow> nat \<Rightarrow> u32 \<Rightarrow> nat \<Rightarrow> 'a strategy_scheme \<times> compute_locals \<Rightarrow>
     'a strategy_scheme \<times> compute_locals \<Rightarrow> bool"
where
  "moved now i ident j s s' \<longleftrightarrow>
     applications (fst s') = (applications (fst s))[i := app_dropped 1 (applications (fst s) ! i)] \<and>
     spreads [(j, packet_info now ident)] s s'"

locale packet_spreader =
  fixes body :: "sim_time \<Rightarrow> nat \<Rightarrow> u32 \<Rightarrow> 'a strategy_scheme \<times> compute_locals \<Rightarrow>
      ('a strategy_scheme \<times> compute_locals) res"
    and loop :: "sim_time \<Rightarrow> nat \<Rightarrow> u32 \<Rightarrow> 'a strategy_scheme \<times> compute_locals \<Rightarrow>
      ('a strategy_scheme \<times> compute_locals) res"
    and visit :: "sim_time \<Rightarrow> nat \<Rightarrow> 'a strategy_scheme \<times> compute_locals \<Rightarrow>
      ('a strategy_scheme \<times> compute_locals) res"
    and pick :: "'a strategy_scheme \<times> compute_locals \<Rightarrow> nat"
    and inv :: "'a strategy_scheme \<times> compute_locals \<Rightarrow> bool"
  assumes body_ok: "inv s \<Longrightarrow> i < length (applications (fst s)) \<Longrightarrow>
      app_pending (applications (fst s) ! i) \<noteq> [] \<Longrightarrow>
      \<exists>s'. body now i ident s = Inr s' \<and> inv s' \<and> moved now i ident (pick s) s s'"
    and loop_eq: "i < length (applications (fst s)) \<Longrightarrow>
      loop now i ident s =
        (if app_pending (applications (fst s) ! i) = [] then Inr s
         else res_bind (body now i ident s) (loop now i ident))"
    and visit_eq: "inv s \<Longrightarrow> i < length (applications (fst s)) \<Longrightarrow>
      visit now i s =
        (if app_pending (applications (fst s) ! i) = [] then Inr s
         else loop now i (app_id (applications (fst s) ! i)) s)"
begin

lemma loop_ok:
  assumes "inv s" and "i < length (applications (fst s))"
  shows "\<exists>s' js. loop now i ident s = Inr s' \<and> inv s' \<and>
    length js = length (app_pending (applications (fst s) ! i)) \<and>
    spreads (map (\<lambda>j. (j, packet_info now ident)) js) s s' \<and>
    applications (fst s') = (applications (fst s))[i := app_drained (applications (fst s) ! i)]"
  using assms
proof (induction "length (app_pending (applications (fst s) ! i))" arbitrary: s)
  case 0
  have "app_drained (applications (fst s) ! i) = applications (fst s) ! i"
    using 0(1) app_dropped_all [of "applications (fst s) ! i" 0] by simp
  then show ?case using 0 by (intro exI [of _ s] exI [of _ "[]"]) (simp add: loop_eq)
next
  case (Suc n)
  let ?apps = "applications (fst s)"
  have ne: "app_pending (?apps ! i) \<noteq> []" using Suc.hyps(2) by auto
  obtain t where t: "body now i ident s = Inr t" "inv t" "moved now i ident (pick s) s t"
    using body_ok [OF Suc.prems ne, of now ident] by blast
  then have apps: "applications (fst t) = ?apps[i := app_dropped 1 (?apps ! i)]"
    by (simp add: moved_def)
  then have i: "i < length (applications (fst t))" and ti: "applications (fst t) ! i = app_dropped 1 (?apps ! i)"
    using Suc.prems(2) by simp_all
  have n: "n = length (app_pending (applications (fst t) ! i))"
    using Suc.hyps(2) by (simp add: ti)
  obtain s' js where s': "loop now i ident t = Inr s'" "inv s'"
    "length js = length (app_pending (applications (fst t) ! i))"
    "spreads (map (\<lambda>j. (j, packet_info now ident)) js) t s'"
    "applications (fst s') = (applications (fst t))[i := app_drained (applications (fst t) ! i)]"
    using Suc.hyps(1) [OF n t(2) i] by blast
  have dr: "app_drained (app_dropped (Suc 0) a) = app_drained a" for a
    by (cases a) (simp_all add: app_dropped_def)
  have "spreads ([(pick s, packet_info now ident)] @ map (\<lambda>j. (j, packet_info now ident)) js) s s'"
    using t(3) s'(4) by (intro spreads_trans [of _ s t]) (simp_all add: moved_def)
  then show ?case
    using s' t(1) Suc.prems(2) ne Suc.hyps(2)
    by (intro exI [of _ s'] exI [of _ "pick s # js"]) (auto simp: loop_eq apps dr)
qed

lemma sweep_ok:
  assumes "inv s" and "n \<le> length (applications (fst s))"
  shows "\<exists>s' xs. res_fold (visit now) [0..<n] s = Inr s' \<and> inv s' \<and>
    map snd xs = sweep_packets now (take n (applications (fst s))) \<and> spreads xs s s' \<and>
    applications (fst s') =
      map app_drained (take n (applications (fst s))) @ drop n (applications (fst s))"
  using assms(2)
proof (induction n)
  case 0
  then show ?case using assms(1) by (intro exI [of _ s] exI [of _ "[]"]) simp
next
  case (Suc n)
  let ?apps = "applications (fst s)"
  obtain t xs where t: "res_fold (visit now) [0..<n] s = Inr t" "inv t"
    "map snd xs = sweep_packets now (take n ?apps)" "spreads xs s t"
    "applications (fst t) = map app_drained (take n ?apps) @ drop n ?apps"
    using Suc by auto
  have n: "n < length ?apps" using Suc.prems by simp
  then have tn: "applications (fst t) ! n = ?apps ! n" and nt: "n < length (applications (fst t))"
    by (simp_all add: t(5) nth_append)
  have sn: "take (Suc n) ?apps = take n ?apps @ [?apps ! n]"
    using n by (rule take_Suc_conv_app_nth)
  have up: "(map app_drained (take n ?apps) @ drop n ?apps)[n := y] =
      map app_drained (take n ?apps) @ [y] @ drop (Suc n) ?apps" for y
    using n by (simp add: list_update_append Cons_nth_drop_Suc [symmetric])
  obtain s' js where s': "loop now n (app_id (?apps ! n)) t = Inr s'" "inv s'"
    "length js = length (app_pending (?apps ! n))"
    "spreads (map (\<lambda>j. (j, packet_info now (app_id (?apps ! n)))) js) t s'"
    "applications (fst s') = (applications (fst t))[n := app_drained (?apps ! n)]"
    using loop_ok [OF t(2) nt, of now "app_id (?apps ! n)"] tn by auto
  have v: "visit now n t = Inr s'"
    using s'(1) by (auto simp: visit_eq [OF t(2) nt] tn loop_eq [OF nt])
  have "spreads (xs @ map (\<lambda>j. (j, packet_info now (app_id (?apps ! n)))) js) s s'"
    using t(4) s'(4) by (rule spreads_trans)
  moreover have "map snd (xs @ map (\<lambda>j. (j, packet_info now (app_id (?apps ! n)))) js) =
      sweep_packets now (take (Suc n) ?apps)"
    by (simp add: t(3) sn s'(3) [symmetric] comp_def map_replicate_const)
  ultimately show ?case
    using s' t(1) v
    by (intro exI [of _ s'] exI [of _ "xs @ map (\<lambda>j. (j, packet_info now (app_id (?apps ! n)))) js"])
      (simp add: res_fold_append t(5) up sn)
qed

end

text \<open>
  When the choice of a step follows from the choice before it by going round the interfaces, the
  whole assignment is known.
\<close>

definition round_robin_from :: "nat \<Rightarrow> nat \<Rightarrow> nat \<Rightarrow> nat list" where
  "round_robin_from m k n = map (\<lambda>i. (k + i) mod m) [0..<n]"

lemma round_robin_from_simps:
  "length (round_robin_from m k n) = n"
  "round_robin_from m k 0 = []"
  "k < m \<Longrightarrow> round_robin_from m k (Suc n) = k # round_robin_from m (Suc k mod m) n"
  "round_robin_from m k (a + b) = round_robin_from m k a @ round_robin_from m ((k + a) mod m) b"
proof -
  show "length (round_robin_from m k n) = n" "round_robin_from m k 0 = []"
    by (simp_all add: round_robin_from_def)
  have st: "map (\<lambda>i. (k + i) mod m) [a..<a + b] = map (\<lambda>i. ((k + a) mod m + i) mod m) [0..<b]" for a b
    by (rule nth_equalityI) (simp_all add: mod_add_left_eq add.assoc)
  show "k < m \<Longrightarrow> round_robin_from m k (Suc n) = k # round_robin_from m (Suc k mod m) n"
    using st [of 1 n] by (simp add: round_robin_from_def upt_Suc_Cons del: upt_Suc)
  show "round_robin_from m k (a + b) = round_robin_from m k a @ round_robin_from m ((k + a) mod m) b"
    using st [of a b] by (simp add: round_robin_from_def upt_add_eq_append [of 0 a b, simplified])
qed

locale cyclic_spreader = packet_spreader +
  assumes pick_next: "inv s \<Longrightarrow> i < length (applications (fst s)) \<Longrightarrow>
      app_pending (applications (fst s) ! i) \<noteq> [] \<Longrightarrow> body now i ident s = Inr s' \<Longrightarrow>
      pick s' = Suc (pick s) mod length (availableInterfaces (fst s))"
    and pick_lt: "inv s \<Longrightarrow> pick s < length (availableInterfaces (fst s))"
begin

lemma loop_cyclic:
  assumes "inv s" and "i < length (applications (fst s))" and "loop now i ident s = Inr s'"
  shows "let m = length (availableInterfaces (fst s)); n = length (app_pending (applications (fst s) ! i))
    in spreads (zip (round_robin_from m (pick s) n) (replicate n (packet_info now ident))) s s' \<and>
       pick s' = (pick s + n) mod m"
  using assms
proof (induction "length (app_pending (applications (fst s) ! i))" arbitrary: s)
  case 0
  then show ?case using pick_lt [OF 0(2)] by (simp add: loop_eq round_robin_from_simps)
next
  case (Suc n)
  let ?apps = "applications (fst s)"
  let ?m = "length (availableInterfaces (fst s))"
  have ne: "app_pending (?apps ! i) \<noteq> []" using Suc.hyps(2) by auto
  obtain t where t: "body now i ident s = Inr t" "inv t" "moved now i ident (pick s) s t"
    using body_ok [OF Suc.prems(1,2) ne, of now ident] by blast
  have lt: "loop now i ident t = Inr s'"
    using Suc.prems(2,3) ne t(1) by (simp add: loop_eq)
  have i: "i < length (applications (fst t))" and n: "n = length (app_pending (applications (fst t) ! i))"
    and m: "length (availableInterfaces (fst t)) = ?m"
    and sp: "spreads [(pick s, packet_info now ident)] s t"
    using t(3) Suc.prems(2) Suc.hyps(2) by (auto simp: moved_def spreads_def)
  have pk: "pick t = Suc (pick s) mod ?m"
    by (rule pick_next [OF Suc.prems(1,2) ne t(1)])
  have IH: "spreads (zip (round_robin_from ?m (pick t) n) (replicate n (packet_info now ident))) t s'"
    "pick s' = (pick t + n) mod ?m"
    using Suc.hyps(1) [OF n t(2) i lt] by (simp_all add: Let_def m n [symmetric])
  show ?case
    using spreads_trans [OF sp IH(1)] IH(2) pick_lt [OF Suc.prems(1)]
    by (simp add: Let_def Suc.hyps(2) [symmetric] round_robin_from_simps pk mod_Suc_eq mod_add_left_eq)
qed

lemma visit_cyclic:
  assumes "inv s" and "i < length (applications (fst s))" and "visit now i s = Inr s'"
  shows "let m = length (availableInterfaces (fst s)); a = applications (fst s) ! i;
             n = length (app_pending a)
    in spreads (zip (round_robin_from m (pick s) n) (replicate n (packet_info now (app_id a)))) s s' \<and>
       pick s' = (pick s + n) mod m"
proof (cases "app_pending (applications (fst s) ! i) = []")
  case True
  then show ?thesis
    using assms pick_lt [OF assms(1)] by (simp add: visit_eq Let_def round_robin_from_simps)
next
  case False
  then have "loop now i (app_id (applications (fst s) ! i)) s = Inr s'"
    using assms by (simp add: visit_eq)
  from loop_cyclic [OF assms(1,2) this] show ?thesis by (simp add: Let_def)
qed

lemma sweep_cyclic:
  assumes "inv s" and "n \<le> length (applications (fst s))"
    and "res_fold (visit now) [0..<n] s = Inr s'"
  shows "let m = length (availableInterfaces (fst s)); apps = take n (applications (fst s))
    in spreads (zip (round_robin_from m (pick s) (pending apps)) (sweep_packets now apps)) s s' \<and>
       pick s' = (pick s + pending apps) mod m"
  using assms(2,3)
proof (induction n arbitrary: s')
  case 0
  then show ?case
    using pick_lt [OF assms(1)] by (simp add: Let_def)
next
  case (Suc n)
  let ?apps = "applications (fst s)"
  let ?m = "length (availableInterfaces (fst s))"
  have n: "n \<le> length ?apps" "n < length ?apps" using Suc.prems(1) by simp_all
  obtain t xs where t: "res_fold (visit now) [0..<n] s = Inr t" "inv t" "spreads xs s t"
    "applications (fst t) = map app_drained (take n ?apps) @ drop n ?apps"
    using sweep_ok [OF assms(1) n(1), of now] by blast
  have tn: "applications (fst t) ! n = ?apps ! n" "n < length (applications (fst t))"
    "length (availableInterfaces (fst t)) = ?m"
    using n(2) t(3,4) by (simp_all add: nth_append spreads_def)
  have v: "visit now n t = Inr s'"
    using Suc.prems(2) by (auto simp: res_fold_append t(1) res_bind_Inr_iff)
  have sn: "take (Suc n) ?apps = take n ?apps @ [?apps ! n]"
    using n(2) by (rule take_Suc_conv_app_nth)
  have IH: "spreads (zip (round_robin_from ?m (pick s) (pending (take n ?apps)))
        (sweep_packets now (take n ?apps))) s t"
    "pick t = (pick s + pending (take n ?apps)) mod ?m"
    using Suc.IH [OF n(1) t(1)] by (simp_all add: Let_def)
  show ?case
    using visit_cyclic [OF t(2) tn(2) v] IH spreads_trans [OF IH(1)]
    by (simp add: Let_def tn sn round_robin_from_simps(1,4) length_sweep_packets
        mod_add_left_eq add.assoc)
qed

end

end
