(* ===== verification/Round_Robin.thy ===== *)
theory Round_Robin
  imports Spread_Contract
begin

text \<open>
  \<open>RoundRobinStrategy\<close>: \<open>Compute\<close> sends the pending packets of the applications, in order, to the
  interfaces in turn, starting at the first one at every call.
\<close>

definition RoundRobinStrategy :: "application list \<Rightarrow> isp_interface list \<Rightarrow> strategy" where
  "RoundRobinStrategy apps ifaces = Strategy apps ifaces"

text \<open>The body of the inner loop; the number of interfaces is the 32-bit \<open>totalInterfacesAmount\<close>.\<close>

definition rr_body ::
  "u32 \<Rightarrow> sim_time \<Rightarrow> nat \<Rightarrow> u32 \<Rightarrow> 'a strategy_scheme \<times> compute_locals \<Rightarrow>
     ('a strategy_scheme \<times> compute_locals) res"
where
  "rr_body totalInterfacesAmount currentTime i ident sl =
     (case sl of (s, l) \<Rightarrow>
        let l = l\<lparr>currentPendingPackages := currentPendingPackages l + 1\<rparr> in
        res_bind (pop_application i s) (\<lambda>s.
        let packetInfo = \<lparr>dateEnqueued = currentTime, originatedFrom = ident\<rparr> in
        res_bind (enqueue_on (unat (currentIndex l)) packetInfo s) (\<lambda>s.
        res_bind (cost_of (unat (currentIndex l)) s) (\<lambda>c.
        let l = l\<lparr>currentCost := currentCost l + c\<rparr> in
        if totalInterfacesAmount = 0 then Inl (Undefined ''division by zero'')
        else Inr (s, l\<lparr>currentIndex := (currentIndex l + 1) mod totalInterfacesAmount\<rparr>)))))"

text \<open>The loop ends because every round pops a packet of the application.\<close>

lemma pop_application_eq:
  "i < length (applications s) \<Longrightarrow> app_pending (applications s ! i) \<noteq> [] \<Longrightarrow>
   pop_application i s =
     Inr (s\<lparr>applications := (applications s)[i := app_dropped 1 (applications s ! i)]\<rparr>)"
  by (simp add: pop_application_def app_pop_eq)

lemma enqueue_on_eq:
  "j < length (availableInterfaces s) \<Longrightarrow>
   enqueue_on j p s =
     Inr (s\<lparr>availableInterfaces :=
       (availableInterfaces s)[j := enqueuePacket p (availableInterfaces s ! j)]\<rparr>)"
  by (simp add: enqueue_on_def)

lemma cost_of_eq:
  "j < length (availableInterfaces s) \<Longrightarrow> cost_of j s = Inr (cost (availableInterfaces s ! j))"
  by (simp add: cost_of_def)

lemma rr_body_apps:
  assumes "rr_body m now i ident sl = Inr sl'" and "i < length (applications (fst sl))"
    and "app_pending (applications (fst sl) ! i) \<noteq> []"
  shows "applications (fst sl') =
    (applications (fst sl))[i := app_dropped 1 (applications (fst sl) ! i)]"
  using assms
  by (cases sl) (auto simp: rr_body_def pop_application_eq enqueue_on_def res_bind_Inr_iff Let_def
      split: if_splits)

function rr_loop ::
  "u32 \<Rightarrow> sim_time \<Rightarrow> nat \<Rightarrow> u32 \<Rightarrow> 'a strategy_scheme \<times> compute_locals \<Rightarrow>
     ('a strategy_scheme \<times> compute_locals) res"
where
  "rr_loop m now i ident sl =
     (if length (applications (fst sl)) \<le> i then Inl OutOfRange
      else if app_pending (applications (fst sl) ! i) = [] then Inr sl
      else res_bind (rr_body m now i ident sl) (rr_loop m now i ident))"
  by pat_completeness auto
termination
  by (relation "measure (\<lambda>(m, now, i, ident, sl). length (app_pending (applications (fst sl) ! i)))")
    (auto dest: rr_body_apps)

declare rr_loop.simps [simp del]

text \<open>The body of the outer loop.\<close>

definition rr_visit ::
  "u32 \<Rightarrow> sim_time \<Rightarrow> nat \<Rightarrow> 'a strategy_scheme \<times> compute_locals \<Rightarrow>
     ('a strategy_scheme \<times> compute_locals) res"
where
  "rr_visit m now i sl =
     res_bind (vec_at (applications (fst sl)) i) (\<lambda>currentApplication.
       if app_pending currentApplication = [] then Inr sl
       else rr_loop m now i (app_id currentApplication) sl)"

definition RoundRobin_Compute :: "bool \<Rightarrow> sim_time \<Rightarrow> strategy \<Rightarrow> strategy computed res" where
  "RoundRobin_Compute opened now s =
     (let totalInterfacesAmount = of_nat (length (availableInterfaces s)) :: u32;
          l = \<lparr>currentIndex = 0, currentCost = 0, currentPendingPackages = 0\<rparr>
      in res_bind (res_fold (rr_visit totalInterfacesAmount now) [0..<length (applications s)] (s, l))
           (\<lambda>(s, l).
             printWhenAllSent opened ''outputRoundRobin.csv''
               (push_data_point (currentCost l) (currentPendingPackages l) s)))"

section \<open>The walk as a packet spreader\<close>

text \<open>The index stays below the number of interfaces, which must fit the 32-bit counter.\<close>

definition rr_inv :: "nat \<Rightarrow> 'a strategy_scheme \<times> compute_locals \<Rightarrow> bool" where
  "rr_inv m sl \<longleftrightarrow>
     length (availableInterfaces (fst sl)) = m \<and> m < 4294967296 \<and>
     unat (currentIndex (snd sl)) < m"

lemma unat_u32_mod: "unat (a mod b :: u32) = unat a mod unat b"
  by (simp add: unat_mod_distrib)

lemma rr_next_index:
  assumes "unat k < m" and "m < 4294967296"
  shows "unat ((k + 1) mod (of_nat m :: u32)) = Suc (unat k) mod m"
  using assms by (simp add: unat_u32_mod unat_u32_Suc)

lemma rr_body_ok:
  assumes "rr_inv m sl" and "i < length (applications (fst sl))"
    and "app_pending (applications (fst sl) ! i) \<noteq> []"
  shows "\<exists>sl'. rr_body (of_nat m) now i ident sl = Inr sl' \<and> rr_inv m sl' \<and>
    moved now i ident (unat (currentIndex (snd sl))) sl sl' \<and>
    unat (currentIndex (snd sl')) = Suc (unat (currentIndex (snd sl))) mod m"
proof -
  obtain s l where sl: "sl = (s, l)" by (cases sl)
  have m: "length (availableInterfaces s) = m" "m < 4294967296" "unat (currentIndex l) < m" "0 < m"
    using assms(1) by (auto simp: rr_inv_def sl)
  have nz: "(of_nat m :: u32) \<noteq> 0"
    using m(2,4) unat_u32_of_nat_small [of m] by (metis less_numeral_extra(3) unat_0)
  show ?thesis
    using assms m nz
    by (auto simp: sl rr_body_def pop_application_eq enqueue_on_eq cost_of_eq Let_def rr_inv_def
        moved_def spreads_def assigned_cost_def packet_info_def rr_next_index)
qed

interpretation rr: cyclic_spreader
  "rr_body (of_nat m)" "rr_loop (of_nat m)" "rr_visit (of_nat m)"
  "\<lambda>sl. unat (currentIndex (snd sl))" "rr_inv m"
  for m
proof
  fix now i ident and s :: "'a strategy_scheme \<times> compute_locals"
  assume "rr_inv m s" "i < length (applications (fst s))" "app_pending (applications (fst s) ! i) \<noteq> []"
  from rr_body_ok [OF this, of now ident]
  show "\<exists>s'. rr_body (of_nat m) now i ident s = Inr s' \<and> rr_inv m s' \<and>
      moved now i ident (unat (currentIndex (snd s))) s s'"
    by blast
next
  fix now i ident and s :: "'a strategy_scheme \<times> compute_locals"
  assume "i < length (applications (fst s))"
  then show "rr_loop (of_nat m) now i ident s =
      (if app_pending (applications (fst s) ! i) = [] then Inr s
       else res_bind (rr_body (of_nat m) now i ident s) (rr_loop (of_nat m) now i ident))"
    by (subst rr_loop.simps) simp
next
  fix now i and s :: "'a strategy_scheme \<times> compute_locals"
  assume "i < length (applications (fst s))"
  then show "rr_visit (of_nat m) now i s =
      (if app_pending (applications (fst s) ! i) = [] then Inr s
       else rr_loop (of_nat m) now i (app_id (applications (fst s) ! i)) s)"
    by (simp add: rr_visit_def)
next
  fix now i ident and s s' :: "'a strategy_scheme \<times> compute_locals"
  assume a: "rr_inv m s" "i < length (applications (fst s))"
    "app_pending (applications (fst s) ! i) \<noteq> []" and b: "rr_body (of_nat m) now i ident s = Inr s'"
  show "unat (currentIndex (snd s')) =
      Suc (unat (currentIndex (snd s))) mod length (availableInterfaces (fst s))"
    using rr_body_ok [OF a, of now ident] b a(1) by (auto simp: rr_inv_def)
next
  fix s :: "'a strategy_scheme \<times> compute_locals"
  assume "rr_inv m s"
  then show "unat (currentIndex (snd s)) < length (availableInterfaces (fst s))"
    by (simp add: rr_inv_def)
qed

section \<open>What \<open>Compute\<close> returns\<close>

text \<open>The reference: packet \<open>k\<close> of the walk goes to interface \<open>k mod m\<close>.\<close>

definition rr_assignment :: "sim_time \<Rightarrow> 'a strategy_scheme \<Rightarrow> (nat \<times> send_packet_info) list" where
  "rr_assignment now s =
     zip (round_robin_from (length (availableInterfaces s)) 0 (pending (applications s)))
       (sweep_packets now (applications s))"

lemma length_rr_assignment: "length (rr_assignment now s) = pending (applications s)"
  by (simp add: rr_assignment_def round_robin_from_simps length_sweep_packets)

lemma snd_rr_assignment: "map snd (rr_assignment now s) = sweep_packets now (applications s)"
  by (simp add: rr_assignment_def round_robin_from_simps length_sweep_packets)

lemma rr_assignment_bound:
  "0 < length (availableInterfaces s) \<Longrightarrow>
   list_all (\<lambda>x. fst x < length (availableInterfaces s)) (rr_assignment now s)"
  by (auto simp: rr_assignment_def round_robin_from_def list_all_iff dest!: set_zip_leftD)

definition rr_moved :: "sim_time \<Rightarrow> strategy \<Rightarrow> strategy" where
  "rr_moved now s =
     push_data_point (assigned_cost (rr_assignment now s) (availableInterfaces s))
       (of_nat (pending (applications s)))
       (s\<lparr>applications := map app_drained (applications s),
          availableInterfaces := assign_packets (rr_assignment now s) (availableInterfaces s)\<rparr>)"

lemma RoundRobin_Compute_eq:
  assumes "0 < length (availableInterfaces s)" and "length (availableInterfaces s) < 4294967296"
  shows "RoundRobin_Compute opened now s =
    printWhenAllSent opened ''outputRoundRobin.csv'' (rr_moved now s)"
proof -
  let ?m = "length (availableInterfaces s)"
  let ?l = "\<lparr>currentIndex = 0, currentCost = 0, currentPendingPackages = 0\<rparr>"
  have inv: "rr_inv ?m (s, ?l)" using assms by (simp add: rr_inv_def)
  obtain s' l' where f: "res_fold (rr_visit (of_nat ?m) now) [0..<length (applications s)] (s, ?l) = Inr (s', l')"
    and apps: "applications s' = map app_drained (applications s)"
    using rr.sweep_ok [OF inv, of "length (applications s)" now] by auto
  have sp: "spreads (rr_assignment now s) (s, ?l) (s', l')"
    using rr.sweep_cyclic [OF inv _ f] by (simp add: Let_def rr_assignment_def)
  have "s' = s\<lparr>applications := map app_drained (applications s),
      availableInterfaces := assign_packets (rr_assignment now s) (availableInterfaces s)\<rparr>"
    using sp apps by (cases s; cases s') (simp add: spreads_def)
  moreover have "currentCost l' = assigned_cost (rr_assignment now s) (availableInterfaces s)"
    "currentPendingPackages l' = of_nat (pending (applications s))"
    using sp by (simp_all add: spreads_def length_rr_assignment)
  ultimately show ?thesis
    by (simp add: RoundRobin_Compute_def f rr_moved_def)
qed


lemma rr_moved_simps [simp]:
  "applications (rr_moved now s) = map app_drained (applications s)"
  "availableInterfaces (rr_moved now s) =
     assign_packets (rr_assignment now s) (availableInterfaces s)"
  by (simp_all add: rr_moved_def)

section \<open>Fairness\<close>

lemma mod_eq_iff_add:
  fixes N :: nat
  assumes "j < m"
  shows "(N + (m - j)) mod m = 0 \<longleftrightarrow> N mod m = j"
proof -
  define r where "r = N mod m"
  have r: "r < m" using assms by (simp add: r_def)
  have e: "(N + (m - j)) mod m = (r + (m - j)) mod m" by (simp add: r_def mod_add_left_eq)
  consider "r = j" | "r < j" | "j < r" by linarith
  then show ?thesis
  proof cases
    case 1
    then show ?thesis using r e assms by (simp add: r_def [symmetric])
  next
    case 2
    then show ?thesis using r e assms by (simp add: r_def [symmetric])
  next
    case 3
    then have "r + (m - j) = (r - j) + m" using assms by simp
    then have "(r + (m - j)) mod m = r - j"
      using r by (simp only: mod_add_self2) simp
    then show ?thesis using 3 e by (simp only: r_def [symmetric]) simp
  qed
qed

lemma round_robin_count:
  assumes "j < m"
  shows "length (filter (\<lambda>k. k = j) (round_robin_from m 0 N)) = (N + (m - 1 - j)) div m"
proof (induction N)
  case 0
  then show ?case using assms by (simp add: round_robin_from_def)
next
  case (Suc N)
  define k where "k = N + (m - 1 - j)"
  have k: "Suc N + (m - 1 - j) = Suc k" "Suc k = N + (m - j)"
    using assms by (simp_all add: k_def)
  then have "Suc k div m = k div m + (if N mod m = j then 1 else 0)"
    using mod_eq_iff_add [OF assms, of N] div_Suc [of k m] by simp
  then have "(Suc N + (m - 1 - j)) div m =
      (N + (m - 1 - j)) div m + (if N mod m = j then 1 else 0)"
    by (simp only: k(1) k_def [symmetric])
  then show ?case
    using Suc by (simp add: round_robin_from_def)
qed

lemma filter_zip_fst:
  "length xs = length ys \<Longrightarrow>
   length (filter (\<lambda>x. fst x = j) (zip xs ys)) = length (filter (\<lambda>k. k = j) xs)"
  by (induction xs ys rule: list_induct2) auto

lemma rr_share:
  assumes "j < length (availableInterfaces s)"
  shows "length (if_pendingpackets (availableInterfaces (rr_moved now s) ! j)) =
    length (if_pendingpackets (availableInterfaces s ! j)) +
    (pending (applications s) + (length (availableInterfaces s) - 1 - j)) div
      length (availableInterfaces s)"
  using assms
  by (simp add: assign_packets_queue rr_assignment_def filter_zip_fst round_robin_from_simps
      length_sweep_packets round_robin_count)

section \<open>Properties\<close>

text \<open>A strategy with two applications and two interfaces, to instantiate the properties with.\<close>

definition sample_iface :: "u32 \<Rightarrow> u32 \<Rightarrow> isp_interface" where
  "sample_iface ident c =
     ISPInterface ident ''Intf'' \<lparr>channelDataRate = 1024000, channelDelay = 2000000\<rparr>
       (SocketAddress IPv4 1 8080) 0 (SocketAddress IPv4 2 8080)
       \<lparr>errorEnabled = True, errorUnit = ERROR_UNIT_PACKET, errorRateAttribute = Fin 0\<rparr> c"

definition sample_app :: "u32 \<Rightarrow> u32 \<Rightarrow> application" where
  "sample_app ident n =
     StaticApp (static_OnApplicationStart (SDWanStaticApplication False ident 1024 100 50 n))"

definition sample_strategy :: strategy where
  "sample_strategy = Strategy [sample_app 101 2, sample_app 102 1] [sample_iface 0 3, sample_iface 1 5]"

lemma sample_app_simps [simp]:
  "app_id (sample_app ident n) = ident"
  "app_pending (sample_app ident n) = map of_nat [0..<unat n]"
  by (simp_all add: sample_app_def static_OnApplicationStart_def SDWanStaticApplication_def
      SDWanApplication_def sdwan_application.defs sdwan_static.defs Let_def push_packets_eq)

lemma sample_iface_simps [simp]:
  "if_pendingpackets (sample_iface ident c) = []"
  "cost (sample_iface ident c) = c"
  by (simp_all add: sample_iface_def ISPInterface_def)

lemma sample_strategy_simps [simp]:
  "applications sample_strategy = [sample_app 101 2, sample_app 102 1]"
  "availableInterfaces sample_strategy = [sample_iface 0 3, sample_iface 1 5]"
  "strategyData sample_strategy = []"
  by (simp_all add: sample_strategy_def Strategy_def)

lemma sample_computes:
  obtains f where "RoundRobin_Compute True 7 sample_strategy = Inr (rr_moved 7 sample_strategy, f)"
proof -
  have "RoundRobin_Compute True 7 sample_strategy =
      printWhenAllSent True ''outputRoundRobin.csv'' (rr_moved 7 sample_strategy)"
    by (rule RoundRobin_Compute_eq) simp_all
  then show thesis using printWhenAllSent_opened that by metis
qed

text \<open>
  C2. With at least one interface (and fewer than \<open>2^32\<close>), the round-robin computation always
  returns; it leaves no pending packet, appends the \<open>k\<close>-th pending packet of the walk over the
  applications to the queue of interface \<open>k mod m\<close>, marked with its application and the current
  time, and records the number of packets and their cost.
\<close>

theorem RoundRobin_Compute_assigns:
  assumes "0 < length (availableInterfaces s)" and "length (availableInterfaces s) < 4294967296"
  shows "\<exists>s' file. RoundRobin_Compute True now s = Inr (s', file) \<and>
    applications s' = map app_drained (applications s) \<and>
    (\<forall>j < length (availableInterfaces s).
       if_pendingpackets (availableInterfaces s' ! j) =
         if_pendingpackets (availableInterfaces s ! j) @
         map ((!) (sweep_packets now (applications s)))
           (filter (\<lambda>k. k mod length (availableInterfaces s) = j) [0..<pending (applications s)])) \<and>
    dp_currentAmountOfPackets (last (strategyData s')) = of_nat (pending (applications s)) \<and>
    dp_currentCost (last (strategyData s')) =
      sum_list (map (\<lambda>k. cost (availableInterfaces s ! (k mod length (availableInterfaces s))))
        [0..<pending (applications s)])"
proof -
  let ?m = "length (availableInterfaces s)"
  let ?ps = "sweep_packets now (applications s)"
  have as: "rr_assignment now s = map (\<lambda>k. (k mod ?m, ?ps ! k)) [0..<pending (applications s)]"
    by (rule nth_equalityI)
      (simp_all add: rr_assignment_def round_robin_from_def length_sweep_packets)
  obtain f where f: "RoundRobin_Compute True now s = Inr (rr_moved now s, f)"
    using printWhenAllSent_opened RoundRobin_Compute_eq [OF assms] by metis
  have "dp_currentCost (last (strategyData (rr_moved now s))) =
      sum_list (map (\<lambda>k. cost (availableInterfaces s ! (k mod ?m))) [0..<pending (applications s)])"
    by (simp add: rr_moved_def assigned_cost_def as comp_def)
  moreover have "dp_currentAmountOfPackets (last (strategyData (rr_moved now s))) =
      of_nat (pending (applications s))"
    by (simp add: rr_moved_def)
  ultimately show ?thesis
    by (intro exI [of _ "rr_moved now s"] exI [of _ f])
      (simp add: f assign_packets_queue as filter_map comp_def)
qed

theorem RoundRobin_Compute_assigns_witness:
  "\<exists>s' file. RoundRobin_Compute True 7 sample_strategy = Inr (s', file) \<and>
     if_pendingpackets (availableInterfaces s' ! 0) = [packet_info 7 101, packet_info 7 102] \<and>
     if_pendingpackets (availableInterfaces s' ! 1) = [packet_info 7 101] \<and>
     dp_currentCost (last (strategyData s')) = 11"
proof -
  have two: "replicate 2 p = [p, p]" for p :: send_packet_info by (simp add: numeral_2_eq_2)
  have sw: "sweep_packets 7 (applications sample_strategy) =
      [packet_info 7 101, packet_info 7 101, packet_info 7 102]"
    by (simp add: sweep_packets_def two)
  have n: "pending (applications sample_strategy) = 3" by simp
  have md: "2 mod Suc (Suc 0) = (0::nat)" by (simp add: numeral_2_eq_2)
  have up: "[0..<3::nat] = [0, 1, 2]" by (simp add: upt_rec)
  show ?thesis
    using RoundRobin_Compute_assigns [of sample_strategy 7] unfolding sw n up
    by (auto simp: All_less_Suc md)
qed


text \<open>
  C8. The round-robin computation is fair: with \<open>m\<close> interfaces and \<open>N\<close> pending packets, interface
  \<open>j\<close> receives \<open>(N + m - 1 - j) div m\<close> of them, so two interfaces never differ by more than one.
\<close>

theorem RoundRobin_Compute_fair:
  assumes "RoundRobin_Compute opened now s = Inr (s', file)"
    and "length (availableInterfaces s) < 4294967296" and "j < length (availableInterfaces s)"
  shows "length (if_pendingpackets (availableInterfaces s' ! j)) =
    length (if_pendingpackets (availableInterfaces s ! j)) +
    (pending (applications s) + (length (availableInterfaces s) - 1 - j)) div
      length (availableInterfaces s)"
proof -
  have "0 < length (availableInterfaces s)" using assms(3) by linarith
  then have "s' = rr_moved now s"
    using assms(1) RoundRobin_Compute_eq [OF _ assms(2)] printWhenAllSent_Inr by metis
  then show ?thesis using rr_share [OF assms(3)] by simp
qed

theorem RoundRobin_Compute_fair_witness:
  "\<exists>s' file. RoundRobin_Compute True 7 sample_strategy = Inr (s', file) \<and>
     length (if_pendingpackets (availableInterfaces s' ! 0)) = 2 \<and>
     length (if_pendingpackets (availableInterfaces s' ! 1)) = 1"
proof -
  obtain f where f: "RoundRobin_Compute True 7 sample_strategy = Inr (rr_moved 7 sample_strategy, f)"
    by (rule sample_computes)
  have "length (if_pendingpackets (availableInterfaces (rr_moved 7 sample_strategy) ! 0)) = 2"
    using RoundRobin_Compute_fair [OF f, of 0] by (simp flip: numeral_2_eq_2)
  moreover have "length (if_pendingpackets (availableInterfaces (rr_moved 7 sample_strategy) ! 1)) = 1"
    using RoundRobin_Compute_fair [OF f, of 1] by (simp flip: numeral_2_eq_2)
  ultimately show ?thesis using f by blast
qed

text \<open>
  The round-robin computation neither loses nor invents packets: for every application
  identifier, the packets queued on the interfaces grow by exactly the ones that were pending.
\<close>

lemma RoundRobin_Compute_conserves:
  assumes "RoundRobin_Compute opened now s = Inr (s', file)"
    and "0 < length (availableInterfaces s)" and "length (availableInterfaces s) < 4294967296"
  shows "queued_from x (availableInterfaces s') =
      queued_from x (availableInterfaces s) + pending_from x (applications s) \<and>
    pending_from x (applications s') = 0"
proof -
  have "s' = rr_moved now s"
    using assms(1) RoundRobin_Compute_eq [OF assms(2,3)] printWhenAllSent_Inr by metis
  moreover have "pending_from x (map app_drained apps) = 0" for apps
    by (induction apps) simp_all
  ultimately show ?thesis
    using queued_from_assign [OF rr_assignment_bound [OF assms(2)], of x now]
    by (simp add: snd_rr_assignment packets_from_sweep)
qed

text \<open>
  Without an interface the computation throws \<open>std::out_of_range\<close> as soon as an application
  has a pending packet.
\<close>

lemma RoundRobin_Compute_no_interface:
  assumes "availableInterfaces s = []" and "0 < pending (applications s)"
  shows "RoundRobin_Compute opened now s = Inl OutOfRange"
proof -
  let ?l = "\<lparr>currentIndex = 0, currentCost = 0, currentPendingPackages = 0\<rparr>"
  have body: "rr_body m now i ident (s, l) = Inl OutOfRange"
    if "i < length (applications s)" "app_pending (applications s ! i) \<noteq> []" for m i ident l
    using that assms(1) by (simp add: rr_body_def pop_application_eq enqueue_on_def Let_def)
  have visit: "rr_visit m now i (s, l) =
      (if app_pending (applications s ! i) = [] then Inr (s, l) else Inl OutOfRange)"
    if "i < length (applications s)" for m i l
    using that body [OF that] by (simp add: rr_visit_def rr_loop.simps)
  have "res_fold (rr_visit m now) [0..<n] (s, l) =
      (if pending (take n (applications s)) = 0 then Inr (s, l) else Inl OutOfRange)"
    if "n \<le> length (applications s)" for m n l
    using that
  proof (induction n)
    case 0
    then show ?case by simp
  next
    case (Suc n)
    then show ?case
      by (simp add: res_fold_append visit take_Suc_conv_app_nth)
  qed
  from this [of "length (applications s)"] show ?thesis
    using assms by (simp add: RoundRobin_Compute_def)
qed

end
