(* ===== verification/Random_Strat.thy ===== *)
theory Random_Strat
  imports Round_Robin
begin

text \<open>
  \<open>RandomStrategy\<close>. The engine (\<open>std::default_random_engine\<close>, implementation-defined) is a state
  \<open>'g\<close> with a function \<open>next\<close>; \<open>seed\<close> gives the state after \<open>rng.seed\<close>, \<open>shuffle\<close> is
  \<open>std::shuffle\<close> on a vector and an engine. Nothing is assumed about them.
\<close>

record 'g random_strategy = strategy +
  rng :: 'g
  out_of_bounds :: "(nat \<times> u32) list"

definition RandomStrategy ::
  "(u32 \<Rightarrow> 'g) \<Rightarrow> application list \<Rightarrow> isp_interface list \<Rightarrow> 'g random_strategy" where
  "RandomStrategy seed apps ifaces =
     strategy.extend (Strategy apps ifaces)
       (random_strategy.fields (seed SeedForRandomGeneration) [])"

text \<open>
  The loop that fills \<open>indexes\<close> runs to \<open>size\<close> inclusive. A store past the end is undefined in the
  language; here it is recorded, with its index and value, and the vector stays as it is.
\<close>

definition store_index :: "nat \<Rightarrow> u32 list \<times> (nat \<times> u32) list \<Rightarrow> u32 list \<times> (nat \<times> u32) list" where
  "store_index i vo =
     (case vo of (v, o') \<Rightarrow>
        if i < length v then (v[i := of_nat i], o') else (v, o' @ [(i, of_nat i)]))"

definition fill_indexes :: "u32 \<Rightarrow> (u32 list \<times> (nat \<times> u32) list) res" where
  "fill_indexes sz =
     (if 2147483647 \<le> unat sz then Inl (Undefined ''int overflow'')
      else Inr (fold store_index [0..<unat sz + 1] (replicate (unat sz) 0, [])))"

definition random_body ::
  "('g \<Rightarrow> nat \<times> 'g) \<Rightarrow> sim_time \<Rightarrow> nat \<Rightarrow> u32 \<Rightarrow> 'g random_strategy \<times> compute_locals \<Rightarrow>
     ('g random_strategy \<times> compute_locals) res"
where
  "random_body next currentTime i ident sl =
     (case sl of (s, l) \<Rightarrow>
        res_bind (pop_application i s) (\<lambda>s.
        let l = l\<lparr>currentPendingPackages := currentPendingPackages l + 1\<rparr>;
            packetInfo = \<lparr>dateEnqueued = currentTime, originatedFrom = ident\<rparr>;
            amountOfInterfaces = length (availableInterfaces s) in
        case next (rng s) of (r, g) \<Rightarrow>
        let s = s\<lparr>rng := g\<rparr> in
        if amountOfInterfaces = 0 then Inl (Undefined ''division by zero'')
        else
          let randomIndex = of_nat (r mod amountOfInterfaces) :: u32 in
          res_bind (enqueue_on (unat randomIndex) packetInfo s) (\<lambda>s.
          res_bind (cost_of (unat randomIndex) s) (\<lambda>c.
          Inr (s, l\<lparr>currentCost := currentCost l + c\<rparr>)))))"

lemma random_body_apps:
  assumes "random_body next now i ident sl = Inr sl'" and "i < length (applications (fst sl))"
    and "app_pending (applications (fst sl) ! i) \<noteq> []"
  shows "applications (fst sl') =
    (applications (fst sl))[i := app_dropped 1 (applications (fst sl) ! i)]"
  using assms
  by (cases sl) (auto simp: random_body_def pop_application_eq enqueue_on_def res_bind_Inr_iff Let_def
      split: if_splits prod.splits)

function random_loop ::
  "('g \<Rightarrow> nat \<times> 'g) \<Rightarrow> sim_time \<Rightarrow> nat \<Rightarrow> u32 \<Rightarrow> 'g random_strategy \<times> compute_locals \<Rightarrow>
     ('g random_strategy \<times> compute_locals) res"
where
  "random_loop next now i ident sl =
     (if length (applications (fst sl)) \<le> i then Inl OutOfRange
      else if app_pending (applications (fst sl) ! i) = [] then Inr sl
      else res_bind (random_body next now i ident sl) (random_loop next now i ident))"
  by pat_completeness auto
termination
  by (relation "measure (\<lambda>(next, now, i, ident, sl). length (app_pending (applications (fst sl) ! i)))")
    (auto dest: random_body_apps)

declare random_loop.simps [simp del]

text \<open>The shuffled index is read (\<open>at\<close> may throw) and then not used.\<close>

definition random_visit ::
  "('g \<Rightarrow> nat \<times> 'g) \<Rightarrow> u32 list \<Rightarrow> sim_time \<Rightarrow> nat \<Rightarrow> 'g random_strategy \<times> compute_locals \<Rightarrow>
     ('g random_strategy \<times> compute_locals) res"
where
  "random_visit next indexes now i sl =
     res_bind (vec_at indexes i) (\<lambda>applicationIndex.
     res_bind (vec_at (applications (fst sl)) i) (\<lambda>currentApplication.
       if app_pending currentApplication = [] then Inr sl
       else random_loop next now i (app_id currentApplication) sl))"

definition Random_Compute ::
  "('g \<Rightarrow> nat \<times> 'g) \<Rightarrow> (u32 list \<Rightarrow> 'g \<Rightarrow> u32 list \<times> 'g) \<Rightarrow> bool \<Rightarrow> sim_time \<Rightarrow>
     'g random_strategy \<Rightarrow> 'g random_strategy computed res"
where
  "Random_Compute next shuffle opened now s =
     (let sz = of_nat (length (applications s)) :: u32 in
      res_bind (fill_indexes sz) (\<lambda>(indexes, outside).
      case shuffle indexes (rng s) of (indexes, g) \<Rightarrow>
      let s = s\<lparr>rng := g, out_of_bounds := out_of_bounds s @ outside\<rparr>;
          l = \<lparr>currentIndex = 0, currentCost = 0, currentPendingPackages = 0\<rparr> in
      res_bind (res_fold (random_visit next indexes now) [0..<length (applications s)] (s, l))
        (\<lambda>(s, l).
          printWhenAllSent opened ''outputRandom.csv''
            (push_data_point (currentCost l) (currentPendingPackages l) s))))"

section \<open>The walk as a packet spreader\<close>

definition random_pick :: "('g \<Rightarrow> nat \<times> 'g) \<Rightarrow> 'g random_strategy \<times> compute_locals \<Rightarrow> nat" where
  "random_pick next sl = fst (next (rng (fst sl))) mod length (availableInterfaces (fst sl))"

definition random_inv :: "nat \<Rightarrow> nat \<Rightarrow> (nat \<times> u32) list \<Rightarrow> 'g random_strategy \<times> compute_locals \<Rightarrow> bool" where
  "random_inv m n oob sl \<longleftrightarrow>
     length (availableInterfaces (fst sl)) = m \<and> 0 < m \<and> m < 4294967296 \<and>
     length (applications (fst sl)) = n \<and> out_of_bounds (fst sl) = oob"

lemma random_body_ok:
  assumes "random_inv m n oob sl" and "i < length (applications (fst sl))"
    and "app_pending (applications (fst sl) ! i) \<noteq> []"
  shows "\<exists>sl'. random_body next now i ident sl = Inr sl' \<and> random_inv m n oob sl' \<and>
    moved now i ident (random_pick next sl) sl sl'"
proof -
  obtain s l where sl: "sl = (s, l)" by (cases sl)
  obtain r g where r: "next (rng s) = (r, g)" by (cases "next (rng s)")
  have m: "length (availableInterfaces s) = m" "m < 4294967296" "0 < m"
    using assms(1) by (auto simp: random_inv_def sl)
  then have lt: "r mod m < m" by simp
  then have un: "unat (of_nat (r mod m) :: u32) = r mod m"
    using m(2) by (intro unat_u32_of_nat_small) linarith
  show ?thesis
    using assms m lt un
    by (auto simp: sl r random_body_def pop_application_eq enqueue_on_eq cost_of_eq Let_def
        random_inv_def moved_def spreads_def assigned_cost_def packet_info_def random_pick_def)
qed

lemma random_visit_simp:
  assumes "random_inv m n oob s" and "length indexes = n" and "i < length (applications (fst s))"
  shows "random_visit next indexes now i s =
    (if app_pending (applications (fst s) ! i) = [] then Inr s
     else random_loop next now i (app_id (applications (fst s) ! i)) s)"
  using assms by (simp add: random_visit_def random_inv_def)

interpretation rand: packet_spreader
  "random_body next" "random_loop next" "random_visit next indexes" "random_pick next"
  "random_inv m (length indexes) oob"
  for "next" indexes m oob
proof
  fix now i ident and s :: "'a random_strategy \<times> compute_locals"
  assume "random_inv m (length indexes) oob s" "i < length (applications (fst s))"
    "app_pending (applications (fst s) ! i) \<noteq> []"
  then show "\<exists>s'. random_body next now i ident s = Inr s' \<and> random_inv m (length indexes) oob s' \<and>
      moved now i ident (random_pick next s) s s'"
    by (rule random_body_ok)
next
  fix now i ident and s :: "'a random_strategy \<times> compute_locals"
  assume "i < length (applications (fst s))"
  then show "random_loop next now i ident s =
      (if app_pending (applications (fst s) ! i) = [] then Inr s
       else res_bind (random_body next now i ident s) (random_loop next now i ident))"
    by (subst random_loop.simps) simp
next
  fix now i and s :: "'a random_strategy \<times> compute_locals"
  assume "random_inv m (length indexes) oob s" "i < length (applications (fst s))"
  then show "random_visit next indexes now i s =
      (if app_pending (applications (fst s) ! i) = [] then Inr s
       else random_loop next now i (app_id (applications (fst s) ! i)) s)"
    using random_visit_simp by blast
qed

section \<open>Filling the indexes\<close>

lemma fill_indexes_within:
  "n \<le> k \<Longrightarrow> fold store_index [0..<n] (replicate k 0, []) = (map of_nat [0..<n] @ replicate (k - n) 0, [])"
proof (induction n)
  case 0
  then show ?case by simp
next
  case (Suc n)
  then have "replicate (k - n) (0::u32) = 0 # replicate (k - Suc n) 0"
    by (simp add: Suc_diff_Suc flip: replicate_Suc)
  then show ?case using Suc
    by (simp add: store_index_def list_update_append)
qed

lemma fill_indexes_eq:
  assumes "unat sz < 2147483647"
  shows "fill_indexes sz = Inr (map of_nat [0..<unat sz], [(unat sz, sz)])"
  using assms fill_indexes_within [of "unat sz" "unat sz"]
  by (simp add: fill_indexes_def store_index_def)

section \<open>What \<open>Compute\<close> returns\<close>

text \<open>\<open>std::shuffle\<close> permutes its range; only that it keeps the length matters here.\<close>

definition shuffle_keeps_length :: "(u32 list \<Rightarrow> 'g \<Rightarrow> u32 list \<times> 'g) \<Rightarrow> bool" where
  "shuffle_keeps_length shuffle \<longleftrightarrow> (\<forall>xs g. length (fst (shuffle xs g)) = length xs)"

lemma Random_Compute_result:
  assumes "0 < length (availableInterfaces s)" and "length (availableInterfaces s) < 4294967296"
    and "length (applications s) < 2147483647" and "shuffle_keeps_length shuffle"
  obtains s' xs where
    "Random_Compute next shuffle opened now s = printWhenAllSent opened ''outputRandom.csv'' s'"
    and "map snd xs = sweep_packets now (applications s)"
    and "list_all (\<lambda>x. fst x < length (availableInterfaces s)) xs"
    and "applications s' = map app_drained (applications s)"
    and "availableInterfaces s' = assign_packets xs (availableInterfaces s)"
    and "out_of_bounds s' = out_of_bounds s @
           [(length (applications s), of_nat (length (applications s)))]"
    and "dp_currentCost (last (strategyData s')) = assigned_cost xs (availableInterfaces s)"
    and "dp_currentAmountOfPackets (last (strategyData s')) = of_nat (pending (applications s))"
    and "butlast (strategyData s') = strategyData s"
proof -
  let ?n = "length (applications s)"
  let ?sz = "of_nat ?n :: u32"
  let ?l = "\<lparr>currentIndex = 0, currentCost = 0, currentPendingPackages = 0\<rparr>"
  have sz: "unat ?sz = ?n" using assms(3) by simp
  have fill: "fill_indexes ?sz = Inr (map of_nat [0..<?n], [(?n, ?sz)])"
    using fill_indexes_eq [of ?sz] assms(3) by (simp add: sz)
  obtain idx g where sh: "shuffle (map of_nat [0..<?n]) (rng s) = (idx, g)"
    by (cases "shuffle (map of_nat [0..<?n]) (rng s)")
  have len: "length idx = ?n"
    using assms(4) sh unfolding shuffle_keeps_length_def
    by (metis fst_conv length_map length_upt diff_zero)
  define s1 where "s1 = s\<lparr>rng := g, out_of_bounds := out_of_bounds s @ [(?n, ?sz)]\<rparr>"
  have s1: "applications s1 = applications s" "availableInterfaces s1 = availableInterfaces s"
    "out_of_bounds s1 = out_of_bounds s @ [(?n, ?sz)]" "strategyData s1 = strategyData s"
    by (simp_all add: s1_def)
  have inv: "random_inv (length (availableInterfaces s)) (length idx) (out_of_bounds s1) (s1, ?l)"
    using assms(1,2) by (simp add: random_inv_def s1 len)
  obtain s2 l2 xs where w:
    "res_fold (random_visit next idx now) [0..<?n] (s1, ?l) = Inr (s2, l2)"
    "random_inv (length (availableInterfaces s)) (length idx) (out_of_bounds s1) (s2, l2)"
    "map snd xs = sweep_packets now (applications s)" "spreads xs (s1, ?l) (s2, l2)"
    "applications s2 = map app_drained (applications s)"
    using rand.sweep_ok [OF inv, of ?n "next" "now"] by (auto simp: s1)
  have "length xs = pending (applications s)"
    using arg_cong [OF w(3), of length] by (simp add: length_sweep_packets)
  moreover have "Random_Compute next shuffle opened now s =
      printWhenAllSent opened ''outputRandom.csv''
        (push_data_point (currentCost l2) (currentPendingPackages l2) s2)"
    using w(1) by (simp add: Random_Compute_def fill sh s1_def [symmetric])
  ultimately show thesis
    using w by (intro that [of "push_data_point (currentCost l2) (currentPendingPackages l2) s2" xs])
      (simp_all add: spreads_def s1 random_inv_def push_data_point_def Let_def StrategyDataPoint_def)
qed


section \<open>Properties\<close>

text \<open>The engine of the GNU library, to instantiate the properties with.\<close>

definition minstd_rand0 :: "nat \<Rightarrow> nat \<times> nat" where
  "minstd_rand0 x = (let y = (16807 * x) mod 2147483647 in (y, y))"

definition sample_random :: "nat random_strategy" where
  "sample_random = RandomStrategy unat (applications sample_strategy) (availableInterfaces sample_strategy)"

lemma sample_random_simps [simp]:
  "applications sample_random = [sample_app 101 2, sample_app 102 1]"
  "availableInterfaces sample_random = [sample_iface 0 3, sample_iface 1 5]"
  "out_of_bounds sample_random = []"
  by (simp_all add: sample_random_def RandomStrategy_def Strategy_def strategy.defs
      random_strategy.defs)



text \<open>
  C16. Every random computation stores one element past the end of \<open>indexes\<close>: the loop that fills
  the vector also runs for the index that equals its size.
\<close>

theorem Random_Compute_out_of_bounds:
  assumes "0 < length (availableInterfaces s)" and "length (availableInterfaces s) < 4294967296"
    and "length (applications s) < 2147483647" and "shuffle_keeps_length shuffle"
    and "Random_Compute next shuffle opened now s = Inr (s', file)"
  shows "out_of_bounds s' = out_of_bounds s @
    [(length (applications s), of_nat (length (applications s)))]"
proof -
  obtain t where "Random_Compute next shuffle opened now s = printWhenAllSent opened ''outputRandom.csv'' t"
    "out_of_bounds t = out_of_bounds s @ [(length (applications s), of_nat (length (applications s)))]"
    by (rule Random_Compute_result [OF assms(1-4)]) blast
  then show ?thesis using assms(5) printWhenAllSent_Inr by metis
qed

theorem Random_Compute_out_of_bounds_witness:
  "\<exists>s' file. Random_Compute minstd_rand0 (\<lambda>xs g. (xs, g)) True 7 sample_random = Inr (s', file) \<and>
     out_of_bounds s' = [(2, 2)]"
proof -
  have sh: "shuffle_keeps_length (\<lambda>xs (g::nat). (xs, g))" by (simp add: shuffle_keeps_length_def)
  have a: "0 < length (availableInterfaces sample_random)"
    "length (availableInterfaces sample_random) < 4294967296"
    "length (applications sample_random) < 2147483647" by simp_all
  obtain t where "Random_Compute minstd_rand0 (\<lambda>xs g. (xs, g)) True 7 sample_random =
      printWhenAllSent True ''outputRandom.csv'' t"
    by (rule Random_Compute_result [OF a sh]) blast
  then obtain f where f: "Random_Compute minstd_rand0 (\<lambda>xs g. (xs, g)) True 7 sample_random = Inr (t, f)"
    using printWhenAllSent_opened by metis
  show ?thesis
    using f Random_Compute_out_of_bounds [OF a sh f] by (auto simp: numeral_2_eq_2)
qed

end
