(* ===== verification/Mip_Model.thy ===== *)
theory Mip_Model
  imports Spread_Contract
begin

text \<open>
  The mixed-integer problem \<open>LinearStrategy\<close> and \<open>ReactiveStrategy\<close> build and the reading of its
  solution. The solver (OR-tools) is not part of the repository: it is a parameter \<open>solve\<close>, and
  \<open>solver_contract\<close> states what its documentation promises of a result with status \<open>OPTIMAL\<close>.
\<close>

section \<open>Problems\<close>

text \<open>
  A row is the pair of its bounds and the coefficients it sets, each at most once. All variables
  are integer ones with bounds \<open>0\<close> and infinity; their names play no role.
\<close>

record mip_row =
  row_lower :: dbl
  row_upper :: dbl
  coefficients :: "(nat \<times> dbl) list"

record mip_problem =
  int_variables :: nat
  mip_rows :: "mip_row list"
  minimized :: "(nat \<times> dbl) list"

datatype solve_result = OPTIMAL "dbl list" dbl | NOT_OPTIMAL

text \<open>
  The variable of application \<open>j\<close> on interface \<open>i\<close> is number \<open>j + i * n\<close> for \<open>n\<close> applications. A row of
  application \<open>j\<close> has a coefficient for every interface, a row of an interface one for every
  application.
\<close>

definition application_row :: "nat \<Rightarrow> nat \<Rightarrow> nat \<Rightarrow> dbl \<Rightarrow> dbl \<Rightarrow> (nat \<Rightarrow> dbl) \<Rightarrow> mip_row" where
  "application_row n m j lower upper coefficient =
     \<lparr>row_lower = lower, row_upper = upper,
      coefficients = map (\<lambda>i. (j + i * n, coefficient i)) [0..<m]\<rparr>"

definition interface_row :: "nat \<Rightarrow> nat \<Rightarrow> dbl \<Rightarrow> dbl \<Rightarrow> mip_row" where
  "interface_row n j lower upper =
     \<lparr>row_lower = lower, row_upper = upper,
      coefficients = map (\<lambda>i. (i + j * n, Fin 1)) [0..<n]\<rparr>"

text \<open>The guarded division by the number of pending packets.\<close>

definition per_packet :: "dbl \<Rightarrow> nat \<Rightarrow> dbl" where
  "per_packet x amount = (if 0 < amount then ddiv x (dbl_of_nat amount) else Fin 0)"

definition cost_coefficients :: "nat \<Rightarrow> isp_interface list \<Rightarrow> (nat \<times> dbl) list" where
  "cost_coefficients n ifaces =
     concat (map (\<lambda>j. map (\<lambda>i. (j + i * n, dbl_of_nat (unat (cost (ifaces ! i)))))
       [0..<length ifaces]) [0..<n])"

text \<open>The rows that both strategies build in the same way: errors, and the packets to be sent.\<close>

definition error_row :: "application list \<Rightarrow> isp_interface list \<Rightarrow> nat \<Rightarrow> mip_row" where
  "error_row apps ifaces j =
     (let a = apps ! j; amount = length (app_pending a)
      in application_row (length apps) (length ifaces) j (Fin 0)
           (dbl_of_nat (unat (app_maxErrorRate a)))
           (\<lambda>i. per_packet (getErrorRate (ifaces ! i)) amount))"

definition packets_row :: "application list \<Rightarrow> isp_interface list \<Rightarrow> nat \<Rightarrow> mip_row" where
  "packets_row apps ifaces j =
     (let currentPendingPackages = length (app_pending (apps ! j))
      in application_row (length apps) (length ifaces) j
           (dbl_of_nat currentPendingPackages) (dbl_of_nat currentPendingPackages) (\<lambda>i. Fin 1))"

section \<open>Reading a solution\<close>

definition solution_entry :: "nat \<Rightarrow> dbl list \<Rightarrow> nat \<Rightarrow> nat \<Rightarrow> u32 res" where
  "solution_entry n values j i =
     res_bind (vec_at values (j + i * n)) (\<lambda>value.
       case dbl_to_u32 (dfloor value) of
         None \<Rightarrow> Inl (Undefined ''double to uint32_t'')
       | Some flooredValue \<Rightarrow> Inr flooredValue)"

definition read_solution :: "nat \<Rightarrow> nat \<Rightarrow> dbl list \<Rightarrow> u32 list list res" where
  "read_solution n m values =
     res_map (\<lambda>j. res_map (\<lambda>i. solution_entry n values j i) [0..<m]) [0..<n]"

section \<open>The result of an optimisation\<close>

record optimization_result =
  isFeasible :: bool
  solutionValues :: "u32 list list"
  result_interfaces :: "nat list option"
  result_totalCost :: u32

text \<open>
  The interfaces of a result are positions in the vector of the strategy; the null pointer of an
  infeasible one is \<open>None\<close>.
\<close>

definition ComputeOptimizationResult ::
  "bool \<Rightarrow> u32 list list \<Rightarrow> nat list option \<Rightarrow> u32 \<Rightarrow> optimization_result" where
  "ComputeOptimizationResult feasible values ifaces amount =
     \<lparr>isFeasible = feasible, solutionValues = values, result_interfaces = ifaces,
      result_totalCost = amount\<rparr>"

definition getIsFeasible :: "optimization_result \<Rightarrow> bool" where
  "getIsFeasible r = isFeasible r"

definition getSolutionValues :: "optimization_result \<Rightarrow> u32 list list" where
  "getSolutionValues r = solutionValues r"

definition getTotalCost :: "optimization_result \<Rightarrow> u32" where
  "getTotalCost r = result_totalCost r"

section \<open>What a solution is\<close>

text \<open>Bounds are met up to the primal tolerance of the solver.\<close>

definition dval :: "dbl \<Rightarrow> rat" where
  "dval d = (case d of Fin x \<Rightarrow> x | _ \<Rightarrow> 0)"

definition activity :: "(nat \<times> dbl) list \<Rightarrow> dbl list \<Rightarrow> rat" where
  "activity cs values = sum_list (map (\<lambda>c. dval (snd c) * dval (values ! fst c)) cs)"

definition primal_tolerance :: rat where
  "primal_tolerance = 1 / 1000000"

definition row_met :: "mip_row \<Rightarrow> dbl list \<Rightarrow> bool" where
  "row_met r values \<longleftrightarrow>
     (case row_lower r of Fin l \<Rightarrow> l - primal_tolerance \<le> activity (coefficients r) values
      | NInf \<Rightarrow> True | _ \<Rightarrow> False) \<and>
     (case row_upper r of Fin u \<Rightarrow> activity (coefficients r) values \<le> u + primal_tolerance
      | PInf \<Rightarrow> True | _ \<Rightarrow> False)"

definition nonneg_integer :: "dbl \<Rightarrow> bool" where
  "nonneg_integer d \<longleftrightarrow> (case d of Fin x \<Rightarrow> 0 \<le> x \<and> of_int \<lfloor>x\<rfloor> = x | _ \<Rightarrow> False)"

definition integer_solution :: "mip_problem \<Rightarrow> dbl list \<Rightarrow> bool" where
  "integer_solution p values \<longleftrightarrow>
     length values = int_variables p \<and> list_all nonneg_integer values \<and>
     list_all (\<lambda>r. row_met r values) (mip_rows p)"

text \<open>
  The documented behaviour the strategies rely on: with status \<open>OPTIMAL\<close>, the values of the
  integer variables are integers that satisfy the rows, and the objective value is theirs.
\<close>

definition solver_contract :: "(mip_problem \<Rightarrow> solve_result) \<Rightarrow> bool" where
  "solver_contract solve \<longleftrightarrow>
     (\<forall>p values obj. solve p = OPTIMAL values obj \<longrightarrow>
        integer_solution p values \<and> obj = Fin (activity (minimized p) values))"

lemma solver_contractD:
  "solver_contract solve \<Longrightarrow> solve p = OPTIMAL values obj \<Longrightarrow>
   integer_solution p values \<and> obj = Fin (activity (minimized p) values)"
  by (simp add: solver_contract_def)

text \<open>A solver that checks a given vector satisfies the contract.\<close>

definition checking_solver :: "dbl list \<Rightarrow> mip_problem \<Rightarrow> solve_result" where
  "checking_solver values p =
     (if integer_solution p values then OPTIMAL values (Fin (activity (minimized p) values))
      else NOT_OPTIMAL)"

lemma checking_solver_contract: "solver_contract (checking_solver values)"
  by (auto simp: solver_contract_def checking_solver_def split: if_splits)


section \<open>Solutions as numbers of packets\<close>

definition packets_on :: "nat \<Rightarrow> dbl list \<Rightarrow> nat \<Rightarrow> nat \<Rightarrow> nat" where
  "packets_on n values j i = nat \<lfloor>dval (values ! (j + i * n))\<rfloor>"

lemma nonneg_integer_value:
  "nonneg_integer d \<Longrightarrow> d = Fin (of_nat (nat \<lfloor>dval d\<rfloor>))"
  by (cases d) (auto simp: nonneg_integer_def dval_def)

lemma integer_solution_value:
  assumes "integer_solution p values" and "j + i * n < int_variables p"
  shows "values ! (j + i * n) = Fin (of_nat (packets_on n values j i))"
  using assms unfolding packets_on_def
  by (intro nonneg_integer_value) (simp add: integer_solution_def list_all_length)

lemma variable_bound: "j < n \<Longrightarrow> i < m \<Longrightarrow> j + i * n < n * (m::nat)"
proof -
  assume "j < n" "i < m"
  then have "j + i * n < Suc i * n" by simp
  also have "\<dots> \<le> m * n" using \<open>i < m\<close> by (intro mult_right_mono) simp_all
  finally show ?thesis by (simp add: mult.commute)
qed

lemma dval_Fin [simp]: "dval (Fin x) = x"
  by (simp add: dval_def)

lemma of_nat_sum_list: "(\<Sum>x\<leftarrow>xs. of_nat (f x)) = (of_nat (\<Sum>x\<leftarrow>xs. f x) :: rat)"
  by (induction xs) simp_all

text \<open>Whole numbers that meet a whole bound up to the tolerance meet it.\<close>

lemma tolerance_le: "(of_nat a :: rat) \<le> of_nat b + primal_tolerance \<Longrightarrow> a \<le> b"
proof (rule ccontr)
  assume "(of_nat a :: rat) \<le> of_nat b + primal_tolerance" and "\<not> a \<le> b"
  moreover from \<open>\<not> a \<le> b\<close> have "(of_nat (b + 1) :: rat) \<le> of_nat a" by (intro of_nat_mono) simp
  ultimately show False by (simp add: primal_tolerance_def)
qed

lemma application_row_activity:
  assumes "integer_solution p values" and "j < n" and "int_variables p = n * m"
  shows "activity (coefficients (application_row n m j lo up (\<lambda>i. Fin 1))) values =
    of_nat (\<Sum>i\<leftarrow>[0..<m]. packets_on n values j i)"
proof -
  have "activity (coefficients (application_row n m j lo up (\<lambda>i. Fin 1))) values =
      (\<Sum>i\<leftarrow>[0..<m]. of_nat (packets_on n values j i))"
    unfolding activity_def application_row_def using assms
    by (auto intro!: arg_cong [of _ _ sum_list]
        simp: comp_def integer_solution_value [OF assms(1)] variable_bound)
  then show ?thesis by (simp add: of_nat_sum_list)
qed

lemma interface_row_activity:
  assumes "integer_solution p values" and "i < m" and "int_variables p = n * m"
  shows "activity (coefficients (interface_row n i lo up)) values =
    of_nat (\<Sum>j\<leftarrow>[0..<n]. packets_on n values j i)"
proof -
  have "activity (coefficients (interface_row n i lo up)) values =
      (\<Sum>j\<leftarrow>[0..<n]. of_nat (packets_on n values j i))"
    unfolding activity_def interface_row_def using assms
    by (auto intro!: arg_cong [of _ _ sum_list]
        simp: comp_def integer_solution_value [OF assms(1)] variable_bound)
  then show ?thesis by (simp add: of_nat_sum_list)
qed

lemma packets_row_met:
  assumes "integer_solution p values" and "packets_row apps ifaces j \<in> set (mip_rows p)"
    and "int_variables p = length apps * length ifaces" and "j < length apps"
    and "length (app_pending (apps ! j)) \<le> 2 ^ 53"
  shows "(\<Sum>i\<leftarrow>[0..<length ifaces]. packets_on (length apps) values j i) =
    length (app_pending (apps ! j))"
proof -
  let ?k = "length (app_pending (apps ! j))"
  let ?x = "\<Sum>i\<leftarrow>[0..<length ifaces]. packets_on (length apps) values j i"
  have d: "dbl_of_nat ?k = Fin (of_nat ?k)" using assms(5) by (rule dbl_of_nat_small)
  have "row_met (packets_row apps ifaces j) values"
    using assms(1,2) by (auto simp: integer_solution_def list_all_iff)
  then have "of_nat ?k - primal_tolerance \<le> (of_nat ?x :: rat)" "of_nat ?x \<le> of_nat ?k + primal_tolerance"
    using application_row_activity [OF assms(1,4,3)]
    by (simp_all add: row_met_def packets_row_def Let_def d)
      (simp_all add: application_row_def)
  then show ?thesis using tolerance_le [of ?k ?x] tolerance_le [of ?x ?k] by simp
qed

lemma read_solution_ok:
  assumes "integer_solution p values" and "int_variables p = n * m"
    and "\<And>j i. j < n \<Longrightarrow> i < m \<Longrightarrow> packets_on n values j i < 4294967296"
  shows "read_solution n m values =
    Inr (map (\<lambda>j. map (\<lambda>i. of_nat (packets_on n values j i)) [0..<m]) [0..<n])"
proof -
  have len: "length values = n * m" using assms(1,2) by (simp add: integer_solution_def)
  have "solution_entry n values j i = Inr (of_nat (packets_on n values j i))"
    if "j < n" "i < m" for j i
  proof -
    have k: "j + i * n < n * m" using that by (rule variable_bound)
    then have "values ! (j + i * n) = Fin (of_nat (packets_on n values j i))"
      using assms(1,2) by (intro integer_solution_value) auto
    then show ?thesis
      using assms(3) [OF that] k by (simp add: solution_entry_def len dbl_to_u32_nat)
  qed
  then show ?thesis
    unfolding read_solution_def by (intro res_map_eqI) auto
qed

text \<open>The packets of application \<open>i\<close>, spread over the interfaces by one row of a solution.\<close>

definition row_moves :: "sim_time \<Rightarrow> u32 \<Rightarrow> (nat \<times> u32) list \<Rightarrow> (nat \<times> send_packet_info) list" where
  "row_moves now ident pairs =
     concat (map (\<lambda>(f, c). replicate (unat c) (f, packet_info now ident)) pairs)"

definition moves ::
  "sim_time \<Rightarrow> nat list \<Rightarrow> application list \<Rightarrow> u32 list list \<Rightarrow> (nat \<times> send_packet_info) list"
where
  "moves now idx apps sol =
     concat (map (\<lambda>(a, row). row_moves now (app_id a) (zip idx row)) (zip apps sol))"

definition shift_packets ::
  "nat \<Rightarrow> nat \<Rightarrow> (nat \<times> send_packet_info) list \<Rightarrow> 'a strategy_scheme \<Rightarrow> 'a strategy_scheme" where
  "shift_packets i k xs s =
     s\<lparr>applications := (applications s)[i := app_dropped k (applications s ! i)],
       availableInterfaces := assign_packets xs (availableInterfaces s)\<rparr>"

lemma shift_packets_simps [simp]:
  "applications (shift_packets i k xs s) = (applications s)[i := app_dropped k (applications s ! i)]"
  "availableInterfaces (shift_packets i k xs s) = assign_packets xs (availableInterfaces s)"
  "strategyData (shift_packets i k xs s) = strategyData s"
  "strategy.more (shift_packets i k xs s) = strategy.more s"
  by (simp_all add: shift_packets_def)

lemma shift_packets_0 [simp]: "shift_packets i 0 [] s = s"
  by (simp add: shift_packets_def)

lemma shift_packets_shift:
  "i < length (applications s) \<Longrightarrow>
   shift_packets i k xs (shift_packets i l ys s) = shift_packets i (l + k) (ys @ xs) s"
  by (simp add: shift_packets_def assign_packets_append)

text \<open>What a row sends in total, and what is left of the applications.\<close>

definition row_total :: "nat list \<Rightarrow> u32 list \<Rightarrow> nat" where
  "row_total idx row = (\<Sum>(f, c)\<leftarrow>zip idx row. unat c)"

definition rows_sent :: "nat list \<Rightarrow> application list \<Rightarrow> u32 list list \<Rightarrow> application list" where
  "rows_sent idx apps sol = map (\<lambda>(a, row). app_dropped (row_total idx row) a) (zip apps sol)"

lemma row_total_all:
  "length row = length idx \<Longrightarrow> row_total idx row = (\<Sum>c\<leftarrow>row. unat c)"
  unfolding row_total_def
  by (rule arg_cong [of _ _ sum_list]) (auto intro!: nth_equalityI)

lemma rows_sent_all:
  assumes "length sol = length apps"
    and "\<And>i. i < length apps \<Longrightarrow> row_total idx (sol ! i) = length (app_pending (apps ! i))"
  shows "rows_sent idx apps sol = map app_drained apps"
  using assms unfolding rows_sent_def by (intro nth_equalityI) (auto simp: app_dropped_all)

section \<open>The contract of the two senders\<close>

text \<open>
  A sender moves \<open>k\<close> packets of one application to one interface, as long as the application has
  them. Sending a whole solution then follows.
\<close>

locale matrix_sender =
  fixes send :: "sim_time \<Rightarrow> nat \<Rightarrow> nat \<Rightarrow> nat \<Rightarrow> 'a strategy_scheme \<Rightarrow> 'a strategy_scheme res"
  assumes send_0: "send now i f 0 s = Inr s"
    and send_Suc: "i < length (applications s) \<Longrightarrow> f < length (availableInterfaces s) \<Longrightarrow>
      app_pending (applications s ! i) \<noteq> [] \<Longrightarrow>
      send now i f (Suc k) s =
        send now i f k (shift_packets i 1 [(f, packet_info now (app_id (applications s ! i)))] s)"
    and send_frame: "send now i f k s = Inr t \<Longrightarrow>
      length (applications t) = length (applications s) \<and>
      length (availableInterfaces t) = length (availableInterfaces s)"
begin

lemma send_ok:
  assumes "i < length (applications s)" and "f < length (availableInterfaces s)"
    and "k \<le> length (app_pending (applications s ! i))"
  shows "send now i f k s =
    Inr (shift_packets i k (replicate k (f, packet_info now (app_id (applications s ! i)))) s)"
  using assms
proof (induction k arbitrary: s)
  case 0
  then show ?case by (simp add: send_0)
next
  case (Suc k)
  then have "app_pending (applications s ! i) \<noteq> []" by auto
  with Suc show ?case by (simp add: send_Suc shift_packets_shift)
qed

lemma send_row_ok:
  assumes "i < length (applications s)" and "list_all (\<lambda>(f, c). f < length (availableInterfaces s)) pairs"
    and "(\<Sum>(f, c)\<leftarrow>pairs. unat c) \<le> length (app_pending (applications s ! i))"
  shows "res_fold (\<lambda>(f, c). send now i f (unat c)) pairs s =
    Inr (shift_packets i (\<Sum>(f, c)\<leftarrow>pairs. unat c)
      (row_moves now (app_id (applications s ! i)) pairs) s)"
  using assms
proof (induction pairs arbitrary: s)
  case Nil
  then show ?case by (simp add: row_moves_def)
next
  case (Cons p pairs)
  obtain f c where p: "p = (f, c)" by (cases p)
  let ?t = "shift_packets i (unat c) (replicate (unat c) (f, packet_info now (app_id (applications s ! i)))) s"
  have "send now i f (unat c) s = Inr ?t"
    using Cons.prems by (intro send_ok) (simp_all add: p)
  moreover have "res_fold (\<lambda>(f, c). send now i f (unat c)) pairs ?t =
      Inr (shift_packets i (\<Sum>(f, c)\<leftarrow>pairs. unat c) (row_moves now (app_id (applications s ! i)) pairs) ?t)"
    using Cons.prems by (subst Cons.IH) (simp_all add: p)
  ultimately show ?case
    using Cons.prems(1) by (simp add: p row_moves_def shift_packets_shift)
qed

lemma send_row_frame:
  assumes "res_fold (\<lambda>(f, c). send now i f (unat c)) pairs s = Inr t"
  shows "length (applications t) = length (applications s) \<and>
    length (availableInterfaces t) = length (availableInterfaces s)"
  by (rule res_fold_invariant [OF assms, where P = "\<lambda>t. length (applications t) = length (applications s) \<and>
        length (availableInterfaces t) = length (availableInterfaces s)"])
    (auto dest!: send_frame)

lemma send_matrix_loop:
  assumes "length sol = length (applications s)"
    and "\<And>i t. i < length sol \<Longrightarrow> length (availableInterfaces t) = length (availableInterfaces s) \<Longrightarrow>
      row i (sol ! i) t = res_fold (\<lambda>(f, c). send now i f (unat c)) (zip idx (sol ! i)) t"
  shows "res_fold (\<lambda>i t. res_bind (vec_at (applications t) i) (\<lambda>a. res_bind (vec_at sol i) (\<lambda>r. row i r t)))
      [0..<length sol] s =
    res_fold (\<lambda>i. res_fold (\<lambda>(f, c). send now i f (unat c)) (zip idx (sol ! i))) [0..<length sol] s"
  by (rule res_fold_cong_inv [where P = "\<lambda>t. length (applications t) = length (applications s) \<and>
        length (availableInterfaces t) = length (availableInterfaces s)"])
    (use assms in \<open>auto dest!: send_row_frame\<close>)

lemma send_matrix_ok:
  assumes "length sol = length (applications s)"
    and "\<And>i. i < length (applications s) \<Longrightarrow>
      row_total idx (sol ! i) \<le> length (app_pending (applications s ! i))"
    and "list_all (\<lambda>f. f < length (availableInterfaces s)) idx"
    and "k \<le> length (applications s)"
  shows "res_fold (\<lambda>i. res_fold (\<lambda>(f, c). send now i f (unat c)) (zip idx (sol ! i))) [0..<k] s =
    Inr (s\<lparr>applications := rows_sent idx (take k (applications s)) (take k sol) @ drop k (applications s),
           availableInterfaces :=
             assign_packets (moves now idx (take k (applications s)) (take k sol)) (availableInterfaces s)\<rparr>)"
  using assms(4)
proof (induction k)
  case 0
  then show ?case by (simp add: moves_def rows_sent_def)
next
  case (Suc k)
  let ?apps = "applications s"
  let ?t = "s\<lparr>applications := rows_sent idx (take k ?apps) (take k sol) @ drop k ?apps,
           availableInterfaces :=
             assign_packets (moves now idx (take k ?apps) (take k sol)) (availableInterfaces s)\<rparr>"
  have k: "k < length ?apps" "k < length sol" using Suc.prems assms(1) by simp_all
  then have tk: "applications ?t ! k = ?apps ! k" "k < length (applications ?t)"
    by (simp_all add: nth_append rows_sent_def)
  have tk3: "(rows_sent idx (take k ?apps) (take k sol) @ drop k ?apps) ! k = ?apps ! k"
    using k by (simp add: nth_append rows_sent_def)
  have rs: "rows_sent idx (take k ?apps @ [?apps ! k]) (take k sol @ [sol ! k]) =
      rows_sent idx (take k ?apps) (take k sol) @ [app_dropped (row_total idx (sol ! k)) (?apps ! k)]"
    using k by (simp add: rows_sent_def)
  have up: "(rows_sent idx (take k ?apps) (take k sol) @ drop k ?apps)[k := y] =
      rows_sent idx (take k ?apps) (take k sol) @ [y] @ drop (Suc k) ?apps" for y
    using k by (simp add: list_update_append Cons_nth_drop_Suc [symmetric] rows_sent_def)
  have row: "res_fold (\<lambda>(f, c). send now k f (unat c)) (zip idx (sol ! k)) ?t =
      Inr (shift_packets k (row_total idx (sol ! k))
        (row_moves now (app_id (?apps ! k)) (zip idx (sol ! k))) ?t)"
    using send_row_ok [OF tk(2), of "zip idx (sol ! k)" "now"] assms(2) [OF k(1)] assms(3)
    by (auto simp: tk3 list_all_iff row_total_def dest: set_zip_leftD)
  have "res_fold (\<lambda>i. res_fold (\<lambda>(f, c). send now i f (unat c)) (zip idx (sol ! i))) [0..<k] s = Inr ?t"
    using Suc by simp
  then have "res_fold (\<lambda>i. res_fold (\<lambda>(f, c). send now i f (unat c)) (zip idx (sol ! i))) [0..<Suc k] s =
      Inr (shift_packets k (row_total idx (sol ! k))
        (row_moves now (app_id (?apps ! k)) (zip idx (sol ! k))) ?t)"
    using row by (simp add: res_fold_append)
  then show ?case
    using k by (simp add: shift_packets_def tk3 up rs take_Suc_conv_app_nth
        moves_def assign_packets_append)
qed

end

lemma moves_snd:
  assumes "length sol = length apps"
    and "\<And>i. i < length apps \<Longrightarrow> row_total idx (sol ! i) = length (app_pending (apps ! i))"
  shows "map snd (moves now idx apps sol) = sweep_packets now apps"
  using assms
proof (induction sol apps rule: list_induct2)
  case Nil
  then show ?case by (simp add: moves_def)
next
  case (Cons row sol a apps)
  have row: "map snd (row_moves now ident pairs) =
      replicate (\<Sum>(f, c)\<leftarrow>pairs. unat c) (packet_info now ident)" for ident and pairs :: "(nat \<times> u32) list"
    by (induction pairs) (auto simp: row_moves_def replicate_add)
  have "map snd (moves now idx apps sol) = sweep_packets now apps"
    using Cons.prems [of "Suc _"] by (intro Cons.IH) auto
  then show ?case
    using Cons.prems [of 0] by (simp add: moves_def sweep_packets_def row row_total_def)
qed

lemma moves_bound:
  assumes "list_all (\<lambda>f. f < m) idx"
  shows "list_all (\<lambda>x. fst x < m) (moves now idx apps sol)"
proof -
  have "fst x < m" if "x \<in> set (row_moves now ident (zip idx row))" for x ident row
    using that assms by (auto simp: row_moves_def list_all_iff dest: set_zip_leftD)
  then show ?thesis by (auto simp: moves_def list_all_iff)
qed

text \<open>What one interface receives from a solution.\<close>

lemma row_moves_on:
  "map snd (filter (\<lambda>x. fst x = f) (row_moves now ident (zip [k..<k + length row] row))) =
   (if k \<le> f \<and> f < k + length row then replicate (unat (row ! (f - k))) (packet_info now ident) else [])"
proof (induction row arbitrary: k)
  case Nil
  then show ?case by (auto simp: row_moves_def)
next
  case (Cons c row)
  have z: "zip [k..<k + length (c # row)] (c # row) = (k, c) # zip [Suc k..<Suc k + length row] row"
    by (simp add: upt_Suc_Cons del: upt_Suc)
  have "map snd (filter (\<lambda>x. fst x = f) (replicate (unat c) (k, packet_info now ident))) =
      (if f = k then replicate (unat c) (packet_info now ident) else [])"
    by auto
  then show ?case
    unfolding z using Cons.IH [of "Suc k"]
    by (auto simp: row_moves_def nth_Cons' Suc_le_eq)
qed

lemma moves_on:
  assumes "length sol = length apps" and "\<And>r. r \<in> set sol \<Longrightarrow> length r = m" and "f < m"
  shows "map snd (filter (\<lambda>x. fst x = f) (moves now [0..<m] apps sol)) =
    concat (map (\<lambda>(a, r). replicate (unat (r ! f)) (packet_info now (app_id a))) (zip apps sol))"
  using assms(1,2)
proof (induction sol apps rule: list_induct2)
  case Nil
  then show ?case by (simp add: moves_def)
next
  case (Cons r sol a apps)
  then show ?case
    using row_moves_on [of f "now" "app_id a" 0 r] assms(3) by (simp add: moves_def)
qed

text \<open>The solution matrix of an integer solution that meets the packet rows.\<close>

definition solution_matrix :: "nat \<Rightarrow> nat \<Rightarrow> dbl list \<Rightarrow> u32 list list" where
  "solution_matrix n m values =
     map (\<lambda>j. map (\<lambda>i. of_nat (packets_on n values j i)) [0..<m]) [0..<n]"

lemma member_le_sum_upt: "i < m \<Longrightarrow> f i \<le> (\<Sum>i\<leftarrow>[0..<m]. f i :: nat)"
  by (simp add: member_le_sum_list)

lemma solution_matrix_ok:
  assumes "integer_solution p values" and "int_variables p = length apps * length ifaces"
    and "set (map (packets_row apps ifaces) [0..<length apps]) \<subseteq> set (mip_rows p)"
    and "\<forall>a \<in> set apps. length (app_pending a) < 4294967296"
  shows "read_solution (length apps) (length ifaces) values =
      Inr (solution_matrix (length apps) (length ifaces) values)"
    and "j < length apps \<Longrightarrow>
      (\<Sum>c\<leftarrow>solution_matrix (length apps) (length ifaces) values ! j. unat c) =
        length (app_pending (apps ! j))"
    and "j < length apps \<Longrightarrow> i < length ifaces \<Longrightarrow>
      unat (solution_matrix (length apps) (length ifaces) values ! j ! i) =
        packets_on (length apps) values j i"
proof -
  let ?n = "length apps"
  let ?m = "length ifaces"
  have sum: "(\<Sum>i\<leftarrow>[0..<?m]. packets_on ?n values j i) = length (app_pending (apps ! j))" if "j < ?n" for j
  proof (rule packets_row_met [OF assms(1) _ assms(2) that])
    show "packets_row apps ifaces j \<in> set (mip_rows p)" using assms(3) that by auto
    have "length (app_pending (apps ! j)) < 4294967296" using assms(4) that by simp
    then show "length (app_pending (apps ! j)) \<le> 2 ^ 53" by simp
  qed
  have lt: "packets_on ?n values j i < 4294967296" if "j < ?n" "i < ?m" for j i
  proof -
    have "packets_on ?n values j i \<le> length (app_pending (apps ! j))"
      using member_le_sum_upt [OF that(2), of "packets_on ?n values j"] sum [OF that(1)] by simp
    also have "\<dots> < 4294967296" using assms(4) that(1) by simp
    finally show ?thesis .
  qed
  show "read_solution ?n ?m values = Inr (solution_matrix ?n ?m values)"
    unfolding solution_matrix_def by (rule read_solution_ok [OF assms(1,2) lt])
  show "j < ?n \<Longrightarrow> i < ?m \<Longrightarrow> unat (solution_matrix ?n ?m values ! j ! i) = packets_on ?n values j i"
    by (simp add: solution_matrix_def lt)
  assume j: "j < ?n"
  have "map unat (solution_matrix ?n ?m values ! j) = map (packets_on ?n values j) [0..<?m]"
    using j lt by (simp add: solution_matrix_def)
  then show "(\<Sum>c\<leftarrow>solution_matrix ?n ?m values ! j. unat c) = length (app_pending (apps ! j))"
    using sum [OF j] by simp
qed

text \<open>The objective of an integer solution is a whole number: the cost of its packets.\<close>

definition solution_cost :: "nat \<Rightarrow> isp_interface list \<Rightarrow> dbl list \<Rightarrow> nat" where
  "solution_cost n ifaces values =
     (\<Sum>j\<leftarrow>[0..<n]. \<Sum>i\<leftarrow>[0..<length ifaces]. unat (cost (ifaces ! i)) * packets_on n values j i)"

lemma activity_concat: "activity (concat xss) values = (\<Sum>xs\<leftarrow>xss. activity xs values)"
  by (induction xss) (simp_all add: activity_def)

lemma cost_activity:
  assumes "integer_solution p values" and "int_variables p = n * length ifaces"
  shows "activity (cost_coefficients n ifaces) values = of_nat (solution_cost n ifaces values)"
proof -
  have "activity (map (\<lambda>i. (j + i * n, dbl_of_nat (unat (cost (ifaces ! i))))) [0..<length ifaces]) values =
      of_nat (\<Sum>i\<leftarrow>[0..<length ifaces]. unat (cost (ifaces ! i)) * packets_on n values j i)"
    if "j < n" for j
  proof -
    have "activity (map (\<lambda>i. (j + i * n, dbl_of_nat (unat (cost (ifaces ! i))))) [0..<length ifaces]) values =
        (\<Sum>i\<leftarrow>[0..<length ifaces]. of_nat (unat (cost (ifaces ! i)) * packets_on n values j i))"
      unfolding activity_def map_map using assms that
      by (intro arg_cong [of _ _ sum_list] map_cong)
        (auto simp: integer_solution_value [OF assms(1)] variable_bound dbl_of_u32)
    then show ?thesis by (simp only: of_nat_sum_list)
  qed
  then have "activity (cost_coefficients n ifaces) values =
      (\<Sum>j\<leftarrow>[0..<n]. of_nat (\<Sum>i\<leftarrow>[0..<length ifaces]. unat (cost (ifaces ! i)) * packets_on n values j i))"
    unfolding cost_coefficients_def activity_concat map_map
    by (intro arg_cong [of _ _ sum_list] map_cong) auto
  then show ?thesis by (simp only: of_nat_sum_list solution_cost_def)
qed

lemma moves_on_solution:
  assumes "i < m"
    and "\<And>j i. j < length apps \<Longrightarrow> i < m \<Longrightarrow>
      unat (solution_matrix (length apps) m values ! j ! i) = packets_on (length apps) values j i"
  shows "map snd (filter (\<lambda>x. fst x = i) (moves now [0..<m] apps (solution_matrix (length apps) m values))) =
    concat (map (\<lambda>j. replicate (packets_on (length apps) values j i) (packet_info now (app_id (apps ! j))))
      [0..<length apps])"
proof -
  let ?sol = "solution_matrix (length apps) m values"
  have len: "length ?sol = length apps" "\<And>r. r \<in> set ?sol \<Longrightarrow> length r = m"
    by (auto simp: solution_matrix_def)
  have zip: "zip apps ?sol = map (\<lambda>j. (apps ! j, ?sol ! j)) [0..<length apps]"
    using len(1) by (intro nth_equalityI) auto
  have "map snd (filter (\<lambda>x. fst x = i) (moves now [0..<m] apps ?sol)) =
      concat (map (\<lambda>(a, r). replicate (unat (r ! i)) (packet_info now (app_id a))) (zip apps ?sol))"
    by (rule moves_on [OF len(1) _ assms(1)]) (rule len(2))
  also have "\<dots> = concat (map (\<lambda>j. replicate (packets_on (length apps) values j i)
      (packet_info now (app_id (apps ! j)))) [0..<length apps])"
    unfolding zip map_map
    by (rule arg_cong [of _ _ concat], rule map_cong) (simp_all add: assms)
  finally show ?thesis .
qed

end
