(* ===== verification/Linear_Strat.thy ===== *)
theory Linear_Strat
  imports Mip_Model Round_Robin
begin

text \<open>
  \<open>LinearStrategy\<close>: one optimisation at the first call, whose solution is sent at once; later
  calls return immediately.
\<close>

record linear_strategy = strategy +
  hasBeenComputed :: bool

definition LinearStrategy :: "application list \<Rightarrow> isp_interface list \<Rightarrow> linear_strategy" where
  "LinearStrategy apps ifaces =
     strategy.extend (Strategy apps ifaces) (linear_strategy.fields False)"

definition linear_bandwidth_row ::
  "application list \<Rightarrow> isp_interface list \<Rightarrow> nat \<Rightarrow> mip_row res" where
  "linear_bandwidth_row apps ifaces j =
     (let a = apps ! j; amount = length (app_pending a) in
      res_bind (getRequiredDataRate a) (\<lambda>requiredBitRate.
      Inr (application_row (length apps) (length ifaces) j
             (dbl_of_nat (unat requiredBitRate)) PInf
             (\<lambda>i. per_packet (dbl_of_nat (unat (getDataBitRate (ifaces ! i)))) amount))))"

definition linear_delay_row :: "application list \<Rightarrow> isp_interface list \<Rightarrow> nat \<Rightarrow> mip_row" where
  "linear_delay_row apps ifaces j =
     (let a = apps ! j; amount = length (app_pending a)
      in application_row (length apps) (length ifaces) j
           (Fin 0) (dbl_of_nat (unat (app_requiredDelay a)))
           (\<lambda>i. per_packet (dbl_of_nat (unat (getDelayInMilliseconds (ifaces ! i)))) amount))"

definition linear_problem :: "application list \<Rightarrow> isp_interface list \<Rightarrow> mip_problem res" where
  "linear_problem apps ifaces =
     (let n = length apps; m = length ifaces in
      res_bind (res_map (linear_bandwidth_row apps ifaces) [0..<n]) (\<lambda>bandwidth.
      Inr \<lparr>int_variables = n * m,
           mip_rows = bandwidth @ map (linear_delay_row apps ifaces) [0..<n] @
             map (error_row apps ifaces) [0..<n] @ map (packets_row apps ifaces) [0..<n],
           minimized = cost_coefficients n ifaces\<rparr>))"

text \<open>
  The inner loop pops without looking: an empty queue is undefined behaviour. The loops read the
  solution with \<open>at\<close>.
\<close>

fun linear_send ::
  "sim_time \<Rightarrow> nat \<Rightarrow> nat \<Rightarrow> nat \<Rightarrow> 'a strategy_scheme \<Rightarrow> 'a strategy_scheme res" where
  "linear_send currentTime i j 0 s = Inr s"
| "linear_send currentTime i j (Suc packetsForApplicationAndInterface) s =
     res_bind (pop_application i s) (\<lambda>s.
     let ident = app_id (applications s ! i);
         packetInfo = \<lparr>dateEnqueued = currentTime, originatedFrom = ident\<rparr> in
     res_bind (enqueue_on j packetInfo s)
       (linear_send currentTime i j packetsForApplicationAndInterface))"

definition linear_row :: "sim_time \<Rightarrow> nat \<Rightarrow> u32 list \<Rightarrow> 'a strategy_scheme \<Rightarrow> 'a strategy_scheme res" where
  "linear_row now i packetsForApplication s =
     (let interfaces = [0..<length (availableInterfaces s)] in
      res_fold (\<lambda>j s. res_bind (vec_at interfaces j) (\<lambda>currentInterface.
         res_bind (vec_at packetsForApplication j) (\<lambda>c. linear_send now i currentInterface (unat c) s)))
       [0..<length interfaces] s)"

definition linear_matrix :: "sim_time \<Rightarrow> u32 list list \<Rightarrow> 'a strategy_scheme \<Rightarrow> 'a strategy_scheme res" where
  "linear_matrix now sol s =
     res_fold (\<lambda>i s. res_bind (vec_at (applications s) i) (\<lambda>currentApplication.
         res_bind (vec_at sol i) (\<lambda>packetsForApplication. linear_row now i packetsForApplication s)))
       [0..<length sol] s"

definition Linear_Compute ::
  "(mip_problem \<Rightarrow> solve_result) \<Rightarrow> sim_time \<Rightarrow> linear_strategy \<Rightarrow> linear_strategy res" where
  "Linear_Compute solve now s =
     (if hasBeenComputed s then Inr s
      else
        let n = length (applications s); m = length (availableInterfaces s) in
        res_bind (linear_problem (applications s) (availableInterfaces s)) (\<lambda>p.
        case solve p of
          NOT_OPTIMAL \<Rightarrow> Inl (RuntimeError ''Soluzione non trovata'')
        | OPTIMAL values objective \<Rightarrow>
            res_bind (read_solution n m values) (\<lambda>solutionValues.
            res_bind (linear_matrix now solutionValues s) (\<lambda>s.
            Inr (s\<lparr>hasBeenComputed := True\<rparr>)))))"

section \<open>The loops as a matrix sender\<close>

lemma pop_then_enqueue:
  assumes "i < length (applications s)" and "f < length (availableInterfaces s)"
    and "app_pending (applications s ! i) \<noteq> []"
  shows "res_bind (pop_application i s) (\<lambda>s. res_bind (enqueue_on f (packet_info now (app_id (applications s ! i))) s) k) =
    k (shift_packets i 1 [(f, packet_info now (app_id (applications s ! i)))] s)"
  using assms by (simp add: pop_application_eq enqueue_on_eq shift_packets_def)

lemma linear_send_frame:
  "linear_send now i j k s = Inr s' \<Longrightarrow>
   length (applications s') = length (applications s) \<and>
   length (availableInterfaces s') = length (availableInterfaces s)"
proof (induction k arbitrary: s)
  case 0
  then show ?case by simp
next
  case (Suc k)
  then show ?case
    by (fastforce simp: res_bind_Inr_iff pop_application_def enqueue_on_def Let_def)
qed

interpretation linear: matrix_sender linear_send
proof
  fix now i f k and s :: "'a strategy_scheme"
  show "linear_send now i f 0 s = Inr s" by simp
  assume "i < length (applications s)" "f < length (availableInterfaces s)"
    "app_pending (applications s ! i) \<noteq> []"
  then show "linear_send now i f (Suc k) s =
      linear_send now i f k (shift_packets i 1 [(f, packet_info now (app_id (applications s ! i)))] s)"
    using pop_then_enqueue [of i s f "now" "linear_send now i f k"] by (simp add: packet_info_def Let_def)
qed (rule linear_send_frame)

lemma linear_matrix_le:
  assumes "length sol = length (applications s)"
    and "\<And>i. i < length (applications s) \<Longrightarrow> length (sol ! i) = length (availableInterfaces s) \<and>
      (\<Sum>c\<leftarrow>sol ! i. unat c) \<le> length (app_pending (applications s ! i))"
  shows "linear_matrix now sol s =
    Inr (s\<lparr>applications := rows_sent [0..<length (availableInterfaces s)] (applications s) sol,
           availableInterfaces :=
             assign_packets (moves now [0..<length (availableInterfaces s)] (applications s) sol)
               (availableInterfaces s)\<rparr>)"
proof -
  let ?idx = "[0..<length (availableInterfaces s)]"
  have row: "linear_row now i (sol ! i) t = res_fold (\<lambda>(f, c). linear_send now i f (unat c)) (zip ?idx (sol ! i)) t"
    if "i < length sol" "length (availableInterfaces t) = length (availableInterfaces s)" for i t
    using that assms res_fold_index_zip [of "sol ! i" ?idx "\<lambda>f c. linear_send now i f (unat c)" t]
    by (simp add: linear_row_def Let_def)
  have sums: "row_total ?idx (sol ! i) \<le> length (app_pending (applications s ! i))"
    if "i < length (applications s)" for i
    using assms(2) [OF that] by (simp add: row_total_all)
  have "list_all (\<lambda>f. f < length (availableInterfaces s)) ?idx" by (simp add: list_all_iff)
  from linear.send_matrix_ok [OF assms(1) sums this, of "length (applications s)" "now"]
  show ?thesis
    using linear.send_matrix_loop [of sol s "linear_row now" "now" ?idx, OF assms(1) row] assms(1)
    by (simp add: linear_matrix_def)
qed

lemma linear_matrix_ok:
  assumes "length sol = length (applications s)"
    and "\<And>i. i < length (applications s) \<Longrightarrow> length (sol ! i) = length (availableInterfaces s) \<and>
      (\<Sum>c\<leftarrow>sol ! i. unat c) = length (app_pending (applications s ! i))"
  shows "linear_matrix now sol s =
    Inr (s\<lparr>applications := map app_drained (applications s),
           availableInterfaces :=
             assign_packets (moves now [0..<length (availableInterfaces s)] (applications s) sol)
               (availableInterfaces s)\<rparr>)"
  using linear_matrix_le [of sol s "now"] assms
    rows_sent_all [of sol "applications s" "[0..<length (availableInterfaces s)]"]
  by (simp add: row_total_all)

text \<open>The first computation, when the solver solves its problem.\<close>

lemma Linear_Compute_first:
  assumes "solver_contract solve" and "\<not> hasBeenComputed s"
    and "linear_problem (applications s) (availableInterfaces s) = Inr p"
    and "solve p = OPTIMAL values obj"
    and "\<forall>a \<in> set (applications s). length (app_pending a) < 4294967296"
  shows "Linear_Compute solve now s = Inr (s\<lparr>applications := map app_drained (applications s),
    availableInterfaces := assign_packets (moves now [0..<length (availableInterfaces s)] (applications s)
        (solution_matrix (length (applications s)) (length (availableInterfaces s)) values)) (availableInterfaces s),
    hasBeenComputed := True\<rparr>)"
proof -
  let ?n = "length (applications s)"
  let ?m = "length (availableInterfaces s)"
  let ?sol = "solution_matrix ?n ?m values"
  have int: "integer_solution p values" using solver_contractD [OF assms(1,4)] by simp
  have p: "int_variables p = ?n * ?m"
    "set (map (packets_row (applications s) (availableInterfaces s)) [0..<?n]) \<subseteq> set (mip_rows p)"
    using assms(3) by (auto simp: linear_problem_def Let_def res_bind_Inr_iff)
  note sol = solution_matrix_ok [OF int p assms(5)]
  have len: "length ?sol = ?n" "\<And>i. i < ?n \<Longrightarrow> length (?sol ! i) = ?m"
    by (auto simp: solution_matrix_def)
  show ?thesis
    using assms(2,3,4) sol(1,2) len linear_matrix_ok [of ?sol s "now"]
    by (simp add: Linear_Compute_def Let_def)
qed

section \<open>Properties\<close>

text \<open>
  C3. When the solver returns an integer solution of the problem (its contract), the first call of
  the linear computation returns, leaves no pending packet, and interface \<open>i\<close> receives from each
  application exactly the number of packets the solution assigns to the pair.
\<close>

theorem Linear_Compute_sends_solution:
  assumes "solver_contract solve" and "\<not> hasBeenComputed s"
    and "linear_problem (applications s) (availableInterfaces s) = Inr p"
    and "solve p = OPTIMAL values obj"
    and "\<forall>a \<in> set (applications s). length (app_pending a) < 4294967296"
  shows "\<exists>s'. Linear_Compute solve now s = Inr s' \<and> hasBeenComputed s' \<and>
    applications s' = map app_drained (applications s) \<and>
    (\<forall>i < length (availableInterfaces s).
       if_pendingpackets (availableInterfaces s' ! i) =
         if_pendingpackets (availableInterfaces s ! i) @
         concat (map (\<lambda>j. replicate (packets_on (length (applications s)) values j i)
             (packet_info now (app_id (applications s ! j)))) [0..<length (applications s)])) \<and>
    (\<forall>ident. queued_from ident (availableInterfaces s') =
       queued_from ident (availableInterfaces s) + pending_from ident (applications s))"
proof -
  let ?n = "length (applications s)"
  let ?m = "length (availableInterfaces s)"
  let ?sol = "solution_matrix ?n ?m values"
  let ?xs = "moves now [0..<?m] (applications s) ?sol"
  have int: "integer_solution p values" using solver_contractD [OF assms(1,4)] by simp
  have p: "int_variables p = ?n * ?m"
    "set (map (packets_row (applications s) (availableInterfaces s)) [0..<?n]) \<subseteq> set (mip_rows p)"
    using assms(3) by (auto simp: linear_problem_def Let_def res_bind_Inr_iff)
  note sol = solution_matrix_ok [OF int p assms(5)]
  have len: "length ?sol = ?n" "\<And>r. r \<in> set ?sol \<Longrightarrow> length r = ?m" "\<And>i. i < ?n \<Longrightarrow> length (?sol ! i) = ?m"
    by (auto simp: solution_matrix_def)
  have run: "Linear_Compute solve now s = Inr (s\<lparr>applications := map app_drained (applications s),
      availableInterfaces := assign_packets ?xs (availableInterfaces s), hasBeenComputed := True\<rparr>)"
    by (rule Linear_Compute_first [OF assms])
  have sums: "row_total [0..<?m] (?sol ! i) = length (app_pending (applications s ! i))"
    if "i < ?n" for i
    using len(3) [OF that] sol(2) [OF that] by (simp add: row_total_all)
  have snd: "map snd ?xs = sweep_packets now (applications s)"
    using moves_snd [OF len(1) sums] .
  have bd: "list_all (\<lambda>x. fst x < ?m) ?xs" by (rule moves_bound) (simp add: list_all_iff)
  have on: "map snd (filter (\<lambda>x. fst x = i) ?xs) =
      concat (map (\<lambda>j. replicate (packets_on ?n values j i) (packet_info now (app_id (applications s ! j)))) [0..<?n])"
    if "i < ?m" for i
    using that sol(3) by (rule moves_on_solution)
  show ?thesis
    unfolding run
    by (intro exI conjI, rule refl)
      (simp_all add: on assign_packets_queue queued_from_assign [OF bd] snd packets_from_sweep)
qed


text \<open>One application with two packets and two interfaces; the solver is given a solution.\<close>

definition sample_linear :: linear_strategy where
  "sample_linear = LinearStrategy [sample_app 101 2] [sample_iface 0 3, sample_iface 1 5]"

lemma sample_linear_simps [simp]:
  "applications sample_linear = [sample_app 101 2]"
  "availableInterfaces sample_linear = [sample_iface 0 3, sample_iface 1 5]"
  "\<not> hasBeenComputed sample_linear"
  by (simp_all add: sample_linear_def LinearStrategy_def Strategy_def strategy.defs linear_strategy.defs)

lemma sample_getters [simp]:
  "getRequiredDataRate (sample_app ident n) = Inr 1024"
  "app_requiredDelay (sample_app ident n) = 100"
  "app_maxErrorRate (sample_app ident n) = 50"
  "getDataBitRate (sample_iface k c) = 1024000"
  "getDelayInMilliseconds (sample_iface k c) = 2"
  "getErrorRate (sample_iface k c) = Fin 0"
  by (simp_all add: sample_app_def static_OnApplicationStart_def SDWanStaticApplication_def
      SDWanApplication_def sdwan_application.defs sdwan_static.defs Let_def push_packets_eq
      static_getRequiredDataRate_def sample_iface_def ISPInterface_def getDataBitRate_def
      if_getDataRate_def getDelayInMilliseconds_def to_milliseconds_def getErrorRate_def
      dbl_simps rnd_small)

lemma sample_linear_problem:
  obtains p where "linear_problem (applications sample_linear) (availableInterfaces sample_linear) = Inr p"
    and "integer_solution p [Fin 2, Fin 0]"
    and "int_variables p = 2"
proof -
  have "rnd 1024000 = Fin 1024000" "rnd 512000 = Fin 512000" "rnd 1024 = Fin 1024" "rnd 1 = Fin 1"
    "rnd 2 = Fin 2" "rnd 100 = Fin 100" "rnd 50 = Fin 50" "rnd 0 = Fin 0"
    using rnd_of_nat [of 1024000] rnd_of_nat [of 512000] rnd_of_nat [of 1024] rnd_of_nat [of 1]
      rnd_of_nat [of 2] rnd_of_nat [of 100] rnd_of_nat [of 50] rnd_of_nat [of 0] by simp_all
  note r = this
  have two: "[0..<2::nat] = [0, 1]" by (simp add: upt_rec)
  obtain p where p: "linear_problem [sample_app 101 2] [sample_iface 0 3, sample_iface 1 5] = Inr p"
    "p = \<lparr>int_variables = 2,
          mip_rows = [application_row 1 2 0 (Fin 1024) PInf (\<lambda>i. Fin 512000),
            application_row 1 2 0 (Fin 0) (Fin 100) (\<lambda>i. Fin 1),
            application_row 1 2 0 (Fin 0) (Fin 50) (\<lambda>i. Fin 0),
            application_row 1 2 0 (Fin 2) (Fin 2) (\<lambda>i. Fin 1)],
          minimized = cost_coefficients 1 [sample_iface 0 3, sample_iface 1 5]\<rparr>"
    by (auto simp: linear_problem_def Let_def linear_bandwidth_row_def linear_delay_row_def
        error_row_def packets_row_def per_packet_def dbl_of_nat_def r application_row_def less_Suc_eq two)
  moreover have "integer_solution p [Fin 2, Fin 0]"
    by (simp add: p(2) integer_solution_def nonneg_integer_def row_met_def application_row_def
        activity_def two primal_tolerance_def)
  ultimately show thesis by (intro that [of p]) simp_all
qed

theorem Linear_Compute_sends_solution_witness:
  "\<exists>s'. Linear_Compute (checking_solver [Fin 2, Fin 0]) 7 sample_linear = Inr s' \<and>
     if_pendingpackets (availableInterfaces s' ! 0) = [packet_info 7 101, packet_info 7 101] \<and>
     if_pendingpackets (availableInterfaces s' ! 1) = []"
proof -
  obtain p where p: "linear_problem (applications sample_linear) (availableInterfaces sample_linear) = Inr p"
    "integer_solution p [Fin 2, Fin 0]" by (rule sample_linear_problem)
  have two: "replicate 2 x = [x, x]" for x :: send_packet_info by (simp add: numeral_2_eq_2)
  have "checking_solver [Fin 2, Fin 0] p = OPTIMAL [Fin 2, Fin 0] (Fin (activity (minimized p) [Fin 2, Fin 0]))"
    using p(2) by (simp add: checking_solver_def)
  from Linear_Compute_sends_solution [OF checking_solver_contract _ p(1) this, of 7]
  show ?thesis by (auto simp: All_less_Suc packets_on_def two)
qed

text \<open>
  After one successful computation the linear strategy never changes anything again: whatever
  the applications hold later, the call returns the state it was given.
\<close>

theorem Linear_Compute_once:
  assumes "Linear_Compute solve now s = Inr s'"
  shows "Linear_Compute solve' later (s'\<lparr>applications := apps, availableInterfaces := ifaces\<rparr>) =
    Inr (s'\<lparr>applications := apps, availableInterfaces := ifaces\<rparr>)"
proof -
  have "hasBeenComputed s'"
  proof (cases "hasBeenComputed s")
    case True
    then show ?thesis using assms by (simp add: Linear_Compute_def)
  next
    case False
    then obtain p where "linear_problem (applications s) (availableInterfaces s) = Inr p"
      using assms by (auto simp: Linear_Compute_def res_bind_Inr_iff)
    then show ?thesis
      using assms False by (cases "solve p") (auto simp: Linear_Compute_def res_bind_Inr_iff)
  qed
  then show ?thesis by (simp add: Linear_Compute_def)
qed

theorem Linear_Compute_once_witness:
  "\<exists>s'. Linear_Compute (checking_solver [Fin 2, Fin 0]) 7 sample_linear = Inr s' \<and>
     Linear_Compute (checking_solver []) 9 (s'\<lparr>applications := [sample_app 101 5], availableInterfaces := []\<rparr>) =
       Inr (s'\<lparr>applications := [sample_app 101 5], availableInterfaces := []\<rparr>)"
proof -
  obtain p where p: "linear_problem (applications sample_linear) (availableInterfaces sample_linear) = Inr p"
    "integer_solution p [Fin 2, Fin 0]" "int_variables p = 2" by (rule sample_linear_problem)
  let ?sol = "[[2, 0]] :: u32 list list"
  have "read_solution 1 2 [Fin 2, Fin 0] = Inr ?sol"
    using dbl_to_u32_nat [of 2] dbl_to_u32_nat [of 0]
    by (simp add: read_solution_def solution_entry_def upt_rec)
  moreover have "linear_matrix 7 ?sol sample_linear = Inr (sample_linear\<lparr>applications := [app_drained (sample_app 101 2)],
      availableInterfaces := assign_packets (moves 7 [0, 1] [sample_app 101 2] ?sol)
        [sample_iface 0 3, sample_iface 1 5]\<rparr>)"
    using linear_matrix_ok [of ?sol sample_linear 7] by (simp add: upt_rec)
  ultimately obtain s' where "Linear_Compute (checking_solver [Fin 2, Fin 0]) 7 sample_linear = Inr s'"
    using p by (auto simp: Linear_Compute_def checking_solver_def Let_def numeral_2_eq_2)
  then show ?thesis using Linear_Compute_once by blast
qed




end
