(* ===== verification/Reactive_Strat.thy ===== *)
theory Reactive_Strat
  imports Linear_Strat
begin

text \<open>
  \<open>ReactiveStrategy\<close>: at every call it enumerates sets of interfaces, optimises over each, takes
  the best result and sends its solution. The solver is the parameter \<open>solve\<close>, a function of the
  problem.
\<close>

text \<open>\<open>applicationToInterfacesMap\<close> is never read or written after its construction.\<close>

definition ReactiveStrategy :: "application list \<Rightarrow> isp_interface list \<Rightarrow> strategy" where
  "ReactiveStrategy apps ifaces = Strategy apps ifaces"

section \<open>The candidate sets of interfaces\<close>

definition reactive_set :: "isp_interface list \<Rightarrow> u32 \<Rightarrow> u32 \<Rightarrow> nat list res" where
  "reactive_set ifaces amountOfInterfaces i =
     res_bind (getBoolVectorFromInt i amountOfInterfaces) (\<lambda>interfacesToUse.
     res_bind (res_map (\<lambda>j. res_bind (vec_at interfacesToUse j) (\<lambda>currentValue.
         if currentValue \<or> True then res_bind (vec_at ifaces j) (\<lambda>_. Inr [j]) else Inr []))
       [0..<length interfacesToUse]) (\<lambda>pushed.
     Inr (concat pushed)))"

definition reactive_sets :: "isp_interface list \<Rightarrow> nat list list res" where
  "reactive_sets ifaces =
     (let amountOfInterfaces = of_nat (length ifaces) :: u32 in
      res_bind (maxIntWithNBits amountOfInterfaces) (\<lambda>counter.
      res_map (\<lambda>i. reactive_set ifaces amountOfInterfaces (of_nat i)) [1..<unat counter + 1]))"

section \<open>One optimisation\<close>

definition reactive_bandwidth_row ::
  "application list \<Rightarrow> isp_interface list \<Rightarrow> nat \<Rightarrow> mip_row option res" where
  "reactive_bandwidth_row apps ifaces j =
     (let a = apps ! j; amount = length (app_pending a) in
      res_bind (getRequiredDataRate a) (\<lambda>requiredBitRate.
      if amount = 0 then Inr None
      else Inr (Some (application_row (length apps) (length ifaces) j
             (dbl_of_nat (unat requiredBitRate)) PInf
             (\<lambda>i. per_packet (dbl_of_nat (unat (getDataBitRate (ifaces ! i)))) amount)))))"

definition DelayEstimator :: "sim_time \<Rightarrow> application \<Rightarrow> isp_interface \<Rightarrow> u32 res" where
  "DelayEstimator now a i =
     (case dbl_to_u32 (getAverageWaitingTimeInMilliseconds now i) of
        None \<Rightarrow> Inl (Undefined ''double to uint32_t'')
      | Some estimation \<Rightarrow> Inr estimation)"

definition reactive_delays :: "sim_time \<Rightarrow> application list \<Rightarrow> isp_interface list \<Rightarrow> u32 list list res" where
  "reactive_delays now apps ifaces = res_map (\<lambda>a. res_map (DelayEstimator now a) ifaces) apps"

definition reactive_delay_row ::
  "u32 list list \<Rightarrow> application list \<Rightarrow> isp_interface list \<Rightarrow> nat \<Rightarrow> mip_row" where
  "reactive_delay_row delays apps ifaces j =
     (let a = apps ! j; amount = length (app_pending a)
      in application_row (length apps) (length ifaces) j
           (Fin 0) (dbl_of_nat (unat (app_requiredDelay a)))
           (\<lambda>i. per_packet
                  (dadd (dbl_of_nat (unat (getDelayInMilliseconds (ifaces ! i))))
                        (dbl_of_nat (unat (delays ! j ! i)))) amount))"

definition capacity_row :: "application list \<Rightarrow> isp_interface list \<Rightarrow> nat \<Rightarrow> mip_row" where
  "capacity_row apps ifaces j =
     interface_row (length apps) j (Fin 0) (dbl_of_nat (unat (getPackageRate (ifaces ! j))))"

definition reactive_problem ::
  "sim_time \<Rightarrow> application list \<Rightarrow> isp_interface list \<Rightarrow> mip_problem res" where
  "reactive_problem now apps ifaces =
     (let n = length apps; m = length ifaces in
      res_bind (res_map (reactive_bandwidth_row apps ifaces) [0..<n]) (\<lambda>bandwidth.
      res_bind (reactive_delays now apps ifaces) (\<lambda>delays.
      Inr \<lparr>int_variables = n * m,
           mip_rows = map (capacity_row apps ifaces) [0..<m] @
             concat (map (\<lambda>r. case r of None \<Rightarrow> [] | Some r \<Rightarrow> [r]) bandwidth) @
             map (reactive_delay_row delays apps ifaces) [0..<n] @
             map (error_row apps ifaces) [0..<n] @ map (packets_row apps ifaces) [0..<n],
           minimized = cost_coefficients n ifaces\<rparr>)))"

definition ComputeOptimization ::
  "(mip_problem \<Rightarrow> solve_result) \<Rightarrow> sim_time \<Rightarrow> application list \<Rightarrow> isp_interface list \<Rightarrow> nat list \<Rightarrow>
     optimization_result res"
where
  "ComputeOptimization solve now apps ifaces idx =
     (let currentInterfaces = map ((!) ifaces) idx in
      res_bind (reactive_problem now apps currentInterfaces) (\<lambda>p.
      case solve p of
        NOT_OPTIMAL \<Rightarrow> Inr (ComputeOptimizationResult False [] None 0)
      | OPTIMAL values objective \<Rightarrow>
          res_bind (read_solution (length apps) (length currentInterfaces) values) (\<lambda>sol.
          case dbl_to_u32 (dfloor objective) of
            None \<Rightarrow> Inl (Undefined ''double to uint32_t'')
          | Some c \<Rightarrow> Inr (ComputeOptimizationResult True sol (Some idx) c))))"

section \<open>Choosing and sending\<close>

text \<open>The comparator handed to \<open>std::max_element\<close>; it is not irreflexive.\<close>

definition result_less :: "optimization_result \<Rightarrow> optimization_result \<Rightarrow> bool" where
  "result_less a b =
     (if \<not> getIsFeasible a then True
      else if \<not> getIsFeasible b then False
      else getTotalCost b < getTotalCost a)"

fun reactive_send ::
  "sim_time \<Rightarrow> nat \<Rightarrow> nat \<Rightarrow> nat \<Rightarrow> 'a strategy_scheme \<Rightarrow> 'a strategy_scheme res" where
  "reactive_send currentTime i f 0 s = Inr s"
| "reactive_send currentTime i f (Suc packetsForApplicationAndInterface) s =
     res_bind (vec_at (applications s) i) (\<lambda>currentApplication.
     if length (app_pending currentApplication) = 0 then Inl (ThrownPointer ''Nessun pacchetto'')
     else
       res_bind (pop_application i s) (\<lambda>s.
       let packetInfo = \<lparr>dateEnqueued = currentTime, originatedFrom = app_id currentApplication\<rparr> in
       res_bind (enqueue_on f packetInfo s)
         (reactive_send currentTime i f packetsForApplicationAndInterface)))"

definition reactive_row ::
  "sim_time \<Rightarrow> nat list \<Rightarrow> nat \<Rightarrow> u32 list \<Rightarrow> 'a strategy_scheme \<Rightarrow> 'a strategy_scheme res" where
  "reactive_row now interfaces i packetsForApplication s =
     res_fold (\<lambda>j s. res_bind (vec_at interfaces j) (\<lambda>currentInterface.
         res_bind (vec_at packetsForApplication j) (\<lambda>c. reactive_send now i currentInterface (unat c) s)))
       [0..<length interfaces] s"

definition reactive_matrix ::
  "sim_time \<Rightarrow> nat list \<Rightarrow> u32 list list \<Rightarrow> 'a strategy_scheme \<Rightarrow> 'a strategy_scheme res" where
  "reactive_matrix now interfaces sol s =
     res_fold (\<lambda>i s. res_bind (vec_at (applications s) i) (\<lambda>currentApplication.
         res_bind (vec_at sol i) (\<lambda>packetsForApplication.
           reactive_row now interfaces i packetsForApplication s)))
       [0..<length sol] s"

definition Reactive_Compute ::
  "(mip_problem \<Rightarrow> solve_result) \<Rightarrow> bool \<Rightarrow> sim_time \<Rightarrow> strategy \<Rightarrow> strategy computed res" where
  "Reactive_Compute solve opened now s =
     res_bind (reactive_sets (availableInterfaces s)) (\<lambda>interfaceSet.
     res_bind (res_map (ComputeOptimization solve now (applications s) (availableInterfaces s)) interfaceSet)
       (\<lambda>results.
     let it = max_element result_less results;
         pendingPackages = foldl (\<lambda>k a. k + of_nat (length (app_pending a))) 0 (applications s) :: u32
     in case it of
          None \<Rightarrow> Inl (ThrownPointer ''Nessuna soluzione trovata'')
        | Some bestSolution \<Rightarrow>
            if \<not> getIsFeasible bestSolution then Inl (ThrownPointer ''Nessuna soluzione trovata'')
            else
              let s = push_data_point (getTotalCost bestSolution) pendingPackages s in
              case result_interfaces bestSolution of
                None \<Rightarrow> Inl (Undefined ''null pointer'')
              | Some interfaces \<Rightarrow>
                  res_bind (reactive_matrix now interfaces (getSolutionValues bestSolution) s) (\<lambda>s.
                  printWhenAllSent opened ''outputReactive.csv'' s)))"

section \<open>The sets are all the same\<close>

lemma reactive_set_eq:
  assumes "length ifaces \<le> 32"
  shows "reactive_set ifaces (of_nat (length ifaces)) i = Inr [0..<length ifaces]"
proof -
  let ?n = "length ifaces"
  have n: "unat (of_nat ?n :: u32) = ?n" using assms by simp
  let ?v = "rev (map (\<lambda>k. bit i k) [0..<?n])"
  have v: "getBoolVectorFromInt i (of_nat ?n) = Inr ?v"
    using assms by (simp add: getBoolVectorFromInt_def n)
  have "res_map (\<lambda>j. res_bind (vec_at ?v j) (\<lambda>currentValue.
         if currentValue \<or> True then res_bind (vec_at ifaces j) (\<lambda>_. Inr [j]) else Inr []))
       [0..<?n] = Inr (map (\<lambda>j. [j]) [0..<?n])"
    by (rule res_map_eqI) simp
  then show ?thesis
    by (simp add: reactive_set_def v concat_map_singleton)
qed

lemma reactive_sets_eq:
  assumes "0 < length ifaces" and "length ifaces < 32"
  shows "reactive_sets ifaces = Inr (replicate (2 ^ length ifaces - 1) [0..<length ifaces])"
proof -
  let ?n = "length ifaces"
  have n: "unat (of_nat ?n :: u32) = ?n" using assms by simp
  obtain c where c: "maxIntWithNBits (of_nat ?n) = Inr c" "unat c = 2 ^ ?n - 1"
    using unat_maxIntWithNBits [of "of_nat ?n"] assms n by auto
  have "res_map (\<lambda>i. reactive_set ifaces (of_nat ?n) (of_nat i)) [1..<unat c + 1] =
      Inr (map (\<lambda>i. [0..<?n]) [1..<unat c + 1])"
    using assms by (intro res_map_eqI) (simp add: reactive_set_eq)
  then show ?thesis
    by (simp add: reactive_sets_def c map_replicate_const del: upt_Suc)
qed

section \<open>The choice\<close>

lemma foldl_result_less_feasible:
  assumes "getIsFeasible r"
  shows "getIsFeasible (foldl (\<lambda>best y. if result_less best y then y else best) r ys) \<and>
    getTotalCost (foldl (\<lambda>best y. if result_less best y then y else best) r ys) \<le> getTotalCost r \<and>
    (\<forall>y \<in> set ys. getIsFeasible y \<longrightarrow>
      getTotalCost (foldl (\<lambda>best y. if result_less best y then y else best) r ys) \<le> getTotalCost y)"
  using assms
proof (induction ys arbitrary: r)
  case Nil
  then show ?case by simp
next
  case (Cons y ys)
  show ?case
  proof (cases "result_less r y")
    case True
    then have y: "getIsFeasible y" "getTotalCost y \<le> getTotalCost r"
      using Cons.prems by (auto simp: result_less_def split: if_splits)
    then show ?thesis using Cons.IH [of y] True by (auto intro: order.trans)
  next
    case False
    then have "getIsFeasible y \<Longrightarrow> getTotalCost r \<le> getTotalCost y"
      using Cons.prems by (auto simp: result_less_def split: if_splits)
    then show ?thesis using Cons.IH [OF Cons.prems] False by (auto intro: order.trans)
  qed
qed

lemma foldl_result_less_best:
  assumes "\<exists>x \<in> set (r # ys). getIsFeasible x"
  shows "getIsFeasible (foldl (\<lambda>best y. if result_less best y then y else best) r ys) \<and>
    (\<forall>y \<in> set (r # ys). getIsFeasible y \<longrightarrow>
      getTotalCost (foldl (\<lambda>best y. if result_less best y then y else best) r ys) \<le> getTotalCost y)"
proof (cases "getIsFeasible r")
  case True
  then show ?thesis using foldl_result_less_feasible [OF True, of ys] by auto
next
  case False
  then show ?thesis
    using assms
  proof (induction ys arbitrary: r)
    case Nil
    then show ?case by simp
  next
    case (Cons y ys)
    have l: "result_less r y" using Cons.prems(1) by (simp add: result_less_def)
    show ?case
    proof (cases "getIsFeasible y")
      case True
      then show ?thesis using foldl_result_less_feasible [OF True, of ys] l Cons.prems(1) by auto
    next
      case no: False
      then show ?thesis using Cons.IH [OF no] Cons.prems l by auto
    qed
  qed
qed

lemma max_element_result_less:
  assumes "max_element result_less rs = Some r" and "\<exists>x \<in> set rs. getIsFeasible x"
  shows "getIsFeasible r \<and> (\<forall>y \<in> set rs. getIsFeasible y \<longrightarrow> getTotalCost r \<le> getTotalCost y)"
  using assms foldl_result_less_best by (cases rs) auto

lemma max_element_replicate: "0 < k \<Longrightarrow> max_element lt (replicate k r) = Some r"
proof -
  have "foldl (\<lambda>best y. if lt best y then y else best) r (replicate k r) = r" for k
    by (induction k) auto
  then show "0 < k \<Longrightarrow> max_element lt (replicate k r) = Some r"
    by (cases k) auto
qed

section \<open>Sending\<close>

lemma reactive_send_frame:
  "reactive_send now i f k s = Inr s' \<Longrightarrow>
   length (applications s') = length (applications s) \<and>
   length (availableInterfaces s') = length (availableInterfaces s)"
proof (induction k arbitrary: s)
  case 0
  then show ?case by simp
next
  case (Suc k)
  then show ?case
    by (fastforce simp: res_bind_Inr_iff pop_application_def enqueue_on_def Let_def split: if_splits)
qed

interpretation reactive: matrix_sender reactive_send
proof
  fix now i f k and s :: "'a strategy_scheme"
  show "reactive_send now i f 0 s = Inr s" by simp
  assume "i < length (applications s)" "f < length (availableInterfaces s)"
    "app_pending (applications s ! i) \<noteq> []"
  then show "reactive_send now i f (Suc k) s =
      reactive_send now i f k (shift_packets i 1 [(f, packet_info now (app_id (applications s ! i)))] s)"
    by (simp add: packet_info_def Let_def pop_application_eq enqueue_on_eq shift_packets_def)
qed (rule reactive_send_frame)

lemma reactive_matrix_ok:
  assumes "length sol = length (applications s)"
    and "\<And>i. i < length (applications s) \<Longrightarrow> length (sol ! i) = length idx \<and>
      (\<Sum>c\<leftarrow>sol ! i. unat c) = length (app_pending (applications s ! i))"
    and "list_all (\<lambda>f. f < length (availableInterfaces s)) idx"
  shows "reactive_matrix now idx sol s =
    Inr (s\<lparr>applications := map app_drained (applications s),
           availableInterfaces :=
             assign_packets (moves now idx (applications s) sol) (availableInterfaces s)\<rparr>)"
proof -
  have row: "reactive_row now idx i (sol ! i) t =
      res_fold (\<lambda>(f, c). reactive_send now i f (unat c)) (zip idx (sol ! i)) t"
    if "i < length sol" "length (availableInterfaces t) = length (availableInterfaces s)" for i t
    using that assms res_fold_index_zip [of "sol ! i" idx "\<lambda>f c. reactive_send now i f (unat c)" t]
    by (simp add: reactive_row_def)
  have sums: "row_total idx (sol ! i) = length (app_pending (applications s ! i))"
    if "i < length (applications s)" for i
    using assms(2) [OF that] by (simp add: row_total_all)
  then have le: "row_total idx (sol ! i) \<le> length (app_pending (applications s ! i))"
    if "i < length (applications s)" for i
    using that by simp
  from reactive.send_matrix_ok [OF assms(1) le assms(3), of "length (applications s)" "now"]
  show ?thesis
    using reactive.send_matrix_loop [of sol s "reactive_row now idx" "now" idx, OF assms(1) row]
      assms(1) rows_sent_all [OF assms(1) sums]
    by (simp add: reactive_matrix_def)
qed

section \<open>One call\<close>

text \<open>The number of pending packets, as the loop over the applications adds it up in 32 bits.\<close>

lemma pending_u32: "foldl (\<lambda>k a. k + of_nat (length (app_pending a))) (k :: u32) apps = k + of_nat (pending apps)"
  by (induction apps arbitrary: k) (simp_all add: add.assoc)

lemma Reactive_Compute_eq:
  assumes "0 < length (availableInterfaces s)" and "length (availableInterfaces s) < 32"
    and "ComputeOptimization solve now (applications s) (availableInterfaces s)
      [0..<length (availableInterfaces s)] = Inr r"
  shows "Reactive_Compute solve opened now s =
    (if \<not> getIsFeasible r then Inl (ThrownPointer ''Nessuna soluzione trovata'')
     else case result_interfaces r of
            None \<Rightarrow> Inl (Undefined ''null pointer'')
          | Some interfaces \<Rightarrow>
              res_bind (reactive_matrix now interfaces (getSolutionValues r)
                  (push_data_point (getTotalCost r) (of_nat (pending (applications s))) s))
                (printWhenAllSent opened ''outputReactive.csv''))"
proof -
  let ?n = "length (availableInterfaces s)"
  let ?k = "(2 :: nat) ^ ?n - 1"
  have "(1 :: nat) < 2 ^ ?n" using assms(1) by (intro one_less_power) simp_all
  then have k: "0 < ?k" by linarith
  have "res_map (ComputeOptimization solve now (applications s) (availableInterfaces s))
      (replicate ?k [0..<?n]) = Inr (replicate ?k r)"
    using res_map_eqI [of "replicate ?k [0..<?n]"
        "ComputeOptimization solve now (applications s) (availableInterfaces s)" "\<lambda>_. r"] assms(3)
    by (simp add: map_replicate_const)
  moreover have "max_element result_less (replicate ?k r) = Some r"
    by (rule max_element_replicate [OF k])
  ultimately show ?thesis
    by (simp add: Reactive_Compute_def reactive_sets_eq [OF assms(1,2)] pending_u32)
qed

text \<open>What the problem of a call always contains.\<close>

lemma reactive_problem_rows:
  assumes "reactive_problem now apps ifaces = Inr p"
  shows "int_variables p = length apps * length ifaces"
    and "set (map (packets_row apps ifaces) [0..<length apps]) \<subseteq> set (mip_rows p)"
    and "i < length ifaces \<Longrightarrow> capacity_row apps ifaces i \<in> set (mip_rows p)"
    and "minimized p = cost_coefficients (length apps) ifaces"
  using assms by (auto simp: reactive_problem_def Let_def res_bind_Inr_iff)

lemma capacity_row_met:
  assumes "integer_solution p values" and "capacity_row apps ifaces i \<in> set (mip_rows p)"
    and "int_variables p = length apps * length ifaces" and "i < length ifaces"
    and "unat (getPackageRate (ifaces ! i)) \<le> 2 ^ 53"
  shows "(\<Sum>j\<leftarrow>[0..<length apps]. packets_on (length apps) values j i) \<le> unat (getPackageRate (ifaces ! i))"
proof -
  have d: "dbl_of_nat (unat (getPackageRate (ifaces ! i))) = Fin (of_nat (unat (getPackageRate (ifaces ! i))))"
    using assms(5) by (rule dbl_of_nat_small)
  have "row_met (capacity_row apps ifaces i) values"
    using assms(1,2) by (auto simp: integer_solution_def list_all_iff)
  then have "(of_nat (\<Sum>j\<leftarrow>[0..<length apps]. packets_on (length apps) values j i) :: rat) \<le>
      of_nat (unat (getPackageRate (ifaces ! i))) + primal_tolerance"
    using interface_row_activity [OF assms(1,4,3)]
    by (simp add: row_met_def capacity_row_def d)
      (simp add: interface_row_def)
  then show ?thesis by (rule tolerance_le)
qed

lemma ComputeOptimization_optimal:
  assumes "solver_contract solve" and "reactive_problem now apps ifaces = Inr p"
    and "solve p = OPTIMAL values obj"
    and "\<forall>a \<in> set apps. length (app_pending a) < 4294967296"
    and "solution_cost (length apps) ifaces values < 4294967296"
  shows "ComputeOptimization solve now apps ifaces [0..<length ifaces] =
    Inr (ComputeOptimizationResult True (solution_matrix (length apps) (length ifaces) values)
      (Some [0..<length ifaces]) (of_nat (solution_cost (length apps) ifaces values)))"
proof -
  have c: "integer_solution p values" "obj = Fin (activity (minimized p) values)"
    using solver_contractD [OF assms(1,3)] by simp_all
  note p = reactive_problem_rows [OF assms(2)]
  have "obj = Fin (of_nat (solution_cost (length apps) ifaces values))"
    using cost_activity [OF c(1) p(1)] c(2) by (simp add: p(4))
  then have "dbl_to_u32 (dfloor obj) = Some (of_nat (solution_cost (length apps) ifaces values))"
    using assms(5) by (simp add: dbl_to_u32_nat)
  then show ?thesis
    using assms(2,3) solution_matrix_ok(1) [OF c(1) p(1,2) assms(4)]
    by (simp add: ComputeOptimization_def map_nth)
qed

text \<open>A call for which the solver finds a solution: the state it returns.\<close>

lemma Reactive_Compute_result:
  assumes "solver_contract solve"
    and "0 < length (availableInterfaces s)" and "length (availableInterfaces s) < 32"
    and "reactive_problem now (applications s) (availableInterfaces s) = Inr p"
    and "solve p = OPTIMAL values obj"
    and "\<forall>a \<in> set (applications s). length (app_pending a) < 4294967296"
    and "solution_cost (length (applications s)) (availableInterfaces s) values < 4294967296"
  shows "\<exists>file. Reactive_Compute solve True now s =
    Inr ((push_data_point (of_nat (solution_cost (length (applications s)) (availableInterfaces s) values))
            (of_nat (pending (applications s))) s)
          \<lparr>applications := map app_drained (applications s),
           availableInterfaces := assign_packets (moves now [0..<length (availableInterfaces s)] (applications s)
             (solution_matrix (length (applications s)) (length (availableInterfaces s)) values)) (availableInterfaces s)\<rparr>, file)"
proof -
  let ?n = "length (applications s)"
  let ?m = "length (availableInterfaces s)"
  let ?sol = "solution_matrix ?n ?m values"
  let ?s = "push_data_point (of_nat (solution_cost ?n (availableInterfaces s) values)) (of_nat (pending (applications s))) s"
  have int: "integer_solution p values" using solver_contractD [OF assms(1,5)] by simp
  note p = reactive_problem_rows [OF assms(4)]
  note sol = solution_matrix_ok [OF int p(1,2) assms(6)]
  have len: "length ?sol = ?n" "\<And>i. i < ?n \<Longrightarrow> length (?sol ! i) = ?m"
    by (auto simp: solution_matrix_def)
  have bd: "list_all (\<lambda>f. f < ?m) [0..<?m]" by (simp add: list_all_iff)
  define t where "t = ?s\<lparr>applications := map app_drained (applications s),
      availableInterfaces := assign_packets (moves now [0..<?m] (applications s) ?sol) (availableInterfaces s)\<rparr>"
  have "reactive_matrix now [0..<?m] ?sol ?s = Inr t"
    using reactive_matrix_ok [of ?sol ?s "[0..<?m]" "now"] len sol(2) bd by (simp add: t_def)
  then have "Reactive_Compute solve True now s = printWhenAllSent True ''outputReactive.csv'' t"
    using Reactive_Compute_eq [OF assms(2,3) ComputeOptimization_optimal [OF assms(1,4,5,6,7)]]
    by (simp add: ComputeOptimizationResult_def getIsFeasible_def getSolutionValues_def getTotalCost_def)
  then show ?thesis using printWhenAllSent_opened by (metis t_def)
qed

text \<open>What each interface receives, at most its capacity.\<close>

lemma reactive_received:
  assumes "integer_solution p values" and "reactive_problem now apps ifaces = Inr p"
    and "\<forall>a \<in> set apps. length (app_pending a) < 4294967296" and i: "i < length ifaces"
    and "unat (getPackageRate (ifaces ! i)) \<le> 2 ^ 53"
  shows "if_pendingpackets (assign_packets (moves now [0..<length ifaces] apps
        (solution_matrix (length apps) (length ifaces) values)) ifaces ! i) =
      if_pendingpackets (ifaces ! i) @ concat (map (\<lambda>j. replicate (packets_on (length apps) values j i)
          (packet_info now (app_id (apps ! j)))) [0..<length apps])"
    and "(\<Sum>j\<leftarrow>[0..<length apps]. packets_on (length apps) values j i) \<le> unat (getPackageRate (ifaces ! i))"
proof -
  note p = reactive_problem_rows [OF assms(2)]
  note sol = solution_matrix_ok [OF assms(1) p(1,2) assms(3)]
  show "if_pendingpackets (assign_packets (moves now [0..<length ifaces] apps
        (solution_matrix (length apps) (length ifaces) values)) ifaces ! i) =
      if_pendingpackets (ifaces ! i) @ concat (map (\<lambda>j. replicate (packets_on (length apps) values j i)
          (packet_info now (app_id (apps ! j)))) [0..<length apps])"
    using moves_on_solution [OF i, of apps "values" "now"] sol(3) i by (simp add: assign_packets_queue)
  show "(\<Sum>j\<leftarrow>[0..<length apps]. packets_on (length apps) values j i) \<le> unat (getPackageRate (ifaces ! i))"
    by (rule capacity_row_met [OF assms(1) p(3) [OF i] p(1) i assms(5)])
qed

text \<open>A call for which the solver finds none.\<close>

lemma Reactive_Compute_fails:
  assumes "0 < length (availableInterfaces s)" and "length (availableInterfaces s) < 32"
    and "reactive_problem now (applications s) (availableInterfaces s) = Inr p"
    and "solve p = NOT_OPTIMAL"
  shows "Reactive_Compute solve opened now s = Inl (ThrownPointer ''Nessuna soluzione trovata'')"
proof -
  have "ComputeOptimization solve now (applications s) (availableInterfaces s)
      [0..<length (availableInterfaces s)] = Inr (ComputeOptimizationResult False [] None 0)"
    using assms(3,4) by (simp add: ComputeOptimization_def map_nth)
  from Reactive_Compute_eq [OF assms(1,2) this] show ?thesis
    by (simp add: getIsFeasible_def ComputeOptimizationResult_def)
qed

section \<open>Properties\<close>

text \<open>
  C11. The comparator given to \<open>std::max_element\<close> is not a strict weak order (it relates an
  infeasible result to itself), yet the element the walk returns is right: when some result is
  feasible, it is a feasible one of least cost.
\<close>

theorem best_result_is_cheapest_feasible:
  assumes "max_element result_less rs = Some r" and "\<exists>x \<in> set rs. getIsFeasible x"
  shows "r \<in> set rs \<and> getIsFeasible r \<and>
    (\<forall>y \<in> set rs. getIsFeasible y \<longrightarrow> getTotalCost r \<le> getTotalCost y)"
  using max_element_result_less [OF assms] max_element_mem [OF assms(1)] by simp

theorem best_result_is_cheapest_feasible_witness:
  "max_element result_less
     [ComputeOptimizationResult False [] None 0, ComputeOptimizationResult True [] None 7,
      ComputeOptimizationResult True [] None 4] = Some (ComputeOptimizationResult True [] None 4) \<and>
   getIsFeasible (ComputeOptimizationResult True [] None 4)"
proof -
  let ?rs = "[ComputeOptimizationResult False [] None 0, ComputeOptimizationResult True [] None 7,
      ComputeOptimizationResult True [] None 4]"
  have m: "max_element result_less ?rs = Some (ComputeOptimizationResult True [] None 4)"
    by (simp add: result_less_def getIsFeasible_def getTotalCost_def ComputeOptimizationResult_def)
  have "\<exists>x \<in> set ?rs. getIsFeasible x" by (simp add: getIsFeasible_def ComputeOptimizationResult_def)
  from best_result_is_cheapest_feasible [OF m this] m show ?thesis by simp
qed

text \<open>
  C12. The enumeration of subsets of interfaces is void: for every number of interfaces from 1 to
  31, each of the \<open>2^n - 1\<close> candidate sets holds all the interfaces, because of the \<open>|| true\<close>.
\<close>

theorem reactive_sets_all_equal:
  assumes "0 < length ifaces" and "length ifaces < 32"
  shows "reactive_sets ifaces = Inr (replicate (2 ^ length ifaces - 1) [0..<length ifaces])"
  using assms by (rule reactive_sets_eq)

theorem reactive_sets_all_equal_witness:
  "reactive_sets [sample_iface 0 3, sample_iface 1 5] = Inr [[0, 1], [0, 1], [0, 1]]"
  using reactive_sets_all_equal [of "[sample_iface 0 3, sample_iface 1 5]"]
  by (simp add: upt_rec numeral_2_eq_2 numeral_3_eq_3)


definition sample_reactive :: strategy where
  "sample_reactive = ReactiveStrategy [sample_app 101 2] [sample_iface 0 3, sample_iface 1 5]"

lemma sample_reactive_simps [simp]:
  "applications sample_reactive = [sample_app 101 2]"
  "availableInterfaces sample_reactive = [sample_iface 0 3, sample_iface 1 5]"
  "strategyData sample_reactive = []"
  by (simp_all add: sample_reactive_def ReactiveStrategy_def Strategy_def)

lemma sample_waiting [simp]:
  "getAverageWaitingTimeInMilliseconds 0 (sample_iface k c) = Fin 0"
  by (intro waiting_time_idle) (simp_all add: to_milliseconds_def)

lemma sample_packageRate [simp]: "getPackageRate (sample_iface k c) = 1000"
  by (simp add: getPackageRate_def sample_iface_def ISPInterface_def if_getDataRate_def PacketSizeBit_def)

lemma sample_reactive_problem:
  obtains p where
    "reactive_problem 0 (applications sample_reactive) (availableInterfaces sample_reactive) = Inr p"
    and "integer_solution p [Fin 2, Fin 0]"
proof -
  have "rnd 1024000 = Fin 1024000" "rnd 512000 = Fin 512000" "rnd 1024 = Fin 1024" "rnd 1 = Fin 1"
    "rnd 2 = Fin 2" "rnd 100 = Fin 100" "rnd 50 = Fin 50" "rnd 0 = Fin 0" "rnd 1000 = Fin 1000"
    using rnd_of_nat [of 1024000] rnd_of_nat [of 512000] rnd_of_nat [of 1024] rnd_of_nat [of 1]
      rnd_of_nat [of 2] rnd_of_nat [of 100] rnd_of_nat [of 50] rnd_of_nat [of 0] rnd_of_nat [of 1000]
    by simp_all
  note r = this
  have u: "dbl_to_u32 (Fin 0) = Some 0" using dbl_to_u32_nat [of 0] by simp
  have two: "[0..<2::nat] = [0, 1]" by (simp add: upt_rec)
  obtain p where p: "reactive_problem 0 [sample_app 101 2] [sample_iface 0 3, sample_iface 1 5] = Inr p"
    "p = \<lparr>int_variables = 2,
          mip_rows = [interface_row 1 0 (Fin 0) (Fin 1000), interface_row 1 1 (Fin 0) (Fin 1000),
            application_row 1 2 0 (Fin 1024) PInf (\<lambda>i. Fin 512000),
            application_row 1 2 0 (Fin 0) (Fin 100) (\<lambda>i. Fin 1),
            application_row 1 2 0 (Fin 0) (Fin 50) (\<lambda>i. Fin 0),
            application_row 1 2 0 (Fin 2) (Fin 2) (\<lambda>i. Fin 1)],
          minimized = cost_coefficients 1 [sample_iface 0 3, sample_iface 1 5]\<rparr>"
    by (auto simp: reactive_problem_def Let_def reactive_bandwidth_row_def reactive_delay_row_def
        reactive_delays_def DelayEstimator_def capacity_row_def u
        error_row_def packets_row_def per_packet_def dbl_of_nat_def r application_row_def less_Suc_eq two)
  moreover have "integer_solution p [Fin 2, Fin 0]"
    by (simp add: p(2) integer_solution_def nonneg_integer_def row_met_def application_row_def
        interface_row_def activity_def two primal_tolerance_def)
  ultimately show thesis by (intro that [of p]) simp_all
qed


text \<open>
  C17. When the solver finds no optimal solution, the reactive computation throws a pointer to a
  \<open>std::runtime_error\<close>, which a handler for \<open>std::exception\<close> does not catch.
\<close>

theorem Reactive_Compute_infeasible:
  assumes "0 < length (availableInterfaces s)" and "length (availableInterfaces s) < 32"
    and "reactive_problem now (applications s) (availableInterfaces s) = Inr p"
    and "solve p = NOT_OPTIMAL"
  shows "Reactive_Compute solve opened now s = Inl (ThrownPointer ''Nessuna soluzione trovata'')"
  using assms by (rule Reactive_Compute_fails)

theorem Reactive_Compute_infeasible_witness:
  "Reactive_Compute (\<lambda>p. NOT_OPTIMAL) True 0 sample_reactive =
     Inl (ThrownPointer ''Nessuna soluzione trovata'')"
proof -
  obtain p where "reactive_problem 0 (applications sample_reactive) (availableInterfaces sample_reactive) = Inr p"
    by (rule sample_reactive_problem)
  then show ?thesis by (intro Reactive_Compute_infeasible) simp_all
qed

end
