(* ===== verification/Routed_Solution.thy ===== *)
theory Routed_Solution
  imports Mip_Model
begin

text \<open>
  Solutions of the problems of the linear and the reactive strategy that send every application over
  one interface of its own: which rows they meet. The coefficients are rounded quotients, and the
  primal tolerance of the solver covers the rounding.
\<close>

section \<open>The rounding of a quotient\<close>

lemma fl_error:
  assumes "2 powi (- 60) \<le> x"
  shows "\<bar>fl x - x\<bar> \<le> x / 2 ^ 52"
proof -
  have pos: "0 < x" using assms by (rule less_le_trans [rotated]) simp
  define k where "k = ilog2 x"
  have k: "2 powi k \<le> x" "- 60 \<le> k"
    unfolding k_def using ilog2_bounds [OF pos] ilog2_ge [OF pos assms] by simp_all
  have e: "fexp x = k - 52" using pos k(2) by (simp add: fexp_def k_def)
  let ?u = "2 powi (k - 52) :: rat"
  let ?y = "x / ?u"
  have "of_int \<lfloor>?y\<rfloor> \<le> (of_int (rne ?y) :: rat)" "(of_int (rne ?y) :: rat) \<le> of_int (\<lfloor>?y\<rfloor> + 1)"
    unfolding of_int_le_iff by (rule rne_ge_floor, rule rne_le_floor)
  then have "\<bar>of_int (rne ?y) - ?y\<bar> \<le> 1"
    using floor_correct [of ?y] unfolding of_int_add of_int_1 by linarith
  then have "\<bar>of_int (rne ?y) - ?y\<bar> * ?u \<le> 1 * ?u" by (intro mult_right_mono) simp_all
  moreover have "fl x - x = (of_int (rne ?y) - ?y) * ?u"
    using pos by (simp add: fl_def e left_diff_distrib)
  ultimately have "\<bar>fl x - x\<bar> \<le> ?u" by (simp add: abs_mult)
  also have "?u = 2 powi k / 2 ^ 52" by (simp add: powi_diff)
  also have "\<dots> \<le> x / 2 ^ 52" using k(1) by (simp add: divide_right_mono)
  finally show ?thesis .
qed

text \<open>A coefficient times the number of packets it was divided by.\<close>

lemma per_packet_back:
  assumes c: "c = 0 \<or> 1 / 2 \<le> c" "c \<le> 2 ^ 30" and amount: "0 < amount" "amount < 4294967296"
  shows "\<bar>dval (per_packet (Fin c) amount) * of_nat amount - c\<bar> \<le> primal_tolerance"
proof (cases "c = 0")
  case True
  then show ?thesis using amount by (simp add: per_packet_def dbl_of_nat_small rnd_small primal_tolerance_def)
next
  case False
  let ?a = "of_nat amount :: rat"
  let ?x = "c / ?a"
  have c1: "1 / 2 \<le> c" using False c(1) by simp
  have a: "1 \<le> ?a" "?a \<le> 2 powi 32"
    using amount of_nat_le_iff [of amount 4294967296, where 'a = rat] by simp_all
  have am: "dbl_of_nat amount = Fin ?a" using amount by (intro dbl_of_nat_small) simp
  have "\<bar>?x\<bar> \<le> c" using c1 a(1) by (simp add: divide_le_eq mult_le_cancel_left1)
  then have "rnd ?x = Fin (fl ?x)" using c(2) by (intro rnd_small) simp
  then have v: "dval (per_packet (Fin c) amount) * ?a - c = (fl ?x - ?x) * ?a"
    using amount a(1) by (simp add: per_packet_def am left_diff_distrib)
  have "2 powi (- 60) \<le> (1 / 2) / (2 powi 32 :: rat)" by simp
  also have "\<dots> \<le> ?x" using c1 a by (intro frac_le) simp_all
  finally have "\<bar>fl ?x - ?x\<bar> * ?a \<le> ?x / 2 ^ 52 * ?a" using a(1) by (intro mult_right_mono fl_error) simp_all
  also have "\<dots> = c / 2 ^ 52" using a(1) by simp
  also have "\<dots> \<le> primal_tolerance" using c(2) by (simp add: primal_tolerance_def)
  finally show ?thesis unfolding v using a(1) by (simp add: abs_mult)
qed

section \<open>Every application over an interface of its own\<close>

text \<open>Application \<open>j\<close> goes to interface \<open>f j\<close> of \<open>m\<close>.\<close>

definition routed :: "(nat \<Rightarrow> nat) \<Rightarrow> nat \<Rightarrow> application list \<Rightarrow> dbl list" where
  "routed f m apps =
     map (\<lambda>k. if k div length apps = f (k mod length apps)
              then dbl_of_nat (length (app_pending (apps ! (k mod length apps)))) else Fin 0)
       [0..<length apps * m]"

lemma routed_nth:
  assumes "j < length apps" and "i < m"
  shows "routed f m apps ! (j + i * length apps) =
    (if i = f j then dbl_of_nat (length (app_pending (apps ! j))) else Fin 0)"
proof -
  have "j + i * length apps < length apps * m" by (rule variable_bound [OF assms])
  moreover have "(j + i * length apps) div length apps = i" "(j + i * length apps) mod length apps = j"
    using assms(1) by (cases "apps = []"; simp)+
  ultimately show ?thesis by (simp only: routed_def nth_map_upt diff_zero add_0)
qed

lemma routed_nonneg:
  assumes "\<forall>a\<in>set apps. length (app_pending a) < 4294967296"
  shows "list_all nonneg_integer (routed f m apps)"
proof -
  have "nonneg_integer (dbl_of_nat (length (app_pending (apps ! j))))" if "j < length apps" for j
  proof -
    have "length (app_pending (apps ! j)) \<le> 2 ^ 53" using assms nth_mem [OF that] by fastforce
    then show ?thesis by (simp add: nonneg_integer_def dbl_of_nat_small)
  qed
  moreover have "k mod length apps < length apps" if "k < length apps * m" for k
    using that by (cases "apps = []") simp_all
  ultimately show ?thesis by (auto simp: routed_def list_all_iff nonneg_integer_def [of "Fin 0"])
qed

lemma routed_activity:
  assumes "j < length apps" and "f j < m" and "length (app_pending (apps ! j)) \<le> 2 ^ 53"
  shows "activity (coefficients (application_row (length apps) m j lo up c)) (routed f m apps) =
    dval (c (f j)) * of_nat (length (app_pending (apps ! j)))"
proof -
  have "activity (coefficients (application_row (length apps) m j lo up c)) (routed f m apps) =
      (\<Sum>i\<leftarrow>[0..<m]. if i = f j then dval (c (f j)) * of_nat (length (app_pending (apps ! j))) else 0)"
    unfolding activity_def application_row_def using assms(1,3)
    by (auto intro!: arg_cong [of _ _ sum_list] simp: comp_def routed_nth dbl_of_nat_small)
  also have "\<dots> = dval (c (f j)) * of_nat (length (app_pending (apps ! j)))"
    using assms(2) by (simp add: sum_list_distinct_conv_sum_set sum.delta)
  finally show ?thesis .
qed

lemma routed_interface_activity:
  assumes "i < m" and "\<forall>a\<in>set apps. length (app_pending a) \<le> 2 ^ 53"
  shows "activity (coefficients (interface_row (length apps) i lo up)) (routed f m apps) =
    of_nat (\<Sum>j<length apps. if f j = i then length (app_pending (apps ! j)) else 0)"
proof -
  have "activity (coefficients (interface_row (length apps) i lo up)) (routed f m apps) =
      (\<Sum>j\<leftarrow>[0..<length apps]. of_nat (if f j = i then length (app_pending (apps ! j)) else 0))"
    unfolding activity_def interface_row_def using assms
    by (auto intro!: arg_cong [of _ _ sum_list] simp: comp_def routed_nth dbl_of_nat_small)
  then show ?thesis
    by (simp add: sum_list_distinct_conv_sum_set atLeast0LessThan of_nat_sum_list)
qed

lemma routed_row_met:
  assumes "j < length apps" and "f j < m" and "length (app_pending (apps ! j)) < 4294967296"
    and lo: "lo = Fin l" "l - primal_tolerance \<le> dval (c (f j)) * of_nat (length (app_pending (apps ! j)))"
    and up: "up = PInf \<or>
      (\<exists>u. up = Fin u \<and> dval (c (f j)) * of_nat (length (app_pending (apps ! j))) \<le> u + primal_tolerance)"
  shows "row_met (application_row (length apps) m j lo up c) (routed f m apps)"
proof -
  have "length (app_pending (apps ! j)) \<le> 2 ^ 53" using assms(3) by simp
  note act = routed_activity [of j apps f m, OF assms(1,2) this, of lo up c]
  have r: "row_lower (application_row (length apps) m j lo up c) = lo" "row_upper (application_row (length apps) m j lo up c) = up"
    by (simp_all add: application_row_def)
  show ?thesis unfolding row_met_def act r using lo up by auto
qed

text \<open>
  What an interface has to offer to an application: a delay and an error rate within its limits, and the
  bandwidth it requires while it has packets. The bounds are those of the numbers the rounding is small
  enough for.
\<close>

definition meets :: "isp_interface \<Rightarrow> application \<Rightarrow> bool" where
  "meets x a \<longleftrightarrow>
     0 < unat (getDataBitRate x) \<and> unat (getDataBitRate x) \<le> 2 ^ 30 \<and>
     unat (getDelayInMilliseconds x) \<le> 2 ^ 30 \<and> unat (getDelayInMilliseconds x) \<le> unat (app_requiredDelay a) \<and>
     (\<exists>e. getErrorRate x = Fin e \<and> 1 / 2 \<le> e \<and> e \<le> 2 ^ 30 \<and> e \<le> of_nat (unat (app_maxErrorRate a)))"

definition serves :: "isp_interface \<Rightarrow> application \<Rightarrow> bool" where
  "serves x a \<longleftrightarrow> meets x a \<and> length (app_pending a) < 4294967296 \<and>
     (\<exists>r. getRequiredDataRate a = Inr r \<and> (app_pending a \<noteq> [] \<longrightarrow> unat r \<le> unat (getDataBitRate x)))"

text \<open>A coefficient that stands for a whole amount, divided among the packets.\<close>

lemma shared_row_met:
  assumes "j < length apps" and "f j < m" and "length (app_pending (apps ! j)) < 4294967296"
    and c: "c (f j) = per_packet (Fin x) (length (app_pending (apps ! j)))" "x = 0 \<or> 1 / 2 \<le> x" "x \<le> 2 ^ 30"
    and lo: "lo = Fin l" "app_pending (apps ! j) \<noteq> [] \<longrightarrow> l \<le> x" "app_pending (apps ! j) = [] \<longrightarrow> l \<le> 0"
    and up: "up = PInf \<or> (\<exists>u. up = Fin u \<and> x \<le> u)"
  shows "row_met (application_row (length apps) m j lo up c) (routed f m apps)"
proof -
  let ?k = "length (app_pending (apps ! j))"
  have t: "0 < primal_tolerance" by (simp add: primal_tolerance_def)
  have x0: "0 \<le> x" using c(2) by auto
  have "\<bar>dval (c (f j)) * of_nat ?k - (if ?k = 0 then 0 else x)\<bar> \<le> primal_tolerance"
    using per_packet_back [OF c(2,3) _ assms(3)] t by (cases "?k = 0") (simp_all add: c(1))
  then have "l - primal_tolerance \<le> dval (c (f j)) * of_nat ?k"
      "dval (c (f j)) * of_nat ?k \<le> x + primal_tolerance"
    using lo(2,3) x0 t by (auto simp: abs_le_iff split: if_splits)
  moreover from this have "up = PInf \<or>
      (\<exists>u. up = Fin u \<and> dval (c (f j)) * of_nat ?k \<le> u + primal_tolerance)"
    using up by fastforce
  ultimately show ?thesis by (intro routed_row_met [where f = f, OF assms(1-3) lo(1)])
qed

lemma bandwidth_row_met:
  assumes "j < length apps" and "f j < length ifaces" and s: "serves (ifaces ! f j) (apps ! j)"
    and r: "getRequiredDataRate (apps ! j) = Inr r" and z: "app_pending (apps ! j) = [] \<Longrightarrow> r = 0"
  shows "row_met (application_row (length apps) (length ifaces) j (dbl_of_nat (unat r)) PInf
      (\<lambda>i. per_packet (dbl_of_nat (unat (getDataBitRate (ifaces ! i)))) (length (app_pending (apps ! j)))))
    (routed f (length ifaces) apps)"
proof -
  let ?b = "unat (getDataBitRate (ifaces ! f j))"
  have b: "0 < ?b" "?b \<le> 2 ^ 30" and rb: "app_pending (apps ! j) \<noteq> [] \<longrightarrow> unat r \<le> ?b"
    using s r by (auto simp: serves_def meets_def)
  have r53: "unat r \<le> 2 ^ 53" using rb b z by (cases "app_pending (apps ! j) = []") auto
  show ?thesis
  proof (rule shared_row_met [where x = "of_nat ?b" and l = "of_nat (unat r)"])
    show "per_packet (dbl_of_nat ?b) (length (app_pending (apps ! j))) =
        per_packet (Fin (of_nat ?b)) (length (app_pending (apps ! j)))"
      using b by (simp add: dbl_of_nat_small)
    show "(of_nat ?b :: rat) \<le> 2 ^ 30" using b(2) of_nat_le_iff [of ?b "2 ^ 30", where 'a = rat] by simp
    show "app_pending (apps ! j) = [] \<longrightarrow> (of_nat (unat r) :: rat) \<le> 0" using z by simp
  qed (use assms(1,2) s b rb r53 in \<open>auto simp: serves_def meets_def dbl_of_nat_small\<close>)
qed

lemma delay_row_met:
  assumes "j < length apps" and "f j < length ifaces" and s: "serves (ifaces ! f j) (apps ! j)"
    and c: "c (f j) = per_packet (dbl_of_nat (unat (getDelayInMilliseconds (ifaces ! f j)))) (length (app_pending (apps ! j)))"
  shows "row_met (application_row (length apps) (length ifaces) j (Fin 0) (dbl_of_nat (unat (app_requiredDelay (apps ! j)))) c)
    (routed f (length ifaces) apps)"
proof -
  let ?d = "unat (getDelayInMilliseconds (ifaces ! f j))"
  have d: "?d \<le> 2 ^ 30" "?d \<le> unat (app_requiredDelay (apps ! j))" using s by (auto simp: serves_def meets_def)
  show ?thesis
  proof (rule shared_row_met [where x = "of_nat ?d" and l = 0])
    show "(of_nat ?d :: rat) \<le> 2 ^ 30" using d(1) of_nat_le_iff [of ?d "2 ^ 30", where 'a = rat] by simp
    show "(of_nat ?d :: rat) = 0 \<or> 1 / 2 \<le> (of_nat ?d :: rat)" by (cases ?d) auto
    show "c (f j) = per_packet (Fin (of_nat ?d)) (length (app_pending (apps ! j)))" using c by (simp add: dbl_of_u32)
  qed (use assms(1,2) s d(2) of_nat_le_iff [of ?d "unat (app_requiredDelay (apps ! j))", where 'a = rat]
      in \<open>auto simp: serves_def meets_def dbl_of_u32\<close>)
qed

lemma error_row_met:
  assumes "j < length apps" and "f j < length ifaces" and s: "serves (ifaces ! f j) (apps ! j)"
  shows "row_met (error_row apps ifaces j) (routed f (length ifaces) apps)"
proof -
  obtain e where e: "getErrorRate (ifaces ! f j) = Fin e" "1 / 2 \<le> e" "e \<le> 2 ^ 30"
      "e \<le> of_nat (unat (app_maxErrorRate (apps ! j)))"
    using s by (auto simp: serves_def meets_def)
  show ?thesis
    unfolding error_row_def Let_def
    by (rule shared_row_met [where x = e and l = 0])
      (use assms(1,2) s e in \<open>auto simp: serves_def meets_def dbl_of_u32\<close>)
qed

lemma packets_row_routed:
  assumes "j < length apps" and "f j < length ifaces" and "length (app_pending (apps ! j)) < 4294967296"
  shows "row_met (packets_row apps ifaces j) (routed f (length ifaces) apps)"
proof -
  have "0 \<le> primal_tolerance" by (simp add: primal_tolerance_def)
  then show ?thesis
    unfolding packets_row_def Let_def using assms
    by (intro routed_row_met [where l = "of_nat (length (app_pending (apps ! j)))"]) (simp_all add: dbl_of_nat_small)
qed

text \<open>A solver that finds a solution when there is one.\<close>

definition solver_complete :: "(mip_problem \<Rightarrow> solve_result) \<Rightarrow> bool" where
  "solver_complete solve \<longleftrightarrow> (\<forall>p v. integer_solution p v \<longrightarrow> (\<exists>values obj. solve p = OPTIMAL values obj))"

text \<open>There is a solver of this kind.\<close>

lemma solver_exists: "\<exists>solve. solver_contract solve \<and> solver_complete solve"
proof -
  define pick where "pick p = (SOME v. integer_solution p v)" for p
  define solve where "solve p = (if integer_solution p (pick p) then OPTIMAL (pick p) (Fin (activity (minimized p) (pick p)))
      else NOT_OPTIMAL)" for p
  have "solver_contract solve" unfolding solver_contract_def by (simp add: solve_def)
  moreover have "solver_complete solve"
    unfolding solver_complete_def
  proof (intro allI impI)
    fix p v assume "integer_solution p v"
    then have "integer_solution p (pick p)" unfolding pick_def by (rule someI)
    then show "\<exists>values obj. solve p = OPTIMAL values obj" by (simp add: solve_def)
  qed
  ultimately show ?thesis by blast
qed

end
