(* ===== verification/Reactive_Feasible.thy ===== *)
theory Reactive_Feasible
  imports Reactive_Strat Routed_Solution
begin

text \<open>
  When a computation of the reactive strategy succeeds: the queues of the interfaces are empty, so that
  the estimated delays are zero, and the applications can be given interfaces that meet their
  requirements and have the capacity for their packets.
\<close>

section \<open>Waiting times\<close>

lemma rnd_not_NaN: "rnd z \<noteq> NaN"
  by (simp add: rnd_def Let_def)

lemma waiting_time_empty:
  assumes "if_pendingpackets x = []"
  shows "getAverageWaitingTimeInMilliseconds now x = Fin 0"
proof -
  define t where "t = dbl_of_int (to_milliseconds now)"
  define k where "k = unat (correctPackages x + corruptPackages x)"
  have t: "t \<noteq> NaN" by (simp add: t_def dbl_of_int_def rnd_not_NaN)
  have k: "dbl_of_nat k = Fin (of_nat k)" unfolding k_def by (rule dbl_of_u32)
  have "ddiv (dbl_of_nat k) t \<noteq> NaN" if "t \<noteq> Fin 0"
    using that t rnd_not_NaN unfolding k by (cases t) auto
  moreover have "ddiv (Fin 0) y = Fin 0" if "y \<noteq> NaN" "y \<noteq> Fin 0" for y
    using that by (cases y) (auto simp: rnd_small)
  ultimately show ?thesis
    unfolding getAverageWaitingTimeInMilliseconds_def Let_def t_def [symmetric] k_def [symmetric] assms
    by (simp add: deq_def t dbl_of_nat_small [of 0, simplified])
qed

lemma DelayEstimator_empty: "if_pendingpackets x = [] \<Longrightarrow> DelayEstimator now a x = Inr 0"
  using dbl_to_u32_nat [of 0] by (simp add: DelayEstimator_def waiting_time_empty)

lemma dadd_u32_0: "dadd (dbl_of_nat (unat (x :: u32))) (dbl_of_nat 0) = dbl_of_nat (unat x)"
proof -
  have "unat x \<le> 2 ^ 53" by (rule less_imp_le [OF less_le_trans [OF unat_u32_lt]]) simp
  then show ?thesis using dbl_of_nat_small [of 0] by (simp add: dbl_of_nat_small rnd_of_nat)
qed

section \<open>Solvable problems\<close>

text \<open>The rows of the problem over empty queues: the time plays no role.\<close>

definition idle_rows :: "application list \<Rightarrow> isp_interface list \<Rightarrow> mip_row list" where
  "idle_rows apps ifaces =
     map (capacity_row apps ifaces) [0..<length ifaces] @
     concat (map (\<lambda>j. if app_pending (apps ! j) = [] then [] else
        [application_row (length apps) (length ifaces) j (dbl_of_nat (unat (projr (getRequiredDataRate (apps ! j))))) PInf
           (\<lambda>i. per_packet (dbl_of_nat (unat (getDataBitRate (ifaces ! i)))) (length (app_pending (apps ! j))))])
       [0..<length apps]) @
     map (reactive_delay_row (map (\<lambda>_. map (\<lambda>_. 0) ifaces) apps) apps ifaces) [0..<length apps] @
     map (error_row apps ifaces) [0..<length apps] @ map (packets_row apps ifaces) [0..<length apps]"

lemma reactive_problem_idle:
  assumes idle: "\<forall>x\<in>set ifaces. if_pendingpackets x = []" and r: "\<forall>a\<in>set apps. res_ok (getRequiredDataRate a)"
  shows "reactive_problem now apps ifaces =
    Inr \<lparr>int_variables = length apps * length ifaces, mip_rows = idle_rows apps ifaces,
         minimized = cost_coefficients (length apps) ifaces\<rparr>"
proof -
  let ?n = "length apps" and ?m = "length ifaces"
  let ?bw = "\<lambda>j. if app_pending (apps ! j) = [] then None else
      Some (application_row ?n ?m j (dbl_of_nat (unat (projr (getRequiredDataRate (apps ! j))))) PInf
        (\<lambda>i. per_packet (dbl_of_nat (unat (getDataBitRate (ifaces ! i)))) (length (app_pending (apps ! j)))))"
  have "reactive_bandwidth_row apps ifaces j = Inr (?bw j)" if "j < ?n" for j
  proof -
    have "apps ! j \<in> set apps" using that by simp
    then obtain x where "getRequiredDataRate (apps ! j) = Inr x" using r unfolding res_ok_iff by blast
    then show ?thesis by (simp add: reactive_bandwidth_row_def Let_def)
  qed
  then have bw: "res_map (reactive_bandwidth_row apps ifaces) [0..<?n] = Inr (map ?bw [0..<?n])"
    by (intro res_map_eqI) simp
  have "DelayEstimator now a x = Inr 0" if "x \<in> set ifaces" for a x
    using idle that by (simp add: DelayEstimator_empty)
  then have "res_map (DelayEstimator now a) ifaces = Inr (map (\<lambda>_. 0) ifaces)" for a
    by (rule res_map_eqI) simp
  then have dl: "reactive_delays now apps ifaces = Inr (map (\<lambda>_. map (\<lambda>_. 0) ifaces) apps)"
    unfolding reactive_delays_def by (rule res_map_eqI)
  have "concat (map (\<lambda>r. case r of None \<Rightarrow> [] | Some r \<Rightarrow> [r]) (map ?bw [0..<?n])) =
      concat (map (\<lambda>j. if app_pending (apps ! j) = [] then [] else [the (?bw j)]) [0..<?n])"
    unfolding map_map by (intro arg_cong [of _ _ concat] map_cong) auto
  also have "\<dots> = concat (map (\<lambda>j. if app_pending (apps ! j) = [] then [] else
        [application_row ?n ?m j (dbl_of_nat (unat (projr (getRequiredDataRate (apps ! j))))) PInf
           (\<lambda>i. per_packet (dbl_of_nat (unat (getDataBitRate (ifaces ! i)))) (length (app_pending (apps ! j))))]) [0..<?n])"
    by (intro arg_cong [of _ _ concat] map_cong) auto
  finally show ?thesis
    by (simp only: reactive_problem_def Let_def bw dl res_bind.simps idle_rows_def)
qed

lemma reactive_problem_solvable:
  assumes idle: "\<forall>x\<in>set ifaces. if_pendingpackets x = []"
    and serve: "\<And>j. j < length apps \<Longrightarrow> f j < length ifaces \<and> serves (ifaces ! f j) (apps ! j)"
    and room: "\<And>i. i < length ifaces \<Longrightarrow>
      (\<Sum>j<length apps. if f j = i then length (app_pending (apps ! j)) else 0) \<le> unat (getPackageRate (ifaces ! i)) \<and>
      unat (getPackageRate (ifaces ! i)) \<le> 2 ^ 53"
  shows "\<exists>p. reactive_problem now apps ifaces = Inr p \<and> integer_solution p (routed f (length ifaces) apps)"
proof -
  let ?n = "length apps" and ?m = "length ifaces"
  let ?v = "routed f ?m apps"
  let ?pend = "\<lambda>j. length (app_pending (apps ! j))"
  let ?rate = "\<lambda>j. projr (getRequiredDataRate (apps ! j))"
  have rt: "getRequiredDataRate (apps ! j) = Inr (?rate j)" "?pend j < 4294967296" if "j < ?n" for j
    using serve [OF that] by (auto simp: serves_def)
  have small: "\<forall>a\<in>set apps. length (app_pending a) < 4294967296"
    using rt(2) by (auto simp: in_set_conv_nth)
  have rok: "\<forall>a\<in>set apps. res_ok (getRequiredDataRate a)"
    using rt(1) by (metis in_set_conv_nth res_ok_iff)
  note p = reactive_problem_idle [OF idle rok, of "now"]
  have "row_met (capacity_row apps ifaces i) ?v" if i: "i < ?m" for i
  proof -
    let ?r = "unat (getPackageRate (ifaces ! i))"
    have s53: "\<forall>a\<in>set apps. length (app_pending a) \<le> 2 ^ 53" using small by fastforce
    note act = routed_interface_activity [OF i s53, of "Fin 0" "dbl_of_nat ?r" f]
    define k where "k = (\<Sum>j<?n. if f j = i then ?pend j else 0)"
    have "k \<le> ?r" "dbl_of_nat ?r = Fin (of_nat ?r)"
      using room [OF i] by (simp_all add: k_def dbl_of_nat_small)
    moreover have "0 \<le> primal_tolerance" by (simp add: primal_tolerance_def)
    ultimately have "- primal_tolerance \<le> of_nat k" "of_nat k \<le> of_nat ?r + primal_tolerance"
      using of_nat_le_iff [of k ?r, where 'a = rat] of_nat_0_le_iff [of k, where 'a = rat] by linarith+
    then show ?thesis
      unfolding row_met_def capacity_row_def act k_def [symmetric]
      using room [OF i] by (simp add: interface_row_def dbl_of_nat_small)
  qed
  moreover have "row_met (application_row ?n ?m j (dbl_of_nat (unat (?rate j))) PInf
      (\<lambda>i. per_packet (dbl_of_nat (unat (getDataBitRate (ifaces ! i)))) (?pend j))) ?v"
    if "j < ?n" "app_pending (apps ! j) \<noteq> []" for j
    using serve [OF that(1)] rt(1) [OF that(1)] that by (intro bandwidth_row_met) auto
  moreover have "row_met (reactive_delay_row (map (\<lambda>_. map (\<lambda>_. 0) ifaces) apps) apps ifaces j) ?v" if j: "j < ?n" for j
    unfolding reactive_delay_row_def Let_def using serve [OF j] j
    by (intro delay_row_met j) (simp_all add: dadd_u32_0)
  moreover have "row_met (error_row apps ifaces j) ?v" "row_met (packets_row apps ifaces j) ?v" if "j < ?n" for j
    using serve [OF that] rt(2) [OF that] by (auto intro: error_row_met packets_row_routed that)
  ultimately have "list_all (\<lambda>r. row_met r ?v) (idle_rows apps ifaces)"
    by (auto simp: idle_rows_def list_all_iff)
  then show ?thesis
    using p routed_nonneg [OF small] by (simp add: integer_solution_def routed_def)
qed

section \<open>A computation that succeeds\<close>

lemma solution_cost_le:
  assumes "integer_solution p values" and "int_variables p = length apps * length ifaces"
    and "set (map (packets_row apps ifaces) [0..<length apps]) \<subseteq> set (mip_rows p)"
    and "\<forall>a \<in> set apps. length (app_pending a) < 4294967296"
    and c: "\<forall>x\<in>set ifaces. unat (cost x) \<le> c"
  shows "solution_cost (length apps) ifaces values \<le> c * pending apps"
proof -
  let ?n = "length apps" and ?m = "length ifaces"
  have sum: "(\<Sum>i\<leftarrow>[0..<?m]. packets_on ?n values j i) = length (app_pending (apps ! j))" if "j < ?n" for j
  proof (rule packets_row_met [OF assms(1) _ assms(2) that])
    show "packets_row apps ifaces j \<in> set (mip_rows p)" using assms(3) that by auto
    have "length (app_pending (apps ! j)) < 4294967296" using assms(4) that by simp
    then show "length (app_pending (apps ! j)) \<le> 2 ^ 53" by simp
  qed
  have "solution_cost ?n ifaces values \<le> (\<Sum>j\<leftarrow>[0..<?n]. \<Sum>i\<leftarrow>[0..<?m]. c * packets_on ?n values j i)"
    unfolding solution_cost_def using c by (intro sum_list_mono mult_le_mono1) simp
  also have "\<dots> = (\<Sum>j\<leftarrow>[0..<?n]. c * length (app_pending (apps ! j)))"
    using sum by (intro arg_cong [of _ _ sum_list] map_cong refl) (simp add: sum_list_const_mult)
  also have "\<dots> = c * pending apps"
  proof -
    have "map (\<lambda>j. length (app_pending (apps ! j))) [0..<?n] = map (\<lambda>a. length (app_pending a)) apps"
      by (rule nth_equalityI) simp_all
    then show ?thesis unfolding sum_list_const_mult pending_def by simp
  qed
  finally show ?thesis .
qed

text \<open>
  The demand of an application does not change while it runs, nor does the offer of an interface. A route
  sends each application over an interface that meets its demand, at its peak, too.
\<close>

fun app_peak :: "application \<Rightarrow> nat" where
  "app_peak (StaticApp a) = unat (amountOfPacketsToSend a)"
| "app_peak (SinApp a) = fold max (map (unat \<circ> snd) (sinValues a)) 0"

definition app_demand :: "application \<Rightarrow> nat \<times> u64 res \<times> u32 \<times> u32" where
  "app_demand a = (app_peak a, getRequiredDataRate a, app_requiredDelay a, app_maxErrorRate a)"

definition if_offer :: "isp_interface \<Rightarrow> net_device \<times> rate_error_model \<times> u32" where
  "if_offer x = (netDevice x, errorModel x, cost x)"

definition route :: "(nat \<Rightarrow> nat) \<Rightarrow> application list \<Rightarrow> isp_interface list \<Rightarrow> bool" where
  "route f apps ifaces \<longleftrightarrow>
     (\<forall>j<length apps. f j < length ifaces \<and> meets (ifaces ! f j) (apps ! j) \<and> app_peak (apps ! j) < 2147483648 \<and>
        (\<exists>r. getRequiredDataRate (apps ! j) = Inr r \<and> unat r \<le> unat (getDataBitRate (ifaces ! f j)))) \<and>
     (\<forall>i<length ifaces. (\<Sum>j<length apps. if f j = i then app_peak (apps ! j) else 0) \<le> unat (getPackageRate (ifaces ! i)) \<and>
        unat (getPackageRate (ifaces ! i)) \<le> 2 ^ 53) \<and>
     (\<exists>c. (\<forall>x\<in>set ifaces. unat (cost x) \<le> c) \<and> c * (2 * sum_list (map app_peak apps)) < 4294967296)"

lemma if_offer_eqD:
  assumes "if_offer x = if_offer y"
  shows "getDataBitRate x = getDataBitRate y" and "getPackageRate x = getPackageRate y"
    and "getDelayInMilliseconds x = getDelayInMilliseconds y" and "getErrorRate x = getErrorRate y" and "cost x = cost y"
  using assms
  by (simp_all add: if_offer_def getDataBitRate_def getPackageRate_def if_getDataRate_def getDelayInMilliseconds_def getErrorRate_def)

lemma app_demand_eqD:
  assumes "app_demand a = app_demand b"
  shows "app_peak a = app_peak b" and "getRequiredDataRate a = getRequiredDataRate b"
    and "app_requiredDelay a = app_requiredDelay b" and "app_maxErrorRate a = app_maxErrorRate b"
  using assms by (simp_all add: app_demand_def)

lemma route_cong:
  assumes r: "route f apps ifaces" and a: "map app_demand apps' = map app_demand apps"
    and i: "map if_offer ifaces' = map if_offer ifaces"
  shows "route f apps' ifaces'"
proof -
  have la: "length apps' = length apps" and li: "length ifaces' = length ifaces"
    using a i by (auto dest: map_eq_imp_length_eq)
  have a': "app_demand (apps' ! j) = app_demand (apps ! j)" if "j < length apps" for j
    using a la that by (metis nth_map)
  have i': "if_offer (ifaces' ! j) = if_offer (ifaces ! j)" if "j < length ifaces" for j
    using i li that by (metis nth_map)
  note ad = app_demand_eqD [OF a'] and id = if_offer_eqD [OF i']
  have "map app_peak apps' = map app_peak apps" "map cost ifaces' = map cost ifaces"
    using ad(1) id(5) la li by (auto intro: nth_equalityI)
  then have "(\<forall>x\<in>set ifaces'. unat (cost x) \<le> c) \<longleftrightarrow> (\<forall>x\<in>set ifaces. unat (cost x) \<le> c)" for c
    by (metis (mono_tags, lifting) imageE image_eqI list.set_map)
  moreover have "(\<Sum>j<length apps. if f j = i then app_peak (apps' ! j) else 0) =
      (\<Sum>j<length apps. if f j = i then app_peak (apps ! j) else 0)" for i
    using ad(1) by (intro sum.cong) simp_all
  ultimately show ?thesis
    using r unfolding route_def la li \<open>map app_peak apps' = map app_peak apps\<close> meets_def
    by (simp add: ad id)
qed

text \<open>Over empty queues the problem depends on the offers of the interfaces alone.\<close>

lemma idle_rows_cong:
  assumes o: "map if_offer ifaces' = map if_offer ifaces"
  shows "idle_rows apps ifaces' = idle_rows apps ifaces" and "cost_coefficients n ifaces' = cost_coefficients n ifaces"
proof -
  have l: "length ifaces' = length ifaces" using o by (rule map_eq_imp_length_eq)
  have "if_offer (ifaces' ! j) = if_offer (ifaces ! j)" if "j < length ifaces" for j
    using o l that by (metis nth_map)
  note d = if_offer_eqD [OF this]
  have z: "map (\<lambda>_. 0 :: u32) ifaces' = map (\<lambda>_. 0) ifaces" by (simp add: map_replicate_const l)
  show "cost_coefficients n ifaces' = cost_coefficients n ifaces"
    unfolding cost_coefficients_def l
    by (intro arg_cong [of _ _ concat] map_cong refl) (simp add: d)
  have row: "application_row k (length ifaces) j lo up c = application_row k (length ifaces) j lo up c'"
    if "\<And>i. i < length ifaces \<Longrightarrow> c i = c' i" for k j lo up c c'
    using that by (simp add: application_row_def)
  show "idle_rows apps ifaces' = idle_rows apps ifaces"
    unfolding idle_rows_def l z
    by (intro arg_cong2 [where f = append] map_cong refl arg_cong [of _ _ concat])
      (auto simp: capacity_row_def reactive_delay_row_def error_row_def packets_row_def Let_def d l intro!: row)
qed

lemma route_rates: "route f apps ifaces \<Longrightarrow> \<forall>a\<in>set apps. res_ok (getRequiredDataRate a)"
  unfolding route_def by (metis in_set_conv_nth res_ok_iff)

lemma route_serves:
  assumes "route f apps ifaces" and "\<forall>a\<in>set apps. length (app_pending a) \<le> app_peak a" and "j < length apps"
  shows "f j < length ifaces \<and> serves (ifaces ! f j) (apps ! j)"
proof -
  have "length (app_pending (apps ! j)) \<le> app_peak (apps ! j)" "app_peak (apps ! j) < 2147483648"
    using assms by (simp_all add: route_def)
  then show ?thesis using assms(1,3) by (auto simp: route_def serves_def)
qed

lemma route_solvable:
  assumes r: "route f apps ifaces" and p: "\<forall>a\<in>set apps. length (app_pending a) \<le> app_peak a"
    and idle: "\<forall>x\<in>set ifaces. if_pendingpackets x = []"
  shows "\<exists>p v. reactive_problem now apps ifaces = Inr p \<and> integer_solution p v"
proof -
  have "(\<Sum>j<length apps. if f j = i then length (app_pending (apps ! j)) else 0) \<le>
      (\<Sum>j<length apps. if f j = i then app_peak (apps ! j) else 0)" for i
    using p by (intro sum_mono) simp
  then have "(\<Sum>j<length apps. if f j = i then length (app_pending (apps ! j)) else 0) \<le> unat (getPackageRate (ifaces ! i)) \<and>
      unat (getPackageRate (ifaces ! i)) \<le> 2 ^ 53" if "i < length ifaces" for i
    using r that unfolding route_def by (meson order_trans)
  from reactive_problem_solvable [OF idle route_serves [OF r p] this] show ?thesis by blast
qed

text \<open>What the queues hold after a computation over empty queues is what the interfaces send in a second.\<close>

lemma Reactive_Compute_solved:
  assumes sv: "solver_contract solve" "solver_complete solve"
    and m: "0 < length (availableInterfaces s)" "length (availableInterfaces s) < 32"
    and r: "route f (applications s) (availableInterfaces s)"
    and pk: "\<forall>a\<in>set (applications s). length (app_pending a) \<le> 2 * app_peak a"
    and idle: "\<forall>x\<in>set (availableInterfaces s). if_pendingpackets x = []"
    and p: "reactive_problem now (applications s) (availableInterfaces s) = Inr p" "integer_solution p v"
  shows "\<exists>s' file. Reactive_Compute solve True now s = Inr (s', file) \<and>
    applications s' = map app_drained (applications s) \<and>
    (\<forall>i<length (availableInterfaces s). length (if_pendingpackets (availableInterfaces s' ! i)) \<le>
       unat (getPackageRate (availableInterfaces s ! i)))"
proof -
  let ?apps = "applications s" and ?ifaces = "availableInterfaces s"
  let ?n = "length ?apps" and ?m = "length ?ifaces"
  obtain vs obj where vs: "solve p = OPTIMAL vs obj" using sv(2) p(2) unfolding solver_complete_def by blast
  have int: "integer_solution p vs" using solver_contractD [OF sv(1) vs] by simp
  have small: "\<forall>a\<in>set ?apps. length (app_pending a) < 4294967296"
  proof
    fix a assume a: "a \<in> set ?apps"
    then have "app_peak a < 2147483648" using r by (auto simp: route_def in_set_conv_nth)
    moreover have "length (app_pending a) \<le> 2 * app_peak a" using pk a by blast
    ultimately show "length (app_pending a) < 4294967296" by linarith
  qed
  note rows = reactive_problem_rows [OF p(1)]
  obtain c where c: "\<forall>x\<in>set ?ifaces. unat (cost x) \<le> c" "c * (2 * sum_list (map app_peak ?apps)) < 4294967296"
    using r unfolding route_def by blast
  have "pending ?apps \<le> sum_list (map (\<lambda>a. 2 * app_peak a) ?apps)"
    unfolding pending_def using pk by (intro sum_list_mono) simp
  then have "c * pending ?apps \<le> c * (2 * sum_list (map app_peak ?apps))" by (simp add: sum_list_const_mult)
  then have cost: "solution_cost ?n ?ifaces vs < 4294967296"
    using solution_cost_le [OF int rows(1,2) small c(1)] c(2) by linarith
  have rate: "unat (getPackageRate (?ifaces ! i)) \<le> 2 ^ 53" if "i < ?m" for i using r that by (simp add: route_def)
  have "length (if_pendingpackets (assign_packets (moves now [0..<?m] ?apps (solution_matrix ?n ?m vs)) ?ifaces ! i)) \<le>
      unat (getPackageRate (?ifaces ! i))" if i: "i < ?m" for i
    using reactive_received [OF int p(1) small i rate [OF i]] idle i
    by (simp add: length_concat comp_def)
  moreover obtain f where "Reactive_Compute solve True now s =
      Inr ((push_data_point (of_nat (solution_cost ?n ?ifaces vs)) (of_nat (pending ?apps)) s)
          \<lparr>applications := map app_drained ?apps,
           availableInterfaces := assign_packets (moves now [0..<?m] ?apps (solution_matrix ?n ?m vs)) ?ifaces\<rparr>, f)"
    using Reactive_Compute_result [OF sv(1) m p(1) vs small cost] by blast
  ultimately show ?thesis by simp
qed

lemma Reactive_Compute_unsolved:
  assumes "solver_contract solve" and "0 < length (availableInterfaces s)" and "length (availableInterfaces s) < 32"
    and "reactive_problem now (applications s) (availableInterfaces s) = Inr p" and "\<nexists>v. integer_solution p v"
  shows "Reactive_Compute solve opened now s = Inl (ThrownPointer ''Nessuna soluzione trovata'')"
proof -
  have "solve p = NOT_OPTIMAL" using assms(1,5) by (cases "solve p") (auto dest: solver_contractD)
  then show ?thesis using Reactive_Compute_fails [OF assms(2,3,4)] by blast
qed

lemma peak_sample: "v \<in> set (sinValues a) \<Longrightarrow> unat (snd v) \<le> app_peak (SinApp a)"
proof -
  have "x \<le> fold max xs k" if "x \<in> set xs \<or> x \<le> k" for x k :: nat and xs
    using that by (induction xs arbitrary: k) (auto simp: le_max_iff_disj)
  then show "v \<in> set (sinValues a) \<Longrightarrow> unat (snd v) \<le> app_peak (SinApp a)" by force
qed

end
