(* ===== verification/Strategy_Object.thy ===== *)
theory Strategy_Object
  imports Round_Robin Random_Strat Linear_Strat Reactive_Feasible
begin

text \<open>
  The \<open>std::unique_ptr<Strategy>\<close> of the sender: an object of one of the four subclasses, with the
  virtual call \<open>Compute\<close>. The section after it states what every strategy owes its caller, whatever
  it decides: packets are moved from applications to interfaces and nothing else of either changes.
\<close>

section \<open>The object\<close>

datatype 'g strategy_object =
    LinearS linear_strategy
  | RandomS "'g random_strategy"
  | RoundRobinS strategy
  | ReactiveS strategy

text \<open>
  What \<open>Compute\<close> depends on beside the object: the random engine and the shuffle of the standard
  library, the solver, and whether the output file can be opened.
\<close>

record 'g compute_env =
  env_next :: "'g \<Rightarrow> nat \<times> 'g"
  env_shuffle :: "u32 list \<Rightarrow> 'g \<Rightarrow> u32 list \<times> 'g"
  env_seed :: "u32 \<Rightarrow> 'g"
  env_solve :: "mip_problem \<Rightarrow> solve_result"
  env_opened :: bool

fun so_applications :: "'g strategy_object \<Rightarrow> application list" where
  "so_applications (LinearS s) = applications s"
| "so_applications (RandomS s) = applications s"
| "so_applications (RoundRobinS s) = applications s"
| "so_applications (ReactiveS s) = applications s"

fun so_interfaces :: "'g strategy_object \<Rightarrow> isp_interface list" where
  "so_interfaces (LinearS s) = availableInterfaces s"
| "so_interfaces (RandomS s) = availableInterfaces s"
| "so_interfaces (RoundRobinS s) = availableInterfaces s"
| "so_interfaces (ReactiveS s) = availableInterfaces s"

fun so_strategyData :: "'g strategy_object \<Rightarrow> strategy_data_point list" where
  "so_strategyData (LinearS s) = strategyData s"
| "so_strategyData (RandomS s) = strategyData s"
| "so_strategyData (RoundRobinS s) = strategyData s"
| "so_strategyData (ReactiveS s) = strategyData s"

fun so_set_applications :: "application list \<Rightarrow> 'g strategy_object \<Rightarrow> 'g strategy_object" where
  "so_set_applications as (LinearS s) = LinearS (s\<lparr>applications := as\<rparr>)"
| "so_set_applications as (RandomS s) = RandomS (s\<lparr>applications := as\<rparr>)"
| "so_set_applications as (RoundRobinS s) = RoundRobinS (s\<lparr>applications := as\<rparr>)"
| "so_set_applications as (ReactiveS s) = ReactiveS (s\<lparr>applications := as\<rparr>)"

fun so_set_interfaces :: "isp_interface list \<Rightarrow> 'g strategy_object \<Rightarrow> 'g strategy_object" where
  "so_set_interfaces is (LinearS s) = LinearS (s\<lparr>availableInterfaces := is\<rparr>)"
| "so_set_interfaces is (RandomS s) = RandomS (s\<lparr>availableInterfaces := is\<rparr>)"
| "so_set_interfaces is (RoundRobinS s) = RoundRobinS (s\<lparr>availableInterfaces := is\<rparr>)"
| "so_set_interfaces is (ReactiveS s) = ReactiveS (s\<lparr>availableInterfaces := is\<rparr>)"

fun so_getAllDataHasBeenSent :: "'g strategy_object \<Rightarrow> bool" where
  "so_getAllDataHasBeenSent (LinearS s) = getAllDataHasBeenSent s"
| "so_getAllDataHasBeenSent (RandomS s) = getAllDataHasBeenSent s"
| "so_getAllDataHasBeenSent (RoundRobinS s) = getAllDataHasBeenSent s"
| "so_getAllDataHasBeenSent (ReactiveS s) = getAllDataHasBeenSent s"

fun Strategy_Compute ::
  "'g compute_env \<Rightarrow> sim_time \<Rightarrow> 'g strategy_object \<Rightarrow> 'g strategy_object computed res" where
  "Strategy_Compute env now (LinearS s) =
     res_bind (Linear_Compute (env_solve env) now s) (\<lambda>s. Inr (LinearS s, None))"
| "Strategy_Compute env now (RandomS s) =
     res_bind (Random_Compute (env_next env) (env_shuffle env) (env_opened env) now s)
       (\<lambda>(s, f). Inr (RandomS s, f))"
| "Strategy_Compute env now (RoundRobinS s) =
     res_bind (RoundRobin_Compute (env_opened env) now s) (\<lambda>(s, f). Inr (RoundRobinS s, f))"
| "Strategy_Compute env now (ReactiveS s) =
     res_bind (Reactive_Compute (env_solve env) (env_opened env) now s)
       (\<lambda>(s, f). Inr (ReactiveS s, f))"

fun make_strategy ::
  "'g compute_env \<Rightarrow> StrategyTypes \<Rightarrow> application list \<Rightarrow> isp_interface list \<Rightarrow> 'g strategy_object" where
  "make_strategy env LINEAR apps ifaces = LinearS (LinearStrategy apps ifaces)"
| "make_strategy env RANDOM apps ifaces = RandomS (RandomStrategy (env_seed env) apps ifaces)"
| "make_strategy env ROUND_ROBIN apps ifaces = RoundRobinS (RoundRobinStrategy apps ifaces)"
| "make_strategy env REACTIVE apps ifaces = ReactiveS (ReactiveStrategy apps ifaces)"

lemma so_get_set [simp]:
  "so_applications (so_set_applications as so) = as"
  "so_interfaces (so_set_applications as so) = so_interfaces so"
  "so_interfaces (so_set_interfaces is so) = is"
  "so_applications (so_set_interfaces is so) = so_applications so"
  "so_strategyData (so_set_applications as so) = so_strategyData so"
  "so_strategyData (so_set_interfaces is so) = so_strategyData so"
  by (cases so; simp)+

lemma so_make_strategy [simp]:
  "so_applications (make_strategy env t apps ifaces) = apps"
  "so_interfaces (make_strategy env t apps ifaces) = ifaces"
  by (cases t; simp add: LinearStrategy_def RandomStrategy_def RoundRobinStrategy_def
      ReactiveStrategy_def Strategy_def strategy.defs)+

lemma so_getAllDataHasBeenSent_eq:
  "so_getAllDataHasBeenSent so \<longleftrightarrow>
     list_all getHasStoppedGeneratingData (so_applications so) \<and>
     list_all (\<lambda>i. if_pendingpackets i = []) (so_interfaces so)"
  by (cases so) (auto simp: getAllDataHasBeenSent_def getHasAnyAvailablePackage_def Let_def)

section \<open>Conservation\<close>

definition if_emptied :: "isp_interface \<Rightarrow> isp_interface" where
  "if_emptied i = i\<lparr>if_pendingpackets := []\<rparr>"

definition appended :: "isp_interface \<Rightarrow> isp_interface \<Rightarrow> bool" where
  "appended x y \<longleftrightarrow> (\<exists>ps. if_pendingpackets y = if_pendingpackets x @ ps)"

lemma appended_refl [simp]: "appended x x"
  by (simp add: appended_def)

lemma appended_trans: "appended x y \<Longrightarrow> appended y z \<Longrightarrow> appended x z"
  by (auto simp: appended_def)

definition conserves ::
  "application list \<Rightarrow> isp_interface list \<Rightarrow> application list \<Rightarrow> isp_interface list \<Rightarrow> bool" where
  "conserves apps ifaces apps' ifaces' \<longleftrightarrow>
     map app_drained apps' = map app_drained apps \<and>
     map if_emptied ifaces' = map if_emptied ifaces \<and> list_all2 appended ifaces ifaces' \<and>
     (\<forall>ident. pending_from ident apps' + queued_from ident ifaces' =
              pending_from ident apps + queued_from ident ifaces)"

lemma conserves_refl [simp]: "conserves apps ifaces apps ifaces"
  by (simp add: conserves_def list_all2_refl)

lemma conserves_trans:
  "conserves a i b j \<Longrightarrow> conserves b j c k \<Longrightarrow> conserves a i c k"
  using list_all2_trans [of appended appended appended i j k, OF appended_trans]
  by (simp add: conserves_def)

lemma conserves_length:
  assumes "conserves apps ifaces apps' ifaces'"
  shows "length apps' = length apps" and "length ifaces' = length ifaces"
  using assms unfolding conserves_def by (metis length_map)+

lemma conserves_app_id:
  assumes "conserves apps ifaces apps' ifaces'" and "i < length apps"
  shows "app_id (apps' ! i) = app_id (apps ! i)"
proof -
  have "app_drained (apps' ! i) = app_drained (apps ! i)"
    using assms conserves_length [OF assms(1)] unfolding conserves_def by (metis nth_map)
  then show ?thesis by (metis app_drained_simps(1))
qed

lemma if_emptied_enqueue [simp]: "if_emptied (enqueuePacket p i) = if_emptied i"
  by (simp add: if_emptied_def enqueuePacket_def)

lemma app_drained_dropped [simp]: "app_drained (app_dropped n a) = app_drained a"
  by (cases a) (simp_all add: app_dropped_def)

lemma appended_assign:
  "list_all (\<lambda>x. fst x < length ifaces) xs \<Longrightarrow> list_all2 appended ifaces (assign_packets xs ifaces)"
proof (induction xs ifaces rule: assign_packets.induct)
  case (1 ifaces)
  then show ?case by (simp add: list_all2_refl)
next
  case (2 j p xs ifaces)
  let ?is = "ifaces[j := enqueuePacket p (ifaces ! j)]"
  have "appended (ifaces ! i) (?is ! i)" if "i < length ifaces" for i
    using that by (cases "i = j") (simp_all add: appended_def enqueuePacket_def)
  then have "list_all2 appended ifaces ?is" by (simp add: list_all2_conv_all_nth)
  moreover have "list_all2 appended ?is (assign_packets xs ?is)" using 2 by simp
  ultimately show ?case
    using list_all2_trans [of appended appended appended ifaces ?is, OF appended_trans] by simp
qed

lemma conserves_assign:
  assumes "list_all (\<lambda>x. fst x < length ifaces) xs"
    and "map app_drained apps' = map app_drained apps"
    and "\<And>ident. pending_from ident apps = pending_from ident apps' + packets_from ident (map snd xs)"
  shows "conserves apps ifaces apps' (assign_packets xs ifaces)"
  using assms appended_assign by (simp add: conserves_def queued_from_assign map_assign_packets)

text \<open>One packet, popped from application \<open>i\<close> and marked with its identifier.\<close>

lemma pending_from_pop:
  assumes "i < length apps" and "app_pending (apps ! i) \<noteq> []"
  shows "pending_from ident apps = pending_from ident (apps[i := app_dropped 1 (apps ! i)]) +
           (if app_id (apps ! i) = ident then 1 else 0)"
proof -
  let ?f = "\<lambda>a. if app_id a = ident then length (app_pending a) else 0"
  have "sum_list (map ?f apps) = sum_list (map ?f (apps[i := app_dropped 1 (apps ! i), i := apps ! i]))"
    by simp
  also have "\<dots> = sum_list (map ?f (apps[i := app_dropped 1 (apps ! i)])) +
      (if app_id (apps ! i) = ident then 1 else 0)"
    using assms by (intro sum_list_update_plus) (auto simp: neq_Nil_conv)
  finally show ?thesis by (simp add: pending_from_def)
qed

lemma move_one_conserves:
  assumes "pop_application i s = Inr s1" and "enqueue_on j p s1 = Inr s2"
    and "originatedFrom p = app_id (applications s ! i)"
  shows "conserves (applications s) (availableInterfaces s) (applications s2) (availableInterfaces s2) \<and>
         strategyData s2 = strategyData s \<and> strategy.more s2 = strategy.more s"
proof -
  have i: "i < length (applications s)" "app_pending (applications s ! i) \<noteq> []"
    and s1: "s1 = s\<lparr>applications := (applications s)[i := app_dropped 1 (applications s ! i)]\<rparr>"
    using assms(1) by (auto simp: pop_application_def vec_at_def app_pop_eq res_bind_Inr_iff split: if_splits)
  have s2: "j < length (availableInterfaces s)"
    "s2 = s1\<lparr>availableInterfaces := assign_packets [(j, p)] (availableInterfaces s)\<rparr>"
    using assms(2) by (auto simp: s1 enqueue_on_def vec_at_def res_bind_Inr_iff split: if_splits)
  have "map app_drained ((applications s)[i := app_dropped 1 (applications s ! i)]) =
      map app_drained (applications s)"
    by (rule nth_equalityI) (auto simp: nth_list_update i(1))
  then have "conserves (applications s) (availableInterfaces s)
      ((applications s)[i := app_dropped 1 (applications s ! i)])
      (assign_packets [(j, p)] (availableInterfaces s))"
    using s2(1) pending_from_pop [OF i] assms(3) by (intro conserves_assign) auto
  then show ?thesis by (simp add: s2(2) s1)
qed

text \<open>
  The four computations, whatever they return: a computation that returns has moved packets, marked
  with the application they come from, and nothing else.
\<close>

abbreviation keeps_packets :: "'a strategy_scheme \<Rightarrow> 'b strategy_scheme \<Rightarrow> bool" where
  "keeps_packets s s' \<equiv>
     conserves (applications s) (availableInterfaces s) (applications s') (availableInterfaces s')"

lemma rr_body_conserves:
  assumes "rr_body m now i (app_id (applications (fst sl) ! i)) sl = Inr sl'"
  shows "keeps_packets (fst sl) (fst sl')"
proof -
  obtain s l where sl: "sl = (s, l)" by (cases sl)
  obtain s1 s2 where "pop_application i s = Inr s1"
      "enqueue_on (unat (currentIndex l)) \<lparr>dateEnqueued = now, originatedFrom = app_id (applications s ! i)\<rparr> s1 = Inr s2"
      "fst sl' = s2"
    using assms by (auto simp: sl rr_body_def Let_def res_bind_Inr_iff split: if_splits)
  then show ?thesis using move_one_conserves [of i s s1 _ _ s2] by (simp add: sl)
qed

lemma rr_loop_conserves:
  "rr_loop m now i ident sl = Inr sl' \<Longrightarrow> ident = app_id (applications (fst sl) ! i) \<Longrightarrow>
   keeps_packets (fst sl) (fst sl')"
proof (induction m now i ident sl arbitrary: sl' rule: rr_loop.induct)
  case (1 m now i ident sl)
  show ?case
  proof (cases "app_pending (applications (fst sl) ! i) = []")
    case True
    then show ?thesis using 1(2) by (subst (asm) rr_loop.simps) (auto split: if_splits)
  next
    case False
    then obtain t where i: "\<not> length (applications (fst sl)) \<le> i" and t: "rr_body m now i ident sl = Inr t"
        "rr_loop m now i ident t = Inr sl'"
      using 1(2) by (subst (asm) rr_loop.simps) (auto split: if_splits simp: res_bind_Inr_iff)
    have c: "keeps_packets (fst sl) (fst t)" using rr_body_conserves t(1) 1(3) by blast
    then have "ident = app_id (applications (fst t) ! i)" using conserves_app_id [OF c] i 1(3) by simp
    then show ?thesis using 1(1) [OF i False t(1) t(2)] c conserves_trans by blast
  qed
qed

lemma RoundRobin_Compute_keeps:
  assumes "RoundRobin_Compute opened now s = Inr (s', f)"
  shows "keeps_packets s s'"
proof -
  let ?m = "of_nat (length (availableInterfaces s)) :: u32"
  obtain t l where t: "res_fold (rr_visit ?m now) [0..<length (applications s)]
      (s, \<lparr>currentIndex = 0, currentCost = 0, currentPendingPackages = 0\<rparr>) = Inr (t, l)"
      "printWhenAllSent opened ''outputRoundRobin.csv''
        (push_data_point (currentCost l) (currentPendingPackages l) t) = Inr (s', f)"
    using assms by (auto simp: RoundRobin_Compute_def Let_def res_bind_Inr_iff)
  have "keeps_packets s (fst (t, l))"
  proof (rule res_fold_invariant [OF t(1), where P = "\<lambda>sl. keeps_packets s (fst sl)"])
    fix i sl sl' assume k: "keeps_packets s (fst sl)" and v: "rr_visit ?m now i sl = Inr sl'"
    have "sl' = sl \<or> keeps_packets (fst sl) (fst sl')"
      using v rr_loop_conserves [OF _ refl, of ?m now i sl sl']
      by (simp add: rr_visit_def vec_at_def split: if_splits)
    then show "keeps_packets s (fst sl')" using k conserves_trans by blast
  qed simp
  then show ?thesis using printWhenAllSent_Inr [OF t(2)] by simp
qed

lemma random_body_conserves:
  assumes "random_body next now i (app_id (applications (fst sl) ! i)) sl = Inr sl'"
  shows "keeps_packets (fst sl) (fst sl')"
proof -
  obtain s l where sl: "sl = (s, l)" by (cases sl)
  obtain s1 where s1: "pop_application i s = Inr s1"
    using assms by (cases "pop_application i s") (simp_all add: sl random_body_def)
  obtain r g where "next (rng s1) = (r, g)" by (cases "next (rng s1)")
  then obtain j s2 where m: "pop_application i s = Inr s1"
      "enqueue_on j \<lparr>dateEnqueued = now, originatedFrom = app_id (applications s ! i)\<rparr> (s1\<lparr>rng := g\<rparr>) = Inr s2"
      "fst sl' = s2"
    using assms s1 by (auto simp: sl random_body_def Let_def res_bind_Inr_iff split: if_splits)
  have p: "pop_application i (s\<lparr>rng := g\<rparr>) = Inr (s1\<lparr>rng := g\<rparr>)"
    using m(1) by (auto simp: pop_application_def res_bind_Inr_iff)
  show ?thesis using move_one_conserves [OF p m(2)] m(3) by (simp add: sl)
qed

lemma random_loop_conserves:
  "random_loop next now i ident sl = Inr sl' \<Longrightarrow> ident = app_id (applications (fst sl) ! i) \<Longrightarrow>
   keeps_packets (fst sl) (fst sl')"
proof (induction "next" now i ident sl arbitrary: sl' rule: random_loop.induct)
  case (1 "next" now i ident sl)
  show ?case
  proof (cases "app_pending (applications (fst sl) ! i) = []")
    case True
    then show ?thesis using 1(2) by (subst (asm) random_loop.simps) (auto split: if_splits)
  next
    case False
    then obtain t where i: "\<not> length (applications (fst sl)) \<le> i" and t: "random_body next now i ident sl = Inr t"
        "random_loop next now i ident t = Inr sl'"
      using 1(2) by (subst (asm) random_loop.simps) (auto split: if_splits simp: res_bind_Inr_iff)
    have c: "keeps_packets (fst sl) (fst t)" using random_body_conserves t(1) 1(3) by blast
    then have "ident = app_id (applications (fst t) ! i)" using conserves_app_id [OF c] i 1(3) by simp
    then show ?thesis using 1(1) [OF i False t(1) t(2)] c conserves_trans by blast
  qed
qed

lemma Random_Compute_keeps:
  assumes "Random_Compute next shuffle opened now s = Inr (s', f)"
  shows "keeps_packets s s'"
proof -
  obtain indexes0 o0 where f0: "fill_indexes (of_nat (length (applications s))) = Inr (indexes0, o0)"
    using assms by (cases "fill_indexes (of_nat (length (applications s)))") (auto simp: Random_Compute_def)
  obtain indexes g where "shuffle indexes0 (rng s) = (indexes, g)" by (cases "shuffle indexes0 (rng s)")
  then obtain o' t l where
    t: "res_fold (random_visit next indexes now) [0..<length (applications s)]
      (s\<lparr>rng := g, out_of_bounds := o'\<rparr>, \<lparr>currentIndex = 0, currentCost = 0, currentPendingPackages = 0\<rparr>) = Inr (t, l)"
      "printWhenAllSent opened ''outputRandom.csv''
        (push_data_point (currentCost l) (currentPendingPackages l) t) = Inr (s', f)"
    using assms f0 by (auto simp: Random_Compute_def Let_def res_bind_Inr_iff)
  have "keeps_packets s (fst (t, l))"
  proof (rule res_fold_invariant [OF t(1), where P = "\<lambda>sl. keeps_packets s (fst sl)"])
    fix i sl sl' assume k: "keeps_packets s (fst sl)" and v: "random_visit next indexes now i sl = Inr sl'"
    have "sl' = sl \<or> keeps_packets (fst sl) (fst sl')"
      using v random_loop_conserves [OF _ refl, of "next" now i sl sl']
      by (simp add: random_visit_def vec_at_def split: if_splits)
    then show "keeps_packets s (fst sl')" using k conserves_trans by blast
  qed simp
  then show ?thesis using printWhenAllSent_Inr [OF t(2)] by simp
qed

lemma linear_send_conserves:
  "linear_send now i j k s = Inr s' \<Longrightarrow> i < length (applications s) \<Longrightarrow> keeps_packets s s'"
proof (induction now i j k s rule: linear_send.induct)
  case (2 now i j k s)
  then obtain s1 s2 where m: "pop_application i s = Inr s1"
      "enqueue_on j \<lparr>dateEnqueued = now, originatedFrom = app_id (applications s1 ! i)\<rparr> s1 = Inr s2"
      "linear_send now i j k s2 = Inr s'"
    by (auto simp: Let_def res_bind_Inr_iff)
  have "app_id (applications s1 ! i) = app_id (applications s ! i)"
    using m(1) by (auto simp: pop_application_def vec_at_def app_pop_eq res_bind_Inr_iff split: if_splits)
  then have c: "keeps_packets s s2" using move_one_conserves [OF m(1,2)] by simp
  then show ?case
    using 2(1) [OF m(1) refl refl m(2) m(3)] conserves_length(1) [OF c] 2(3) conserves_trans by auto
qed simp

lemma reactive_send_conserves:
  "reactive_send now i j k s = Inr s' \<Longrightarrow> i < length (applications s) \<Longrightarrow> keeps_packets s s'"
proof (induction now i j k s rule: reactive_send.induct)
  case (2 now i j k s)
  then obtain s1 s2 where m: "app_pending (applications s ! i) \<noteq> []" "pop_application i s = Inr s1"
      "enqueue_on j \<lparr>dateEnqueued = now, originatedFrom = app_id (applications s ! i)\<rparr> s1 = Inr s2"
      "reactive_send now i j k s2 = Inr s'"
    by (auto simp: Let_def res_bind_Inr_iff split: if_splits)
  have c: "keeps_packets s s2" using move_one_conserves [OF m(2,3)] by simp
  then show ?case
    using 2(1) [of "applications s ! i" s1 _ s2] 2(3) m conserves_length(1) [OF c] conserves_trans
    by auto
qed simp

text \<open>The loops over a solution matrix, for both strategies that send one.\<close>

lemma matrix_conserves:
  assumes "res_fold (\<lambda>i s. res_bind (vec_at (applications s) i) (\<lambda>a. res_bind (vec_at sol i) (\<lambda>row. send_row i row s))) is s = Inr s'"
    and "\<And>i row s s'. send_row i row s = Inr s' \<Longrightarrow> i < length (applications s) \<Longrightarrow> keeps_packets s s'"
  shows "keeps_packets s s'"
proof (rule res_fold_invariant [OF assms(1), where P = "keeps_packets s"])
  fix i t t' assume "keeps_packets s t"
    and "res_bind (vec_at (applications t) i) (\<lambda>a. res_bind (vec_at sol i) (\<lambda>row. send_row i row t)) = Inr t'"
  then show "keeps_packets s t'"
    using assms(2) conserves_trans by (auto simp: vec_at_def res_bind_Inr_iff split: if_splits)
qed simp

lemma row_conserves:
  assumes "res_fold (\<lambda>j s. res_bind (vec_at fs j) (\<lambda>f. res_bind (vec_at row j) (\<lambda>c. send f c s))) js s = Inr s'"
    and "i < length (applications s)"
    and "\<And>f c s s'. send f c s = Inr s' \<Longrightarrow> i < length (applications s) \<Longrightarrow> keeps_packets s s'"
  shows "keeps_packets s s'"
proof (rule res_fold_invariant [OF assms(1), where P = "keeps_packets s"])
  fix j t t' assume k: "keeps_packets s t"
    and r: "res_bind (vec_at fs j) (\<lambda>f. res_bind (vec_at row j) (\<lambda>c. send f c t)) = Inr t'"
  then obtain f c where "send f c t = Inr t'" by (auto simp: vec_at_def res_bind_Inr_iff split: if_splits)
  then show "keeps_packets s t'"
    using assms(2,3) conserves_length(1) [OF k] k conserves_trans by metis
qed simp

lemma Linear_Compute_keeps:
  assumes "Linear_Compute solve now s = Inr s'"
  shows "keeps_packets s s'"
proof (cases "hasBeenComputed s")
  case True
  then show ?thesis using assms by (simp add: Linear_Compute_def)
next
  case False
  then obtain p where "linear_problem (applications s) (availableInterfaces s) = Inr p"
    using assms by (cases "linear_problem (applications s) (availableInterfaces s)")
      (simp_all add: Linear_Compute_def Let_def)
  then obtain sol t where "linear_matrix now sol s = Inr t" "s' = t\<lparr>hasBeenComputed := True\<rparr>"
    using assms False
    by (cases "solve p") (auto simp: Linear_Compute_def Let_def res_bind_Inr_iff)
  moreover have "keeps_packets s t" if "linear_matrix now sol s = Inr t"
    using that unfolding linear_matrix_def
    by (rule matrix_conserves)
      (auto simp: linear_row_def Let_def intro: row_conserves [OF _ _ linear_send_conserves])
  ultimately show ?thesis by simp
qed

lemma Reactive_Compute_keeps:
  assumes "Reactive_Compute solve opened now s = Inr (s', f)"
  shows "keeps_packets s s'"
proof -
  obtain sets results where r: "reactive_sets (availableInterfaces s) = Inr sets"
      "res_map (ComputeOptimization solve now (applications s) (availableInterfaces s)) sets = Inr results"
    using assms by (auto simp: Reactive_Compute_def res_bind_Inr_iff)
  then obtain best where b: "max_element result_less results = Some best"
    using assms by (cases "max_element result_less results") (auto simp: Reactive_Compute_def Let_def)
  then obtain idx where "getIsFeasible best" "result_interfaces best = Some idx"
    using assms r by (cases "result_interfaces best")
      (auto simp: Reactive_Compute_def Let_def split: if_splits)
  then obtain c n sol t where m: "reactive_matrix now idx sol (push_data_point c n s) = Inr t"
      "printWhenAllSent opened ''outputReactive.csv'' t = Inr (s', f)"
    using assms r b by (auto simp: Reactive_Compute_def Let_def res_bind_Inr_iff)
  have "keeps_packets (push_data_point c n s) t"
    using m(1) unfolding reactive_matrix_def
    by (rule matrix_conserves)
      (auto simp: reactive_row_def intro: row_conserves [OF _ _ reactive_send_conserves])
  then show ?thesis using printWhenAllSent_Inr [OF m(2)] by simp
qed

section \<open>The contract of a strategy\<close>

locale packet_mover =
  fixes compute :: "sim_time \<Rightarrow> 'o \<Rightarrow> ('o \<times> 'f) res"
    and apps :: "'o \<Rightarrow> application list"
    and ifaces :: "'o \<Rightarrow> isp_interface list"
  assumes compute_conserves:
    "compute now so = Inr (so', f) \<Longrightarrow> conserves (apps so) (ifaces so) (apps so') (ifaces so')"
begin

lemma compute_lengths:
  assumes "compute now so = Inr (so', f)"
  shows "length (apps so') = length (apps so)" and "length (ifaces so') = length (ifaces so)"
  using conserves_length [OF compute_conserves [OF assms]] by blast+

lemma compute_iface:
  assumes "compute now so = Inr (so', f)" and "i < length (ifaces so)"
  shows "if_emptied (ifaces so' ! i) = if_emptied (ifaces so ! i)"
  using compute_conserves [OF assms(1)] compute_lengths(2) [OF assms(1)] assms(2)
  unfolding conserves_def by (metis nth_map)

lemma compute_all_conserves:
  assumes "res_fold (\<lambda>now (so, fs). res_bind (compute now so) (\<lambda>(so, f). Inr (so, fs @ [f]))) nows (so, fs0) = Inr (so', fs)"
  shows "conserves (apps so) (ifaces so) (apps so') (ifaces so')"
proof -
  have "conserves (apps so) (ifaces so) (apps (fst (so', fs))) (ifaces (fst (so', fs)))"
  proof (rule res_fold_invariant [OF assms, where P = "\<lambda>x. conserves (apps so) (ifaces so) (apps (fst x)) (ifaces (fst x))"])
    fix now and x y :: "'o \<times> 'f list"
    assume k: "conserves (apps so) (ifaces so) (apps (fst x)) (ifaces (fst x))"
      and "(case x of (so, fs) \<Rightarrow> res_bind (compute now so) (\<lambda>(so, f). Inr (so, fs @ [f]))) = Inr y"
    then obtain f where "compute now (fst x) = Inr (fst y, f)"
      by (cases x) (auto simp: res_bind_Inr_iff)
    then show "conserves (apps so) (ifaces so) (apps (fst y)) (ifaces (fst y))"
      using k compute_conserves conserves_trans by blast
  qed simp
  then show ?thesis by simp
qed

end

interpretation mover: packet_mover "Strategy_Compute env" so_applications so_interfaces for env
proof
  fix now so so' f
  assume "Strategy_Compute env now so = Inr (so', f)"
  then show "conserves (so_applications so) (so_interfaces so) (so_applications so') (so_interfaces so')"
    by (cases so) (auto simp: res_bind_Inr_iff dest: Linear_Compute_keeps Random_Compute_keeps
        RoundRobin_Compute_keeps Reactive_Compute_keeps)
qed

text \<open>
  C23. Every strategy, whatever the solver, the random engine and the shuffle return, either fails
  or does nothing but move packets: the applications keep everything but their queues, the
  interfaces keep everything but theirs, which only grow at the end, their numbers and order are the
  same, and for every application identifier the packets pending and queued add up to what they were. This holds after
  any sequence of computations.
\<close>

theorem Strategy_Compute_conserves:
  assumes "res_fold (\<lambda>now (so, fs). res_bind (Strategy_Compute env now so) (\<lambda>(so, f). Inr (so, fs @ [f])))
    nows (so, []) = Inr (so', files)"
  shows "map app_drained (so_applications so') = map app_drained (so_applications so) \<and>
    map if_emptied (so_interfaces so') = map if_emptied (so_interfaces so) \<and>
    (\<forall>i < length (so_interfaces so). \<exists>ps. if_pendingpackets (so_interfaces so' ! i) =
       if_pendingpackets (so_interfaces so ! i) @ ps) \<and>
    (\<forall>ident. pending_from ident (so_applications so') + queued_from ident (so_interfaces so') =
       pending_from ident (so_applications so) + queued_from ident (so_interfaces so))"
  using mover.compute_all_conserves [OF assms]
  by (auto simp: conserves_def appended_def list_all2_conv_all_nth)

definition sample_env :: "nat compute_env" where
  "sample_env = \<lparr>env_next = minstd_rand0, env_shuffle = (\<lambda>xs g. (xs, g)), env_seed = unat,
     env_solve = (\<lambda>p. NOT_OPTIMAL), env_opened = True\<rparr>"

theorem Strategy_Compute_conserves_witness:
  "\<exists>so' files. res_fold (\<lambda>now (so, fs). res_bind (Strategy_Compute sample_env now so) (\<lambda>(so, f). Inr (so, fs @ [f])))
     [7] (RoundRobinS sample_strategy, []) = Inr (so', files) \<and>
   pending_from 101 (so_applications so') + queued_from 101 (so_interfaces so') = 2"
proof -
  obtain f where "RoundRobin_Compute True 7 sample_strategy = Inr (rr_moved 7 sample_strategy, f)"
    by (rule sample_computes)
  then have r: "res_fold (\<lambda>now (so, fs). res_bind (Strategy_Compute sample_env now so) (\<lambda>(so, f). Inr (so, fs @ [f])))
      [7] (RoundRobinS sample_strategy, []) = Inr (RoundRobinS (rr_moved 7 sample_strategy), [f])"
    by (simp add: sample_env_def)
  have "pending_from 101 (so_applications (RoundRobinS (rr_moved 7 sample_strategy) :: nat strategy_object)) +
      queued_from 101 (so_interfaces (RoundRobinS (rr_moved 7 sample_strategy) :: nat strategy_object)) =
    pending_from 101 (so_applications (RoundRobinS sample_strategy :: nat strategy_object)) +
      queued_from 101 (so_interfaces (RoundRobinS sample_strategy :: nat strategy_object))"
    using Strategy_Compute_conserves [OF r] by blast
  then show ?thesis using r by (auto simp: queued_from_def simp del: Strategy_Compute.simps)
qed

section \<open>Strategies that drain the applications\<close>

text \<open>
  Round robin and the random strategy drain the applications in every computation. The linear strategy
  does so in its first one; then it needs applications that generate no more: static ones. The reactive
  strategy needs a solver that finds the solutions there are and a route for every application; then it
  drains the applications whenever the queues of the interfaces are empty and no application has more
  pending than its peak.
\<close>

fun is_static :: "application \<Rightarrow> bool" where
  "is_static (StaticApp a) = True"
| "is_static (SinApp a) = False"

fun is_reactive :: "'g strategy_object \<Rightarrow> bool" where
  "is_reactive (ReactiveS s) = True"
| "is_reactive (LinearS s) = False"
| "is_reactive (RandomS s) = False"
| "is_reactive (RoundRobinS s) = False"

fun drains :: "'g compute_env \<Rightarrow> 'g strategy_object \<Rightarrow> bool" where
  "drains env (RoundRobinS s) \<longleftrightarrow> env_opened env"
| "drains env (RandomS s) \<longleftrightarrow> env_opened env \<and> shuffle_keeps_length (env_shuffle env)"
| "drains env (LinearS s) \<longleftrightarrow> hasBeenComputed s \<and> (\<forall>a\<in>set (applications s). is_static a \<and> app_pending a = [])"
| "drains env (ReactiveS s) \<longleftrightarrow> env_opened env \<and> solver_contract (env_solve env) \<and> solver_complete (env_solve env) \<and>
     0 < length (availableInterfaces s) \<and> length (availableInterfaces s) < 32 \<and>
     (\<exists>f. route f (applications s) (availableInterfaces s))"

definition idle :: "'g strategy_object \<Rightarrow> bool" where
  "idle so \<longleftrightarrow> (\<forall>x\<in>set (so_interfaces so). if_pendingpackets x = [])"

definition within_peaks :: "nat \<Rightarrow> 'g strategy_object \<Rightarrow> bool" where
  "within_peaks k so \<longleftrightarrow> (\<forall>a\<in>set (so_applications so). length (app_pending a) \<le> k * app_peak a)"

text \<open>No queue holds more than its interface can send in a second.\<close>

definition within_capacity :: "'g strategy_object \<Rightarrow> bool" where
  "within_capacity so \<longleftrightarrow>
     (\<forall>x\<in>set (so_interfaces so). length (if_pendingpackets x) \<le> unat (getPackageRate x))"

lemma is_reactive_set [simp]:
  "is_reactive (so_set_applications as so) = is_reactive so"
  "is_reactive (so_set_interfaces is so) = is_reactive so"
  by (cases so; simp)+

lemma drains_set_interfaces:
  assumes "map if_offer is = map if_offer (so_interfaces so)"
  shows "drains env (so_set_interfaces is so) = drains env so"
proof (cases so)
  case (ReactiveS s)
  then have o: "map if_offer is = map if_offer (availableInterfaces s)" using assms by simp
  then have "length is = length (availableInterfaces s)" by (rule map_eq_imp_length_eq)
  then have "route f (applications s) is = route f (applications s) (availableInterfaces s)" for f
    using route_cong [OF _ refl o] route_cong [OF _ refl o [symmetric]] by blast
  with \<open>length is = _\<close> show ?thesis using ReactiveS by simp
qed simp_all

lemma drains_set_applications:
  assumes "map app_demand as = map app_demand (so_applications so)" and "is_reactive so"
  shows "drains env (so_set_applications as so) = drains env so"
proof (cases so)
  case (ReactiveS s)
  then have o: "map app_demand as = map app_demand (applications s)" using assms by simp
  then have "route f as (availableInterfaces s) = route f (applications s) (availableInterfaces s)" for f
    using route_cong [OF _ o refl] route_cong [OF _ o [symmetric] refl] by blast
  then show ?thesis using ReactiveS by simp
qed (use assms(2) in simp_all)

text \<open>A computation that returns and leaves nothing pending, with the next ones to do the same.\<close>

definition computes :: "'g compute_env \<Rightarrow> 'g strategy_object \<Rightarrow> bool" where
  "computes env so \<longleftrightarrow>
     (\<forall>now. \<exists>so' f. Strategy_Compute env now so = Inr (so', f) \<and> drains env so' \<and>
        so_applications so' = map app_drained (so_applications so) \<and>
        is_reactive so' = is_reactive so \<and> (is_reactive so \<longrightarrow> within_capacity so'))"

lemma app_drained_nothing: "app_pending a = [] \<Longrightarrow> app_drained a = a"
  by (cases a) simp_all

lemma is_static_drained [simp]: "is_static (app_drained a) = is_static a"
  by (cases a) simp_all

lemma app_demand_drained [simp]: "app_demand (app_drained a) = app_demand a"
  by (cases a) (simp_all add: app_demand_def static_getRequiredDataRate_def sin_getRequiredDataRate_def)

lemma if_offer_emptied [simp]: "if_offer (if_emptied x) = if_offer x"
  by (simp add: if_offer_def if_emptied_def)

lemma conserves_demand:
  assumes "conserves apps ifaces apps' ifaces'"
  shows "map app_demand apps' = map app_demand apps" and "map if_offer ifaces' = map if_offer ifaces"
proof -
  have "map app_demand (map app_drained apps') = map app_demand (map app_drained apps)"
      "map if_offer (map if_emptied ifaces') = map if_offer (map if_emptied ifaces)"
    using assms by (simp_all add: conserves_def)
  then show "map app_demand apps' = map app_demand apps" "map if_offer ifaces' = map if_offer ifaces"
    by (simp_all add: comp_def)
qed

text \<open>A computation of the reactive strategy over empty queues, when its problem has a solution.\<close>

lemma reactive_computes:
  assumes d: "drains env (ReactiveS s)" and i: "idle (ReactiveS s :: 'g strategy_object)"
    and pk: "within_peaks 2 (ReactiveS s :: 'g strategy_object)"
    and sol: "\<And>now. \<exists>p v. reactive_problem now (applications s) (availableInterfaces s) = Inr p \<and> integer_solution p v"
  shows "computes env (ReactiveS s :: 'g strategy_object)"
  unfolding computes_def
proof
  fix now'
  obtain f where e: "env_opened env" "solver_contract (env_solve env)" "solver_complete (env_solve env)"
      "0 < length (availableInterfaces s)" "length (availableInterfaces s) < 32"
      "route f (applications s) (availableInterfaces s)"
    using d by auto
  obtain p v where p: "reactive_problem now' (applications s) (availableInterfaces s) = Inr p" "integer_solution p v"
    using sol by blast
  have "\<forall>a\<in>set (applications s). length (app_pending a) \<le> 2 * app_peak a"
      "\<forall>x\<in>set (availableInterfaces s). if_pendingpackets x = []"
    using i pk by (simp_all add: idle_def within_peaks_def)
  from Reactive_Compute_solved [OF e(2-6) this p] obtain s' fl where
    r: "Reactive_Compute (env_solve env) True now' s = Inr (s', fl)" "applications s' = map app_drained (applications s)"
      "\<forall>i<length (availableInterfaces s). length (if_pendingpackets (availableInterfaces s' ! i)) \<le>
         unat (getPackageRate (availableInterfaces s ! i))"
    by blast
  note keep = Reactive_Compute_keeps [OF r(1)]
  note dem = conserves_demand [OF keep] and len = conserves_length [OF keep]
  have "route f (applications s') (availableInterfaces s')" by (rule route_cong [OF e(6) dem])
  moreover have "getPackageRate (availableInterfaces s' ! i) = getPackageRate (availableInterfaces s ! i)"
    if "i < length (availableInterfaces s)" for i
    using if_offer_eqD(2) dem(2) len(2) that by (metis nth_map)
  then have "within_capacity (ReactiveS s' :: 'g strategy_object)"
    using r(3) len(2) by (auto simp: within_capacity_def in_set_conv_nth)
  ultimately show "\<exists>so' f. Strategy_Compute env now' (ReactiveS s :: 'g strategy_object) = Inr (so', f) \<and> drains env so' \<and>
      so_applications so' = map app_drained (so_applications (ReactiveS s :: 'g strategy_object)) \<and>
      is_reactive so' = is_reactive (ReactiveS s :: 'g strategy_object) \<and>
      (is_reactive (ReactiveS s :: 'g strategy_object) \<longrightarrow> within_capacity so')"
    using r(1,2) e len(2) by (intro exI [of _ "ReactiveS s'"] exI [of _ fl]) auto
qed

lemma drains_computes:
  assumes "drains env so" and "0 < length (so_interfaces so)" and "length (so_interfaces so) < 4294967296"
    and "length (so_applications so) < 2147483647"
    and "is_reactive so \<Longrightarrow> idle so \<and> within_peaks 1 so"
  shows "computes env so"
proof (cases so)
  case (ReactiveS s)
  then obtain f where "route f (applications s) (availableInterfaces s)" using assms(1) by auto
  moreover have "\<forall>a\<in>set (applications s). length (app_pending a) \<le> app_peak a"
      "\<forall>x\<in>set (availableInterfaces s). if_pendingpackets x = []"
    using assms(5) ReactiveS by (simp_all add: idle_def within_peaks_def)
  ultimately have "\<exists>p v. reactive_problem now' (applications s) (availableInterfaces s) = Inr p \<and> integer_solution p v" for now'
    by (rule route_solvable)
  moreover have "within_peaks 2 so" using assms(5) ReactiveS by (auto simp: within_peaks_def intro: trans_le_add1)
  moreover have "idle so" using assms(5) ReactiveS by simp
  ultimately show ?thesis using reactive_computes [of env s] assms(1) unfolding ReactiveS by blast
next
  case (RandomS s)
  then have pre: "0 < length (availableInterfaces s)" "length (availableInterfaces s) < 4294967296"
      "length (applications s) < 2147483647" "shuffle_keeps_length (env_shuffle env)" "env_opened env"
    using assms by simp_all
  show ?thesis
    unfolding computes_def
  proof
    fix now'
    obtain s' where r: "Random_Compute (env_next env) (env_shuffle env) True now' s =
          printWhenAllSent True ''outputRandom.csv'' s'"
        "applications s' = map app_drained (applications s)"
      by (rule Random_Compute_result [OF pre(1-4)]) blast
    obtain f where "printWhenAllSent True ''outputRandom.csv'' s' = Inr (s', f)"
      using printWhenAllSent_opened by metis
    then show "\<exists>so' f. Strategy_Compute env now' so = Inr (so', f) \<and> drains env so' \<and>
        so_applications so' = map app_drained (so_applications so) \<and> is_reactive so' = is_reactive so \<and>
        (is_reactive so \<longrightarrow> within_capacity so')"
      using RandomS pre r by simp
  qed
next
  case (RoundRobinS s)
  show ?thesis
    unfolding computes_def
  proof
    fix now'
    have r: "RoundRobin_Compute True now' s = printWhenAllSent True ''outputRoundRobin.csv'' (rr_moved now' s)"
      using RoundRobinS assms RoundRobin_Compute_eq [of s True now'] by simp
    obtain f where "printWhenAllSent True ''outputRoundRobin.csv'' (rr_moved now' s) = Inr (rr_moved now' s, f)"
      using printWhenAllSent_opened by metis
    then show "\<exists>so' f. Strategy_Compute env now' so = Inr (so', f) \<and> drains env so' \<and>
        so_applications so' = map app_drained (so_applications so) \<and> is_reactive so' = is_reactive so \<and>
        (is_reactive so \<longrightarrow> within_capacity so')"
      using RoundRobinS assms(1) r by (simp add: rr_moved_def)
  qed
next
  case (LinearS s)
  then have "map app_drained (applications s) = applications s"
    using assms(1) by (simp add: map_idI app_drained_nothing)
  then show ?thesis using LinearS assms(1) by (simp add: computes_def Linear_Compute_def)
qed

text \<open>The first computation of the linear strategy.\<close>

lemma Linear_first_computes:
  assumes "solver_contract (env_solve env)" and "\<not> hasBeenComputed s"
    and "linear_problem (applications s) (availableInterfaces s) = Inr p"
    and "env_solve env p = OPTIMAL values obj"
    and "\<forall>a \<in> set (applications s). is_static a \<and> length (app_pending a) < 4294967296"
  shows "computes env (LinearS s)"
  unfolding computes_def
proof
  fix now'
  have "\<forall>a \<in> set (applications s). length (app_pending a) < 4294967296" using assms(5) by simp
  from Linear_Compute_first [OF assms(1-4) this, of now']
  show "\<exists>so' f. Strategy_Compute env now' (LinearS s) = Inr (so', f) \<and> drains env so' \<and>
    so_applications so' = map app_drained (so_applications (LinearS s)) \<and> is_reactive so' = is_reactive (LinearS s) \<and>
    (is_reactive (LinearS s) \<longrightarrow> within_capacity so')"
    using assms(5) by simp
qed

section \<open>The balance of packets\<close>

lemma sum_pending_from: "(\<Sum>ident\<in>UNIV. pending_from ident apps) = pending apps"
  by (induction apps) (simp_all add: sum.distrib)

lemma sum_packets_from: "(\<Sum>ident\<in>UNIV. packets_from ident ps) = length ps"
  by (induction ps) (simp_all add: sum.distrib)

lemma queued_from_Cons [simp]:
  "queued_from ident (i # is) = packets_from ident (if_pendingpackets i) + queued_from ident is"
  "queued_from ident [] = 0"
  by (simp_all add: queued_from_def)

lemma queued_simps [simp]:
  "queued (i # is) = length (if_pendingpackets i) + queued is" "queued [] = 0"
  by (simp_all add: queued_def)

lemma sum_queued_from: "(\<Sum>ident\<in>UNIV. queued_from ident ifaces) = queued ifaces"
  by (induction ifaces) (simp_all add: sum.distrib sum_packets_from)

lemma conserves_total:
  assumes "conserves apps ifaces apps' ifaces'"
  shows "pending apps' + queued ifaces' = pending apps + queued ifaces"
proof -
  have "(\<Sum>ident\<in>UNIV. pending_from ident apps' + queued_from ident ifaces') =
      (\<Sum>ident\<in>UNIV. pending_from ident apps + queued_from ident ifaces)"
    using assms by (simp add: conserves_def)
  then show ?thesis by (simp add: sum.distrib sum_pending_from sum_queued_from)
qed

text \<open>
  The generated packets are pending, queued, or counted by an interface as sent or corrupt. The
  counters wrap at 32 bits, and the equation holds in that arithmetic.
\<close>

definition handled :: "isp_interface list \<Rightarrow> u32" where
  "handled ifaces = sum_list (map (\<lambda>i. correctPackages i + corruptPackages i) ifaces)"

definition balanced :: "application list \<Rightarrow> isp_interface list \<Rightarrow> bool" where
  "balanced apps ifaces \<longleftrightarrow>
     sum_list (map app_generated apps) =
       of_nat (pending apps) + of_nat (queued ifaces) + handled ifaces"

lemma conserves_idle:
  assumes "conserves apps ifaces apps' ifaces'" and "pending apps = 0"
  shows "map if_pendingpackets ifaces' = map if_pendingpackets ifaces"
proof -
  have a: "list_all2 appended ifaces ifaces'" using assms(1) by (simp add: conserves_def)
  have "queued ifaces' \<le> queued ifaces" using conserves_total [OF assms(1)] assms(2) by simp
  with a show ?thesis
  proof (induction rule: list_all2_induct)
    case (Cons x xs y ys)
    from Cons(2) have "queued xs \<le> queued ys"
      by (induction rule: list_all2_induct) (auto simp: appended_def)
    moreover obtain ps where "if_pendingpackets y = if_pendingpackets x @ ps"
      using Cons(1) by (auto simp: appended_def)
    ultimately show ?case using Cons(3,4) by (cases ps) auto
  qed simp
qed

lemma conserves_balanced:
  assumes "conserves apps ifaces apps' ifaces'" and "balanced apps ifaces"
  shows "balanced apps' ifaces'"
proof -
  have "map app_generated (map app_drained apps') = map app_generated (map app_drained apps)"
    using assms(1) by (simp add: conserves_def)
  then have g: "map app_generated apps' = map app_generated apps" by (simp add: comp_def)
  let ?h = "\<lambda>i. correctPackages i + corruptPackages i"
  have "map ?h (map if_emptied ifaces') = map ?h (map if_emptied ifaces)"
    using assms(1) by (simp add: conserves_def)
  then have h: "handled ifaces' = handled ifaces" by (simp add: handled_def comp_def if_emptied_def)
  have "(of_nat (pending apps') + of_nat (queued ifaces') :: u32) = of_nat (pending apps) + of_nat (queued ifaces)"
    using conserves_total [OF assms(1)] by (metis of_nat_add)
  then show ?thesis using assms(2) by (simp add: balanced_def g h)
qed

end
