(* ===== verification/Ns3_Error.thy ===== *)
theory Ns3_Error
  imports Isp_Iface
begin

text \<open>
  The error models of ns-3 (\<open>network/utils/error-model.cc\<close>): given a packet, is it corrupt? The
  sender asks the \<open>RateErrorModel\<close> of an interface before it hands a packet to the socket. A random
  variable is a state with a function that draws the next value, \<open>std::pow\<close> an argument.
\<close>

section \<open>RateErrorModel\<close>

type_synonym 'r draw = "'r \<Rightarrow> dbl \<times> 'r"

definition RateErrorModel_SetRate :: "dbl \<Rightarrow> rate_error_model \<Rightarrow> rate_error_model" where
  "RateErrorModel_SetRate rate m = m\<lparr>errorRateAttribute := rate\<rparr>"

definition RateErrorModel_SetUnit :: "error_unit \<Rightarrow> rate_error_model \<Rightarrow> rate_error_model" where
  "RateErrorModel_SetUnit u m = m\<lparr>errorUnit := u\<rparr>"

definition ErrorModel_Enable :: "rate_error_model \<Rightarrow> rate_error_model" where
  "ErrorModel_Enable m = m\<lparr>errorEnabled := True\<rparr>"

definition ErrorModel_Disable :: "rate_error_model \<Rightarrow> rate_error_model" where
  "ErrorModel_Disable m = m\<lparr>errorEnabled := False\<rparr>"

definition DoCorruptPkt :: "'r draw \<Rightarrow> rate_error_model \<Rightarrow> 'r \<Rightarrow> bool \<times> 'r" where
  "DoCorruptPkt GetValue m r = (case GetValue r of (v, r) \<Rightarrow> (dless v (errorRateAttribute m), r))"

definition DoCorruptByte ::
  "(dbl \<Rightarrow> dbl \<Rightarrow> dbl) \<Rightarrow> 'r draw \<Rightarrow> rate_error_model \<Rightarrow> u32 \<Rightarrow> 'r \<Rightarrow> bool \<times> 'r" where
  "DoCorruptByte powf GetValue m sz r =
     (let per = dsub (Fin 1) (powf (dsub (Fin 1) (errorRateAttribute m)) (dbl_of_nat (unat sz)))
      in case GetValue r of (v, r) \<Rightarrow> (dless v per, r))"

definition DoCorruptBit ::
  "(dbl \<Rightarrow> dbl \<Rightarrow> dbl) \<Rightarrow> 'r draw \<Rightarrow> rate_error_model \<Rightarrow> u32 \<Rightarrow> 'r \<Rightarrow> bool \<times> 'r" where
  "DoCorruptBit powf GetValue m sz r =
     (let per = dsub (Fin 1) (powf (dsub (Fin 1) (errorRateAttribute m)) (dbl_of_nat (unat (8 * sz))))
      in case GetValue r of (v, r) \<Rightarrow> (dless v per, r))"

definition RateErrorModel_DoCorrupt ::
  "(dbl \<Rightarrow> dbl \<Rightarrow> dbl) \<Rightarrow> 'r draw \<Rightarrow> rate_error_model \<Rightarrow> u32 \<Rightarrow> 'r \<Rightarrow> bool \<times> 'r" where
  "RateErrorModel_DoCorrupt powf GetValue m sz r =
     (if \<not> errorEnabled m then (False, r)
      else
        (case errorUnit m of
           ERROR_UNIT_PACKET \<Rightarrow> DoCorruptPkt GetValue m r
         | ERROR_UNIT_BYTE \<Rightarrow> DoCorruptByte powf GetValue m sz r
         | ERROR_UNIT_BIT \<Rightarrow> DoCorruptBit powf GetValue m sz r))"

definition IsCorrupt ::
  "(dbl \<Rightarrow> dbl \<Rightarrow> dbl) \<Rightarrow> 'r draw \<Rightarrow> rate_error_model \<Rightarrow> u32 \<Rightarrow> 'r \<Rightarrow> bool \<times> 'r" where
  "IsCorrupt powf GetValue m sz r = RateErrorModel_DoCorrupt powf GetValue m sz r"

text \<open>
  With a packet rate of 0 no packet is corrupt, with a rate of 1 every one is: the random variable
  draws from \<open>[0, 1)\<close>.
\<close>

lemma IsCorrupt_rate_0:
  assumes "errorUnit m = ERROR_UNIT_PACKET" and "errorRateAttribute m = Fin 0"
    and "GetValue r = (Fin x, r')" and "0 \<le> x"
  shows "\<not> fst (IsCorrupt powf GetValue m sz r)"
  using assms by (simp add: IsCorrupt_def RateErrorModel_DoCorrupt_def DoCorruptPkt_def)

lemma IsCorrupt_rate_1:
  assumes "errorEnabled m" and "errorUnit m = ERROR_UNIT_PACKET" and "errorRateAttribute m = Fin 1"
    and "GetValue r = (Fin x, r')" and "x < 1"
  shows "fst (IsCorrupt powf GetValue m sz r)"
  using assms by (simp add: IsCorrupt_def RateErrorModel_DoCorrupt_def DoCorruptPkt_def)

section \<open>BurstErrorModel\<close>

record burst_error_model =
  burst_enabled :: bool
  m_burstRate :: dbl
  m_counter :: u32
  m_currentBurstSz :: u32

definition BurstErrorModel :: "dbl \<Rightarrow> burst_error_model" where
  "BurstErrorModel rate =
     \<lparr>burst_enabled = True, m_burstRate = rate, m_counter = 0, m_currentBurstSz = 0\<rparr>"

definition Burst_DoCorrupt ::
  "'r draw \<Rightarrow> ('r \<Rightarrow> u32 \<times> 'r) \<Rightarrow> burst_error_model \<Rightarrow> 'r \<Rightarrow> bool \<times> burst_error_model \<times> 'r" where
  "Burst_DoCorrupt GetValue GetInteger m r =
     (if \<not> burst_enabled m then (False, m, r)
      else
        (case GetValue r of (ranVar, r) \<Rightarrow>
           if dless ranVar (m_burstRate m) then
             (case GetInteger r of (sz, r) \<Rightarrow>
                let m = m\<lparr>m_currentBurstSz := sz\<rparr> in
                if sz = 0 then (False, m, r) else (True, m\<lparr>m_counter := 1\<rparr>, r))
           else if m_counter m < m_currentBurstSz m then
             (True, m\<lparr>m_counter := m_counter m + 1\<rparr>, r)
           else (False, m, r)))"

definition Burst_DoReset :: "burst_error_model \<Rightarrow> burst_error_model" where
  "Burst_DoReset m = m\<lparr>m_counter := 0, m_currentBurstSz := 0\<rparr>"

definition burst_inv :: "burst_error_model \<Rightarrow> bool" where
  "burst_inv m \<longleftrightarrow> m_counter m \<le> m_currentBurstSz m"

text \<open>Asking for \<open>n\<close> packets in a row.\<close>

fun burst_run ::
  "'r draw \<Rightarrow> ('r \<Rightarrow> u32 \<times> 'r) \<Rightarrow> nat \<Rightarrow> burst_error_model \<Rightarrow> 'r \<Rightarrow> bool list \<times> burst_error_model \<times> 'r" where
  "burst_run GetValue GetInteger 0 m r = ([], m, r)"
| "burst_run GetValue GetInteger (Suc n) m r =
     (case Burst_DoCorrupt GetValue GetInteger m r of (b, m, r) \<Rightarrow>
        case burst_run GetValue GetInteger n m r of (bs, m, r) \<Rightarrow> (b # bs, m, r))"

lemma burst_tail:
  assumes "burst_enabled m" and "\<And>r. \<not> dless (fst (GetValue r)) (m_burstRate m)"
    and "unat (m_counter m) \<le> unat (m_currentBurstSz m)"
  shows "fst (burst_run GetValue GetInteger n m r) =
    replicate (min n (unat (m_currentBurstSz m) - unat (m_counter m))) True @
    replicate (n - (unat (m_currentBurstSz m) - unat (m_counter m))) False"
  using assms
proof (induction n arbitrary: m r)
  case 0
  then show ?case by simp
next
  case (Suc n)
  obtain v r' where v: "GetValue r = (v, r')" by (cases "GetValue r")
  then have nv: "\<not> dless v (m_burstRate m)" using Suc.prems(2) [of r] by simp
  show ?case
  proof (cases "m_counter m < m_currentBurstSz m")
    case True
    let ?m = "m\<lparr>m_counter := m_counter m + 1\<rparr>"
    have lt: "unat (m_counter m) < unat (m_currentBurstSz m)" using True by (simp add: word_less_nat_alt)
    moreover have "unat (m_currentBurstSz m) < 4294967296" by simp
    ultimately have "unat (m_counter m) + 1 < 4294967296" by linarith
    then have c: "unat (m_counter m + 1) = Suc (unat (m_counter m))" by (simp add: unat_u32_add)
    have "fst (burst_run GetValue GetInteger n ?m r') =
        replicate (min n (unat (m_currentBurstSz m) - Suc (unat (m_counter m)))) True @
        replicate (n - (unat (m_currentBurstSz m) - Suc (unat (m_counter m)))) False"
      using Suc.IH [of ?m r'] Suc.prems lt c by simp
    moreover obtain d where d: "unat (m_currentBurstSz m) = Suc (unat (m_counter m) + d)"
      using lt less_imp_Suc_add by blast
    ultimately show ?thesis
      using Suc.prems(1) nv True v by (auto simp: Burst_DoCorrupt_def d split: prod.split)
  next
    case False
    then have "unat (m_currentBurstSz m) - unat (m_counter m) = 0" by (simp add: word_less_nat_alt)
    then show ?thesis
      using Suc.IH [of m r'] Suc.prems nv False v by (auto simp: Burst_DoCorrupt_def split: prod.split)
  qed
qed

lemma Burst_DoCorrupt_inv:
  assumes "burst_inv m" and "Burst_DoCorrupt GetValue GetInteger m r = (b, m', r')"
    and "m_counter m' = 0 \<or> m_currentBurstSz m' \<noteq> 0"
  shows "burst_inv m'"
proof -
  obtain v r1 k r2 where v: "GetValue r = (v, r1)" "GetInteger r1 = (k, r2)" by (metis surj_pair)
  have "m_counter m + 1 \<le> m_currentBurstSz m" if "m_counter m < m_currentBurstSz m"
    using that inc_le by blast
  moreover have "1 \<le> k" if "k \<noteq> 0" using that by (simp add: word_le_nat_alt Suc_leI unat_pos_iff)
  ultimately show ?thesis
    using assms v by (auto simp: Burst_DoCorrupt_def burst_inv_def Let_def split: if_splits)
qed

section \<open>ListErrorModel, ReceiveListErrorModel and BinaryErrorModel\<close>

definition List_DoCorrupt :: "bool \<Rightarrow> u64 list \<Rightarrow> u64 \<Rightarrow> bool" where
  "List_DoCorrupt enabled m_packetList uid =
     (if \<not> enabled then False else list_ex (\<lambda>i. uid = i) m_packetList)"

record receive_list_error_model =
  rl_enabled :: bool
  rl_packetList :: "u32 list"
  m_timesInvoked :: u32

definition ReceiveList_DoCorrupt :: "receive_list_error_model \<Rightarrow> bool \<times> receive_list_error_model" where
  "ReceiveList_DoCorrupt m =
     (if \<not> rl_enabled m then (False, m)
      else
        (let m = m\<lparr>m_timesInvoked := m_timesInvoked m + 1\<rparr> in
         (list_ex (\<lambda>i. m_timesInvoked m - 1 = i) (rl_packetList m), m)))"

definition ReceiveList_DoReset :: "receive_list_error_model \<Rightarrow> receive_list_error_model" where
  "ReceiveList_DoReset m = m\<lparr>rl_packetList := []\<rparr>"

record binary_error_model =
  bin_enabled :: bool
  bin_counter :: u8

definition Binary_DoCorrupt :: "binary_error_model \<Rightarrow> bool \<times> binary_error_model" where
  "Binary_DoCorrupt m =
     (if \<not> bin_enabled m then (False, m)
      else (bin_counter m mod 2 \<noteq> 0, m\<lparr>bin_counter := bin_counter m + 1\<rparr>))"

definition Binary_DoReset :: "binary_error_model \<Rightarrow> binary_error_model" where
  "Binary_DoReset m = m\<lparr>bin_counter := 0\<rparr>"

end
