(* ===== verification/Ns3_Sched_Contract.thy ===== *)
theory Ns3_Sched_Contract
  imports Prelude
begin

text \<open>
  \<open>scheduler.h\<close> of ns-3: the events of the simulator with their keys and the order on them, and the
  contract that the abstract class \<open>Scheduler\<close> states for its implementations. An event's \<open>impl\<close> is a
  pointer to an \<open>EventImpl\<close>, modelled by the position of the object in the simulator's store.
\<close>

section \<open>Events\<close>

record event_key =
  m_ts :: u64
  m_uid :: u32
  m_context :: u32

record event =
  ev_impl :: nat
  ev_key :: event_key

definition key_less :: "event_key \<Rightarrow> event_key \<Rightarrow> bool" where
  "key_less a b \<longleftrightarrow> m_ts a < m_ts b \<or> (m_ts a = m_ts b \<and> m_uid a < m_uid b)"

definition key_equal :: "event_key \<Rightarrow> event_key \<Rightarrow> bool" where
  "key_equal a b \<longleftrightarrow> m_uid a = m_uid b"

definition event_less :: "event \<Rightarrow> event \<Rightarrow> bool" where
  "event_less a b \<longleftrightarrow> key_less (ev_key a) (ev_key b)"

definition event_equal :: "event \<Rightarrow> event \<Rightarrow> bool" where
  "event_equal a b \<longleftrightarrow> key_equal (ev_key a) (ev_key b)"

abbreviation ev_uid :: "event \<Rightarrow> u32" where
  "ev_uid e \<equiv> m_uid (ev_key e)"

abbreviation ev_ts :: "event \<Rightarrow> u64" where
  "ev_ts e \<equiv> m_ts (ev_key e)"

lemma event_less_def': "event_less a b \<longleftrightarrow> ev_ts a < ev_ts b \<or> (ev_ts a = ev_ts b \<and> ev_uid a < ev_uid b)"
  by (simp add: event_less_def key_less_def)

lemma event_less_irrefl [simp]: "\<not> event_less a a"
  by (simp add: event_less_def')

lemma event_less_trans: "event_less a b \<Longrightarrow> event_less b c \<Longrightarrow> event_less a c"
  by (auto simp: event_less_def')

lemma event_not_less_trans: "\<not> event_less b a \<Longrightarrow> \<not> event_less c b \<Longrightarrow> \<not> event_less c a"
  by (auto simp: event_less_def')

lemma event_less_linear: "ev_uid a \<noteq> ev_uid b \<Longrightarrow> event_less a b \<or> event_less b a"
  by (auto simp: event_less_def')

lemma event_less_asym: "event_less a b \<Longrightarrow> \<not> event_less b a"
  by (auto simp: event_less_def')

lemma event_less_ts: "\<not> event_less b a \<Longrightarrow> ev_ts a \<le> ev_ts b"
  by (auto simp: event_less_def')

section \<open>Distinct identifiers\<close>

text \<open>
  The simulator gives every event a \<open>uid\<close> of its own, so the order is total on the events of a
  schedule.
\<close>

definition uids_unique :: "event multiset \<Rightarrow> bool" where
  "uids_unique M \<longleftrightarrow> (\<forall>e\<in>#M. \<forall>x\<in>#M - {#e#}. ev_uid x \<noteq> ev_uid e)"

definition fresh_uid :: "u32 \<Rightarrow> event multiset \<Rightarrow> bool" where
  "fresh_uid u M \<longleftrightarrow> (\<forall>x\<in>#M. ev_uid x \<noteq> u)"

lemma uids_unique_empty [simp]: "uids_unique {#}"
  by (simp add: uids_unique_def)

lemma fresh_uid_empty [simp]: "fresh_uid u {#}"
  by (simp add: fresh_uid_def)

lemma fresh_uid_add [simp]: "fresh_uid u (add_mset e M) \<longleftrightarrow> ev_uid e \<noteq> u \<and> fresh_uid u M"
  by (auto simp: fresh_uid_def)

lemma uids_unique_add [simp]:
  "uids_unique (add_mset e M) \<longleftrightarrow> fresh_uid (ev_uid e) M \<and> uids_unique M"
proof
  assume L: "uids_unique (add_mset e M)"
  have "ev_uid x \<noteq> ev_uid e" if "x \<in># M" for x
    using L that unfolding uids_unique_def by force
  moreover have "ev_uid x \<noteq> ev_uid d" if d: "d \<in># M" and x: "x \<in># M - {#d#}" for d x
  proof -
    have "x \<in># add_mset e M - {#d#}"
      using x by (cases "d = e") (auto dest: in_diffD)
    then show ?thesis using L d unfolding uids_unique_def by auto
  qed
  ultimately show "fresh_uid (ev_uid e) M \<and> uids_unique M"
    unfolding uids_unique_def fresh_uid_def by blast
next
  assume R: "fresh_uid (ev_uid e) M \<and> uids_unique M"
  show "uids_unique (add_mset e M)"
    unfolding uids_unique_def
  proof (intro ballI)
    fix d x assume d: "d \<in># add_mset e M" and x: "x \<in># add_mset e M - {#d#}"
    show "ev_uid x \<noteq> ev_uid d"
    proof (cases "d = e")
      case True
      then show ?thesis using x R by (auto simp: fresh_uid_def)
    next
      case False
      then have "d \<in># M" and "x = e \<or> x \<in># M - {#d#}"
        using d x by auto
      then show ?thesis using R unfolding uids_unique_def fresh_uid_def by metis
    qed
  qed
qed

lemma fresh_uid_diff: "fresh_uid u M \<Longrightarrow> fresh_uid u (M - N)"
  by (auto simp: fresh_uid_def dest: in_diffD)

lemma uids_unique_remove: "uids_unique M \<Longrightarrow> uids_unique (M - {#e#})"
  by (cases "e \<in># M") (auto dest!: multi_member_split simp: diff_single_trivial)

lemma uids_unique_eq:
  "uids_unique M \<Longrightarrow> a \<in># M \<Longrightarrow> b \<in># M \<Longrightarrow> ev_uid a = ev_uid b \<Longrightarrow> a = b"
  by (auto dest!: multi_member_split [of b] simp: fresh_uid_def)

lemma uids_unique_mset: "uids_unique (mset xs) \<longleftrightarrow> distinct (map ev_uid xs)"
proof (induction xs)
  case (Cons a xs)
  then show ?case by (auto simp: fresh_uid_def image_iff)
qed simp

text \<open>The event a schedule hands out next: a least one, and there is only one.\<close>

definition first_event :: "event multiset \<Rightarrow> event \<Rightarrow> bool" where
  "first_event M e \<longleftrightarrow> e \<in># M \<and> (\<forall>x\<in>#M. \<not> event_less x e)"

lemma first_event_unique:
  assumes "uids_unique M" and "first_event M a" and "first_event M b"
  shows "a = b"
  using assms uids_unique_eq [OF assms(1), of a b] event_less_linear [of a b]
  by (auto simp: first_event_def)

lemma first_event_Cons:
  assumes "\<forall>x\<in>set xs. event_less e x"
  shows "first_event (add_mset e (mset xs)) e"
  using assms by (auto simp: first_event_def dest: event_less_asym)

section \<open>The contract\<close>

fun drain_events :: "('s \<Rightarrow> (event \<times> 's) res) \<Rightarrow> ('s \<Rightarrow> bool) \<Rightarrow> nat \<Rightarrow> 's \<Rightarrow> event list res" where
  "drain_events RemoveNext IsEmpty 0 s = Inr []"
| "drain_events RemoveNext IsEmpty (Suc n) s =
     (if IsEmpty s then Inr []
      else res_bind (RemoveNext s) (\<lambda>(e, s').
           res_bind (drain_events RemoveNext IsEmpty n s') (\<lambda>es. Inr (e # es))))"

locale event_queue =
  fixes Insert :: "event \<Rightarrow> 's \<Rightarrow> 's res"
    and IsEmpty :: "'s \<Rightarrow> bool"
    and PeekNext :: "'s \<Rightarrow> event res"
    and RemoveNext :: "'s \<Rightarrow> (event \<times> 's) res"
    and inv :: "'s \<Rightarrow> bool"
    and events :: "'s \<Rightarrow> event multiset"
  assumes inv_uids: "inv s \<Longrightarrow> uids_unique (events s)"
    and IsEmpty_iff: "inv s \<Longrightarrow> IsEmpty s \<longleftrightarrow> events s = {#}"
    and Insert_ok: "inv s \<Longrightarrow> fresh_uid (ev_uid e) (events s) \<Longrightarrow>
      \<exists>s'. Insert e s = Inr s' \<and> inv s' \<and> events s' = add_mset e (events s)"
    and RemoveNext_ok: "inv s \<Longrightarrow> events s \<noteq> {#} \<Longrightarrow>
      \<exists>e s'. RemoveNext s = Inr (e, s') \<and> first_event (events s) e \<and> inv s' \<and>
             events s' = events s - {#e#}"
    and PeekNext_ok: "inv s \<Longrightarrow> events s \<noteq> {#} \<Longrightarrow> \<exists>e. PeekNext s = Inr e \<and> first_event (events s) e"
begin

lemma peek_is_next:
  assumes "inv s" and "events s \<noteq> {#}"
  shows "\<exists>e s'. PeekNext s = Inr e \<and> RemoveNext s = Inr (e, s')"
  using RemoveNext_ok [OF assms] PeekNext_ok [OF assms] first_event_unique [OF inv_uids [OF assms(1)]]
  by blast

lemma drain_sorted:
  assumes "inv s" and "size (events s) \<le> n"
  shows "\<exists>es. drain_events RemoveNext IsEmpty n s = Inr es \<and> sorted_wrt event_less es \<and>
              mset es = events s"
  using assms
proof (induction n arbitrary: s)
  case 0
  then show ?case by simp
next
  case (Suc n)
  show ?case
  proof (cases "events s = {#}")
    case True
    then show ?thesis using Suc.prems by (simp add: IsEmpty_iff)
  next
    case False
    obtain e s' where r: "RemoveNext s = Inr (e, s')" "first_event (events s) e" "inv s'"
        "events s' = events s - {#e#}"
      using RemoveNext_ok [OF Suc.prems(1) False] by blast
    then have e: "e \<in># events s" by (simp add: first_event_def)
    have "size (events s') \<le> n"
      using Suc.prems(2) e by (simp add: r size_Diff_singleton)
    then obtain es where es: "drain_events RemoveNext IsEmpty n s' = Inr es"
        "sorted_wrt event_less es" "mset es = events s'"
      using Suc.IH [OF r(3)] by blast
    have "event_less e x" if "x \<in> set es" for x
    proof -
      have x: "x \<in># events s - {#e#}" using that es(3) r(4) by (metis set_mset_mset)
      then have "ev_uid x \<noteq> ev_uid e"
        using inv_uids [OF Suc.prems(1)] e unfolding uids_unique_def by blast
      moreover have "\<not> event_less x e"
        using r(2) x by (auto simp: first_event_def dest: in_diffD)
      ultimately show ?thesis using event_less_linear by blast
    qed
    then show ?thesis
      using False Suc.prems(1) r es e by (auto simp: IsEmpty_iff)
  qed
qed

lemma insert_all_ok:
  assumes "inv s" and "uids_unique (mset es + events s)"
  shows "\<exists>s'. res_fold Insert es s = Inr s' \<and> inv s' \<and> events s' = mset es + events s"
  using assms
proof (induction es arbitrary: s)
  case Nil
  then show ?case by simp
next
  case (Cons e es)
  then have "fresh_uid (ev_uid e) (events s)" by (auto simp: fresh_uid_def)
  then obtain s1 where "Insert e s = Inr s1" "inv s1" "events s1 = add_mset e (events s)"
    using Insert_ok [OF Cons.prems(1)] by blast
  then show ?case using Cons.IH [of s1] Cons.prems(2) by auto
qed

end

text \<open>Two implementations that hold the same events hand them out in the same order.\<close>

lemma sorted_events_unique:
  assumes "sorted_wrt event_less xs" and "sorted_wrt event_less ys" and "mset xs = mset ys"
  shows "xs = ys"
  using assms
proof (induction xs arbitrary: ys)
  case Nil
  then show ?case by simp
next
  case (Cons x xs)
  then obtain y ys' where ys: "ys = y # ys'" by (cases ys) auto
  have "x = y"
  proof (rule ccontr)
    assume "x \<noteq> y"
    moreover have "y \<in># mset (x # xs)" "x \<in># mset ys"
      using Cons.prems(3) ys by (metis list.set_intros(1) set_mset_mset)+
    ultimately have "event_less x y" "event_less y x"
      using Cons.prems(1,2) ys by auto
    then show False by (auto dest: event_less_asym)
  qed
  then show ?case using Cons ys by simp
qed

text \<open>Schedules from which a given event can be taken out again.\<close>

locale removable_event_queue = event_queue +
  fixes Remove :: "event \<Rightarrow> 's \<Rightarrow> 's res"
  assumes Remove_ok: "inv s \<Longrightarrow> e \<in># events s \<Longrightarrow>
    \<exists>s'. Remove e s = Inr s' \<and> inv s' \<and> events s' = events s - {#e#}"
begin

lemma insert_then_remove:
  assumes "inv s" and "fresh_uid (ev_uid e) (events s)"
  shows "\<exists>s' s''. Insert e s = Inr s' \<and> Remove e s' = Inr s'' \<and> inv s'' \<and> events s'' = events s"
proof -
  obtain s' where "Insert e s = Inr s'" "inv s'" "events s' = add_mset e (events s)"
    using Insert_ok [OF assms] by blast
  then show ?thesis using Remove_ok [of s' e] by auto
qed

end

end
