(* ===== verification/Ns3_Sched.thy ===== *)
theory Ns3_Sched
  imports Ns3_Sched_Contract
begin

text \<open>
  The list, map and priority-queue schedulers of ns-3 (\<open>list-scheduler.cc\<close>, \<open>map-scheduler.cc\<close>,
  \<open>priority-queue-scheduler.cc\<close>) as implementations of the contract. A \<open>std::map\<close> is the list of its
  entries in key order, a \<open>std::priority_queue\<close> the list of its entries, of which \<open>top\<close> and \<open>pop\<close>
  take a least one. \<open>NS_ASSERT\<close> is checked, as in the default build.
\<close>

section \<open>ListScheduler\<close>

fun ListScheduler_Insert_at :: "event \<Rightarrow> event list \<Rightarrow> event list" where
  "ListScheduler_Insert_at ev [] = [ev]"
| "ListScheduler_Insert_at ev (i # m_events) =
     (if key_less (ev_key ev) (ev_key i) then ev # i # m_events
      else i # ListScheduler_Insert_at ev m_events)"

definition ListScheduler_Insert :: "event \<Rightarrow> event list \<Rightarrow> event list res" where
  "ListScheduler_Insert ev m_events = Inr (ListScheduler_Insert_at ev m_events)"

definition ListScheduler_IsEmpty :: "event list \<Rightarrow> bool" where
  "ListScheduler_IsEmpty m_events = (m_events = [])"

fun ListScheduler_PeekNext :: "event list \<Rightarrow> event res" where
  "ListScheduler_PeekNext [] = Inl (Undefined ''front of an empty list'')"
| "ListScheduler_PeekNext (e # m_events) = Inr e"

fun ListScheduler_RemoveNext :: "event list \<Rightarrow> (event \<times> event list) res" where
  "ListScheduler_RemoveNext [] = Inl (Undefined ''front of an empty list'')"
| "ListScheduler_RemoveNext (e # m_events) = Inr (e, m_events)"

fun ListScheduler_Remove :: "event \<Rightarrow> event list \<Rightarrow> event list res" where
  "ListScheduler_Remove ev [] = Inl (AssertFailed ''false'')"
| "ListScheduler_Remove ev (i # m_events) =
     (if m_uid (ev_key i) = m_uid (ev_key ev) then
        (if ev_impl ev = ev_impl i then Inr m_events else Inl (AssertFailed ''ev.impl == i->impl''))
      else res_bind (ListScheduler_Remove ev m_events) (\<lambda>rest. Inr (i # rest)))"

definition list_sched_inv :: "event list \<Rightarrow> bool" where
  "list_sched_inv m_events \<longleftrightarrow> sorted_wrt event_less m_events \<and> distinct (map ev_uid m_events)"

lemma mset_ListScheduler_Insert_at [simp]:
  "mset (ListScheduler_Insert_at e es) = add_mset e (mset es)"
  by (induction e es rule: ListScheduler_Insert_at.induct) auto

lemma set_ListScheduler_Insert_at [simp]:
  "set (ListScheduler_Insert_at e es) = insert e (set es)"
  by (induction e es rule: ListScheduler_Insert_at.induct) auto

lemma sorted_ListScheduler_Insert_at:
  assumes "sorted_wrt event_less es" and "\<forall>x\<in>set es. ev_uid x \<noteq> ev_uid e"
  shows "sorted_wrt event_less (ListScheduler_Insert_at e es)"
  using assms
proof (induction e es rule: ListScheduler_Insert_at.induct)
  case (1 ev)
  then show ?case by simp
next
  case (2 ev i es)
  have "event_less i ev" if "\<not> event_less ev i"
    using event_less_linear [of i ev] 2(3) that by auto
  then show ?case using 2 event_less_trans [of ev i]
    by (auto simp flip: event_less_def)
qed

lemma list_sched_inv_Insert:
  assumes "list_sched_inv es" and "fresh_uid (ev_uid e) (mset es)"
  shows "list_sched_inv (ListScheduler_Insert_at e es)"
proof -
  have "distinct (map ev_uid (ListScheduler_Insert_at e es))"
    using assms by (simp add: list_sched_inv_def flip: uids_unique_mset)
  then show ?thesis
    using assms by (simp add: list_sched_inv_def sorted_ListScheduler_Insert_at fresh_uid_def)
qed

lemma list_sched_inv_Cons:
  "list_sched_inv (e # es) \<Longrightarrow> list_sched_inv es"
  by (simp add: list_sched_inv_def)

lemma ListScheduler_Remove_ok:
  assumes "list_sched_inv es" and "e \<in># mset es"
  shows "ListScheduler_Remove e es = Inr (remove1 e es)"
  using assms
proof (induction e es rule: ListScheduler_Remove.induct)
  case (1 ev)
  then show ?case by simp
next
  case (2 ev i es)
  then show ?case
    by (auto dest: list_sched_inv_Cons) (auto simp: list_sched_inv_def image_iff)
qed

lemma list_sched_inv_remove1:
  assumes "list_sched_inv es"
  shows "list_sched_inv (remove1 e es)"
  using assms set_remove1_subset [of e]
  by (induction es) (fastforce simp: list_sched_inv_def)+

interpretation list_sched: removable_event_queue ListScheduler_Insert ListScheduler_IsEmpty
  ListScheduler_PeekNext ListScheduler_RemoveNext list_sched_inv "mset :: event list \<Rightarrow> _"
  ListScheduler_Remove
proof unfold_locales
  fix s :: "event list" and e
  assume I: "list_sched_inv s"
  show "uids_unique (mset s)" using I by (simp add: list_sched_inv_def uids_unique_mset)
  show "ListScheduler_IsEmpty s \<longleftrightarrow> mset s = {#}" by (simp add: ListScheduler_IsEmpty_def)
  show "\<exists>s'. ListScheduler_Insert e s = Inr s' \<and> list_sched_inv s' \<and> mset s' = add_mset e (mset s)"
    if "fresh_uid (ev_uid e) (mset s)"
    using I that by (simp add: ListScheduler_Insert_def list_sched_inv_Insert)
  show "\<exists>e s'. ListScheduler_RemoveNext s = Inr (e, s') \<and> first_event (mset s) e \<and>
      list_sched_inv s' \<and> mset s' = mset s - {#e#}" if "mset s \<noteq> {#}"
    using I that by (cases s) (auto simp: list_sched_inv_def intro: first_event_Cons)
  show "\<exists>e. ListScheduler_PeekNext s = Inr e \<and> first_event (mset s) e" if "mset s \<noteq> {#}"
    using I that by (cases s) (auto simp: list_sched_inv_def intro: first_event_Cons)
  show "\<exists>s'. ListScheduler_Remove e s = Inr s' \<and> list_sched_inv s' \<and> mset s' = mset s - {#e#}"
    if "e \<in># mset s"
    using I that by (simp add: ListScheduler_Remove_ok list_sched_inv_remove1)
qed

section \<open>MapScheduler\<close>

text \<open>
  \<open>std::map<EventKey, EventImpl*>\<close>: \<open>insert\<close> keeps an entry whose key is equivalent and reports it,
  \<open>find\<close> compares with the order.
\<close>

type_synonym map_scheduler = "(event_key \<times> nat) list"

fun std_map_insert :: "event_key \<times> nat \<Rightarrow> map_scheduler \<Rightarrow> map_scheduler \<times> bool" where
  "std_map_insert kv [] = ([kv], True)"
| "std_map_insert kv (x # xs) =
     (if key_less (fst kv) (fst x) then (kv # x # xs, True)
      else if key_less (fst x) (fst kv) then
        (let (ys, inserted) = std_map_insert kv xs in (x # ys, inserted))
      else (x # xs, False))"

fun std_map_find :: "event_key \<Rightarrow> map_scheduler \<Rightarrow> nat \<Rightarrow> nat option" where
  "std_map_find k [] i = None"
| "std_map_find k (x # xs) i =
     (if \<not> key_less k (fst x) \<and> \<not> key_less (fst x) k then Some i else std_map_find k xs (Suc i))"

definition MapScheduler_Insert :: "event \<Rightarrow> map_scheduler \<Rightarrow> map_scheduler res" where
  "MapScheduler_Insert ev m_list =
     (let (m_list, inserted) = std_map_insert (ev_key ev, ev_impl ev) m_list
      in if inserted then Inr m_list else Inl (AssertFailed ''result.second''))"

definition MapScheduler_IsEmpty :: "map_scheduler \<Rightarrow> bool" where
  "MapScheduler_IsEmpty m_list = (m_list = [])"

definition MapScheduler_PeekNext :: "map_scheduler \<Rightarrow> event res" where
  "MapScheduler_PeekNext m_list =
     (case m_list of
        [] \<Rightarrow> Inl (AssertFailed ''i != m_list.end()'')
      | (k, v) # rest \<Rightarrow> Inr \<lparr>ev_impl = v, ev_key = k\<rparr>)"

definition MapScheduler_RemoveNext :: "map_scheduler \<Rightarrow> (event \<times> map_scheduler) res" where
  "MapScheduler_RemoveNext m_list =
     (case m_list of
        [] \<Rightarrow> Inl (AssertFailed ''i != m_list.end()'')
      | (k, v) # rest \<Rightarrow> Inr (\<lparr>ev_impl = v, ev_key = k\<rparr>, rest))"

definition MapScheduler_Remove :: "event \<Rightarrow> map_scheduler \<Rightarrow> map_scheduler res" where
  "MapScheduler_Remove ev m_list =
     (case std_map_find (ev_key ev) m_list 0 of
        None \<Rightarrow> Inl (Undefined ''end of the map dereferenced'')
      | Some i \<Rightarrow>
          if snd (m_list ! i) = ev_impl ev then Inr (take i m_list @ drop (Suc i) m_list)
          else Inl (AssertFailed ''i->second == ev.impl''))"

text \<open>The map scheduler holds the entries of the list scheduler, split into key and value.\<close>

definition map_events :: "map_scheduler \<Rightarrow> event list" where
  "map_events m_list = map (\<lambda>(k, v). \<lparr>ev_impl = v, ev_key = k\<rparr>) m_list"

lemma map_events_simps [simp]:
  "map_events [] = []"
  "map_events (x # xs) = \<lparr>ev_impl = snd x, ev_key = fst x\<rparr> # map_events xs"
  by (simp_all add: map_events_def split_beta)

lemma map_events_Nil_iff [simp]: "map_events m = [] \<longleftrightarrow> m = []"
  by (simp add: map_events_def)

lemma std_map_insert_refines:
  assumes "list_sched_inv (map_events m)" and "fresh_uid (ev_uid e) (mset (map_events m))"
  shows "\<exists>m'. std_map_insert (ev_key e, ev_impl e) m = (m', True) \<and>
              map_events m' = ListScheduler_Insert_at e (map_events m)"
  using assms
proof (induction m)
  case Nil
  then show ?case by simp
next
  case (Cons x m)
  then obtain m' where "std_map_insert (ev_key e, ev_impl e) m = (m', True)"
      "map_events m' = ListScheduler_Insert_at e (map_events m)"
    using list_sched_inv_Cons by auto
  moreover have "key_less (fst x) (ev_key e)" if "\<not> key_less (ev_key e) (fst x)"
    using Cons.prems(2) that by (auto simp: key_less_def)
  ultimately show ?case by simp
qed

lemma MapScheduler_Insert_refines:
  assumes "list_sched_inv (map_events m)" and "fresh_uid (ev_uid e) (mset (map_events m))"
  shows "\<exists>m'. MapScheduler_Insert e m = Inr m' \<and>
              map_events m' = ListScheduler_Insert_at e (map_events m)"
  using std_map_insert_refines [OF assms] by (auto simp: MapScheduler_Insert_def)

lemma std_map_find_Some:
  assumes "list_sched_inv (map_events m)" and "e \<in> set (map_events m)"
  shows "\<exists>i<length m. std_map_find (ev_key e) m n = Some (n + i) \<and> map_events m ! i = e"
  using assms
proof (induction m arbitrary: n)
  case Nil
  then show ?case by simp
next
  case (Cons x m)
  show ?case
  proof (cases "e = \<lparr>ev_impl = snd x, ev_key = fst x\<rparr>")
    case True
    then show ?thesis by (intro exI [of _ 0]) (auto simp: key_less_def)
  next
    case False
    then have e: "e \<in> set (map_events m)" using Cons.prems(2) by simp
    then have "key_less (fst x) (ev_key e)"
      using Cons.prems(1) by (auto simp: list_sched_inv_def event_less_def)
    moreover obtain i where "i < length m" "std_map_find (ev_key e) m (Suc n) = Some (Suc n + i)"
        "map_events m ! i = e"
      using Cons.IH [OF _ e, of "Suc n"] Cons.prems(1) list_sched_inv_Cons by auto
    ultimately show ?thesis by (intro exI [of _ "Suc i"]) auto
  qed
qed

lemma MapScheduler_Remove_refines:
  assumes I: "list_sched_inv (map_events m)" and e: "e \<in> set (map_events m)"
  shows "\<exists>m'. MapScheduler_Remove e m = Inr m' \<and> list_sched_inv (map_events m') \<and>
              mset (map_events m') = mset (map_events m) - {#e#}"
proof -
  obtain i where i: "i < length m" "std_map_find (ev_key e) m 0 = Some i" "map_events m ! i = e"
    using std_map_find_Some [OF assms, of 0] by auto
  let ?m' = "take i m @ drop (Suc i) m"
  have "ev_impl e = snd (m ! i)"
    using i(1,3) by (auto simp: map_events_def split_beta)
  then have r: "MapScheduler_Remove e m = Inr ?m'"
    using i(2) by (simp add: MapScheduler_Remove_def)
  have split: "map_events m = map_events (take i m) @ e # map_events (drop (Suc i) m)"
    using id_take_nth_drop [of i "map_events m", unfolded i(3)] i(1)
    by (simp add: map_events_def take_map drop_map)
  have app: "map_events ?m' = map_events (take i m) @ map_events (drop (Suc i) m)"
    by (simp add: map_events_def)
  have "list_sched_inv (map_events ?m')"
    using I unfolding split app by (auto simp: list_sched_inv_def sorted_wrt_append)
  moreover have "mset (map_events ?m') = mset (map_events m) - {#e#}"
    unfolding split app by simp
  ultimately show ?thesis using r by blast
qed

interpretation map_sched: removable_event_queue MapScheduler_Insert MapScheduler_IsEmpty
  MapScheduler_PeekNext MapScheduler_RemoveNext "\<lambda>m. list_sched_inv (map_events m)"
  "\<lambda>m. mset (map_events m)" MapScheduler_Remove
proof unfold_locales
  fix s :: map_scheduler and e
  assume I: "list_sched_inv (map_events s)"
  show "uids_unique (mset (map_events s))" using I by (rule list_sched.inv_uids)
  show "MapScheduler_IsEmpty s \<longleftrightarrow> mset (map_events s) = {#}" by (simp add: MapScheduler_IsEmpty_def)
  show "\<exists>s'. MapScheduler_Insert e s = Inr s' \<and> list_sched_inv (map_events s') \<and>
      mset (map_events s') = add_mset e (mset (map_events s))"
    if f: "fresh_uid (ev_uid e) (mset (map_events s))"
    using MapScheduler_Insert_refines [OF I f] list_sched_inv_Insert [OF I f] by auto
  show "\<exists>e s'. MapScheduler_RemoveNext s = Inr (e, s') \<and> first_event (mset (map_events s)) e \<and>
      list_sched_inv (map_events s') \<and> mset (map_events s') = mset (map_events s) - {#e#}"
    if "mset (map_events s) \<noteq> {#}"
    using I that
    by (cases s) (auto simp: MapScheduler_RemoveNext_def list_sched_inv_def intro: first_event_Cons)
  show "\<exists>e. MapScheduler_PeekNext s = Inr e \<and> first_event (mset (map_events s)) e"
    if "mset (map_events s) \<noteq> {#}"
    using I that
    by (cases s) (auto simp: MapScheduler_PeekNext_def list_sched_inv_def intro: first_event_Cons)
  show "\<exists>s'. MapScheduler_Remove e s = Inr s' \<and> list_sched_inv (map_events s') \<and>
      mset (map_events s') = mset (map_events s) - {#e#}" if "e \<in># mset (map_events s)"
    using MapScheduler_Remove_refines [OF I, of e] that by simp
qed

section \<open>PriorityQueueScheduler\<close>

text \<open>
  \<open>EventPriorityQueue\<close> orders with \<open>std::greater\<close>, so \<open>top\<close> is a least element; its \<open>remove\<close> looks
  the event up in the container by \<open>operator==\<close>, that is by \<open>uid\<close>.
\<close>

fun std_pq_top :: "event \<Rightarrow> event list \<Rightarrow> event" where
  "std_pq_top best [] = best"
| "std_pq_top best (e # c) = std_pq_top (if event_less e best then e else best) c"

definition PriorityQueueScheduler_Insert :: "event \<Rightarrow> event list \<Rightarrow> event list res" where
  "PriorityQueueScheduler_Insert ev m_queue = Inr (m_queue @ [ev])"

definition PriorityQueueScheduler_IsEmpty :: "event list \<Rightarrow> bool" where
  "PriorityQueueScheduler_IsEmpty m_queue = (m_queue = [])"

definition PriorityQueueScheduler_PeekNext :: "event list \<Rightarrow> event res" where
  "PriorityQueueScheduler_PeekNext m_queue =
     (case m_queue of [] \<Rightarrow> Inl (Undefined ''top of an empty queue'') | e # c \<Rightarrow> Inr (std_pq_top e c))"

definition PriorityQueueScheduler_RemoveNext :: "event list \<Rightarrow> (event \<times> event list) res" where
  "PriorityQueueScheduler_RemoveNext m_queue =
     res_bind (PriorityQueueScheduler_PeekNext m_queue) (\<lambda>ev. Inr (ev, remove1 ev m_queue))"

fun EventPriorityQueue_remove :: "event \<Rightarrow> event list \<Rightarrow> bool \<times> event list" where
  "EventPriorityQueue_remove ev [] = (False, [])"
| "EventPriorityQueue_remove ev (e # c) =
     (if event_equal e ev then (True, c)
      else (let (found, c') = EventPriorityQueue_remove ev c in (found, e # c')))"

definition PriorityQueueScheduler_Remove :: "event \<Rightarrow> event list \<Rightarrow> event list res" where
  "PriorityQueueScheduler_Remove ev m_queue = Inr (snd (EventPriorityQueue_remove ev m_queue))"

lemma std_pq_top_first: "first_event (mset (e # c)) (std_pq_top e c)"
proof (induction e c rule: std_pq_top.induct)
  case (1 best)
  then show ?case by (simp add: first_event_def)
next
  case (2 best e c)
  then show ?case
    by (auto simp: first_event_def split: if_splits
        dest: event_less_trans event_not_less_trans event_less_asym)
qed

lemma EventPriorityQueue_remove_eq:
  assumes "uids_unique (mset c)" and "e \<in> set c"
  shows "EventPriorityQueue_remove e c = (True, remove1 e c)"
  using assms
  by (induction e c rule: EventPriorityQueue_remove.induct)
    (auto simp: event_equal_def key_equal_def fresh_uid_def)

interpretation pq_sched: removable_event_queue PriorityQueueScheduler_Insert
  PriorityQueueScheduler_IsEmpty PriorityQueueScheduler_PeekNext PriorityQueueScheduler_RemoveNext
  "\<lambda>c. uids_unique (mset c)" "mset :: event list \<Rightarrow> _" PriorityQueueScheduler_Remove
proof unfold_locales
  fix s :: "event list" and e
  assume U: "uids_unique (mset s)"
  show "uids_unique (mset s)" by (rule U)
  show "PriorityQueueScheduler_IsEmpty s \<longleftrightarrow> mset s = {#}"
    by (simp add: PriorityQueueScheduler_IsEmpty_def)
  show "\<exists>s'. PriorityQueueScheduler_Insert e s = Inr s' \<and> uids_unique (mset s') \<and>
      mset s' = add_mset e (mset s)" if "fresh_uid (ev_uid e) (mset s)"
    using U that by (simp add: PriorityQueueScheduler_Insert_def)
  show "\<exists>e. PriorityQueueScheduler_PeekNext s = Inr e \<and> first_event (mset s) e" if "mset s \<noteq> {#}"
    using that std_pq_top_first by (cases s) (auto simp: PriorityQueueScheduler_PeekNext_def)
  then show "\<exists>e s'. PriorityQueueScheduler_RemoveNext s = Inr (e, s') \<and> first_event (mset s) e \<and>
      uids_unique (mset s') \<and> mset s' = mset s - {#e#}" if "mset s \<noteq> {#}"
    using that U uids_unique_remove by (auto simp: PriorityQueueScheduler_RemoveNext_def)
  show "\<exists>s'. PriorityQueueScheduler_Remove e s = Inr s' \<and> uids_unique (mset s') \<and>
      mset s' = mset s - {#e#}" if "e \<in># mset s"
    using that U uids_unique_remove
    by (simp add: PriorityQueueScheduler_Remove_def EventPriorityQueue_remove_eq)
qed

end
