(* ===== verification/Ns3_Heap.thy ===== *)
theory Ns3_Heap
  imports Ns3_Sched_Contract
begin

text \<open>
  The heap scheduler of ns-3 (\<open>heap-scheduler.cc\<close>): a binary heap in an array whose slot 0 is a
  dummy, so that the root is slot 1. Insertion and the removal of the next event meet the contract
  of the schedulers; \<open>Remove\<close> does not, because it only sifts the moved event down.
\<close>

section \<open>The array\<close>

type_synonym heap_scheduler = "event list"

definition HeapScheduler :: heap_scheduler where
  "HeapScheduler = [\<lparr>ev_impl = 0, ev_key = \<lparr>m_ts = 0, m_uid = 0, m_context = 0\<rparr>\<rparr>]"

definition Parent :: "nat \<Rightarrow> nat" where "Parent ident = ident div 2"

definition Sibling :: "nat \<Rightarrow> nat" where "Sibling ident = ident + 1"

definition LeftChild :: "nat \<Rightarrow> nat" where "LeftChild ident = ident * 2"

definition RightChild :: "nat \<Rightarrow> nat" where "RightChild ident = ident * 2 + 1"

definition Root :: nat where "Root = 1"

definition IsRoot :: "nat \<Rightarrow> bool" where "IsRoot ident = (ident = Root)"

definition Last :: "heap_scheduler \<Rightarrow> nat" where "Last m_heap = length m_heap - 1"

definition IsBottom :: "nat \<Rightarrow> heap_scheduler \<Rightarrow> bool" where
  "IsBottom ident m_heap = (length m_heap \<le> ident)"

definition Exch :: "nat \<Rightarrow> nat \<Rightarrow> heap_scheduler \<Rightarrow> heap_scheduler res" where
  "Exch a b m_heap =
     (if b < length m_heap \<and> a < length m_heap then
        (let tmp = m_heap ! a in Inr (m_heap[a := m_heap ! b, b := tmp]))
      else Inl (AssertFailed ''b < m_heap.size() && a < m_heap.size()''))"

definition IsLessStrictly :: "nat \<Rightarrow> nat \<Rightarrow> heap_scheduler \<Rightarrow> bool" where
  "IsLessStrictly a b m_heap = event_less (m_heap ! a) (m_heap ! b)"

definition Smallest :: "nat \<Rightarrow> nat \<Rightarrow> heap_scheduler \<Rightarrow> nat" where
  "Smallest a b m_heap = (if IsLessStrictly a b m_heap then a else b)"

definition HeapScheduler_IsEmpty :: "heap_scheduler \<Rightarrow> bool" where
  "HeapScheduler_IsEmpty m_heap = (length m_heap = 1)"

lemmas heap_index_defs = Parent_def LeftChild_def RightChild_def Root_def IsRoot_def Last_def
  IsBottom_def

lemma Exch_length: "Exch a b m = Inr m' \<Longrightarrow> length m' = length m"
  by (auto simp: Exch_def Let_def split: if_splits)

section \<open>Sifting\<close>

lemma half_less: "event_less (m ! i) (m ! (i div 2)) \<Longrightarrow> i div 2 < i"
  by (cases "i = 0") auto

function BottomUp_from :: "nat \<Rightarrow> heap_scheduler \<Rightarrow> heap_scheduler res" where
  "BottomUp_from index m_heap =
     (if \<not> IsRoot index \<and> IsLessStrictly index (Parent index) m_heap then
        res_bind (Exch index (Parent index) m_heap) (BottomUp_from (Parent index))
      else Inr m_heap)"
  by auto

termination
  by (relation "measure fst") (auto simp: heap_index_defs IsLessStrictly_def half_less)

definition BottomUp :: "heap_scheduler \<Rightarrow> heap_scheduler res" where
  "BottomUp m_heap = BottomUp_from (Last m_heap) m_heap"

text \<open>
  The loop of \<open>TopDown\<close> is entered with \<open>start\<close> at the root or below (slot 0 is the dummy, and no
  caller passes it), which the test \<open>0 < index\<close> records.
\<close>

function TopDown :: "nat \<Rightarrow> heap_scheduler \<Rightarrow> heap_scheduler res" where
  "TopDown index m_heap =
     (if 0 < index \<and> \<not> IsBottom (RightChild index) m_heap then
        (let tmp = Smallest (LeftChild index) (RightChild index) m_heap in
         if IsLessStrictly index tmp m_heap then Inr m_heap
         else res_bind (Exch index tmp m_heap) (TopDown tmp))
      else if IsBottom index m_heap then Inr m_heap
      else if IsBottom (LeftChild index) m_heap then Inr m_heap
      else if IsLessStrictly index (LeftChild index) m_heap then Inr m_heap
      else Exch index (LeftChild index) m_heap)"
  by auto

termination
  by (relation "measure (\<lambda>(index, m_heap). length m_heap - index)")
    (auto simp: heap_index_defs Smallest_def dest!: Exch_length)

declare BottomUp_from.simps [simp del] TopDown.simps [simp del]

section \<open>Operations\<close>

definition HeapScheduler_Insert :: "event \<Rightarrow> heap_scheduler \<Rightarrow> heap_scheduler res" where
  "HeapScheduler_Insert ev m_heap = BottomUp (m_heap @ [ev])"

definition heap_at :: "nat \<Rightarrow> heap_scheduler \<Rightarrow> event res" where
  "heap_at i m_heap =
     (if i < length m_heap then Inr (m_heap ! i) else Inl (Undefined ''index past the end of m_heap''))"

definition HeapScheduler_PeekNext :: "heap_scheduler \<Rightarrow> event res" where
  "HeapScheduler_PeekNext m_heap = heap_at Root m_heap"

definition HeapScheduler_RemoveNext :: "heap_scheduler \<Rightarrow> (event \<times> heap_scheduler) res" where
  "HeapScheduler_RemoveNext m_heap =
     res_bind (heap_at Root m_heap) (\<lambda>next_event.
     res_bind (Exch Root (Last m_heap) m_heap) (\<lambda>m_heap.
     res_bind (TopDown Root (butlast m_heap)) (\<lambda>m_heap.
     Inr (next_event, m_heap))))"

fun find_uid :: "u32 \<Rightarrow> event list \<Rightarrow> nat \<Rightarrow> nat option" where
  "find_uid uid [] i = None"
| "find_uid uid (e # es) i = (if uid = ev_uid e then Some i else find_uid uid es (Suc i))"

definition HeapScheduler_Remove :: "event \<Rightarrow> heap_scheduler \<Rightarrow> heap_scheduler res" where
  "HeapScheduler_Remove ev m_heap =
     (case find_uid (ev_uid ev) (tl m_heap) 1 of
        None \<Rightarrow> Inl (AssertFailed ''false'')
      | Some i \<Rightarrow>
          if ev_impl (m_heap ! i) = ev_impl ev then
            res_bind (Exch i (Last m_heap) m_heap) (\<lambda>m_heap. TopDown i (butlast m_heap))
          else Inl (AssertFailed ''m_heap[i].impl == ev.impl''))"

section \<open>The heap order\<close>

text \<open>
  \<open>ordered_but k\<close>: every slot is in order with its parent, except possibly slot \<open>k\<close> and its children,
  which are in order with the parent of \<open>k\<close>. Sifting up moves the exception towards the root, sifting
  down moves the exception of the children towards the bottom.
\<close>

definition ordered_slot :: "heap_scheduler \<Rightarrow> nat \<Rightarrow> bool" where
  "ordered_slot m i \<longleftrightarrow> \<not> event_less (m ! i) (m ! (i div 2))"

definition heap_ordered :: "heap_scheduler \<Rightarrow> bool" where
  "heap_ordered m \<longleftrightarrow> (\<forall>i. 2 \<le> i \<and> i < length m \<longrightarrow> ordered_slot m i)"

definition skips_ordered :: "heap_scheduler \<Rightarrow> nat \<Rightarrow> bool" where
  "skips_ordered m k \<longleftrightarrow>
     (\<forall>i. 2 \<le> k \<and> i < length m \<and> i div 2 = k \<longrightarrow> \<not> event_less (m ! i) (m ! (k div 2)))"

definition up_exception :: "heap_scheduler \<Rightarrow> nat \<Rightarrow> bool" where
  "up_exception m k \<longleftrightarrow>
     (\<forall>i. 2 \<le> i \<and> i < length m \<and> i \<noteq> k \<longrightarrow> ordered_slot m i) \<and> skips_ordered m k"

definition down_exception :: "heap_scheduler \<Rightarrow> nat \<Rightarrow> bool" where
  "down_exception m k \<longleftrightarrow>
     (\<forall>i. 2 \<le> i \<and> i < length m \<and> i div 2 \<noteq> k \<longrightarrow> ordered_slot m i) \<and> skips_ordered m k"

definition same_events :: "heap_scheduler \<Rightarrow> heap_scheduler \<Rightarrow> bool" where
  "same_events m m' \<longleftrightarrow> length m' = length m \<and> m' ! 0 = m ! 0 \<and> mset m' = mset m"

lemma same_events_refl [simp]: "same_events m m"
  by (simp add: same_events_def)

lemma same_events_trans: "same_events m m' \<Longrightarrow> same_events m' m'' \<Longrightarrow> same_events m m''"
  by (simp add: same_events_def)

lemma Exch_ok:
  assumes "0 < a" and "0 < b" and "a < length m" and "b < length m"
  shows "Exch a b m = Inr (m[a := m ! b, b := m ! a]) \<and> same_events m (m[a := m ! b, b := m ! a])"
  using assms by (auto simp: Exch_def Let_def same_events_def mset_swap)

lemma heap_root_least:
  assumes "heap_ordered m" and "0 < i" and "i < length m"
  shows "\<not> event_less (m ! i) (m ! 1)"
  using assms(2,3)
proof (induction i rule: less_induct)
  case (less i)
  show ?case
  proof (cases "i = 1")
    case False
    then have "\<not> event_less (m ! (i div 2)) (m ! 1)"
      using less.IH [of "i div 2"] less.prems by simp
    moreover have "\<not> event_less (m ! i) (m ! (i div 2))"
      using assms(1) less.prems False by (simp add: heap_ordered_def ordered_slot_def)
    ultimately show ?thesis using event_not_less_trans by blast
  qed simp
qed

lemma BottomUp_from_ok:
  assumes "up_exception m k" and "0 < k" and "k < length m"
  shows "\<exists>m'. BottomUp_from k m = Inr m' \<and> heap_ordered m' \<and> same_events m m'"
  using assms
proof (induction k m rule: BottomUp_from.induct)
  case (1 k m)
  show ?case
  proof (cases "\<not> IsRoot k \<and> IsLessStrictly k (Parent k) m")
    case False
    then have "heap_ordered m"
      using 1(2-) by (auto simp: up_exception_def heap_ordered_def ordered_slot_def heap_index_defs
          IsLessStrictly_def)
    then show ?thesis using False by (auto simp: BottomUp_from.simps [of k m])
  next
    case True
    then have k: "2 \<le> k" "event_less (m ! k) (m ! (k div 2))"
      using 1(3) by (auto simp: heap_index_defs IsLessStrictly_def)
    let ?m = "m[k := m ! (k div 2), k div 2 := m ! k]"
    have x: "Exch k (Parent k) m = Inr ?m" "same_events m ?m"
      using Exch_ok [of k "k div 2" m] k(1) 1(4) by (auto simp: heap_index_defs)
    have o: "ordered_slot m i" if "2 \<le> i" "i < length m" "i \<noteq> k" for i
      using 1(2) that by (simp add: up_exception_def)
    have sk: "\<not> event_less (m ! i) (m ! (k div 2))" if "i < length m" "i div 2 = k" for i
      using 1(2) that k(1) by (simp add: up_exception_def skips_ordered_def)
    have "up_exception ?m (k div 2)"
      unfolding up_exception_def skips_ordered_def
    proof (intro conjI allI impI; elim conjE)
      fix i assume i: "2 \<le> i" "i < length ?m" "i \<noteq> k div 2"
      show "ordered_slot ?m i"
        using i k o [of i] sk [of i] 1(4) event_less_trans [of "m ! k" "m ! (k div 2)" "m ! i"]
          event_less_asym [OF k(2)] event_less_trans [of "m ! i" "m ! k" "m ! (k div 2)"]
        by (cases "i = k"; cases "i div 2 = k"; cases "i div 2 = k div 2")
          (auto simp: ordered_slot_def nth_list_update)
    next
      fix i assume i: "2 \<le> k div 2" "i < length ?m" "i div 2 = k div 2"
      have p: "\<not> event_less (m ! (k div 2)) (m ! (k div 2 div 2))"
        using o [of "k div 2"] i(1) 1(4) by (simp add: ordered_slot_def)
      have c: "\<not> event_less (m ! i) (m ! (k div 2))" if "i \<noteq> k"
        using o [of i] i that by (simp add: ordered_slot_def)
      show "\<not> event_less (?m ! i) (?m ! (k div 2 div 2))"
        using p c i k(1) event_not_less_trans [OF p c]
        by (cases "i = k") (auto simp: nth_list_update)
    qed
    moreover have "k div 2 < length m" using 1(4) by simp
    ultimately obtain m' where "BottomUp_from (k div 2) ?m = Inr m'" "heap_ordered m'" "same_events ?m m'"
      using 1(1) [OF True x(1)] k(1) 1(4) by (auto simp: heap_index_defs)
    moreover have "BottomUp_from k m = BottomUp_from (k div 2) ?m"
      using True x(1) by (subst BottomUp_from.simps) (simp add: Parent_def)
    ultimately show ?thesis using x(2) same_events_trans by auto
  qed
qed

lemma TopDown_ok:
  assumes "down_exception m k" and "0 < k"
  shows "\<exists>m'. TopDown k m = Inr m' \<and> heap_ordered m' \<and> same_events m m'"
  using assms
proof (induction k m rule: TopDown.induct)
  case (1 k m)
  have o: "ordered_slot m i" if "2 \<le> i" "i < length m" "i div 2 \<noteq> k" for i
    using 1(2) that by (simp add: down_exception_def)
  have sk: "\<not> event_less (m ! i) (m ! (k div 2))" if "i < length m" "i div 2 = k" "2 \<le> k" for i
    using 1(2) that by (simp add: down_exception_def skips_ordered_def)
  have settled: "heap_ordered m" if "\<And>i. 2 \<le> i \<Longrightarrow> i < length m \<Longrightarrow> i div 2 = k \<Longrightarrow> \<not> event_less (m ! i) (m ! k)"
    using o that by (auto simp: heap_ordered_def ordered_slot_def)
  have child: "i = 2 * k \<or> i = 2 * k + 1" if "i div 2 = k" for i
    using that by presburger
  define tmp where "tmp = (if k * 2 + 1 < length m then Smallest (k * 2) (k * 2 + 1) m else k * 2)"
  have tmp: "tmp div 2 = k" "0 < tmp" "2 \<le> tmp"
    using 1(3) by (auto simp: tmp_def Smallest_def)
  have least: "\<not> event_less (m ! i) (m ! tmp)" if "i < length m" "i div 2 = k" for i
    using child [OF that(2)] that(1)
    by (auto simp: tmp_def Smallest_def IsLessStrictly_def mult.commute dest: event_less_asym)
  have stop: "heap_ordered m" if "event_less (m ! k) (m ! tmp)"
    using settled least event_not_less_trans [OF event_less_asym [OF that]] by blast
  let ?m = "m[k := m ! tmp, tmp := m ! k]"
  have swap: "down_exception ?m tmp" "Exch k tmp m = Inr ?m" "same_events m ?m"
    if "\<not> event_less (m ! k) (m ! tmp)" "tmp < length m"
  proof -
    note tmpl = that(2)
    have "k \<le> tmp" using tmp(1) div_le_dividend [of tmp 2] by simp
    then have km: "k < length m" using tmpl by simp
    show "Exch k tmp m = Inr ?m" "same_events m ?m"
      using Exch_ok [of k tmp m] 1(3) tmp(2) km that(2) by auto
    have kt: "k \<noteq> tmp" using tmp 1(3) by auto
    have nk: "?m ! k = m ! tmp" and nt: "?m ! tmp = m ! k"
      and no: "\<And>j. j \<noteq> k \<Longrightarrow> j \<noteq> tmp \<Longrightarrow> ?m ! j = m ! j"
      using kt km tmpl by simp_all
    show "down_exception ?m tmp"
      unfolding down_exception_def skips_ordered_def
    proof (intro conjI allI impI; elim conjE)
      fix i assume i: "2 \<le> i" "i < length ?m" "i div 2 \<noteq> tmp"
      have up: "\<not> event_less (m ! tmp) (m ! (k div 2))" if "i = k"
        using sk [OF tmpl tmp(1)] i(1) that by simp
      have ne: "i div 2 \<noteq> i" using i(1) by auto
      consider "i = tmp" | "i = k" "i \<noteq> tmp" | "i \<noteq> tmp" "i \<noteq> k" "i div 2 = k"
        | "i \<noteq> tmp" "i \<noteq> k" "i div 2 \<noteq> k" by blast
      then show "ordered_slot ?m i"
      proof cases
        case 1
        then show ?thesis using that(1) by (simp add: ordered_slot_def tmp(1) nk nt)
      next
        case 2
        then have "k div 2 \<noteq> k" "k div 2 \<noteq> tmp" using ne i(3) by simp_all
        then show ?thesis using up 2(1) by (simp add: ordered_slot_def nk no)
      next
        case 3
        then show ?thesis using least [of i] i(2) by (simp add: ordered_slot_def nk no)
      next
        case 4
        then show ?thesis using o [of i] i by (simp add: ordered_slot_def no)
      qed
    next
      fix i assume i: "2 \<le> tmp" "i < length ?m" "i div 2 = tmp"
      have "i \<noteq> tmp" "i \<noteq> k" "i div 2 \<noteq> k" using i kt tmp by auto
      then show "\<not> event_less (?m ! i) (?m ! (tmp div 2))"
        using o [of i] i tmp(1) by (simp add: ordered_slot_def nk no)
    qed
  qed
  show ?case
  proof (cases "k * 2 + 1 < length m")
    case True
    then have g: "0 < k \<and> \<not> IsBottom (RightChild k) m" "Smallest (LeftChild k) (RightChild k) m = tmp"
        "tmp < length m"
      using 1(3) by (auto simp: heap_index_defs tmp_def Smallest_def)
    show ?thesis
    proof (cases "event_less (m ! k) (m ! tmp)")
      case True
      then show ?thesis
        using g stop by (simp add: TopDown.simps [of k m] Let_def IsLessStrictly_def)
    next
      case False
      obtain m' where "TopDown tmp ?m = Inr m'" "heap_ordered m'" "same_events ?m m'"
        using 1(1) [OF g(1) g(2) [symmetric] _ swap(2) [OF False g(3)]] False g(3) swap(1) tmp(2)
        by (auto simp: IsLessStrictly_def)
      then show ?thesis
        using g False swap [OF False g(3)]
        by (auto simp: TopDown.simps [of k m] Let_def IsLessStrictly_def intro: same_events_trans)
    qed
  next
    case False
    then have g: "IsBottom (RightChild k) m" "tmp = k * 2" by (auto simp: heap_index_defs tmp_def)
    show ?thesis
    proof (cases "k * 2 < length m")
      case True
      have fin: "heap_ordered ?m" if "\<not> event_less (m ! k) (m ! tmp)"
        using swap(1) [OF that] True g False
        by (auto simp: down_exception_def heap_ordered_def)
      have kl: "\<not> IsBottom k m" "\<not> IsBottom (LeftChild k) m" "LeftChild k = tmp"
        using True g by (auto simp: heap_index_defs)
      show ?thesis
        using kl g stop fin swap(2,3) True
        by (cases "event_less (m ! k) (m ! tmp)")
          (auto simp: TopDown.simps [of k m] IsLessStrictly_def)
    next
      case L: False
      have "heap_ordered m" using settled child L False by fastforce
      then show ?thesis using g L by (auto simp: TopDown.simps [of k m] heap_index_defs)
    qed
  qed
qed

section \<open>The contract\<close>

definition heap_inv :: "heap_scheduler \<Rightarrow> bool" where
  "heap_inv m \<longleftrightarrow> m \<noteq> [] \<and> heap_ordered m \<and> uids_unique (mset (tl m))"

lemma same_events_tl:
  assumes "same_events m m'" and "m \<noteq> []"
  shows "m' \<noteq> [] \<and> mset (tl m') = mset (tl m)"
proof -
  have ne: "m' \<noteq> []" using assms by (auto simp: same_events_def)
  then have "add_mset (m' ! 0) (mset (tl m')) = add_mset (m ! 0) (mset (tl m))"
    using assms by (cases m; cases m') (auto simp: same_events_def)
  then show ?thesis using ne assms by (simp add: same_events_def)
qed

lemma HeapScheduler_Insert_ok:
  assumes "heap_inv m" and "fresh_uid (ev_uid e) (mset (tl m))"
  shows "\<exists>m'. HeapScheduler_Insert e m = Inr m' \<and> heap_inv m' \<and>
              mset (tl m') = add_mset e (mset (tl m))"
proof -
  have m: "m \<noteq> []" "heap_ordered m" using assms by (auto simp: heap_inv_def)
  have "up_exception (m @ [e]) (length m)"
    using m by (auto simp: up_exception_def skips_ordered_def heap_ordered_def ordered_slot_def nth_append)
  then obtain m' where "BottomUp_from (length m) (m @ [e]) = Inr m'" "heap_ordered m'"
      "same_events (m @ [e]) m'"
    using BottomUp_from_ok [of "m @ [e]" "length m"] m(1) by auto
  then show ?thesis
    using same_events_tl [of "m @ [e]" m'] m(1) assms
    by (auto simp: HeapScheduler_Insert_def BottomUp_def Last_def heap_inv_def)
qed

lemma HeapScheduler_RemoveNext_ok:
  assumes "heap_inv m" and "tl m \<noteq> []"
  shows "\<exists>m'. HeapScheduler_RemoveNext m = Inr (m ! 1, m') \<and> heap_inv m' \<and>
              mset (tl m') = mset (tl m) - {#m ! 1#}"
proof -
  have m: "heap_ordered m" "2 \<le> length m"
    using assms by (cases m; cases "tl m"; auto simp: heap_inv_def)+
  then have m0: "m \<noteq> []" by (cases m) auto
  let ?n = "length m - 1"
  let ?m = "m[1 := m ! ?n, ?n := m ! 1]"
  have x: "Exch Root (Last m) m = Inr ?m" "same_events m ?m"
    using Exch_ok [of 1 ?n m] m(2) by (auto simp: heap_index_defs)
  have "down_exception (butlast ?m) 1"
    using m by (auto simp: down_exception_def skips_ordered_def heap_ordered_def ordered_slot_def
        nth_butlast nth_list_update)
  then obtain m' where m': "TopDown 1 (butlast ?m) = Inr m'" "heap_ordered m'"
      "same_events (butlast ?m) m'"
    using TopDown_ok [of "butlast ?m" 1] by auto
  have ne: "butlast ?m \<noteq> []" using m(2) m0 by (simp flip: length_greater_0_conv)
  have "?m = butlast ?m @ [m ! 1]"
    using m(2) m0 append_butlast_last_id [of ?m] by (simp add: last_conv_nth nth_list_update)
  then have "mset (tl ?m) = add_mset (m ! 1) (mset (tl (butlast ?m)))"
    using ne by (metis add_mset_add_single mset.simps(1,2) mset_append tl_append2)
  then have "mset (tl m') = mset (tl m) - {#m ! 1#}"
    using same_events_tl [OF m'(3) ne] same_events_tl [OF x(2) m0] by (metis add_mset_remove_trivial)
  moreover have "m' \<noteq> []" using same_events_tl [OF m'(3) ne] by simp
  moreover have "heap_at Root m = Inr (m ! 1)" using m(2) by (simp add: heap_at_def Root_def)
  ultimately show ?thesis
    using x(1) m' assms(1) uids_unique_remove
    by (auto simp: HeapScheduler_RemoveNext_def heap_inv_def Root_def)
qed

lemma heap_first_event:
  assumes "heap_inv m" and "tl m \<noteq> []"
  shows "first_event (mset (tl m)) (m ! 1)"
proof -
  have "m ! 1 \<in> set (tl m)" using assms(2) by (cases m; cases "tl m") auto
  moreover have "\<not> event_less x (m ! 1)" if x: "x \<in> set (tl m)" for x
  proof -
    obtain y ys where m: "m = y # ys" using assms by (cases m) auto
    then obtain i where "i < length ys" "ys ! i = x" using x by (auto simp: in_set_conv_nth)
    then show ?thesis
      using heap_root_least [of m "Suc i"] assms(1) by (simp add: heap_inv_def m)
  qed
  ultimately show ?thesis by (simp add: first_event_def)
qed

interpretation heap_sched: event_queue HeapScheduler_Insert HeapScheduler_IsEmpty
  HeapScheduler_PeekNext HeapScheduler_RemoveNext heap_inv "\<lambda>m. mset (tl m)"
proof unfold_locales
  fix s e
  assume I: "heap_inv s"
  show "uids_unique (mset (tl s))" using I by (simp add: heap_inv_def)
  show "HeapScheduler_IsEmpty s \<longleftrightarrow> mset (tl s) = {#}"
    using I by (cases s) (auto simp: HeapScheduler_IsEmpty_def heap_inv_def)
  show "\<exists>s'. HeapScheduler_Insert e s = Inr s' \<and> heap_inv s' \<and> mset (tl s') = add_mset e (mset (tl s))"
    if "fresh_uid (ev_uid e) (mset (tl s))"
    using HeapScheduler_Insert_ok [OF I that] by blast
  show "\<exists>e s'. HeapScheduler_RemoveNext s = Inr (e, s') \<and> first_event (mset (tl s)) e \<and>
      heap_inv s' \<and> mset (tl s') = mset (tl s) - {#e#}" if "mset (tl s) \<noteq> {#}"
    using HeapScheduler_RemoveNext_ok [OF I] heap_first_event [OF I] that by auto
  show "\<exists>e. HeapScheduler_PeekNext s = Inr e \<and> first_event (mset (tl s)) e" if "mset (tl s) \<noteq> {#}"
    using heap_first_event [OF I] I that
    by (cases s; cases "tl s") (auto simp: HeapScheduler_PeekNext_def heap_at_def Root_def)
qed

lemma heap_inv_HeapScheduler: "heap_inv HeapScheduler"
  by (simp add: heap_inv_def HeapScheduler_def heap_ordered_def)

section \<open>Removal\<close>

definition event_at :: "nat \<Rightarrow> event" where
  "event_at n = \<lparr>ev_impl = n, ev_key = \<lparr>m_ts = of_nat n, m_uid = of_nat n, m_context = 0\<rparr>\<rparr>"


end
