(* ===== verification/Int64x64.thy ===== *)
theory Int64x64
  imports Run_Data
begin

unbundle bit_operations_syntax

text \<open>
  ns-3's \<open>int64x64_t\<close> in its native 128-bit implementation (\<open>int64x64-128.h\<close>, \<open>int64x64-128.cc\<close>): Q64.64
  fixed point, a signed 128-bit word read in units of \<open>2^-64\<close>. \<open>NS_ASSERT\<close> is modelled as it acts
  in a build that enables it.
\<close>

type_synonym u128 = "128 word"
type_synonym int64x64 = u128

section \<open>Operations\<close>

definition HP128_MASK_HI_BIT :: u128 where
  "HP128_MASK_HI_BIT = push_bit 127 1"

definition HP_MASK_LO :: u128 where
  "HP_MASK_LO = 0xffffffffffffffff"

definition output_sign :: "u128 \<Rightarrow> u128 \<Rightarrow> bool \<times> u128 \<times> u128" where
  "output_sign sa sb =
     (let negA = (sint sa < 0); negB = (sint sb < 0);
          ua = (if negA then - sa else sa); ub = (if negB then - sb else sb)
      in (negA \<noteq> negB, ua, ub))"

definition Umul :: "u128 \<Rightarrow> u128 \<Rightarrow> u128 res" where
  "Umul a b =
     (let al = a AND HP_MASK_LO; bl = b AND HP_MASK_LO;
          ah = drop_bit 64 a; bh = drop_bit 64 b;
          res = drop_bit 64 (al * bl);
          mid = ah * bl + al * bh;
          res = res + mid;
          high = ah * bh
      in if \<not> high \<le> push_bit 63 1 then Inl (AssertFailed ''overflow detected'')
         else
           let high = push_bit 64 high
           in if \<not> res + high \<ge> res then Inl (AssertFailed ''overflow detected'')
              else Inr (res + high))"

definition int64x64_Mul :: "int64x64 \<Rightarrow> int64x64 \<Rightarrow> int64x64 res" where
  "int64x64_Mul v o' =
     (case output_sign v o' of (negative, a, b) \<Rightarrow>
        res_bind (Umul a b) (\<lambda>result.
        if negative then
          (if result \<le> HP128_MASK_HI_BIT then Inr (- result) else Inl (AssertFailed ''overflow detected''))
        else
          (if result < HP128_MASK_HI_BIT then Inr result else Inl (AssertFailed ''overflow detected''))))"

definition UmulByInvert :: "u128 \<Rightarrow> u128 \<Rightarrow> u128 res" where
  "UmulByInvert a b =
     (if \<not> b \<le> HP128_MASK_HI_BIT then Inl (AssertFailed ''b <= HP128_MASK_HI_BIT'')
      else
        let al = a AND HP_MASK_LO; bl = b AND HP_MASK_LO;
            ah = drop_bit 64 a; bh = drop_bit 64 b;
            high = ah * bh;
            mid = drop_bit 64 (ah * bl + al * bh)
        in Inr (high + mid))"

definition MulByInvert :: "int64x64 \<Rightarrow> int64x64 \<Rightarrow> int64x64 res" where
  "MulByInvert v o' =
     (let negResult = (sint v < 0);
          a = (if negResult then - v else v)
      in res_bind (UmulByInvert a o') (\<lambda>result. Inr (if negResult then - result else result)))"

definition int64x64_of_int :: "int \<Rightarrow> int64x64" where
  "int64x64_of_int v = push_bit 64 (of_int v)"

text \<open>
  From a \<open>double\<close>, through a \<open>long double\<close> that holds all intermediate values exactly (the 80-bit
  format of the platform). The conversion of an integral part that does not fit is undefined.
\<close>

definition int64x64_of_double :: "dbl \<Rightarrow> int64x64 res" where
  "int64x64_of_double value =
     (case value of
        Fin x \<Rightarrow>
          (let negative = (x < 0);
               v = \<bar>x\<bar>;
               fhi = \<lfloor>v\<rfloor>;
               flo = v - of_int fhi;
               flo = flo * 2 ^ 64 + 1 / 2
           in if 2 ^ 127 \<le> fhi then Inl (Undefined ''double to int128_t'')
              else
                let hi = of_int fhi :: u128;
                    lo = of_int (\<lfloor>flo\<rfloor> mod 2 ^ 64) :: u128;
                    hi = (if 2 ^ 64 \<le> flo then hi + 1 else hi);
                    w = push_bit 64 hi OR lo
                in Inr (if negative then - w else w))
      | _ \<Rightarrow> Inl (Undefined ''double to int128_t''))"

definition GetHigh :: "int64x64 \<Rightarrow> u64" where
  "GetHigh v = ucast (signed_drop_bit 64 v)"

definition GetLow :: "int64x64 \<Rightarrow> u64" where
  "GetLow v = ucast (v AND HP_MASK_LO)"

definition GetInt :: "int64x64 \<Rightarrow> u64" where
  "GetInt v =
     (let negative = (sint v < 0);
          value = (if negative then - v else v);
          retval = ucast (drop_bit 64 value) :: u64
      in if negative then - retval else retval)"

definition int64x64_Round :: "int64x64 \<Rightarrow> u64" where
  "int64x64_Round v =
     (let negative = (sint v < 0);
          value = (if negative then - v else v);
          half = push_bit 63 1 :: u128;
          value = value + half;
          retval = GetHigh value
      in if negative then - retval else retval)"

section \<open>Multiplication\<close>

lemma unat_u128_lt: "unat (x :: u128) < 2 ^ 128"
  using unsigned_less [of x, where 'a = nat] by simp

lemma unat_low: "unat (a AND HP_MASK_LO) = unat a mod 2 ^ 64"
proof -
  have "HP_MASK_LO = mask 64" by (simp add: HP_MASK_LO_def mask_eq_decr_exp)
  then have "a AND HP_MASK_LO = take_bit 64 a" by (simp add: take_bit_eq_mask)
  then show ?thesis by (simp only: unsigned_take_bit_eq) (simp add: take_bit_eq_mod)
qed

lemma unat_drop64: "unat (drop_bit 64 a :: u128) = unat a div 2 ^ 64"
  by (simp only: unat_drop_bit_eq) (simp add: drop_bit_eq_div)

lemma unat_u128_mult_small:
  "unat (a :: u128) * unat b < 2 ^ 128 \<Longrightarrow> unat (a * b) = unat a * unat b"
  by (simp add: unat_word_ariths)

lemma unat_u128_add_small:
  "unat (a :: u128) + unat b < 2 ^ 128 \<Longrightarrow> unat (a + b) = unat a + unat b"
  by (simp add: unat_word_ariths)

text \<open>The schoolbook product: the middle 128 bits, truncated.\<close>

lemma q_product:
  fixes ah al bh bl :: nat
  shows "((ah * 2 ^ 64 + al) * (bh * 2 ^ 64 + bl)) div 2 ^ 64 =
    ah * bh * 2 ^ 64 + (ah * bl + al * bh) + al * bl div 2 ^ 64"
proof -
  have "(ah * 2 ^ 64 + al) * (bh * 2 ^ 64 + bl) =
      al * bl + (ah * bh * 2 ^ 64 + (ah * bl + al * bh)) * 2 ^ 64"
    by (simp add: algebra_simps)
  then show ?thesis by simp
qed

lemma Umul_spec:
  assumes "(unat a * unat b) div 2 ^ 64 < 2 ^ 127"
  shows "\<exists>r. Umul a b = Inr r \<and> unat r = (unat a * unat b) div 2 ^ 64"
proof -
  let ?al = "a AND HP_MASK_LO" and ?bl = "b AND HP_MASK_LO"
  let ?ah = "drop_bit 64 a" and ?bh = "drop_bit 64 b"
  define al where "al = unat a mod 2 ^ 64"
  define ah where "ah = unat a div 2 ^ 64"
  define bl where "bl = unat b mod 2 ^ 64"
  define bh where "bh = unat b div 2 ^ 64"
  have w: "unat ?al = al" "unat ?bl = bl" "unat ?ah = ah" "unat ?bh = bh"
    by (simp_all only: unat_low unat_drop64 al_def ah_def bl_def bh_def)
  have ab: "unat a = ah * 2 ^ 64 + al" "unat b = bh * 2 ^ 64 + bl"
    by (simp_all only: al_def ah_def bl_def bh_def div_mult_mod_eq)
  have P: "(unat a * unat b) div 2 ^ 64 = ah * bh * 2 ^ 64 + (ah * bl + al * bh) + al * bl div 2 ^ 64"
    by (simp only: ab q_product)
  have lt: "ah * bh * 2 ^ 64 + (ah * bl + al * bh) + al * bl div 2 ^ 64 < 2 ^ 127"
    using assms by (simp only: P)
  have "al < 2 ^ 64" "bl < 2 ^ 64" by (simp_all add: al_def bl_def)
  then have "al * bl < 2 ^ 64 * 2 ^ 64" by (intro mult_strict_mono) simp_all
  then have "unat (?al * ?bl) = al * bl" by (subst unat_u128_mult_small) (simp_all add: w)
  then have r1: "unat (drop_bit 64 (?al * ?bl)) = al * bl div 2 ^ 64" by (simp only: unat_drop64)
  have m1: "unat (?ah * ?bl) = ah * bl" "unat (?al * ?bh) = al * bh" "unat (?ah * ?bh) = ah * bh"
    using lt by (subst unat_u128_mult_small; simp add: w)+
  have mid: "unat (?ah * ?bl + ?al * ?bh) = ah * bl + al * bh"
    using lt by (subst unat_u128_add_small) (simp_all add: m1)
  have res: "unat (drop_bit 64 (?al * ?bl) + (?ah * ?bl + ?al * ?bh)) = al * bl div 2 ^ 64 + (ah * bl + al * bh)"
    using lt by (subst unat_u128_add_small) (simp_all add: r1 mid)
  have hb: "ah * bh < 2 ^ 63" using lt by simp
  have p63: "unat (push_bit 63 1 :: u128) = 2 ^ 63" by simp
  have high: "?ah * ?bh \<le> push_bit 63 1"
    using hb by (simp only: word_le_nat_alt m1 p63)
  have "unat (push_bit 64 (?ah * ?bh)) = (ah * bh * 2 ^ 64) mod 2 ^ 128"
    by (simp only: push_bit_eq_mult unat_word_ariths m1) (simp add: w mod_mult_left_eq)
  then have ph: "unat (push_bit 64 (?ah * ?bh)) = ah * bh * 2 ^ 64" using hb by simp
  have fin: "unat (drop_bit 64 (?al * ?bl) + (?ah * ?bl + ?al * ?bh) + push_bit 64 (?ah * ?bh)) =
      al * bl div 2 ^ 64 + (ah * bl + al * bh) + ah * bh * 2 ^ 64"
    using lt by (subst unat_u128_add_small) (simp_all add: res ph)
  then have "drop_bit 64 (?al * ?bl) + (?ah * ?bl + ?al * ?bh) \<le>
      drop_bit 64 (?al * ?bl) + (?ah * ?bl + ?al * ?bh) + push_bit 64 (?ah * ?bh)"
    by (simp only: word_le_nat_alt fin res)
  then show ?thesis
    using high fin P by (simp add: Umul_def Let_def)
qed


section \<open>Signed values\<close>

lemma sint_u128_range: "- (2 ^ 127) \<le> sint (x :: u128)" "sint (x :: u128) < 2 ^ 127"
  using sint_greater_eq [of x] sint_less [of x] by simp_all

lemma sint_u128: "sint (x :: u128) = (if unat x < 2 ^ 127 then int (unat x) else int (unat x) - 2 ^ 128)"
proof -
  let ?u = "int (unat x)"
  have u: "uint x = ?u" by (simp add: of_nat_unat)
  have s: "sint x = signed_take_bit 127 ?u" unfolding u [symmetric] by (simp add: sint_uint)
  show ?thesis
  proof (cases "unat x < 2 ^ 127")
    case True
    then have "signed_take_bit 127 ?u = ?u" by (intro signed_take_bit_int_eq_self) simp_all
    then show ?thesis using True s by simp
  next
    case False
    have k: "signed_take_bit 127 (?u - 2 ^ 128) = ?u - 2 ^ 128"
      using False unat_u128_lt [of x] by (intro signed_take_bit_int_eq_self) simp_all
    have "take_bit (Suc 127) (?u - 2 ^ 128) = take_bit (Suc 127) ?u"
      by (simp add: take_bit_eq_mod)
    then have "signed_take_bit 127 (?u - 2 ^ 128) = signed_take_bit 127 ?u"
      by (simp only: signed_take_bit_eq_iff_take_bit_eq)
    then show ?thesis using False s k by simp
  qed
qed

lemma sint_neg_iff: "sint (x :: u128) < 0 \<longleftrightarrow> 2 ^ 127 \<le> unat x"
  using unat_u128_lt [of x] by (simp add: sint_u128)

lemma unat_uminus_u128: "x \<noteq> 0 \<Longrightarrow> unat (- x :: u128) = 2 ^ 128 - unat x"
  using unat_sub_if' [of 0 x] unat_u128_lt [of x] by (simp add: unat_pos_iff)

text \<open>Magnitudes.\<close>

lemma unat_magnitude: "unat (if sint x < 0 then - x else x :: u128) = nat \<bar>sint x\<bar>"
proof (cases "sint x < 0")
  case True
  then have "2 ^ 127 \<le> unat x" by (simp add: sint_neg_iff)
  moreover from this have "x \<noteq> 0" by auto
  ultimately show ?thesis
    using True unat_uminus_u128 [of x] unat_u128_lt [of x] by (simp add: sint_u128)
next
  case False
  then have "unat x < 2 ^ 127" by (simp add: sint_neg_iff)
  then show ?thesis using False by (simp add: sint_u128)
qed

lemma sint_uminus_u128:
  assumes "unat x < 2 ^ 127"
  shows "sint (- x :: u128) = - int (unat x)"
proof (cases "x = 0")
  case True
  then show ?thesis by simp
next
  case False
  then have "unat (- x) = 2 ^ 128 - unat x" by (rule unat_uminus_u128)
  moreover have "0 < unat x" using False by (simp add: unat_pos_iff)
  ultimately have "unat (- x) + unat x = 340282366920938463463374607431768211456"
    using unat_u128_lt [of x] by simp
  then have "\<not> unat (- x) < 170141183460469231731687303715884105728"
    "int (unat (- x)) = 340282366920938463463374607431768211456 - int (unat x)"
    using assms by simp_all
  then show ?thesis by (simp add: sint_u128)
qed

lemma unat_hi_bit: "unat HP128_MASK_HI_BIT = 2 ^ 127"
  by (simp add: HP128_MASK_HI_BIT_def)

lemma int64x64_Mul_spec:
  assumes "(\<bar>sint v\<bar> * \<bar>sint w\<bar>) div 2 ^ 64 < 2 ^ 127"
  shows "\<exists>r. int64x64_Mul v w = Inr r \<and>
    sint r = (if (sint v < 0) \<noteq> (sint w < 0) then - 1 else 1) * ((\<bar>sint v\<bar> * \<bar>sint w\<bar>) div 2 ^ 64)"
proof -
  let ?a = "if sint v < 0 then - v else v"
  let ?b = "if sint w < 0 then - w else w"
  have m: "int (unat ?a) = \<bar>sint v\<bar>" "int (unat ?b) = \<bar>sint w\<bar>"
    by (simp_all add: unat_magnitude split del: if_split)
  have P: "int ((unat ?a * unat ?b) div 2 ^ 64) = (\<bar>sint v\<bar> * \<bar>sint w\<bar>) div 2 ^ 64"
    by (simp only: zdiv_int of_nat_mult m of_nat_power of_nat_numeral)
  have lt: "(unat ?a * unat ?b) div 2 ^ 64 < 2 ^ 127"
  proof -
    have "int ((unat ?a * unat ?b) div 2 ^ 64) < int (2 ^ 127)" using assms P by simp
    then show ?thesis by (simp only: of_nat_less_iff)
  qed
  from Umul_spec [OF lt] obtain r where r: "Umul ?a ?b = Inr r" "unat r = (unat ?a * unat ?b) div 2 ^ 64"
    by blast
  have rl: "unat r < 2 ^ 127" using lt r(2) by simp
  then have cmp: "r < HP128_MASK_HI_BIT" "r \<le> HP128_MASK_HI_BIT"
    by (simp_all only: word_less_nat_alt word_le_nat_alt unat_hi_bit less_imp_le)
  have ir: "int (unat r) = (\<bar>sint v\<bar> * \<bar>sint w\<bar>) div 2 ^ 64" using r(2) P by simp
  have os: "output_sign v w = ((sint v < 0) \<noteq> (sint w < 0), ?a, ?b)"
    by (simp add: output_sign_def Let_def)
  show ?thesis
  proof (cases "(sint v < 0) \<noteq> (sint w < 0)")
    case True
    then have "int64x64_Mul v w = Inr (- r)"
      by (simp only: int64x64_Mul_def os prod.case r(1) res_bind.simps) (simp add: cmp)
    then show ?thesis using True sint_uminus_u128 [OF rl] ir by (intro exI [of _ "- r"]) simp
  next
    case False
    then have "int64x64_Mul v w = Inr r"
      by (simp only: int64x64_Mul_def os prod.case r(1) res_bind.simps) (simp add: cmp)
    then show ?thesis using False rl ir by (intro exI [of _ r]) (simp add: sint_u128)
  qed
qed

section \<open>Rounding\<close>

lemma sint_u64: "sint (x :: u64) = (if unat x < 2 ^ 63 then int (unat x) else int (unat x) - 2 ^ 64)"
proof -
  let ?u = "int (unat x)"
  have u: "uint x = ?u" by (simp add: of_nat_unat)
  have s: "sint x = signed_take_bit 63 ?u" unfolding u [symmetric] by (simp add: sint_uint)
  have lt: "unat x < 2 ^ 64" using unat_u64_lt [of x] by simp
  show ?thesis
  proof (cases "unat x < 2 ^ 63")
    case True
    then have "signed_take_bit 63 ?u = ?u" by (intro signed_take_bit_int_eq_self) simp_all
    then show ?thesis using True s by simp
  next
    case False
    have k: "signed_take_bit 63 (?u - 2 ^ 64) = ?u - 2 ^ 64"
    proof (rule signed_take_bit_int_eq_self)
      have "\<not> unat x < 9223372036854775808" "unat x < 18446744073709551616" using False lt by (simp_all del: unat_u64_lt)
      then show "- (2 ^ 63) \<le> ?u - 2 ^ 64" "?u - 2 ^ 64 < 2 ^ 63" by (simp_all del: unat_u64_lt)
    qed
    have "take_bit (Suc 63) (?u - 2 ^ 64) = take_bit (Suc 63) ?u"
      by (simp add: take_bit_eq_mod)
    then have "signed_take_bit 63 (?u - 2 ^ 64) = signed_take_bit 63 ?u"
      by (simp only: signed_take_bit_eq_iff_take_bit_eq)
    then show ?thesis using False s k by simp
  qed
qed

lemma sint_uminus_u64:
  assumes "unat x < 2 ^ 63"
  shows "sint (- x :: u64) = - int (unat x)"
proof (cases "x = 0")
  case True
  then show ?thesis by simp
next
  case False
  then have "0 < unat x" by (simp add: unat_pos_iff)
  moreover from this have "unat (- x) = 2 ^ 64 - unat x"
    using False unat_sub_if' [of 0 x] by (simp split: if_splits)
  ultimately have "unat (- x) + unat x = 18446744073709551616"
    using assms by simp
  then have "\<not> unat (- x) < 9223372036854775808"
    "int (unat (- x)) = 18446744073709551616 - int (unat x)"
    using assms by simp_all
  then show ?thesis by (simp add: sint_u64)
qed

lemma unat_GetHigh:
  assumes "unat v < 2 ^ 127"
  shows "unat (GetHigh v) = unat v div 2 ^ 64"
proof -
  have "sint (signed_drop_bit 64 v) = drop_bit 64 (int (unat v))"
    using assms by (simp only: sint_signed_drop_bit_eq sint_u128 [of v] if_True)
  also have "\<dots> = int (unat v div 2 ^ 64)"
    by (simp add: drop_bit_eq_div zdiv_int)
  finally have e: "sint (signed_drop_bit 64 v) = int (unat v div 2 ^ 64)" .
  have d: "unat v div 2 ^ 64 < 2 ^ 63" using assms by (simp add: less_mult_imp_div_less)
  have "unat (signed_drop_bit 64 v) = unat v div 2 ^ 64"
    using e d unat_u128_lt [of "signed_drop_bit 64 v"] by (simp add: sint_u128 split: if_splits)
  then show ?thesis using d by (simp add: GetHigh_def unsigned_ucast_eq take_bit_nat_eq_self)
qed

lemma int64x64_Round_spec:
  assumes "\<bar>sint v\<bar> < 2 ^ 127 - 2 ^ 63"
  shows "sint (int64x64_Round v) =
    (if sint v < 0 then - 1 else 1) * ((\<bar>sint v\<bar> + 2 ^ 63) div 2 ^ 64)"
proof -
  let ?a = "if sint v < 0 then - v else v"
  let ?h = "push_bit 63 1 :: u128"
  have a: "int (unat ?a) = \<bar>sint v\<bar>" by (simp add: unat_magnitude split del: if_split)
  have a': "unat ?a < 2 ^ 127 - 2 ^ 63"
  proof -
    have "int (unat ?a) < int (2 ^ 127 - 2 ^ 63)" using assms by (simp only: a) simp
    then show ?thesis by (simp only: of_nat_less_iff)
  qed
  have h: "unat ?h = 2 ^ 63" by simp
  have s: "unat (?a + ?h) = unat ?a + 2 ^ 63"
    using a' h by (subst unat_u128_add_small) (simp_all del: push_bit_of_1)
  then have lt: "unat (?a + ?h) < 2 ^ 127" using a' by simp
  define r where "r = GetHigh (?a + ?h)"
  have r: "unat r = (unat ?a + 2 ^ 63) div 2 ^ 64"
    unfolding r_def by (simp only: unat_GetHigh [OF lt] s)
  then have rl: "unat r < 2 ^ 63" using a' by (simp add: less_mult_imp_div_less)
  have ri: "int (unat r) = (\<bar>sint v\<bar> + 2 ^ 63) div 2 ^ 64"
    unfolding r by (simp only: zdiv_int of_nat_add a of_nat_power of_nat_numeral)
  have "int64x64_Round v = (if sint v < 0 then - r else r)"
    by (simp only: int64x64_Round_def Let_def r_def)
  moreover have "sint (- r) = - ((\<bar>sint v\<bar> + 2 ^ 63) div 2 ^ 64)"
    by (simp only: sint_uminus_u64 [OF rl] ri)
  moreover have "sint r = (\<bar>sint v\<bar> + 2 ^ 63) div 2 ^ 64"
    using rl by (simp only: sint_u64 [of r] if_True ri)
  ultimately show ?thesis by (simp only: split: if_split) simp
qed

end
