(* ===== verification/Ns3_Time.thy ===== *)
theory Ns3_Time
  imports Int64x64
begin

text \<open>
  The conversions of \<open>ns3::Time\<close> (\<open>nstime.h\<close>) that the program uses, at the default resolution of one
  nanosecond: \<open>Seconds(double)\<close>, \<open>MilliSeconds(uint64_t)\<close> and \<open>GetMilliSeconds()\<close>. For the unit \<open>S\<close> the
  table of \<open>SetResolution\<close> holds \<open>fromMul\<close> with \<open>timeFrom = 10^9\<close>, for \<open>MS\<close> the factor \<open>10^6\<close>.
\<close>

definition Time_From_seconds :: "int64x64 \<Rightarrow> sim_time res" where
  "Time_From_seconds value =
     res_bind (int64x64_Mul value (int64x64_of_int 1000000000)) (\<lambda>retval.
     Inr (sint (int64x64_Round retval)))"

definition Seconds :: "dbl \<Rightarrow> sim_time res" where
  "Seconds value = res_bind (int64x64_of_double value) Time_From_seconds"

definition MilliSeconds :: "u64 \<Rightarrow> sim_time" where
  "MilliSeconds value = sint (value * 1000000)"

definition GetMilliSeconds :: "sim_time \<Rightarrow> int" where
  "GetMilliSeconds t = sgn t * (\<bar>t\<bar> div 1000000)"

section \<open>From a double\<close>

lemma low_or_high:
  fixes lo hi :: u128
  assumes "unat lo < 2 ^ 64" and "unat hi < 2 ^ 64"
  shows "unat (push_bit 64 hi OR lo) = unat hi * 2 ^ 64 + unat lo"
proof -
  have "take_bit 64 lo = lo"
  proof (rule unsigned_word_eqI)
    show "unat (take_bit 64 lo) = unat lo"
      using assms(1) by (simp only: unsigned_take_bit_eq) (simp add: take_bit_nat_eq_self)
  qed
  then have lob: "bit lo n \<Longrightarrow> n < 64" for n by (metis bit_take_bit_iff)
  have "push_bit 64 hi AND lo = 0"
    by (rule bit_word_eqI) (auto simp: bit_and_iff bit_push_bit_iff dest: lob)
  then have e: "push_bit 64 hi OR lo = push_bit 64 hi + lo" by (simp add: disjunctive_add_eq_or)
  have "unat (push_bit 64 hi) = (unat hi * 2 ^ 64) mod 2 ^ 128"
    by (simp only: push_bit_eq_mult unat_word_ariths) (simp add: mod_mult_left_eq)
  then have p: "unat (push_bit 64 hi) = unat hi * 2 ^ 64" using assms(2) by simp
  show ?thesis
    unfolding e using assms p by (subst unat_u128_add_small) simp_all
qed

lemma unat_of_int_u128: "0 \<le> k \<Longrightarrow> k < 2 ^ 128 \<Longrightarrow> unat (of_int k :: u128) = nat k"
  by (simp add: unsigned_of_int take_bit_int_eq_self)

lemma int64x64_of_double_spec:
  assumes "0 \<le> x" and "x < 2 ^ 62"
  shows "\<exists>w. int64x64_of_double (Fin x) = Inr w \<and> int (unat w) = \<lfloor>x * 2 ^ 64 + 1 / 2\<rfloor>"
proof -
  define fhi where "fhi = \<lfloor>x\<rfloor>"
  define flo where "flo = (x - of_int fhi) * 2 ^ 64 + 1 / 2"
  have fh: "0 \<le> fhi" "fhi < 2 ^ 62"
    using assms by (simp_all add: fhi_def floor_less_iff)
  have fr: "0 \<le> x - of_int fhi" "x - of_int fhi < 1"
    by (simp_all add: fhi_def) linarith
  have fl: "0 \<le> flo" "flo < 2 ^ 64 + 1 / 2"
    using fr by (simp_all add: flo_def)
  have X: "x * 2 ^ 64 + 1 / 2 = flo + of_int (fhi * 2 ^ 64)"
    by (simp add: flo_def algebra_simps)
  have t: "\<lfloor>x * 2 ^ 64 + 1 / 2\<rfloor> = \<lfloor>flo\<rfloor> + fhi * 2 ^ 64"
    by (simp only: X floor_add_int)
  define hi :: u128 where "hi = (if 2 ^ 64 \<le> flo then of_int fhi + 1 else of_int fhi)"
  define lo :: u128 where "lo = of_int (\<lfloor>flo\<rfloor> mod 2 ^ 64)"
  have r: "int64x64_of_double (Fin x) = Inr (push_bit 64 hi OR lo)"
  proof -
    have ab: "\<bar>x\<bar> = x" "(x < 0) = False" "(2 ^ 127 \<le> fhi) = False" using assms(1) fh(2) by simp_all
    have "int64x64_of_double (Fin x) = Inr (push_bit 64 (if 2 ^ 64 \<le> flo then of_int fhi + 1 else of_int fhi) OR
        of_int (\<lfloor>flo\<rfloor> mod 2 ^ 64))"
      by (simp only: int64x64_of_double_def Let_def dbl.case ab if_False fhi_def [symmetric]
          flo_def [symmetric])
    then show ?thesis by (simp only: hi_def lo_def)
  qed
  have lo: "int (unat lo) = \<lfloor>flo\<rfloor> mod 2 ^ 64" "unat lo < 2 ^ 64"
  proof -
    have "0 \<le> \<lfloor>flo\<rfloor> mod 2 ^ 64" "\<lfloor>flo\<rfloor> mod 2 ^ 64 < 2 ^ 64" by simp_all
    then show "int (unat lo) = \<lfloor>flo\<rfloor> mod 2 ^ 64"
      unfolding lo_def by (subst unat_of_int_u128) simp_all
    then show "unat lo < 2 ^ 64" using \<open>\<lfloor>flo\<rfloor> mod 2 ^ 64 < 2 ^ 64\<close>
      by (simp only: of_nat_less_iff [symmetric, where 'a = int]) simp
  qed
  have h0: "of_int fhi + 1 = (of_int (fhi + 1) :: u128)" by simp
  have hi: "int (unat hi) = fhi + (if 2 ^ 64 \<le> flo then 1 else 0)"
    unfolding hi_def h0 using fh
    by (auto simp del: of_int_add simp: unat_of_int_u128)
  then have hl: "unat hi < 2 ^ 64" using fh by (auto split: if_splits)
  have "\<lfloor>flo\<rfloor> = (if 2 ^ 64 \<le> flo then 2 ^ 64 else \<lfloor>flo\<rfloor> mod 2 ^ 64)"
  proof (cases "2 ^ 64 \<le> flo")
    case True
    then have "\<lfloor>flo\<rfloor> = 2 ^ 64" using fl(2) by (intro floor_unique) simp_all
    then show ?thesis using True by simp
  next
    case False
    then have "0 \<le> \<lfloor>flo\<rfloor>" "\<lfloor>flo\<rfloor> < 2 ^ 64" using fl(1) by (simp_all add: floor_less_iff)
    then show ?thesis using False by simp
  qed
  moreover have "2 ^ 64 \<le> flo \<Longrightarrow> \<lfloor>flo\<rfloor> mod 2 ^ 64 = 0"
  proof -
    assume "2 ^ 64 \<le> flo"
    then have "\<lfloor>flo\<rfloor> = 2 ^ 64" using fl(2) by (intro floor_unique) simp_all
    then show "\<lfloor>flo\<rfloor> mod 2 ^ 64 = 0" by simp
  qed
  ultimately have "int (unat (push_bit 64 hi OR lo)) = \<lfloor>flo\<rfloor> + fhi * 2 ^ 64"
    using low_or_high [OF lo(2) hl] hi lo(1) by (auto simp: algebra_simps split: if_splits)
  then show ?thesis using r t by (intro exI [of _ "push_bit 64 hi OR lo"]) (simp only: simp_thms)
qed

section \<open>Seconds\<close>

lemma sint_int64x64_of_int:
  assumes "0 \<le> v" and "v < 2 ^ 62"
  shows "sint (int64x64_of_int v) = v * 2 ^ 64"
proof -
  have "unat (of_int v :: u128) = nat v" using assms by (intro unat_of_int_u128) simp_all
  then have "unat (int64x64_of_int v) = (nat v * 2 ^ 64) mod 2 ^ 128"
    unfolding int64x64_of_int_def by (simp only: push_bit_eq_mult unat_word_ariths) (simp add: mod_mult_left_eq)
  moreover have "nat v < 2 ^ 62" using assms by simp
  ultimately have "unat (int64x64_of_int v) = nat v * 2 ^ 64" by simp
  then show ?thesis using assms by (simp add: sint_u128)
qed

lemma Seconds_eq:
  assumes "0 \<le> x" and "x < 2 ^ 32"
  shows "Seconds (Fin x) = Inr ((\<lfloor>x * 2 ^ 64 + 1 / 2\<rfloor> * 1000000000 + 2 ^ 63) div 2 ^ 64)"
proof -
  let ?q = "\<lfloor>x * 2 ^ 64 + 1 / 2\<rfloor>"
  obtain w where w: "int64x64_of_double (Fin x) = Inr w" "int (unat w) = ?q"
    using int64x64_of_double_spec [of x] assms by auto
  have q: "0 \<le> ?q" "?q \<le> 2 ^ 96"
  proof -
    show "0 \<le> ?q" using assms(1) by simp
    have "x * 2 ^ 64 + 1 / 2 < 2 ^ 32 * 2 ^ 64 + 1"
      using assms(2) by (intro add_strict_mono mult_strict_right_mono) simp_all
    then show "?q \<le> 2 ^ 96" by (simp add: floor_le_iff)
  qed
  have ul: "unat w < 2 ^ 127"
  proof -
    have "int (unat w) < int (2 ^ 127)" using w(2) q(2) by simp
    then show ?thesis by (simp only: of_nat_less_iff)
  qed
  then have sw: "sint w = ?q" using w(2) by (simp add: sint_u128)
  have k: "sint (int64x64_of_int 1000000000) = 1000000000 * 2 ^ 64"
    by (rule sint_int64x64_of_int) simp_all
  have prod: "(\<bar>sint w\<bar> * \<bar>sint (int64x64_of_int 1000000000)\<bar>) div 2 ^ 64 = ?q * 1000000000"
  proof -
    have "\<bar>sint w\<bar> * \<bar>sint (int64x64_of_int 1000000000)\<bar> = (?q * 1000000000) * 2 ^ 64"
      using q(1) by (simp only: sw k) simp
    then show ?thesis by simp
  qed
  have "?q * 1000000000 \<le> 2 ^ 96 * 1000000000" using q(2) by (rule mult_right_mono) simp
  also have "\<dots> < 2 ^ 127 - 2 ^ 63" by simp
  finally have b: "?q * 1000000000 < 2 ^ 127 - 2 ^ 63" .
  obtain r where r: "int64x64_Mul w (int64x64_of_int 1000000000) = Inr r" "sint r = ?q * 1000000000"
    using int64x64_Mul_spec [of w "int64x64_of_int 1000000000"] prod b q(1)
    by (auto simp: sw k)
  have "sint (int64x64_Round r) = (?q * 1000000000 + 2 ^ 63) div 2 ^ 64"
    using int64x64_Round_spec [of r] r(2) b q(1) by simp
  then show ?thesis using w(1) r(1) by (simp add: Seconds_def Time_From_seconds_def)
qed

lemma floor_half_bounds:
  fixes y :: rat
  shows "of_int \<lfloor>y + 1 / 2\<rfloor> \<le> y + 1 / 2" "y - 1 / 2 < of_int \<lfloor>y + 1 / 2\<rfloor>"
  using of_int_floor_le [of "y + 1 / 2"] floor_correct [of "y + 1 / 2"] by simp_all

lemma Seconds_bounds:
  assumes "0 \<le> x" and "x < 2 ^ 32"
  obtains t where "Seconds (Fin x) = Inr t" and "0 \<le> t"
    and "\<bar>of_int t - x * 1000000000\<bar> \<le> 1 / 2 + 1 / 10 ^ 10"
proof -
  define q where "q = \<lfloor>x * 2 ^ 64 + 1 / 2\<rfloor>"
  define t where "t = (q * 1000000000 + 2 ^ 63) div 2 ^ 64"
  have q: "of_int q \<le> x * 2 ^ 64 + 1 / 2" "x * 2 ^ 64 - 1 / 2 < (of_int q :: rat)"
    using floor_half_bounds [of "x * 2 ^ 64"] by (simp_all only: q_def)
  have q0: "0 \<le> q" using assms(1) by (simp add: q_def)
  have t0: "0 \<le> t" using q0 by (simp add: t_def)
  have "t * 2 ^ 64 \<le> q * 1000000000 + 2 ^ 63" "q * 1000000000 + 2 ^ 63 < t * 2 ^ 64 + 2 ^ 64"
    using mult_div_mod_eq [of "2 ^ 64" "q * 1000000000 + 2 ^ 63"]
      pos_mod_bound [of "2 ^ 64" "q * 1000000000 + 2 ^ 63"]
      pos_mod_sign [of "2 ^ 64" "q * 1000000000 + 2 ^ 63"]
    by (simp_all add: t_def)
  then have "(of_int (t * 2 ^ 64) :: rat) \<le> of_int (q * 1000000000 + 2 ^ 63)"
    "(of_int (q * 1000000000 + 2 ^ 63) :: rat) \<le> of_int (t * 2 ^ 64 + 2 ^ 64)"
    by (simp_all only: of_int_le_iff less_imp_le)
  then have t: "(of_int t :: rat) * 2 ^ 64 \<le> of_int q * 1000000000 + 2 ^ 63"
    "(of_int q :: rat) * 1000000000 + 2 ^ 63 \<le> of_int t * 2 ^ 64 + 2 ^ 64"
    by simp_all
  have "\<bar>of_int t - x * 1000000000\<bar> \<le> 1 / 2 + 1 / 10 ^ 10"
  proof (rule abs_leI)
    have p: "(1 / 10 ^ 10 :: rat) = 1 / 10000000000" by simp
    show "of_int t - x * 1000000000 \<le> 1 / 2 + 1 / 10 ^ 10"
      unfolding p using q [simplified] t [simplified] by linarith
    show "- (of_int t - x * 1000000000) \<le> 1 / 2 + 1 / 10 ^ 10"
      unfolding p using q [simplified] t [simplified] by linarith
  qed
  then show thesis
    using Seconds_eq [OF assms] t0 by (intro that [of t]) (simp_all add: t_def q_def)
qed

lemma GetMilliSeconds_MilliSeconds:
  assumes "unat v * 1000000 < 2 ^ 63"
  shows "GetMilliSeconds (MilliSeconds v) = int (unat v)"
proof -
  have "unat (v * 1000000) = unat v * 1000000"
    using assms by (simp add: unat_word_ariths)
  then have "MilliSeconds v = int (unat v) * 1000000"
    using assms by (simp add: MilliSeconds_def sint_u64)
  moreover have "sgn (int k * 1000000) * (\<bar>int k * 1000000\<bar> div 1000000) = int k" for k
    by (cases "k = 0") (simp_all add: sgn_mult abs_mult)
  ultimately show ?thesis by (simp only: GetMilliSeconds_def)
qed

section \<open>Properties\<close>



text \<open>
  C14. The Q64.64 multiplication of ns-3 is the truncated product of the magnitudes with the sign of
  the product, and raises no assertion whenever the magnitude fits.
\<close>

theorem int64x64_Mul_truncates:
  assumes "(\<bar>sint v\<bar> * \<bar>sint w\<bar>) div 2 ^ 64 < 2 ^ 127"
  shows "\<exists>r. int64x64_Mul v w = Inr r \<and>
    sint r = (if (sint v < 0) \<noteq> (sint w < 0) then - 1 else 1) * ((\<bar>sint v\<bar> * \<bar>sint w\<bar>) div 2 ^ 64)"
  using assms by (rule int64x64_Mul_spec)

theorem int64x64_Mul_truncates_witness:
  "\<exists>r. int64x64_Mul (int64x64_of_int 6) (int64x64_of_int 7) = Inr r \<and> sint r = 42 * 2 ^ 64"
proof -
  have s: "sint (int64x64_of_int 6) = 6 * 2 ^ 64" "sint (int64x64_of_int 7) = 7 * 2 ^ 64"
    by (rule sint_int64x64_of_int; simp)+
  show ?thesis
    using int64x64_Mul_truncates [of "int64x64_of_int 6" "int64x64_of_int 7"]
    by (simp add: s)
qed

end
