(* ===== verification/Ns3_Sim.thy ===== *)
theory Ns3_Sim
  imports Ns3_Sched Ns3_Heap Ns3_Time
begin

text \<open>
  The sequential simulator of ns-3 (\<open>default-simulator-impl.cc\<close> with \<open>event-id.cc\<close> and
  \<open>event-impl.cc\<close>), over any of the schedulers. \<open>'e\<close> is what an \<open>EventImpl\<close> calls when it is
  notified and \<open>'w\<close> the state these calls change; the objects live in \<open>m_impls\<close> and a pointer to one
  is its position there. The calls are an argument \<open>notify\<close> of the definitions that make them.
\<close>

section \<open>The scheduler in use\<close>

text \<open>\<open>Ptr<Scheduler>\<close> with its virtual calls; \<open>MapScheduler\<close> is the default.\<close>

datatype scheduler =
    MapS map_scheduler
  | ListS "event list"
  | HeapS heap_scheduler
  | PriorityQueueS "event list"

fun sched_Insert :: "event \<Rightarrow> scheduler \<Rightarrow> scheduler res" where
  "sched_Insert ev (MapS s) = res_bind (MapScheduler_Insert ev s) (\<lambda>s. Inr (MapS s))"
| "sched_Insert ev (ListS s) = res_bind (ListScheduler_Insert ev s) (\<lambda>s. Inr (ListS s))"
| "sched_Insert ev (HeapS s) = res_bind (HeapScheduler_Insert ev s) (\<lambda>s. Inr (HeapS s))"
| "sched_Insert ev (PriorityQueueS s) =
     res_bind (PriorityQueueScheduler_Insert ev s) (\<lambda>s. Inr (PriorityQueueS s))"

fun sched_IsEmpty :: "scheduler \<Rightarrow> bool" where
  "sched_IsEmpty (MapS s) = MapScheduler_IsEmpty s"
| "sched_IsEmpty (ListS s) = ListScheduler_IsEmpty s"
| "sched_IsEmpty (HeapS s) = HeapScheduler_IsEmpty s"
| "sched_IsEmpty (PriorityQueueS s) = PriorityQueueScheduler_IsEmpty s"

fun sched_PeekNext :: "scheduler \<Rightarrow> event res" where
  "sched_PeekNext (MapS s) = MapScheduler_PeekNext s"
| "sched_PeekNext (ListS s) = ListScheduler_PeekNext s"
| "sched_PeekNext (HeapS s) = HeapScheduler_PeekNext s"
| "sched_PeekNext (PriorityQueueS s) = PriorityQueueScheduler_PeekNext s"

fun sched_RemoveNext :: "scheduler \<Rightarrow> (event \<times> scheduler) res" where
  "sched_RemoveNext (MapS s) = res_bind (MapScheduler_RemoveNext s) (\<lambda>(e, s). Inr (e, MapS s))"
| "sched_RemoveNext (ListS s) = res_bind (ListScheduler_RemoveNext s) (\<lambda>(e, s). Inr (e, ListS s))"
| "sched_RemoveNext (HeapS s) = res_bind (HeapScheduler_RemoveNext s) (\<lambda>(e, s). Inr (e, HeapS s))"
| "sched_RemoveNext (PriorityQueueS s) =
     res_bind (PriorityQueueScheduler_RemoveNext s) (\<lambda>(e, s). Inr (e, PriorityQueueS s))"

fun sched_Remove :: "event \<Rightarrow> scheduler \<Rightarrow> scheduler res" where
  "sched_Remove ev (MapS s) = res_bind (MapScheduler_Remove ev s) (\<lambda>s. Inr (MapS s))"
| "sched_Remove ev (ListS s) = res_bind (ListScheduler_Remove ev s) (\<lambda>s. Inr (ListS s))"
| "sched_Remove ev (HeapS s) = res_bind (HeapScheduler_Remove ev s) (\<lambda>s. Inr (HeapS s))"
| "sched_Remove ev (PriorityQueueS s) =
     res_bind (PriorityQueueScheduler_Remove ev s) (\<lambda>s. Inr (PriorityQueueS s))"

fun sched_inv :: "scheduler \<Rightarrow> bool" where
  "sched_inv (MapS s) = list_sched_inv (map_events s)"
| "sched_inv (ListS s) = list_sched_inv s"
| "sched_inv (HeapS s) = heap_inv s"
| "sched_inv (PriorityQueueS s) = uids_unique (mset s)"

fun sched_events :: "scheduler \<Rightarrow> event multiset" where
  "sched_events (MapS s) = mset (map_events s)"
| "sched_events (ListS s) = mset s"
| "sched_events (HeapS s) = mset (tl s)"
| "sched_events (PriorityQueueS s) = mset s"

fun is_heap :: "scheduler \<Rightarrow> bool" where
  "is_heap (HeapS s) = True"
| "is_heap s = False"

lemma sched_Insert_kind: "sched_Insert e s = Inr s' \<Longrightarrow> is_heap s' = is_heap s"
  by (cases s) (auto simp: res_bind_Inr_iff)

lemma sched_RemoveNext_kind: "sched_RemoveNext s = Inr (e, s') \<Longrightarrow> is_heap s' = is_heap s"
  by (cases s) (auto simp: res_bind_Inr_iff)

interpretation sched: event_queue sched_Insert sched_IsEmpty sched_PeekNext sched_RemoveNext
  sched_inv sched_events
proof unfold_locales
  fix s e
  assume I: "sched_inv s"
  show "uids_unique (sched_events s)"
    using I list_sched.inv_uids map_sched.inv_uids heap_sched.inv_uids pq_sched.inv_uids
    by (cases s) auto
  show "sched_IsEmpty s \<longleftrightarrow> sched_events s = {#}"
    using I list_sched.IsEmpty_iff map_sched.IsEmpty_iff heap_sched.IsEmpty_iff pq_sched.IsEmpty_iff
    by (cases s) auto
  show "\<exists>s'. sched_Insert e s = Inr s' \<and> sched_inv s' \<and> sched_events s' = add_mset e (sched_events s)"
    if "fresh_uid (ev_uid e) (sched_events s)"
    using I that list_sched.Insert_ok [of _ e] map_sched.Insert_ok [of _ e]
      heap_sched.Insert_ok [of _ e] pq_sched.Insert_ok [of _ e]
    by (cases s) fastforce+
  show "\<exists>e s'. sched_RemoveNext s = Inr (e, s') \<and> first_event (sched_events s) e \<and> sched_inv s' \<and>
      sched_events s' = sched_events s - {#e#}" if "sched_events s \<noteq> {#}"
    using I that list_sched.RemoveNext_ok map_sched.RemoveNext_ok heap_sched.RemoveNext_ok
      pq_sched.RemoveNext_ok
    by (cases s) fastforce+
  show "\<exists>e. sched_PeekNext s = Inr e \<and> first_event (sched_events s) e" if "sched_events s \<noteq> {#}"
    using I that list_sched.PeekNext_ok map_sched.PeekNext_ok heap_sched.PeekNext_ok
      pq_sched.PeekNext_ok
    by (cases s) fastforce+
qed

interpretation sched_removable: removable_event_queue sched_Insert sched_IsEmpty sched_PeekNext
  sched_RemoveNext "\<lambda>s. sched_inv s \<and> \<not> is_heap s" sched_events sched_Remove
proof unfold_locales
  fix s e
  assume I: "sched_inv s \<and> \<not> is_heap s"
  show "uids_unique (sched_events s)" using I sched.inv_uids by blast
  show "sched_IsEmpty s \<longleftrightarrow> sched_events s = {#}" using I sched.IsEmpty_iff by blast
  show "\<exists>s'. sched_Insert e s = Inr s' \<and> (sched_inv s' \<and> \<not> is_heap s') \<and>
      sched_events s' = add_mset e (sched_events s)" if "fresh_uid (ev_uid e) (sched_events s)"
    using I sched.Insert_ok [OF _ that] sched_Insert_kind by blast
  show "\<exists>e s'. sched_RemoveNext s = Inr (e, s') \<and> first_event (sched_events s) e \<and>
      (sched_inv s' \<and> \<not> is_heap s') \<and> sched_events s' = sched_events s - {#e#}"
    if "sched_events s \<noteq> {#}"
    using I sched.RemoveNext_ok [OF _ that] sched_RemoveNext_kind by blast
  show "\<exists>e. sched_PeekNext s = Inr e \<and> first_event (sched_events s) e" if "sched_events s \<noteq> {#}"
    using I sched.PeekNext_ok [OF _ that] by blast
  show "\<exists>s'. sched_Remove e s = Inr s' \<and> (sched_inv s' \<and> \<not> is_heap s') \<and>
      sched_events s' = sched_events s - {#e#}" if "e \<in># sched_events s"
    using I that list_sched.Remove_ok [of _ e] map_sched.Remove_ok [of _ e] pq_sched.Remove_ok [of _ e]
    by (cases s) fastforce+
qed

section \<open>State\<close>

record event_id =
  m_eventImpl :: "nat option"
  id_ts :: u64
  id_context :: u32
  id_uid :: u32

definition UID_INVALID :: u32 where "UID_INVALID = 0"
definition UID_DESTROY :: u32 where "UID_DESTROY = 2"
definition UID_VALID :: u32 where "UID_VALID = 4"

record event_with_context =
  ewc_context :: u32
  ewc_timestamp :: u64
  ewc_event :: nat

text \<open>
  \<open>m_impls\<close> holds every \<open>EventImpl\<close> made so far: what it calls, and its flag \<open>m_cancel\<close>. Thread
  identities are the argument \<open>main_thread\<close> of the operations that compare them.
\<close>

record 'e simulator =
  m_eventsWithContext :: "event_with_context list"
  m_eventsWithContextEmpty :: bool
  m_destroyEvents :: "event_id list"
  m_stop :: bool
  m_events :: scheduler
  sim_uid :: u32
  m_currentUid :: u32
  m_currentTs :: u64
  m_currentContext :: u32
  m_eventCount :: u64
  m_unscheduledEvents :: int
  m_impls :: "('e \<times> bool) list"

definition NO_CONTEXT :: u32 where "NO_CONTEXT = 0xffffffff"

definition DefaultSimulatorImpl :: "scheduler \<Rightarrow> 'e simulator" where
  "DefaultSimulatorImpl events =
     \<lparr>m_eventsWithContext = [], m_eventsWithContextEmpty = True, m_destroyEvents = [],
      m_stop = False, m_events = events, sim_uid = UID_VALID, m_currentUid = UID_INVALID,
      m_currentTs = 0, m_currentContext = NO_CONTEXT, m_eventCount = 0, m_unscheduledEvents = 0,
      m_impls = []\<rparr>"

section \<open>Event objects\<close>

definition MakeEvent :: "'e \<Rightarrow> 'e simulator \<Rightarrow> nat \<times> 'e simulator" where
  "MakeEvent call \<sigma> = (length (m_impls \<sigma>), \<sigma>\<lparr>m_impls := m_impls \<sigma> @ [(call, False)]\<rparr>)"

definition EventImpl_Cancel :: "nat \<Rightarrow> 'e simulator \<Rightarrow> 'e simulator" where
  "EventImpl_Cancel i \<sigma> = \<sigma>\<lparr>m_impls := (m_impls \<sigma>)[i := (fst (m_impls \<sigma> ! i), True)]\<rparr>"

definition IsCancelled :: "nat \<Rightarrow> 'e simulator \<Rightarrow> bool" where
  "IsCancelled i \<sigma> = snd (m_impls \<sigma> ! i)"

definition EventImpl_Invoke ::
  "('e \<Rightarrow> 'w \<times> 'e simulator \<Rightarrow> ('w \<times> 'e simulator) res) \<Rightarrow> nat \<Rightarrow> 'w \<times> 'e simulator \<Rightarrow>
   ('w \<times> 'e simulator) res" where
  "EventImpl_Invoke notify i s =
     (if length (m_impls (snd s)) \<le> i then Inl (Undefined ''dangling EventImpl'')
      else if \<not> IsCancelled i (snd s) then notify (fst (m_impls (snd s) ! i)) s else Inr s)"

section \<open>Scheduling\<close>

text \<open>
  \<open>tAbsolute\<close> is a sum of two 64-bit signed times, whose overflow is undefined.
\<close>

definition absolute_time :: "sim_time \<Rightarrow> 'e simulator \<Rightarrow> u64 res" where
  "absolute_time delay \<sigma> =
     (let tAbsolute = delay + sint (m_currentTs \<sigma>) in
      if - (2 ^ 63) \<le> tAbsolute \<and> tAbsolute < 2 ^ 63 then Inr (of_int tAbsolute)
      else Inl (Undefined ''signed overflow of a Time''))"

definition insert_event :: "nat \<Rightarrow> u64 \<Rightarrow> u32 \<Rightarrow> 'e simulator \<Rightarrow> 'e simulator res" where
  "insert_event event ts context_id \<sigma> =
     (let ev = \<lparr>ev_impl = event, ev_key = \<lparr>m_ts = ts, m_uid = sim_uid \<sigma>, m_context = context_id\<rparr>\<rparr> in
      res_bind (sched_Insert ev (m_events \<sigma>)) (\<lambda>events.
      Inr (\<sigma>\<lparr>sim_uid := sim_uid \<sigma> + 1, m_unscheduledEvents := m_unscheduledEvents \<sigma> + 1,
             m_events := events\<rparr>)))"

definition Schedule :: "bool \<Rightarrow> sim_time \<Rightarrow> nat \<Rightarrow> 'e simulator \<Rightarrow> (event_id \<times> 'e simulator) res" where
  "Schedule main_thread delay event \<sigma> =
     (if \<not> main_thread then Inl (AssertFailed ''Simulator::Schedule Thread-unsafe invocation!'')
      else if delay < 0 then Inl (AssertFailed ''DefaultSimulatorImpl::Schedule(): Negative delay'')
      else
        res_bind (absolute_time delay \<sigma>) (\<lambda>ts.
        res_bind (insert_event event ts (m_currentContext \<sigma>) \<sigma>) (\<lambda>\<sigma>'.
        Inr (\<lparr>m_eventImpl = Some event, id_ts = ts, id_context = m_currentContext \<sigma>,
              id_uid = sim_uid \<sigma>\<rparr>, \<sigma>'))))"

definition ScheduleWithContext :: "bool \<Rightarrow> u32 \<Rightarrow> sim_time \<Rightarrow> nat \<Rightarrow> 'e simulator \<Rightarrow> 'e simulator res" where
  "ScheduleWithContext main_thread context_id delay event \<sigma> =
     (if main_thread then
        res_bind (absolute_time delay \<sigma>) (\<lambda>ts. insert_event event ts context_id \<sigma>)
      else
        Inr (\<sigma>\<lparr>m_eventsWithContext := m_eventsWithContext \<sigma> @
                 [\<lparr>ewc_context = context_id, ewc_timestamp = of_int delay, ewc_event = event\<rparr>],
               m_eventsWithContextEmpty := False\<rparr>))"

definition ScheduleNow :: "bool \<Rightarrow> nat \<Rightarrow> 'e simulator \<Rightarrow> (event_id \<times> 'e simulator) res" where
  "ScheduleNow main_thread event \<sigma> =
     (if \<not> main_thread then Inl (AssertFailed ''Simulator::ScheduleNow Thread-unsafe invocation!'')
      else Schedule main_thread 0 event \<sigma>)"

definition ScheduleDestroy :: "bool \<Rightarrow> nat \<Rightarrow> 'e simulator \<Rightarrow> (event_id \<times> 'e simulator) res" where
  "ScheduleDestroy main_thread event \<sigma> =
     (if \<not> main_thread then Inl (AssertFailed ''Simulator::ScheduleDestroy Thread-unsafe invocation!'')
      else
        (let ident = \<lparr>m_eventImpl = Some event, id_ts = m_currentTs \<sigma>, id_context = 0xffffffff,
                      id_uid = 2\<rparr>
         in Inr (ident, \<sigma>\<lparr>m_destroyEvents := m_destroyEvents \<sigma> @ [ident],
                          sim_uid := sim_uid \<sigma> + 1\<rparr>)))"

text \<open>\<open>Simulator::Schedule\<close> of a call makes the \<open>EventImpl\<close> and schedules it.\<close>

definition Simulator_Schedule :: "sim_time \<Rightarrow> 'e \<Rightarrow> 'e simulator \<Rightarrow> (event_id \<times> 'e simulator) res" where
  "Simulator_Schedule delay call \<sigma> = (let (event, \<sigma>) = MakeEvent call \<sigma> in Schedule True delay event \<sigma>)"

section \<open>Cancelling\<close>

definition IsExpired :: "event_id \<Rightarrow> 'e simulator \<Rightarrow> bool" where
  "IsExpired ident \<sigma> =
     (if id_uid ident = UID_DESTROY then
        (case m_eventImpl ident of
           None \<Rightarrow> True
         | Some i \<Rightarrow> IsCancelled i \<sigma> \<or> ident \<notin> set (m_destroyEvents \<sigma>))
      else
        (case m_eventImpl ident of
           None \<Rightarrow> True
         | Some i \<Rightarrow>
             id_ts ident < m_currentTs \<sigma> \<or>
             (id_ts ident = m_currentTs \<sigma> \<and> id_uid ident \<le> m_currentUid \<sigma>) \<or> IsCancelled i \<sigma>))"

definition GetDelayLeft :: "event_id \<Rightarrow> 'e simulator \<Rightarrow> sim_time" where
  "GetDelayLeft ident \<sigma> =
     (if IsExpired ident \<sigma> then 0 else sint (id_ts ident - m_currentTs \<sigma>))"

definition Sim_Cancel :: "event_id \<Rightarrow> 'e simulator \<Rightarrow> 'e simulator" where
  "Sim_Cancel ident \<sigma> =
     (if \<not> IsExpired ident \<sigma> then
        (case m_eventImpl ident of None \<Rightarrow> \<sigma> | Some i \<Rightarrow> EventImpl_Cancel i \<sigma>)
      else \<sigma>)"

definition Sim_Remove :: "event_id \<Rightarrow> 'e simulator \<Rightarrow> 'e simulator res" where
  "Sim_Remove ident \<sigma> =
     (if id_uid ident = UID_DESTROY then
        Inr (\<sigma>\<lparr>m_destroyEvents := remove1 ident (m_destroyEvents \<sigma>)\<rparr>)
      else if IsExpired ident \<sigma> then Inr \<sigma>
      else
        (case m_eventImpl ident of
           None \<Rightarrow> Inr \<sigma>
         | Some i \<Rightarrow>
             (let event = \<lparr>ev_impl = i, ev_key = \<lparr>m_ts = id_ts ident, m_uid = id_uid ident,
                                                  m_context = id_context ident\<rparr>\<rparr>
              in res_bind (sched_Remove event (m_events \<sigma>)) (\<lambda>events.
                 Inr ((EventImpl_Cancel i (\<sigma>\<lparr>m_events := events\<rparr>))
                        \<lparr>m_unscheduledEvents := m_unscheduledEvents \<sigma> - 1\<rparr>)))))"

section \<open>Running\<close>

definition context_event :: "event_with_context \<Rightarrow> 'e simulator \<Rightarrow> 'e simulator res" where
  "context_event event \<sigma> =
     insert_event (ewc_event event) (m_currentTs \<sigma> + ewc_timestamp event) (ewc_context event) \<sigma>"

definition ProcessEventsWithContext :: "'e simulator \<Rightarrow> 'e simulator res" where
  "ProcessEventsWithContext \<sigma> =
     (if m_eventsWithContextEmpty \<sigma> then Inr \<sigma>
      else
        (let eventsWithContext = m_eventsWithContext \<sigma> in
         res_fold context_event eventsWithContext
           (\<sigma>\<lparr>m_eventsWithContext := [], m_eventsWithContextEmpty := True\<rparr>)))"

definition take_event :: "event \<Rightarrow> scheduler \<Rightarrow> 'e simulator \<Rightarrow> 'e simulator" where
  "take_event ev events \<sigma> =
     \<sigma>\<lparr>m_events := events, m_unscheduledEvents := m_unscheduledEvents \<sigma> - 1,
       m_eventCount := m_eventCount \<sigma> + 1, m_currentTs := m_ts (ev_key ev),
       m_currentContext := m_context (ev_key ev), m_currentUid := m_uid (ev_key ev)\<rparr>"

definition ProcessOneEvent ::
  "('e \<Rightarrow> 'w \<times> 'e simulator \<Rightarrow> ('w \<times> 'e simulator) res) \<Rightarrow> 'w \<times> 'e simulator \<Rightarrow>
   ('w \<times> 'e simulator) res" where
  "ProcessOneEvent notify s =
     (case s of (w, \<sigma>) \<Rightarrow>
        res_bind (sched_RemoveNext (m_events \<sigma>)) (\<lambda>(ev, events).
        if \<not> m_currentTs \<sigma> \<le> m_ts (ev_key ev) then
          Inl (AssertFailed ''next.key.m_ts >= m_currentTs'')
        else
          res_bind (EventImpl_Invoke notify (ev_impl ev) (w, take_event ev events \<sigma>)) (\<lambda>(w, \<sigma>).
          res_bind (ProcessEventsWithContext \<sigma>) (\<lambda>\<sigma>. Inr (w, \<sigma>)))))"

definition IsFinished :: "'e simulator \<Rightarrow> bool" where
  "IsFinished \<sigma> = (sched_IsEmpty (m_events \<sigma>) \<or> m_stop \<sigma>)"

text \<open>The loop of \<open>Run\<close> may never end: then the result is \<open>None\<close>.\<close>

partial_function (option) Run_loop ::
  "('e \<Rightarrow> 'w \<times> 'e simulator \<Rightarrow> ('w \<times> 'e simulator) res) \<Rightarrow> 'w \<times> 'e simulator \<Rightarrow>
   ('w \<times> 'e simulator) res option" where
  "Run_loop notify s =
     (if IsFinished (snd s) then Some (Inr s)
      else
        (case ProcessOneEvent notify s of
           Inl e \<Rightarrow> Some (Inl e)
         | Inr s' \<Rightarrow> Run_loop notify s'))"

definition Run_check :: "'w \<times> 'e simulator \<Rightarrow> ('w \<times> 'e simulator) res" where
  "Run_check s =
     (if \<not> sched_IsEmpty (m_events (snd s)) \<or> m_unscheduledEvents (snd s) = 0 then Inr s
      else Inl (AssertFailed ''!m_events->IsEmpty() || m_unscheduledEvents == 0''))"

definition Sim_Run ::
  "('e \<Rightarrow> 'w \<times> 'e simulator \<Rightarrow> ('w \<times> 'e simulator) res) \<Rightarrow> 'w \<times> 'e simulator \<Rightarrow>
   ('w \<times> 'e simulator) res option" where
  "Sim_Run notify s =
     (case ProcessEventsWithContext (snd s) of
        Inl e \<Rightarrow> Some (Inl e)
      | Inr \<sigma> \<Rightarrow> map_option (\<lambda>r. res_bind r Run_check) (Run_loop notify (fst s, \<sigma>\<lparr>m_stop := False\<rparr>)))"

definition Sim_Stop :: "'e simulator \<Rightarrow> 'e simulator" where
  "Sim_Stop \<sigma> = \<sigma>\<lparr>m_stop := True\<rparr>"

fun Sim_Destroy ::
  "('e \<Rightarrow> 'w \<times> 'e simulator \<Rightarrow> ('w \<times> 'e simulator) res) \<Rightarrow> nat \<Rightarrow> 'w \<times> 'e simulator \<Rightarrow>
   ('w \<times> 'e simulator) res option" where
  "Sim_Destroy notify 0 s = None"
| "Sim_Destroy notify (Suc fuel) s =
     (case m_destroyEvents (snd s) of
        [] \<Rightarrow> Some (Inr s)
      | ident # rest \<Rightarrow>
          (case m_eventImpl ident of
             None \<Rightarrow> Some (Inl (Undefined ''null EventImpl''))
           | Some i \<Rightarrow>
               (case EventImpl_Invoke notify i (fst s, (snd s)\<lparr>m_destroyEvents := rest\<rparr>) of
                  Inl e \<Rightarrow> Some (Inl e)
                | Inr s \<Rightarrow> Sim_Destroy notify fuel s)))"

definition Sim_Now :: "'e simulator \<Rightarrow> sim_time" where
  "Sim_Now \<sigma> = sint (m_currentTs \<sigma>)"

text \<open>
  The loop of \<open>SetScheduler\<close>, and of \<open>DoDispose\<close>, empties the schedule: \<open>fuel\<close> bounds its rounds
  (one more than the number of events is enough).
\<close>

fun transfer_events :: "nat \<Rightarrow> scheduler \<Rightarrow> scheduler \<Rightarrow> scheduler res option" where
  "transfer_events 0 from_events to_events = None"
| "transfer_events (Suc fuel) from_events to_events =
     (if sched_IsEmpty from_events then Some (Inr to_events)
      else
        (case sched_RemoveNext from_events of
           Inl e \<Rightarrow> Some (Inl e)
         | Inr (next_event, from_events) \<Rightarrow>
             (case sched_Insert next_event to_events of
                Inl e \<Rightarrow> Some (Inl e)
              | Inr to_events \<Rightarrow> transfer_events fuel from_events to_events)))"

definition SetScheduler :: "nat \<Rightarrow> scheduler \<Rightarrow> 'e simulator \<Rightarrow> 'e simulator res option" where
  "SetScheduler fuel scheduler \<sigma> =
     map_option (\<lambda>r. res_bind r (\<lambda>events. Inr (\<sigma>\<lparr>m_events := events\<rparr>)))
       (transfer_events fuel (m_events \<sigma>) scheduler)"

fun dispose_events :: "nat \<Rightarrow> scheduler \<Rightarrow> scheduler res option" where
  "dispose_events 0 events = None"
| "dispose_events (Suc fuel) events =
     (if sched_IsEmpty events then Some (Inr events)
      else
        (case sched_RemoveNext events of
           Inl e \<Rightarrow> Some (Inl e)
         | Inr (next_event, events) \<Rightarrow> dispose_events fuel events))"

definition Sim_DoDispose :: "nat \<Rightarrow> 'e simulator \<Rightarrow> 'e simulator res option" where
  "Sim_DoDispose fuel \<sigma> =
     (case ProcessEventsWithContext \<sigma> of
        Inl e \<Rightarrow> Some (Inl e)
      | Inr \<sigma> \<Rightarrow>
          map_option (\<lambda>r. res_bind r (\<lambda>events. Inr (\<sigma>\<lparr>m_events := events\<rparr>)))
            (dispose_events fuel (m_events \<sigma>)))"

section \<open>The invariant\<close>

text \<open>
  What holds between two events when only the main thread schedules, as in the program: the
  pending events lie at or after the current one in the order of the schedule, their identifiers
  have been handed out and are still unique, and the counter of pending events is right.
\<close>

definition after_current :: "'e simulator \<Rightarrow> event \<Rightarrow> bool" where
  "after_current \<sigma> ev \<longleftrightarrow>
     m_currentTs \<sigma> < ev_ts ev \<or> (m_currentTs \<sigma> = ev_ts ev \<and> m_currentUid \<sigma> < ev_uid ev)"

definition sim_inv :: "'e simulator \<Rightarrow> bool" where
  "sim_inv \<sigma> \<longleftrightarrow>
     sched_inv (m_events \<sigma>) \<and> m_eventsWithContextEmpty \<sigma> \<and> m_eventsWithContext \<sigma> = [] \<and>
     (\<forall>ev\<in>#sched_events (m_events \<sigma>).
        after_current \<sigma> ev \<and> UID_VALID \<le> ev_uid ev \<and> ev_uid ev < sim_uid \<sigma> \<and>
        ev_impl ev < length (m_impls \<sigma>)) \<and>
     UID_VALID \<le> sim_uid \<sigma> \<and> m_currentUid \<sigma> < sim_uid \<sigma> \<and>
     m_unscheduledEvents \<sigma> = int (size (sched_events (m_events \<sigma>)))"

lemma sim_inv_init:
  assumes "sched_inv events" and "sched_events events = {#}"
  shows "sim_inv (DefaultSimulatorImpl events)"
  using assms by (simp add: sim_inv_def DefaultSimulatorImpl_def UID_VALID_def UID_INVALID_def)

lemma uid_plus_one:
  fixes u v :: u32
  assumes "u \<noteq> 0xffffffff"
  shows "u < u + 1" and "v < u \<Longrightarrow> v < u + 1" and "v \<le> u \<Longrightarrow> v \<le> u + 1"
proof -
  have "unat u \<noteq> 4294967295"
    using assms word_unat_eq_iff [of u "0xffffffff"] by simp
  then have "unat u + 1 < 4294967296"
    using unat_u32_lt [of u] by linarith
  then have "unat (u + 1) = unat u + 1" by (simp add: unat_u32_add)
  then show "u < u + 1" and "v < u \<Longrightarrow> v < u + 1" and "v \<le> u \<Longrightarrow> v \<le> u + 1"
    by (simp_all add: word_less_nat_alt word_le_nat_alt)
qed

text \<open>The new event comes last among those of its time.\<close>

lemma insert_event_ok:
  assumes I: "sim_inv \<sigma>" and u: "sim_uid \<sigma> \<noteq> 0xffffffff" and t: "m_currentTs \<sigma> \<le> ts"
    and i: "i < length (m_impls \<sigma>)"
  shows "\<exists>events. insert_event i ts c \<sigma> =
      Inr (\<sigma>\<lparr>sim_uid := sim_uid \<sigma> + 1, m_unscheduledEvents := m_unscheduledEvents \<sigma> + 1,
            m_events := events\<rparr>) \<and>
      sched_events events =
        add_mset \<lparr>ev_impl = i, ev_key = \<lparr>m_ts = ts, m_uid = sim_uid \<sigma>, m_context = c\<rparr>\<rparr>
          (sched_events (m_events \<sigma>)) \<and>
      sim_inv (\<sigma>\<lparr>sim_uid := sim_uid \<sigma> + 1, m_unscheduledEvents := m_unscheduledEvents \<sigma> + 1,
            m_events := events\<rparr>)"
proof -
  let ?ev = "\<lparr>ev_impl = i, ev_key = \<lparr>m_ts = ts, m_uid = sim_uid \<sigma>, m_context = c\<rparr>\<rparr>"
  have "fresh_uid (ev_uid ?ev) (sched_events (m_events \<sigma>))"
    using I by (auto simp: sim_inv_def fresh_uid_def)
  then obtain s' where s': "sched_Insert ?ev (m_events \<sigma>) = Inr s'" "sched_inv s'"
      "sched_events s' = add_mset ?ev (sched_events (m_events \<sigma>))"
    using sched.Insert_ok [of "m_events \<sigma>" ?ev] I by (auto simp: sim_inv_def)
  moreover have "after_current \<sigma> ?ev"
    using I t by (auto simp: after_current_def sim_inv_def)
  ultimately show ?thesis
    using I uid_plus_one [OF u] i
    by (intro exI [of _ s']) (auto simp: insert_event_def Let_def sim_inv_def after_current_def)
qed

lemma uint_eq_sint: "0 \<le> sint (t :: u64) \<Longrightarrow> uint t = sint t"
  using uint_lt2p [of t] by (simp add: sint_u64 of_nat_unat split: if_splits)

lemma absolute_time_ok:
  assumes "0 \<le> delay" and "delay + sint (m_currentTs \<sigma>) < 2 ^ 63" and "0 \<le> sint (m_currentTs \<sigma>)"
  shows "absolute_time delay \<sigma> = Inr (of_int (delay + sint (m_currentTs \<sigma>)))"
    and "m_currentTs \<sigma> \<le> of_int (delay + sint (m_currentTs \<sigma>))"
proof -
  let ?t = "delay + sint (m_currentTs \<sigma>)"
  show "absolute_time delay \<sigma> = Inr (of_int ?t)"
    using assms by (simp add: absolute_time_def Let_def)
  have "uint (of_int ?t :: u64) = ?t"
    using assms by (simp only: uint_word_of_int) simp
  then show "m_currentTs \<sigma> \<le> of_int ?t"
    using assms unfolding word_le_def by (simp only: uint_eq_sint)
qed

lemma Simulator_Schedule_ok:
  assumes I: "sim_inv \<sigma>" and u: "sim_uid \<sigma> \<noteq> 0xffffffff" and d: "0 \<le> delay"
    and t: "0 \<le> sint (m_currentTs \<sigma>)" "delay + sint (m_currentTs \<sigma>) < 2 ^ 63"
  shows "\<exists>ident events. Simulator_Schedule delay call \<sigma> =
      Inr (ident, \<sigma>\<lparr>m_impls := m_impls \<sigma> @ [(call, False)], sim_uid := sim_uid \<sigma> + 1,
                    m_unscheduledEvents := m_unscheduledEvents \<sigma> + 1, m_events := events\<rparr>) \<and>
      sched_events events =
        add_mset \<lparr>ev_impl = length (m_impls \<sigma>),
                   ev_key = \<lparr>m_ts = of_int (delay + sint (m_currentTs \<sigma>)), m_uid = sim_uid \<sigma>,
                             m_context = m_currentContext \<sigma>\<rparr>\<rparr>
          (sched_events (m_events \<sigma>)) \<and>
      sim_inv (\<sigma>\<lparr>m_impls := m_impls \<sigma> @ [(call, False)], sim_uid := sim_uid \<sigma> + 1,
                 m_unscheduledEvents := m_unscheduledEvents \<sigma> + 1, m_events := events\<rparr>)"
proof -
  let ?\<sigma> = "\<sigma>\<lparr>m_impls := m_impls \<sigma> @ [(call, False)]\<rparr>"
  have "sim_inv ?\<sigma>" using I by (auto simp: sim_inv_def after_current_def)
  then obtain events where
    ins: "insert_event (length (m_impls \<sigma>)) (of_int (delay + sint (m_currentTs \<sigma>)))
        (m_currentContext \<sigma>) ?\<sigma> =
      Inr (?\<sigma>\<lparr>sim_uid := sim_uid ?\<sigma> + 1, m_unscheduledEvents := m_unscheduledEvents ?\<sigma> + 1,
              m_events := events\<rparr>)"
    and evs: "sched_events events =
        add_mset \<lparr>ev_impl = length (m_impls \<sigma>),
                   ev_key = \<lparr>m_ts = of_int (delay + sint (m_currentTs \<sigma>)), m_uid = sim_uid ?\<sigma>,
                             m_context = m_currentContext \<sigma>\<rparr>\<rparr>
          (sched_events (m_events ?\<sigma>))"
    and inv: "sim_inv (?\<sigma>\<lparr>sim_uid := sim_uid ?\<sigma> + 1,
              m_unscheduledEvents := m_unscheduledEvents ?\<sigma> + 1, m_events := events\<rparr>)"
    using insert_event_ok [of ?\<sigma> "of_int (delay + sint (m_currentTs \<sigma>))" "length (m_impls \<sigma>)"
        "m_currentContext \<sigma>"] u absolute_time_ok(2) [OF d t(2,1)] by auto
  have "absolute_time delay ?\<sigma> = Inr (of_int (delay + sint (m_currentTs \<sigma>)))"
    using absolute_time_ok(1) [OF d t(2,1)] by (simp add: absolute_time_def)
  then show ?thesis
    using ins evs inv d
    by (auto simp: Simulator_Schedule_def MakeEvent_def Schedule_def simp del: of_int_add)
qed

lemma take_event_inv:
  assumes I: "sim_inv \<sigma>" and r: "sched_RemoveNext (m_events \<sigma>) = Inr (ev, events)"
    and ne: "sched_events (m_events \<sigma>) \<noteq> {#}"
  shows "sim_inv (take_event ev events \<sigma>) \<and> after_current \<sigma> ev \<and>
         first_event (sched_events (m_events \<sigma>)) ev \<and> ev \<in># sched_events (m_events \<sigma>) \<and>
         sched_events events = sched_events (m_events \<sigma>) - {#ev#}"
proof -
  have S: "sched_inv (m_events \<sigma>)" using I by (simp add: sim_inv_def)
  then have o: "first_event (sched_events (m_events \<sigma>)) ev" "sched_inv events"
      "sched_events events = sched_events (m_events \<sigma>) - {#ev#}"
    using sched.RemoveNext_ok [OF S ne] r by auto
  then have ev: "ev \<in># sched_events (m_events \<sigma>)" by (simp add: first_event_def)
  have "after_current (take_event ev events \<sigma>) x" if "x \<in># sched_events events" for x
  proof -
    have x: "x \<in># sched_events (m_events \<sigma>) - {#ev#}" using that o by simp
    then have "ev_uid x \<noteq> ev_uid ev"
      using sched.inv_uids [OF S] ev unfolding uids_unique_def by blast
    moreover have "\<not> event_less x ev"
      using o(1) in_diffD [OF x] by (simp add: first_event_def)
    ultimately show ?thesis
      using event_less_linear [of x ev] by (auto simp: after_current_def take_event_def event_less_def')
  qed
  moreover have "int (size (sched_events (m_events \<sigma>))) =
      int (size (sched_events (m_events \<sigma>) - {#ev#})) + 1"
    using size_Suc_Diff1 [OF ev] by linarith
  ultimately show ?thesis
    using I o ev in_diffD [of _ "sched_events (m_events \<sigma>)" "{#ev#}"]
    by (auto simp: sim_inv_def take_event_def simp del: size_Diff_singleton)
qed

section \<open>Clients of the simulator\<close>

text \<open>
  What the calls made by events owe the simulator, with \<open>W b\<close> their own invariant while at most \<open>b\<close>
  more events are processed: they return, they change the schedule by the operations of the
  simulator only and leave its clock alone. Then every event is processed without a failed
  assertion, at a later time or later at the same time.
\<close>

locale simulator_client =
  fixes notify :: "'e \<Rightarrow> 'w \<times> 'e simulator \<Rightarrow> ('w \<times> 'e simulator) res"
    and W :: "nat \<Rightarrow> 'w \<Rightarrow> 'e simulator \<Rightarrow> bool"
  assumes notify_ok: "W (Suc b) w \<sigma> \<Longrightarrow> sim_inv \<sigma> \<Longrightarrow> sched_events (m_events \<sigma>) \<noteq> {#} \<Longrightarrow>
      sched_RemoveNext (m_events \<sigma>) = Inr (ev, events) \<Longrightarrow> \<not> IsCancelled (ev_impl ev) \<sigma> \<Longrightarrow>
      \<exists>w' \<sigma>'. notify (fst (m_impls \<sigma> ! ev_impl ev)) (w, take_event ev events \<sigma>) = Inr (w', \<sigma>') \<and>
              W b w' \<sigma>' \<and> sim_inv \<sigma>' \<and> m_currentTs \<sigma>' = ev_ts ev \<and> m_currentUid \<sigma>' = ev_uid ev"
    and skip_ok: "W (Suc b) w \<sigma> \<Longrightarrow> sim_inv \<sigma> \<Longrightarrow> sched_events (m_events \<sigma>) \<noteq> {#} \<Longrightarrow>
      sched_RemoveNext (m_events \<sigma>) = Inr (ev, events) \<Longrightarrow> IsCancelled (ev_impl ev) \<sigma> \<Longrightarrow>
      W b w (take_event ev events \<sigma>)"
begin

lemma process_ok:
  assumes W: "W (Suc b) w \<sigma>" and I: "sim_inv \<sigma>" and ne: "sched_events (m_events \<sigma>) \<noteq> {#}"
  shows "\<exists>w' \<sigma>' ev. ProcessOneEvent notify (w, \<sigma>) = Inr (w', \<sigma>') \<and> W b w' \<sigma>' \<and> sim_inv \<sigma>' \<and>
           first_event (sched_events (m_events \<sigma>)) ev \<and> after_current \<sigma> ev \<and>
           m_currentTs \<sigma>' = ev_ts ev \<and> m_currentUid \<sigma>' = ev_uid ev"
proof -
  obtain ev events where r: "sched_RemoveNext (m_events \<sigma>) = Inr (ev, events)"
    using sched.RemoveNext_ok [OF _ ne] I by (auto simp: sim_inv_def)
  note t = take_event_inv [OF I r ne]
  have same: "IsCancelled (ev_impl ev) (take_event ev events \<sigma>) = IsCancelled (ev_impl ev) \<sigma>"
      "m_impls (take_event ev events \<sigma>) = m_impls \<sigma>" "\<not> length (m_impls \<sigma>) \<le> ev_impl ev"
    using t I by (auto simp: IsCancelled_def take_event_def sim_inv_def)
  obtain w' \<sigma>' where s: "EventImpl_Invoke notify (ev_impl ev) (w, take_event ev events \<sigma>) = Inr (w', \<sigma>')"
      "W b w' \<sigma>'" "sim_inv \<sigma>'" "m_currentTs \<sigma>' = ev_ts ev" "m_currentUid \<sigma>' = ev_uid ev"
  proof (cases "IsCancelled (ev_impl ev) \<sigma>")
    case True
    then show ?thesis
      using that [of w "take_event ev events \<sigma>"] skip_ok [OF W I ne r] t same
      by (simp add: EventImpl_Invoke_def take_event_def)
  next
    case False
    then show ?thesis
      using that notify_ok [OF W I ne r] same by (auto simp: EventImpl_Invoke_def)
  qed
  moreover have "ProcessEventsWithContext \<sigma>' = Inr \<sigma>'"
    using s(3) by (simp add: ProcessEventsWithContext_def sim_inv_def)
  moreover have "m_currentTs \<sigma> \<le> ev_ts ev" using t by (auto simp: after_current_def)
  ultimately show ?thesis using t r by (auto simp: ProcessOneEvent_def)
qed

end

text \<open>The first \<open>n\<close> rounds of the loop of \<open>Run\<close>.\<close>

fun sim_rounds ::
  "('e \<Rightarrow> 'w \<times> 'e simulator \<Rightarrow> ('w \<times> 'e simulator) res) \<Rightarrow> nat \<Rightarrow> 'w \<times> 'e simulator \<Rightarrow>
   ('w \<times> 'e simulator) res" where
  "sim_rounds notify 0 s = Inr s"
| "sim_rounds notify (Suc n) s =
     (if IsFinished (snd s) then Inr s
      else res_bind (ProcessOneEvent notify s) (sim_rounds notify n))"

lemma Run_loop_rounds:
  assumes "sim_rounds notify n s = Inr s'" and "IsFinished (snd s')"
  shows "Run_loop notify s = Some (Inr s')"
  using assms
proof (induction n arbitrary: s)
  case 0
  then show ?case by (simp add: Run_loop.simps)
next
  case (Suc n)
  show ?case
  proof (cases "IsFinished (snd s)")
    case True
    then show ?thesis using Suc.prems by (simp add: Run_loop.simps)
  next
    case False
    then obtain s1 where "ProcessOneEvent notify s = Inr s1" "sim_rounds notify n s1 = Inr s'"
      using Suc.prems(1) by (auto simp: res_bind_Inr_iff)
    then show ?thesis using Suc.IH Suc.prems(2) False by (subst Run_loop.simps) simp
  qed
qed

context simulator_client
begin

lemma rounds_ok:
  assumes "W (n + b) w \<sigma>" and "sim_inv \<sigma>"
  shows "\<exists>w' \<sigma>' b'. sim_rounds notify n (w, \<sigma>) = Inr (w', \<sigma>') \<and> W b' w' \<sigma>' \<and> sim_inv \<sigma>' \<and>
    b \<le> b' \<and> (b = b' \<or> IsFinished \<sigma>')"
  using assms
proof (induction n arbitrary: w \<sigma>)
  case 0
  then show ?case by auto
next
  case (Suc n)
  show ?case
  proof (cases "IsFinished \<sigma>")
    case True
    then show ?thesis using Suc.prems by (intro exI [of _ w] exI [of _ \<sigma>] exI [of _ "Suc n + b"]) simp
  next
    case False
    then have "sched_events (m_events \<sigma>) \<noteq> {#}"
      using Suc.prems(2) sched.IsEmpty_iff by (auto simp: IsFinished_def sim_inv_def)
    then obtain w1 \<sigma>1 where "ProcessOneEvent notify (w, \<sigma>) = Inr (w1, \<sigma>1)" "W (n + b) w1 \<sigma>1" "sim_inv \<sigma>1"
      using process_ok [of "n + b" w \<sigma>] Suc.prems by auto
    then show ?thesis using Suc.IH [of w1 \<sigma>1] False by simp
  qed
qed

lemma Run_check_ok: "sim_inv \<sigma> \<Longrightarrow> Run_check (w, \<sigma>) = Inr (w, \<sigma>)"
  using sched.IsEmpty_iff by (auto simp: Run_check_def sim_inv_def)

end

text \<open>
  When an exhausted budget means that no event is pending, the loop of \<open>Run\<close> ends, within as many
  rounds as the budget, and the consistency test after it succeeds.
\<close>

locale terminating_client = simulator_client +
  assumes exhausted: "W 0 w \<sigma> \<Longrightarrow> sim_inv \<sigma> \<Longrightarrow> sched_events (m_events \<sigma>) = {#}"
begin

lemma Run_ok:
  assumes "W b w (\<sigma>\<lparr>m_stop := False\<rparr>)" and "sim_inv \<sigma>"
  shows "\<exists>w' \<sigma>' b'. Sim_Run notify (w, \<sigma>) = Some (Inr (w', \<sigma>')) \<and> IsFinished \<sigma>' \<and> W b' w' \<sigma>' \<and> sim_inv \<sigma>'"
proof -
  have I: "sim_inv (\<sigma>\<lparr>m_stop := False\<rparr>)" using assms(2) by (simp add: sim_inv_def after_current_def)
  obtain w' \<sigma>' b' where r: "sim_rounds notify b (w, \<sigma>\<lparr>m_stop := False\<rparr>) = Inr (w', \<sigma>')" "W b' w' \<sigma>'"
      "sim_inv \<sigma>'" "0 = b' \<or> IsFinished \<sigma>'"
    using rounds_ok [of b 0 w, OF _ I] assms(1) by auto
  have f: "IsFinished \<sigma>'"
    using r sched.IsEmpty_iff exhausted by (auto simp: IsFinished_def sim_inv_def)
  have "ProcessEventsWithContext \<sigma> = Inr \<sigma>"
    using assms(2) by (simp add: ProcessEventsWithContext_def sim_inv_def)
  then have "Sim_Run notify (w, \<sigma>) = Some (Inr (w', \<sigma>'))"
    using Run_loop_rounds [OF r(1)] f Run_check_ok [OF r(3)] by (simp add: Sim_Run_def)
  then show ?thesis using f r by blast
qed

end

section \<open>Properties\<close>

definition keeps_clock ::
  "('e \<Rightarrow> 'w \<times> 'e simulator \<Rightarrow> ('w \<times> 'e simulator) res) \<Rightarrow> bool" where
  "keeps_clock notify \<longleftrightarrow>
     (\<forall>call w \<sigma>. sim_inv \<sigma> \<longrightarrow>
        (\<exists>w' \<sigma>'. notify call (w, \<sigma>) = Inr (w', \<sigma>') \<and> sim_inv \<sigma>' \<and>
                 m_currentTs \<sigma>' = m_currentTs \<sigma> \<and> m_currentUid \<sigma>' = m_currentUid \<sigma>))"

lemma keeps_clock_client:
  assumes "keeps_clock notify"
  shows "simulator_client notify (\<lambda>b w \<sigma>. True)"
proof
  fix w and \<sigma> :: "'a simulator" and ev events
  assume I: "sim_inv \<sigma>" and ne: "sched_events (m_events \<sigma>) \<noteq> {#}"
    and r: "sched_RemoveNext (m_events \<sigma>) = Inr (ev, events)"
  obtain w' \<sigma>' where "notify (fst (m_impls \<sigma> ! ev_impl ev)) (w, take_event ev events \<sigma>) = Inr (w', \<sigma>')"
      "sim_inv \<sigma>'" "m_currentTs \<sigma>' = m_currentTs (take_event ev events \<sigma>)"
      "m_currentUid \<sigma>' = m_currentUid (take_event ev events \<sigma>)"
    using assms take_event_inv [OF I r ne] unfolding keeps_clock_def by blast
  then show "\<exists>w' \<sigma>'. notify (fst (m_impls \<sigma> ! ev_impl ev)) (w, take_event ev events \<sigma>) = Inr (w', \<sigma>') \<and>
      True \<and> sim_inv \<sigma>' \<and> m_currentTs \<sigma>' = ev_ts ev \<and> m_currentUid \<sigma>' = ev_uid ev"
    by (simp add: take_event_def)
qed simp


definition record_call :: "nat \<Rightarrow> nat list \<times> nat simulator \<Rightarrow> (nat list \<times> nat simulator) res" where
  "record_call call s = Inr (fst s @ [call], snd s)"

definition schedule_all :: "(sim_time \<times> 'e) list \<Rightarrow> 'e simulator \<Rightarrow> 'e simulator res" where
  "schedule_all = res_fold (\<lambda>(delay, call) \<sigma>. res_bind (Simulator_Schedule delay call \<sigma>) (\<lambda>(ident, \<sigma>). Inr \<sigma>))"

lemma keeps_clock_record_call: "keeps_clock record_call"
  by (simp add: keeps_clock_def record_call_def)

definition sample_sim :: "nat simulator" where
  "sample_sim = (case schedule_all [(5, 1), (3, 2), (3, 3)] (DefaultSimulatorImpl (MapS [])) of
     Inr \<sigma> \<Rightarrow> \<sigma> | Inl e \<Rightarrow> DefaultSimulatorImpl (MapS []))"

lemma sample_sim_events:
  "m_events sample_sim = MapS
      [(\<lparr>m_ts = 3, m_uid = 5, m_context = 0xffffffff\<rparr>, 1), (\<lparr>m_ts = 3, m_uid = 6, m_context = 0xffffffff\<rparr>, 2),
       (\<lparr>m_ts = 5, m_uid = 4, m_context = 0xffffffff\<rparr>, 0)]"
  by code_simp

lemma sample_sim_ok:
  "sim_inv sample_sim"
  "sched_events (m_events sample_sim) \<noteq> {#}"
proof -
  have "m_currentTs sample_sim = 0 \<and> m_currentUid sample_sim = 0 \<and> sim_uid sample_sim = 7 \<and>
      length (m_impls sample_sim) = 3 \<and> m_unscheduledEvents sample_sim = 3 \<and>
      m_eventsWithContextEmpty sample_sim \<and> m_eventsWithContext sample_sim = []"
    by code_simp
  then show "sim_inv sample_sim"
    by (auto simp: sample_sim_events sim_inv_def list_sched_inv_def event_less_def' after_current_def
        UID_VALID_def)
  show "sched_events (m_events sample_sim) \<noteq> {#}" by (simp add: sample_sim_events)
qed


text \<open>
  C19. The schedulers are interchangeable as far as insertion and the removal of the next event go:
  whatever the order in which events with distinct identifiers are inserted, the map, the list, the
  heap and the priority queue hand all of them out in the one order by time and identifier.
\<close>

theorem schedulers_agree:
  assumes "distinct (map ev_uid es)"
  shows "\<exists>xs. sorted_wrt event_less xs \<and> mset xs = mset es \<and>
           (\<forall>s\<in>{MapS [], ListS [], HeapS HeapScheduler, PriorityQueueS []}.
              res_bind (res_fold sched_Insert es s)
                (drain_events sched_RemoveNext sched_IsEmpty (length es)) = Inr xs)"
proof -
  have each: "\<exists>xs. sorted_wrt event_less xs \<and> mset xs = mset es \<and>
      res_bind (res_fold sched_Insert es s)
        (drain_events sched_RemoveNext sched_IsEmpty (length es)) = Inr xs"
    if s: "s \<in> {MapS [], ListS [], HeapS HeapScheduler, PriorityQueueS []}" for s
  proof -
    have inv: "sched_inv s" "sched_events s = {#}"
      using s heap_inv_HeapScheduler by (auto simp: list_sched_inv_def HeapScheduler_def)
    then obtain s' where s': "res_fold sched_Insert es s = Inr s'" "sched_inv s'" "sched_events s' = mset es"
      using sched.insert_all_ok [of s es] assms by (auto simp: uids_unique_mset)
    then show ?thesis
      using sched.drain_sorted [OF s'(2), of "length es"] by auto
  qed
  obtain xs where xs: "sorted_wrt event_less xs" "mset xs = mset es"
    using each [of "MapS []"] by auto
  have "res_bind (res_fold sched_Insert es s)
      (drain_events sched_RemoveNext sched_IsEmpty (length es)) = Inr xs"
    if "s \<in> {MapS [], ListS [], HeapS HeapScheduler, PriorityQueueS []}" for s
    using each [OF that] xs sorted_events_unique by metis
  then show ?thesis using xs by blast
qed

theorem schedulers_agree_witness:
  "\<exists>xs. sorted_wrt event_less xs \<and> mset xs = mset (map event_at [4, 9, 2]) \<and>
     (\<forall>s\<in>{MapS [], ListS [], HeapS HeapScheduler, PriorityQueueS []}.
        res_bind (res_fold sched_Insert (map event_at [4, 9, 2]) s)
          (drain_events sched_RemoveNext sched_IsEmpty (length (map event_at [4, 9, 2]))) = Inr xs)"
  by (rule schedulers_agree) (simp add: event_at_def)

text \<open>
  C21. Removing a pending event works with every scheduler but the heap: the event leaves the
  schedule, the others stay, the counter is adjusted, the invariant holds and the identifier is
  expired from then on.
\<close>

theorem Sim_Remove_pending:
  assumes I: "sim_inv \<sigma>" and h: "\<not> is_heap (m_events \<sigma>)" and ev: "ev \<in># sched_events (m_events \<sigma>)"
    and c: "\<not> IsCancelled (ev_impl ev) \<sigma>"
    and ident: "ident = \<lparr>m_eventImpl = Some (ev_impl ev), id_ts = ev_ts ev,
                         id_context = m_context (ev_key ev), id_uid = ev_uid ev\<rparr>"
  shows "\<exists>\<sigma>'. Sim_Remove ident \<sigma> = Inr \<sigma>' \<and> sim_inv \<sigma>' \<and> IsExpired ident \<sigma>' \<and>
           sched_events (m_events \<sigma>') = sched_events (m_events \<sigma>) - {#ev#} \<and>
           m_unscheduledEvents \<sigma>' = m_unscheduledEvents \<sigma> - 1"
proof -
  have e: "after_current \<sigma> ev" "UID_VALID \<le> ev_uid ev" "ev_impl ev < length (m_impls \<sigma>)"
    using I ev by (auto simp: sim_inv_def)
  then have d: "ev_uid ev \<noteq> UID_DESTROY" by (auto simp: UID_VALID_def UID_DESTROY_def word_le_nat_alt)
  have x: "\<not> IsExpired ident \<sigma>" using e c d by (auto simp: IsExpired_def ident after_current_def)
  obtain s' where s': "sched_Remove ev (m_events \<sigma>) = Inr s'" "sched_inv s'"
      "sched_events s' = sched_events (m_events \<sigma>) - {#ev#}"
    using sched_removable.Remove_ok [of "m_events \<sigma>" ev] I h ev by (auto simp: sim_inv_def)
  have surj: "\<lparr>ev_impl = ev_impl ev, ev_key = \<lparr>m_ts = ev_ts ev, m_uid = ev_uid ev,
      m_context = m_context (ev_key ev)\<rparr>\<rparr> = ev" by simp
  let ?\<sigma> = "(EventImpl_Cancel (ev_impl ev) (\<sigma>\<lparr>m_events := s'\<rparr>))
      \<lparr>m_unscheduledEvents := m_unscheduledEvents \<sigma> - 1\<rparr>"
  have "Sim_Remove ident \<sigma> = Inr ?\<sigma>"
    using x d s'(1) by (simp add: Sim_Remove_def ident Let_def surj)
  moreover have "IsExpired ident ?\<sigma>"
    using e d by (simp add: IsExpired_def ident IsCancelled_def EventImpl_Cancel_def)
  moreover have "int (size (sched_events (m_events \<sigma>))) = int (size (sched_events s')) + 1"
    using size_Suc_Diff1 [OF ev] unfolding s'(3) by linarith
  then have "sim_inv ?\<sigma>"
    using I s' in_diffD [of _ "sched_events (m_events \<sigma>)" "{#ev#}"]
    by (auto simp: sim_inv_def EventImpl_Cancel_def after_current_def simp del: size_Diff_singleton)
  ultimately show ?thesis using s'(3) by (auto simp: EventImpl_Cancel_def)
qed

theorem Sim_Remove_pending_witness:
  "\<exists>\<sigma>'. Sim_Remove \<lparr>m_eventImpl = Some 1, id_ts = 3, id_context = 0xffffffff, id_uid = 5\<rparr> sample_sim = Inr \<sigma>' \<and>
     sim_inv \<sigma>' \<and> IsExpired \<lparr>m_eventImpl = Some 1, id_ts = 3, id_context = 0xffffffff, id_uid = 5\<rparr> \<sigma>' \<and>
     sched_events (m_events \<sigma>') = sched_events (m_events sample_sim) -
       {#\<lparr>ev_impl = 1, ev_key = \<lparr>m_ts = 3, m_uid = 5, m_context = 0xffffffff\<rparr>\<rparr>#} \<and>
     m_unscheduledEvents \<sigma>' = m_unscheduledEvents sample_sim - 1"
proof -
  have "\<not> is_heap (m_events sample_sim)" "\<lparr>ev_impl = 1, ev_key = \<lparr>m_ts = 3, m_uid = 5,
      m_context = 0xffffffff\<rparr>\<rparr> \<in># sched_events (m_events sample_sim)"
    by (simp_all add: sample_sim_events)
  moreover have "\<not> IsCancelled 1 sample_sim" by code_simp
  ultimately show ?thesis
    using Sim_Remove_pending [OF sample_sim_ok(1), of "\<lparr>ev_impl = 1, ev_key = \<lparr>m_ts = 3, m_uid = 5,
      m_context = 0xffffffff\<rparr>\<rparr>"] by simp
qed

lemma transfer_events_ok:
  assumes "sched_inv s" and "sched_inv d" and "uids_unique (sched_events s + sched_events d)"
    and "size (sched_events s) < fuel"
  shows "\<exists>d'. transfer_events fuel s d = Some (Inr d') \<and> sched_inv d' \<and>
              sched_events d' = sched_events s + sched_events d"
  using assms
proof (induction fuel arbitrary: s d)
  case 0
  then show ?case by simp
next
  case (Suc fuel)
  show ?case
  proof (cases "sched_events s = {#}")
    case True
    then show ?thesis using Suc.prems sched.IsEmpty_iff by simp
  next
    case False
    obtain e s' where r: "sched_RemoveNext s = Inr (e, s')" "first_event (sched_events s) e"
        "sched_inv s'" "sched_events s' = sched_events s - {#e#}"
      using sched.RemoveNext_ok [OF Suc.prems(1) False] by blast
    then have s: "sched_events s = add_mset e (sched_events s')" by (simp add: first_event_def)
    then have "fresh_uid (ev_uid e) (sched_events d)" using Suc.prems(3) by (auto simp: fresh_uid_def)
    then obtain d' where ins: "sched_Insert e d = Inr d'" "sched_inv d'"
        "sched_events d' = add_mset e (sched_events d)"
      using sched.Insert_ok [OF Suc.prems(2)] by blast
    then have "\<exists>d''. transfer_events fuel s' d' = Some (Inr d'') \<and> sched_inv d'' \<and>
        sched_events d'' = sched_events s + sched_events d"
      using Suc.IH [OF r(3), of d'] Suc.prems(3,4) unfolding s by simp
    moreover have "\<not> sched_IsEmpty s" using sched.IsEmpty_iff [OF Suc.prems(1)] False by simp
    ultimately show ?thesis using r(1) ins(1) by simp
  qed
qed

text \<open>
  C20. \<open>SetScheduler\<close> changes nothing but the data structure: when it replaces the schedule by an
  empty one of any kind, its loop ends, no insertion fails, and the same events are pending, so the
  invariant of the simulator is kept.
\<close>

theorem SetScheduler_keeps_events:
  assumes "sim_inv \<sigma>" and "s \<in> {MapS [], ListS [], HeapS HeapScheduler, PriorityQueueS []}"
    and "size (sched_events (m_events \<sigma>)) < fuel"
  shows "\<exists>\<sigma>'. SetScheduler fuel s \<sigma> = Some (Inr \<sigma>') \<and> sim_inv \<sigma>' \<and>
              sched_events (m_events \<sigma>') = sched_events (m_events \<sigma>)"
proof -
  have S: "sched_inv (m_events \<sigma>)" using assms(1) by (simp add: sim_inv_def)
  have "sched_inv s" "sched_events s = {#}"
    using assms(2) heap_inv_HeapScheduler by (auto simp: list_sched_inv_def HeapScheduler_def)
  then obtain d' where "transfer_events fuel (m_events \<sigma>) s = Some (Inr d')" "sched_inv d'"
      "sched_events d' = sched_events (m_events \<sigma>)"
    using transfer_events_ok [OF S, of s fuel] assms(3) sched.inv_uids [OF S] by auto
  then show ?thesis
    using assms(1) by (auto simp: SetScheduler_def sim_inv_def after_current_def)
qed

theorem SetScheduler_keeps_events_witness:
  "\<exists>\<sigma>'. SetScheduler 4 (HeapS HeapScheduler) sample_sim = Some (Inr \<sigma>') \<and> sim_inv \<sigma>' \<and>
        sched_events (m_events \<sigma>') = sched_events (m_events sample_sim)"
  by (rule SetScheduler_keeps_events [OF sample_sim_ok(1)]) (simp_all add: sample_sim_events)

end
