(* ===== verification/Sender_App.thy ===== *)
theory Sender_App
  imports Strategy_Object Ns3_Error Ns3_Sim
begin

text \<open>
  \<open>SenderApplication\<close>: the application on the CPE. At its start it opens a socket per address of
  the node, makes the strategy and starts one sending loop per interface; once per second it updates
  the traffic sources and runs the strategy, until all data has been sent. The sockets (ns-3's TCP)
  and the random variable of the error models are part of the environment: a state \<open>'k\<close>, a state
  \<open>'r\<close> and the operations on them, of which nothing is assumed here.
\<close>

section \<open>State\<close>

record 'g sender =
  addresses :: "address list"
  costs :: "u32 list"
  strategyType :: StrategyTypes
  strategy_ptr :: "'g strategy_object option"
  sn_application :: "application list"
  sn_interfaces :: "isp_interface list"
  m_tos :: u8
  sn_amountOfPacketsToSend :: u64
  m_totBytes :: u64
  initialInterfaceId :: u32

definition SenderApplication :: "'g sender" where
  "SenderApplication =
     \<lparr>addresses = [], costs = [], strategyType = LINEAR, strategy_ptr = None, sn_application = [],
      sn_interfaces = [], m_tos = 0, sn_amountOfPacketsToSend = 128, m_totBytes = 0,
      initialInterfaceId = 100\<rparr>"

text \<open>
  The strategy holds the same two vectors (shared pointers) as the application, so from the start
  on the vectors are read and written where the strategy has them.
\<close>

definition getInterfaces :: "'g sender \<Rightarrow> isp_interface list" where
  "getInterfaces s = (case strategy_ptr s of None \<Rightarrow> sn_interfaces s | Some so \<Rightarrow> so_interfaces so)"

definition set_interfaces :: "isp_interface list \<Rightarrow> 'g sender \<Rightarrow> 'g sender" where
  "set_interfaces is s =
     s\<lparr>sn_interfaces := is, strategy_ptr := map_option (so_set_interfaces is) (strategy_ptr s)\<rparr>"

definition SetMaxBytes :: "u64 \<Rightarrow> 'g sender \<Rightarrow> 'g sender" where
  "SetMaxBytes maxBytes s = s\<lparr>sn_amountOfPacketsToSend := maxBytes\<rparr>"

text \<open>\<open>ApplicationSenderHelper\<close> copies its vectors into the application it installs.\<close>

record sender_helper =
  sh_addresses :: "address list"
  sh_applications :: "application list"
  sh_costs :: "u32 list"
  sh_strategy :: StrategyTypes

definition ApplicationSenderHelper ::
  "address list \<Rightarrow> application list \<Rightarrow> u32 list \<Rightarrow> StrategyTypes \<Rightarrow> sender_helper" where
  "ApplicationSenderHelper destinations apps cs strategy =
     \<lparr>sh_addresses = destinations, sh_applications = apps, sh_costs = cs, sh_strategy = strategy\<rparr>"

definition sender_DoInstall :: "sender_helper \<Rightarrow> 'g sender \<Rightarrow> 'g sender" where
  "sender_DoInstall h base =
     base\<lparr>addresses := sh_addresses h, sn_application := sh_applications h, costs := sh_costs h,
          strategyType := sh_strategy h\<rparr>"

section \<open>The environment\<close>

text \<open>
  An interface of the node's IPv4 stack: its device, the device's \<open>ReceiveErrorModel\<close> and its local
  addresses. Interface 0 is the loopback interface.
\<close>

record node_interface =
  ni_device :: net_device
  ni_errorModel :: "rate_error_model option"
  ni_addresses :: "nat list"

record ('g, 'r, 'k) sender_env =
  env_compute :: "'g compute_env"
  env_pow :: "dbl \<Rightarrow> dbl \<Rightarrow> dbl"
  env_draw :: "'r draw"
  sock_create :: "'k \<Rightarrow> nat \<times> 'k"
  sock_is_stream :: "nat \<Rightarrow> 'k \<Rightarrow> bool"
  sock_bind :: "nat \<Rightarrow> address \<Rightarrow> 'k \<Rightarrow> int \<times> 'k"
  sock_bind_any :: "ip_version \<Rightarrow> nat \<Rightarrow> 'k \<Rightarrow> int \<times> 'k"
  sock_set_tos :: "nat \<Rightarrow> u8 \<Rightarrow> 'k \<Rightarrow> 'k"
  sock_connect :: "nat \<Rightarrow> address \<Rightarrow> 'k \<Rightarrow> 'k"
  sock_shutdown_recv :: "nat \<Rightarrow> 'k \<Rightarrow> 'k"
  sock_set_callbacks :: "nat \<Rightarrow> 'k \<Rightarrow> 'k"
  sock_close :: "nat \<Rightarrow> 'k \<Rightarrow> 'k"
  sock_tx_available :: "nat \<Rightarrow> 'k \<Rightarrow> u32"
  sock_send :: "nat \<Rightarrow> u32 \<Rightarrow> u32 \<Rightarrow> 'k \<Rightarrow> int \<times> 'k"

text \<open>
  The world the events of the sender change: the application, the random variable, the sockets, and
  the files the strategies wrote. \<open>w_trace\<close> is a history variable: for every packet taken from an
  interface, the interface, the identifier of its application and whether it was corrupt.
\<close>

record ('g, 'r, 'k) world =
  w_sender :: "'g sender"
  w_random :: 'r
  w_sockets :: 'k
  w_files :: "(string \<times> cell list list) list"
  w_trace :: "(nat \<times> u32 \<times> bool) list"

datatype sender_event =
    CallStart
  | CallCompute
  | CallSendPacket nat

type_synonym ('g, 'r, 'k) system = "('g, 'r, 'k) world \<times> sender_event simulator"

section \<open>Opening the sockets\<close>

definition getNextInterfaceId :: "'g sender \<Rightarrow> u32 \<times> 'g sender" where
  "getNextInterfaceId s =
     (let s = s\<lparr>initialInterfaceId := initialInterfaceId s + 1\<rparr> in (initialInterfaceId s, s))"

definition HasAlreadyInitSocket :: "address \<Rightarrow> 'g sender \<Rightarrow> bool" where
  "HasAlreadyInitSocket from_address s =
     list_ex (\<lambda>i. outgoingAddress i = from_address) (getInterfaces s)"

fun to_string :: "nat \<Rightarrow> string" where
  "to_string n =
     (if n < 10 then [char_of (48 + n)] else to_string (n div 10) @ [char_of (48 + n mod 10)])"

declare to_string.simps [simp del]

fun is_ip :: "ip_version \<Rightarrow> address \<Rightarrow> bool" where
  "is_ip v InvalidAddress = False"
| "is_ip v (SocketAddress v' host port) = (v = v')"

definition incompatible_versions :: "address \<Rightarrow> address \<Rightarrow> bool" where
  "incompatible_versions destination from_address \<longleftrightarrow>
     (is_ip IPv6 destination \<and> is_ip IPv4 from_address) \<or>
     (is_ip IPv4 destination \<and> is_ip IPv6 from_address)"

text \<open>Binding: the local address when it is valid, else any address of the destination's version.\<close>

definition bind_socket ::
  "('g, 'r, 'k) sender_env \<Rightarrow> nat \<Rightarrow> address \<Rightarrow> address \<Rightarrow> 'k \<Rightarrow> (int \<times> 'k) res" where
  "bind_socket env sock from_address destination k =
     (if from_address \<noteq> InvalidAddress then
        (if incompatible_versions destination from_address then
           Inl (AbortMsg ''Incompatible peer and local address IP version'')
         else Inr (sock_bind env sock from_address k))
      else if is_ip IPv6 destination then Inr (sock_bind_any env IPv6 sock k)
      else if is_ip IPv4 destination then Inr (sock_bind_any env IPv4 sock k)
      else Inr (- 1, k))"

definition add_interface ::
  "net_device \<Rightarrow> address \<Rightarrow> nat \<Rightarrow> address \<Rightarrow> rate_error_model \<Rightarrow> u32 \<Rightarrow> 'g sender \<Rightarrow> 'g sender" where
  "add_interface device from_address sock destination em c s =
     (let (ident, s) = getNextInterfaceId s;
          name = ''Interfaccia '' @ to_string (unat ident);
          interface = ISPInterface ident name device from_address sock destination em c
      in set_interfaces (getInterfaces s @ [ISPInterface_copy interface]) s)"

definition InitSocket ::
  "('g, 'r, 'k) sender_env \<Rightarrow> net_device \<Rightarrow> address \<Rightarrow> address \<Rightarrow> rate_error_model \<Rightarrow> u32 \<Rightarrow>
     ('g, 'r, 'k) world \<Rightarrow> ('g, 'r, 'k) world res" where
  "InitSocket env device from_address destination em c w =
     (if HasAlreadyInitSocket from_address (w_sender w) then Inr w
      else
        (case sock_create env (w_sockets w) of (sock, k) \<Rightarrow>
         let s = add_interface device from_address sock destination em c (w_sender w) in
         if \<not> sock_is_stream env sock k then
           Inl (FatalError ''Using BulkSend with an incompatible socket type.'')
         else if destination = InvalidAddress then Inl (AbortMsg ''Invalid destination address'')
         else
           res_bind (bind_socket env sock from_address destination k) (\<lambda>(ret, k).
           if ret = - 1 then Inl (FatalError ''Failed to bind socket'')
           else
             (let k = (if is_ip IPv4 destination then sock_set_tos env sock (m_tos s) k else k);
                  k = sock_connect env sock destination k;
                  k = sock_shutdown_recv env sock k;
                  k = sock_set_callbacks env sock k
              in Inr (w\<lparr>w_sender := s, w_sockets := k\<rparr>)))))"

text \<open>The loops of \<open>StartApplication\<close> over the interfaces of the node and their addresses.\<close>

definition init_address ::
  "('g, 'r, 'k) sender_env \<Rightarrow> node_interface list \<Rightarrow> nat \<Rightarrow> nat \<Rightarrow> ('g, 'r, 'k) world \<Rightarrow>
     ('g, 'r, 'k) world res" where
  "init_address env ipv4Node i j w =
     (let iface = ipv4Node ! i;
          address = SocketAddress IPv4 (ni_addresses iface ! j) (ucast ConnectionPort) in
      res_bind (vec_at (addresses (w_sender w)) (i - 1)) (\<lambda>destination.
      res_bind (vec_at (costs (w_sender w)) (i - 1)) (\<lambda>c.
      case ni_errorModel iface of
        None \<Rightarrow> Inl (Undefined ''null error model dereferenced'')
      | Some em \<Rightarrow> InitSocket env (ni_device iface) address destination em c w)))"

definition init_sockets ::
  "('g, 'r, 'k) sender_env \<Rightarrow> node_interface list \<Rightarrow> ('g, 'r, 'k) world \<Rightarrow> ('g, 'r, 'k) world res" where
  "init_sockets env ipv4Node w =
     res_fold (\<lambda>i. res_fold (init_address env ipv4Node i) [0..<length (ni_addresses (ipv4Node ! i))])
       [1..<length ipv4Node] w"

section \<open>Sending\<close>

definition schedule :: "sim_time \<Rightarrow> sender_event \<Rightarrow> ('g, 'r, 'k) system \<Rightarrow> ('g, 'r, 'k) system res" where
  "schedule delay call s =
     res_bind (Simulator_Schedule delay call (snd s)) (\<lambda>(ident, \<sigma>). Inr (fst s, \<sigma>))"

definition InitInterfaceEventLoop :: "nat \<Rightarrow> ('g, 'r, 'k) system \<Rightarrow> ('g, 'r, 'k) system res" where
  "InitInterfaceEventLoop i s = res_bind (Seconds (Fin 0)) (\<lambda>t. schedule t (CallSendPacket i) s)"

definition update_interface ::
  "nat \<Rightarrow> (isp_interface \<Rightarrow> isp_interface) \<Rightarrow> ('g, 'r, 'k) world \<Rightarrow> ('g, 'r, 'k) world" where
  "update_interface i f w =
     (let is = getInterfaces (w_sender w)
      in w\<lparr>w_sender := set_interfaces (is[i := f (is ! i)]) (w_sender w)\<rparr>)"

text \<open>
  Handing one packet over: it leaves the queue; the error model decides; a correct one goes to the
  socket, which must take all of it.
\<close>

definition transmit ::
  "('g, 'r, 'k) sender_env \<Rightarrow> nat \<Rightarrow> isp_interface \<Rightarrow> ('g, 'r, 'k) world \<Rightarrow> ('g, 'r, 'k) world res" where
  "transmit env i interface w =
     (case getNextPacket \<lparr>dateEnqueued = 0, originatedFrom = 0\<rparr> interface of
        ((valid, packetInfo), interface) \<Rightarrow>
      let w = update_interface i (\<lambda>_. interface) w;
          flow = originatedFrom packetInfo in
      case IsCorrupt (env_pow env) (env_draw env) (errorModel interface) PacketSizeByte (w_random w) of
        (corrupt, r) \<Rightarrow>
      let w = w\<lparr>w_random := r, w_trace := w_trace w @ [(i, flow, corrupt)]\<rparr> in
      if corrupt then
        Inr (update_interface i (\<lambda>x. x\<lparr>corruptPackages := corruptPackages x + 1\<rparr>) w)
      else
        (case sock_send env (socketInfo interface) PacketSizeByte flow (w_sockets w) of
           (actual, k) \<Rightarrow>
             if (of_int actual :: u32) = PacketSizeByte then
               (let w = update_interface i (\<lambda>x. x\<lparr>correctPackages := correctPackages x + 1\<rparr>)
                          (w\<lparr>w_sockets := k\<rparr>)
                in Inr (w\<lparr>w_sender := (w_sender w)
                           \<lparr>m_totBytes := m_totBytes (w_sender w) + of_int actual\<rparr>\<rparr>))
             else Inl (FatalError ''Unexpected return value from m_socket->Send ()'')))"

definition next_send_time :: "isp_interface \<Rightarrow> sim_time res" where
  "next_send_time interface =
     Seconds (ddiv (dbl_of_nat (unat PacketSizeBit)) (dbl_of_nat (unat (if_getDataRate interface))))"

definition SendData ::
  "('g, 'r, 'k) sender_env \<Rightarrow> nat \<Rightarrow> ('g, 'r, 'k) system \<Rightarrow> ('g, 'r, 'k) system res" where
  "SendData env i s =
     (case s of (w, \<sigma>) \<Rightarrow>
        if length (getInterfaces (w_sender w)) \<le> i then Inl (Undefined ''dangling interface'')
        else
        let interface = getInterfaces (w_sender w) ! i in
        res_bind (next_send_time interface) (\<lambda>tNext.
        if \<not> getHasAnyAvailablePackage interface then schedule tNext (CallSendPacket i) s
        else if sock_tx_available env (socketInfo interface) (w_sockets w) < PacketSizeByte then
          schedule tNext (CallSendPacket i) s
        else
          res_bind (transmit env i interface w) (\<lambda>w. schedule tNext (CallSendPacket i) (w, \<sigma>))))"

definition SendPacket ::
  "('g, 'r, 'k) sender_env \<Rightarrow> nat \<Rightarrow> ('g, 'r, 'k) system \<Rightarrow> ('g, 'r, 'k) system res" where
  "SendPacket env i s =
     (case strategy_ptr (w_sender (fst s)) of
        None \<Rightarrow> Inl (Undefined ''null strategy'')
      | Some so \<Rightarrow> if so_getAllDataHasBeenSent so then Inr s else SendData env i s)"

section \<open>Computing\<close>

definition ComputeStrategyAndContinue ::
  "('g, 'r, 'k) sender_env \<Rightarrow> ('g, 'r, 'k) system \<Rightarrow> ('g, 'r, 'k) system res" where
  "ComputeStrategyAndContinue env s =
     (case s of (w, \<sigma>) \<Rightarrow>
        case strategy_ptr (w_sender w) of
          None \<Rightarrow> Inl (Undefined ''null strategy'')
        | Some so \<Rightarrow>
            res_bind (res_map Update (so_applications so)) (\<lambda>apps.
            res_bind (Strategy_Compute (env_compute env) (Sim_Now \<sigma>) (so_set_applications apps so))
              (\<lambda>(so, file).
              let w = w\<lparr>w_sender := (w_sender w)\<lparr>strategy_ptr := Some so\<rparr>,
                        w_files := w_files w @ (case file of None \<Rightarrow> [] | Some f \<Rightarrow> [f])\<rparr> in
              if \<not> so_getAllDataHasBeenSent so then
                res_bind (Seconds (Fin 1)) (\<lambda>tNext. schedule tNext CallCompute (w, \<sigma>))
              else Inr (w, \<sigma>))))"

definition StartApplication ::
  "('g, 'r, 'k) sender_env \<Rightarrow> node_interface list \<Rightarrow> ('g, 'r, 'k) system \<Rightarrow> ('g, 'r, 'k) system res" where
  "StartApplication env ipv4Node s =
     (case s of (w, \<sigma>) \<Rightarrow>
        res_bind (init_sockets env ipv4Node w) (\<lambda>w.
        let snd_app = w_sender w;
            so = make_strategy (env_compute env) (strategyType snd_app) (sn_application snd_app)
                   (sn_interfaces snd_app) in
        res_bind (res_map OnApplicationStart (so_applications so)) (\<lambda>apps.
        let w = w\<lparr>w_sender := snd_app\<lparr>strategy_ptr := Some (so_set_applications apps so)\<rparr>\<rparr> in
        res_bind (res_fold InitInterfaceEventLoop [0..<length (so_interfaces so)] (w, \<sigma>))
          (ComputeStrategyAndContinue env))))"

text \<open>What the simulator calls when an event of the sender is due.\<close>

fun sender_notify ::
  "('g, 'r, 'k) sender_env \<Rightarrow> node_interface list \<Rightarrow> sender_event \<Rightarrow> ('g, 'r, 'k) system \<Rightarrow>
     ('g, 'r, 'k) system res" where
  "sender_notify env node CallStart s = StartApplication env node s"
| "sender_notify env node CallCompute s = ComputeStrategyAndContinue env s"
| "sender_notify env node (CallSendPacket i) s = SendPacket env i s"

section \<open>Callbacks, stop and dispose\<close>

text \<open>The iterator found may be the end iterator; dereferencing it is undefined.\<close>

definition GetMatchingInterface :: "nat \<Rightarrow> 'g sender \<Rightarrow> nat option" where
  "GetMatchingInterface sock s =
     (let matching = filter (\<lambda>i. socketInfo (getInterfaces s ! i) = sock) [0..<length (getInterfaces s)]
      in case matching of [] \<Rightarrow> None | i # _ \<Rightarrow> Some i)"

definition ConnectionSucceeded :: "nat \<Rightarrow> ('g, 'r, 'k) world \<Rightarrow> ('g, 'r, 'k) world res" where
  "ConnectionSucceeded sock w =
     (case GetMatchingInterface sock (w_sender w) of
        None \<Rightarrow> Inl (Undefined ''end iterator dereferenced'')
      | Some i \<Rightarrow> Inr (update_interface i (\<lambda>x. x\<lparr>connected := True\<rparr>) w))"

definition ConnectionFailed :: "nat \<Rightarrow> ('g, 'r, 'k) world \<Rightarrow> ('g, 'r, 'k) world" where
  "ConnectionFailed sock w = w"

text \<open>
  \<open>StopApplication\<close> compares an iterator it never initialised with the end of the vector: \<open>garbage\<close> is
  the outcome of the comparison \<open>interface != end()\<close>.
\<close>

definition sender_StopApplication ::
  "('g, 'r, 'k) sender_env \<Rightarrow> bool \<Rightarrow> ('g, 'r, 'k) world \<Rightarrow> ('g, 'r, 'k) world" where
  "sender_StopApplication env garbage w =
     (if garbage then
        (let is = getInterfaces (w_sender w)
         in w\<lparr>w_sockets := fold (\<lambda>i. sock_close env (socketInfo i)) is (w_sockets w),
              w_sender := set_interfaces (map (\<lambda>i. i\<lparr>connected := False\<rparr>) is) (w_sender w)\<rparr>)
      else w)"

definition sender_DoDispose :: "('g, 'r, 'k) sender_env \<Rightarrow> ('g, 'r, 'k) world \<Rightarrow> ('g, 'r, 'k) world" where
  "sender_DoDispose env w =
     w\<lparr>w_sockets := fold (\<lambda>i. sock_close env (socketInfo i)) (getInterfaces (w_sender w)) (w_sockets w)\<rparr>"

end
