(* ===== verification/Sender_Books.thy ===== *)
theory Sender_Books
  imports Sender_App
begin

text \<open>
  The bookkeeping of the sender: where every generated packet is, at every moment between two
  events, whatever the sockets, the solver and the random values do. The packets of an application
  are pending with it, queued on an interface, or in the trace of packets handed over; the two
  counters of an interface count its part of the trace.
\<close>

section \<open>The books\<close>

definition generated_from :: "u32 \<Rightarrow> application list \<Rightarrow> u32" where
  "generated_from ident apps = sum_list (map (\<lambda>a. if app_id a = ident then app_generated a else 0) apps)"

definition traced_from :: "u32 \<Rightarrow> (nat \<times> u32 \<times> bool) list \<Rightarrow> nat" where
  "traced_from ident tr = length (filter (\<lambda>(j, f, c). f = ident) tr)"

definition traced_on :: "nat \<Rightarrow> bool \<Rightarrow> (nat \<times> u32 \<times> bool) list \<Rightarrow> nat" where
  "traced_on i corrupt tr = length (filter (\<lambda>(j, f, c). j = i \<and> c = corrupt) tr)"

definition books_ok :: "application list \<Rightarrow> isp_interface list \<Rightarrow> (nat \<times> u32 \<times> bool) list \<Rightarrow> bool" where
  "books_ok apps ifaces tr \<longleftrightarrow>
     (\<forall>ident. generated_from ident apps =
        of_nat (pending_from ident apps + queued_from ident ifaces + traced_from ident tr)) \<and>
     (\<forall>i < length ifaces. correctPackages (ifaces ! i) = of_nat (traced_on i False tr) \<and>
        corruptPackages (ifaces ! i) = of_nat (traced_on i True tr))"

lemma generated_from_Cons [simp]:
  "generated_from ident [] = 0"
  "generated_from ident (a # apps) = (if app_id a = ident then app_generated a else 0) + generated_from ident apps"
  by (simp_all add: generated_from_def)

lemma traced_simps [simp]:
  "traced_from ident [] = 0"
  "traced_from ident (tr @ [(j, f, c)]) = traced_from ident tr + (if f = ident then 1 else 0)"
  "traced_on i corrupt [] = 0"
  "traced_on i corrupt (tr @ [(j, f, c)]) = traced_on i corrupt tr + (if j = i \<and> c = corrupt then 1 else 0)"
  by (simp_all add: traced_from_def traced_on_def)

lemma generated_from_drained:
  "map app_drained apps = map app_drained apps' \<Longrightarrow> generated_from ident apps = generated_from ident apps'"
proof (induction apps arbitrary: apps')
  case Nil
  then show ?case by simp
next
  case (Cons a apps)
  then obtain b bs where b: "apps' = b # bs" "app_drained a = app_drained b" "map app_drained apps = map app_drained bs"
    by (cases apps') auto
  then have "app_id a = app_id b" "app_generated a = app_generated b"
    by (metis app_drained_simps(1), metis app_drained_simps(3))
  then show ?case using Cons.IH [OF b(3)] b(1) by simp
qed

lemma conserves_books:
  assumes "conserves apps ifaces apps' ifaces'" and "books_ok apps ifaces tr"
  shows "books_ok apps' ifaces' tr"
proof -
  have len: "length ifaces' = length ifaces" by (rule conserves_length(2) [OF assms(1)])
  have e: "if_emptied (ifaces' ! i) = if_emptied (ifaces ! i)" if "i < length ifaces" for i
    using assms(1) that len unfolding conserves_def by (metis nth_map)
  have c: "correctPackages (ifaces' ! i) = correctPackages (ifaces ! i)"
      "corruptPackages (ifaces' ! i) = corruptPackages (ifaces ! i)" if "i < length ifaces" for i
    using arg_cong [OF e [OF that], of correctPackages] arg_cong [OF e [OF that], of corruptPackages]
    by (simp_all add: if_emptied_def)
  have g: "generated_from ident apps' = generated_from ident apps" for ident
    using assms(1) by (intro generated_from_drained) (simp add: conserves_def)
  have p: "pending_from ident apps' + queued_from ident ifaces' = pending_from ident apps + queued_from ident ifaces" for ident
    using assms(1) by (simp add: conserves_def)
  show ?thesis using assms(2) c len by (simp add: books_ok_def g p del: of_nat_add)
qed

section \<open>Generating\<close>

text \<open>Whatever an application generates, it counts and keeps pending.\<close>

definition grows :: "application \<Rightarrow> application \<Rightarrow> bool" where
  "grows a b \<longleftrightarrow> app_id b = app_id a \<and>
     (\<exists>n. app_generated b = app_generated a + of_nat n \<and>
          length (app_pending b) = length (app_pending a) + n)"

lemma enqueue_grows:
  assumes "enqueuePacketsForCurrentSample a = Inr b"
  shows "grows (SinApp a) (SinApp b)"
proof (cases "sin_allPacketsGenerated a")
  case True
  then show ?thesis using assms by (simp add: enqueuePacketsForCurrentSample_def grows_def)
next
  case False
  then obtain v where "vec_at (sinValues a) (unat (currentSample a)) = Inr v"
    using assms by (auto simp: enqueuePacketsForCurrentSample_def res_bind_Inr_iff)
  then show ?thesis
    using assms False
    by (auto simp: enqueuePacketsForCurrentSample_def grows_def Let_def split: if_splits
        intro!: exI [of _ "unat (snd v)"])
qed

lemma OnApplicationStart_grows: "OnApplicationStart a = Inr b \<Longrightarrow> grows a b"
proof (cases a)
  case (StaticApp s)
  assume "OnApplicationStart a = Inr b"
  then show ?thesis
    using StaticApp
    by (auto simp: static_OnApplicationStart_def Let_def grows_def
        intro!: exI [of _ "unat (Sdwan_App.amountOfPacketsToSend s)"])
qed (auto simp: sin_OnApplicationStart_def res_bind_Inr_iff dest: enqueue_grows)

lemma grows_refl [simp]: "grows a a"
  by (auto simp: grows_def intro: exI [of _ 0])

lemma Update_grows: "Update a = Inr b \<Longrightarrow> grows a b"
  by (cases a) (auto simp: Update_def static_OnUpdate_def sin_OnUpdate_def res_bind_Inr_iff
      dest: enqueue_grows split: if_splits)

lemma grows_books_aux:
  assumes "list_all2 grows apps apps'"
  shows "\<exists>n. generated_from ident apps' = generated_from ident apps + of_nat n \<and>
             pending_from ident apps' = pending_from ident apps + n"
  using assms
proof (induction apps apps' rule: list_all2_induct)
  case Nil
  then show ?case by (auto intro: exI [of _ 0])
next
  case (Cons a apps b bs)
  then obtain n where n: "generated_from ident bs = generated_from ident apps + of_nat n"
      "pending_from ident bs = pending_from ident apps + n" by blast
  obtain k where k: "app_id b = app_id a" "app_generated b = app_generated a + of_nat k"
      "length (app_pending b) = length (app_pending a) + k"
    using Cons by (auto simp: grows_def)
  show ?case
    using n k by (intro exI [of _ "(if app_id a = ident then k else 0) + n"]) simp
qed

lemma grows_books:
  assumes "list_all2 grows apps apps'" and "books_ok apps ifaces tr"
  shows "books_ok apps' ifaces tr"
proof -
  have "generated_from ident apps' =
      of_nat (pending_from ident apps' + queued_from ident ifaces + traced_from ident tr)" for ident
  proof -
    obtain n where "generated_from ident apps' = generated_from ident apps + of_nat n"
        "pending_from ident apps' = pending_from ident apps + n"
      using grows_books_aux [OF assms(1)] by blast
    then show ?thesis using assms(2) by (simp add: books_ok_def)
  qed
  then show ?thesis using assms(2) by (simp add: books_ok_def)
qed

lemma res_map_list_all2:
  assumes "res_map f xs = Inr ys" and "\<And>x y. f x = Inr y \<Longrightarrow> R x y"
  shows "list_all2 R xs ys"
  using assms(1)
proof (induction xs arbitrary: ys)
  case Nil
  then show ?case by simp
next
  case (Cons x xs)
  then show ?case using assms(2) by (auto simp: res_bind_Inr_iff)
qed

section \<open>Handing a packet over\<close>

definition fetched :: "bool \<Rightarrow> isp_interface \<Rightarrow> isp_interface" where
  "fetched corrupt x =
     (let x = x\<lparr>if_pendingpackets := tl (if_pendingpackets x)\<rparr>
      in if corrupt then x\<lparr>corruptPackages := corruptPackages x + 1\<rparr>
         else x\<lparr>correctPackages := correctPackages x + 1\<rparr>)"

lemma fetched_simps [simp]:
  "if_pendingpackets (fetched c x) = tl (if_pendingpackets x)"
  "correctPackages (fetched c x) = correctPackages x + (if c then 0 else 1)"
  "corruptPackages (fetched c x) = corruptPackages x + (if c then 1 else 0)"
  "netDevice (fetched c x) = netDevice x"
  "socketInfo (fetched c x) = socketInfo x"
  by (simp_all add: fetched_def Let_def)

lemma so_set_interfaces_twice [simp]:
  "so_set_interfaces is (so_set_interfaces js so) = so_set_interfaces is so"
  by (cases so) simp_all

lemma so_set_interfaces_same [simp]: "so_set_interfaces (so_interfaces so) so = so"
  by (cases so) simp_all

definition world_so :: "('g, 'r, 'k) world \<Rightarrow> 'g strategy_object option" where
  "world_so w = strategy_ptr (w_sender w)"

lemma world_so_update_interface:
  assumes "world_so w = Some so"
  shows "world_so (update_interface i f w) =
      Some (so_set_interfaces ((so_interfaces so)[i := f (so_interfaces so ! i)]) so)"
    and "w_trace (update_interface i f w) = w_trace w"
    and "w_sockets (update_interface i f w) = w_sockets w"
    and "w_random (update_interface i f w) = w_random w"
  using assms
  by (simp_all add: world_so_def update_interface_def set_interfaces_def getInterfaces_def Let_def)

lemma transmit_effect:
  assumes so: "world_so w = Some so" and i: "i < length (so_interfaces so)"
    and q: "if_pendingpackets (so_interfaces so ! i) = p # rest"
    and t: "transmit env i (so_interfaces so ! i) w = Inr w'"
  shows "\<exists>c. world_so w' = Some (so_set_interfaces ((so_interfaces so)[i := fetched c (so_interfaces so ! i)]) so) \<and>
             w_trace w' = w_trace w @ [(i, originatedFrom p, c)]"
proof -
  let ?x = "so_interfaces so ! i"
  let ?x' = "?x\<lparr>if_pendingpackets := rest\<rparr>"
  let ?w = "update_interface i (\<lambda>_. ?x') w"
  note u = world_so_update_interface [OF so, of i "\<lambda>_. ?x'"]
  obtain c r where c: "IsCorrupt (env_pow env) (env_draw env) (errorModel ?x') PacketSizeByte (w_random ?w) = (c, r)"
    by (metis surj_pair)
  let ?w1 = "?w\<lparr>w_random := r, w_trace := w_trace ?w @ [(i, originatedFrom p, c)]\<rparr>"
  have w1: "world_so ?w1 = Some (so_set_interfaces ((so_interfaces so)[i := ?x']) so)"
    using u(1) by (simp add: world_so_def)
  have tr: "w_trace ?w1 = w_trace w @ [(i, originatedFrom p, c)]" using u(2) by simp
  show ?thesis
  proof (cases c)
    case True
    then have "w' = update_interface i (\<lambda>x. x\<lparr>corruptPackages := corruptPackages x + 1\<rparr>) ?w1"
      using t q c by (simp add: transmit_def Let_def)
    then show ?thesis
      using world_so_update_interface(1,2) [OF w1, of i "\<lambda>x. x\<lparr>corruptPackages := corruptPackages x + 1\<rparr>"] i q True tr
      by (intro exI [of _ True]) (simp add: fetched_def)
  next
    case False
    obtain n k where n: "sock_send env (socketInfo ?x') PacketSizeByte (originatedFrom p) (w_sockets ?w1) = (n, k)"
      by (metis surj_pair)
    let ?w2 = "update_interface i (\<lambda>x. x\<lparr>correctPackages := correctPackages x + 1\<rparr>) (?w1\<lparr>w_sockets := k\<rparr>)"
    have "w' = ?w2\<lparr>w_sender := (w_sender ?w2)\<lparr>m_totBytes := m_totBytes (w_sender ?w2) + of_int n\<rparr>\<rparr>"
      using t q c False n by (simp add: transmit_def Let_def split: if_splits)
    moreover have w2: "world_so (?w1\<lparr>w_sockets := k\<rparr>) = Some (so_set_interfaces ((so_interfaces so)[i := ?x']) so)"
      using w1 by (simp add: world_so_def)
    ultimately show ?thesis
      using world_so_update_interface(1,2) [OF w2, of i "\<lambda>x. x\<lparr>correctPackages := correctPackages x + 1\<rparr>"] i q False tr
      by (intro exI [of _ False]) (simp add: fetched_def world_so_def)
  qed
qed

lemma queued_from_fetched:
  assumes "i < length ifaces" and "if_pendingpackets (ifaces ! i) = p # rest"
  shows "queued_from ident ifaces =
    queued_from ident (ifaces[i := fetched c (ifaces ! i)]) + (if originatedFrom p = ident then 1 else 0)"
proof -
  let ?f = "\<lambda>i. packets_from ident (if_pendingpackets i)"
  have "sum_list (map ?f ifaces) = sum_list (map ?f (ifaces[i := fetched c (ifaces ! i), i := ifaces ! i]))"
    by simp
  also have "\<dots> = sum_list (map ?f (ifaces[i := fetched c (ifaces ! i)])) + (if originatedFrom p = ident then 1 else 0)"
    using assms by (intro sum_list_update_plus) auto
  finally show ?thesis by (simp add: queued_from_def)
qed

lemma fetched_books:
  assumes "books_ok apps ifaces tr" and "i < length ifaces" and "if_pendingpackets (ifaces ! i) = p # rest"
  shows "books_ok apps (ifaces[i := fetched c (ifaces ! i)]) (tr @ [(i, originatedFrom p, c)])"
proof -
  have "pending_from ident apps + queued_from ident ifaces + traced_from ident tr =
      pending_from ident apps + queued_from ident (ifaces[i := fetched c (ifaces ! i)]) +
      traced_from ident (tr @ [(i, originatedFrom p, c)])" for ident
    using queued_from_fetched [OF assms(2,3), of ident c] by simp
  then show ?thesis
    using assms(1,2) by (auto simp: books_ok_def nth_list_update simp del: of_nat_add)
qed

section \<open>The events keep the books\<close>

definition world_ok :: "('g, 'r, 'k) world \<Rightarrow> bool" where
  "world_ok w \<longleftrightarrow>
     (\<exists>so. world_so w = Some so \<and> books_ok (so_applications so) (so_interfaces so) (w_trace w))"

definition no_start :: "sender_event simulator \<Rightarrow> bool" where
  "no_start \<sigma> \<longleftrightarrow> CallStart \<notin> fst ` set (m_impls \<sigma>)"

lemma insert_event_impls: "insert_event i ts c \<sigma> = Inr \<sigma>' \<Longrightarrow> m_impls \<sigma>' = m_impls \<sigma>"
  by (auto simp: insert_event_def Let_def res_bind_Inr_iff)

lemma schedule_effect:
  assumes "schedule delay call s = Inr s'"
  shows "fst s' = fst s" and "m_impls (snd s') = m_impls (snd s) @ [(call, False)]"
  using assms
  by (auto simp: schedule_def Simulator_Schedule_def MakeEvent_def Schedule_def res_bind_Inr_iff
      dest: insert_event_impls split: if_splits)

lemma SendData_ok:
  assumes "SendData env i s = Inr s'" and "world_ok (fst s)"
  shows "world_ok (fst s')"
proof -
  obtain w \<sigma> where s: "s = (w, \<sigma>)" by (cases s)
  obtain so where so: "world_so w = Some so" "books_ok (so_applications so) (so_interfaces so) (w_trace w)"
    using assms(2) by (auto simp: s world_ok_def)
  then have ifs: "getInterfaces (w_sender w) = so_interfaces so"
    by (simp add: getInterfaces_def world_so_def)
  let ?x = "so_interfaces so ! i"
  have i: "i < length (so_interfaces so)"
    using assms(1) by (auto simp: s SendData_def ifs not_le [symmetric] split: if_splits)
  then obtain t where t: "(if \<not> getHasAnyAvailablePackage ?x then schedule t (CallSendPacket i) (w, \<sigma>)
        else if sock_tx_available env (socketInfo ?x) (w_sockets w) < PacketSizeByte
        then schedule t (CallSendPacket i) (w, \<sigma>)
        else res_bind (transmit env i ?x w) (\<lambda>w. schedule t (CallSendPacket i) (w, \<sigma>))) = Inr s'"
    using assms(1) by (auto simp: s SendData_def ifs Let_def res_bind_Inr_iff)
  show ?thesis
  proof (cases "getHasAnyAvailablePackage ?x \<and>
      \<not> sock_tx_available env (socketInfo ?x) (w_sockets w) < PacketSizeByte")
    case False
    then have "schedule t (CallSendPacket i) s = Inr s'" using t by (auto simp: s split: if_splits)
    then show ?thesis using schedule_effect(1) assms(2) by metis
  next
    case True
    then obtain w1 where w1: "transmit env i ?x w = Inr w1" "schedule t (CallSendPacket i) (w1, \<sigma>) = Inr s'"
      using t by (auto simp: res_bind_Inr_iff)
    obtain p rest where q: "if_pendingpackets ?x = p # rest"
      using True by (cases "if_pendingpackets ?x") (auto simp: getHasAnyAvailablePackage_def)
    obtain c where c: "world_so w1 = Some (so_set_interfaces ((so_interfaces so)[i := fetched c ?x]) so)"
        "w_trace w1 = w_trace w @ [(i, originatedFrom p, c)]"
      using transmit_effect [OF so(1) i q w1(1)] by blast
    have "world_ok w1"
      using c fetched_books [OF so(2) i q, of c] by (simp add: world_ok_def)
    then show ?thesis using schedule_effect(1) [OF w1(2)] by simp
  qed
qed

lemma SendPacket_ok: "SendPacket env i s = Inr s' \<Longrightarrow> world_ok (fst s) \<Longrightarrow> world_ok (fst s')"
  by (auto simp: SendPacket_def split: option.splits if_splits intro: SendData_ok)

lemma ComputeStrategy_ok:
  assumes "ComputeStrategyAndContinue env s = Inr s'" and "world_ok (fst s)"
  shows "world_ok (fst s')"
proof -
  obtain w \<sigma> where s: "s = (w, \<sigma>)" by (cases s)
  obtain so where so: "strategy_ptr (w_sender w) = Some so"
      "books_ok (so_applications so) (so_interfaces so) (w_trace w)"
    using assms(2) by (auto simp: s world_ok_def world_so_def)
  obtain apps so' f where a: "res_map Update (so_applications so) = Inr apps"
      "Strategy_Compute (env_compute env) (Sim_Now \<sigma>) (so_set_applications apps so) = Inr (so', f)"
      and rest: "(let w = w\<lparr>w_sender := (w_sender w)\<lparr>strategy_ptr := Some so'\<rparr>,
                   w_files := w_files w @ (case f of None \<Rightarrow> [] | Some f \<Rightarrow> [f])\<rparr> in
           if \<not> so_getAllDataHasBeenSent so' then
             res_bind (Seconds (Fin 1)) (\<lambda>tNext. schedule tNext CallCompute (w, \<sigma>))
           else Inr (w, \<sigma>)) = Inr s'"
    using assms(1) by (auto simp: s ComputeStrategyAndContinue_def so res_bind_Inr_iff)
  have "conserves apps (so_interfaces so) (so_applications so') (so_interfaces so')"
    using mover.compute_conserves [OF a(2)] by simp
  moreover have "books_ok apps (so_interfaces so) (w_trace w)"
    using grows_books [OF res_map_list_all2 [OF a(1) Update_grows]] so(2) by blast
  ultimately have b: "books_ok (so_applications so') (so_interfaces so') (w_trace w)"
    using conserves_books by blast
  define w1 where "w1 = w\<lparr>w_sender := (w_sender w)\<lparr>strategy_ptr := Some so'\<rparr>,
      w_files := w_files w @ (case f of None \<Rightarrow> [] | Some f \<Rightarrow> [f])\<rparr>"
  have ok: "world_ok w1" using b by (simp add: w1_def world_ok_def world_so_def)
  have "(if \<not> so_getAllDataHasBeenSent so' then
           res_bind (Seconds (Fin 1)) (\<lambda>tNext. schedule tNext CallCompute (w1, \<sigma>))
         else Inr (w1, \<sigma>)) = Inr s'"
    using rest by (simp only: Let_def w1_def)
  then consider t where "schedule t CallCompute (w1, \<sigma>) = Inr s'" | "s' = (w1, \<sigma>)"
    by (cases "so_getAllDataHasBeenSent so'") (auto simp: res_bind_Inr_iff)
  then show ?thesis
  proof cases
    case 1
    then show ?thesis using schedule_effect(1) ok by fastforce
  qed (use ok in simp)
qed

lemma schedule_no_start:
  "schedule delay call (w, \<sigma>) = Inr s' \<Longrightarrow> no_start \<sigma> \<Longrightarrow> call \<noteq> CallStart \<Longrightarrow> no_start (snd s')"
  using schedule_effect(2) [of delay call "(w, \<sigma>)" s'] by (auto simp: no_start_def)

lemma SendPacket_no_start:
  "SendPacket env i s = Inr s' \<Longrightarrow> no_start (snd s) \<Longrightarrow> no_start (snd s')"
  by (cases s) (auto simp: SendPacket_def SendData_def Let_def res_bind_Inr_iff
      split: option.splits if_splits dest: schedule_no_start)

lemma ComputeStrategy_no_start:
  "ComputeStrategyAndContinue env s = Inr s' \<Longrightarrow> no_start (snd s) \<Longrightarrow> no_start (snd s')"
  by (cases s) (auto simp: ComputeStrategyAndContinue_def Let_def res_bind_Inr_iff
      split: option.splits if_splits dest: schedule_no_start)

definition system_ok :: "('g, 'r, 'k) system \<Rightarrow> bool" where
  "system_ok s \<longleftrightarrow> world_ok (fst s) \<and> no_start (snd s)"

lemma context_events_impls:
  assumes "ProcessEventsWithContext \<sigma> = Inr \<sigma>'"
  shows "m_impls \<sigma>' = m_impls \<sigma>"
proof (cases "m_eventsWithContextEmpty \<sigma>")
  case True
  then show ?thesis using assms by (simp add: ProcessEventsWithContext_def)
next
  case False
  then have "res_fold context_event (m_eventsWithContext \<sigma>)
      (\<sigma>\<lparr>m_eventsWithContext := [], m_eventsWithContextEmpty := True\<rparr>) = Inr \<sigma>'"
    using assms by (simp add: ProcessEventsWithContext_def Let_def)
  then show ?thesis
    by (rule res_fold_invariant [where P = "\<lambda>\<sigma>'. m_impls \<sigma>' = m_impls \<sigma>"])
      (auto simp: context_event_def dest: insert_event_impls)
qed

lemma sender_notify_ok:
  assumes "sender_notify env node call s = Inr s'" and "system_ok s" and "call \<noteq> CallStart"
  shows "system_ok s'"
  using assms
  by (cases call) (auto simp: system_ok_def intro: SendPacket_ok ComputeStrategy_ok
      SendPacket_no_start ComputeStrategy_no_start)

lemma sender_rounds_ok:
  assumes "sim_rounds (sender_notify env node) n s = Inr s'" and "system_ok s"
  shows "system_ok s'"
  using assms
proof (induction n arbitrary: s)
  case 0
  then show ?case by simp
next
  case (Suc n)
  show ?case
  proof (cases "IsFinished (snd s)")
    case True
    then show ?thesis using Suc.prems by simp
  next
    case False
    then obtain s1 where s1: "ProcessOneEvent (sender_notify env node) s = Inr s1"
        "sim_rounds (sender_notify env node) n s1 = Inr s'"
      using Suc.prems(1) by (auto simp: res_bind_Inr_iff)
    obtain w \<sigma> where s: "s = (w, \<sigma>)" by (cases s)
    obtain ev events w1 \<sigma>1 where e: "EventImpl_Invoke (sender_notify env node) (ev_impl ev)
          (w, take_event ev events \<sigma>) = Inr (w1, \<sigma>1)"
        "res_bind (ProcessEventsWithContext \<sigma>1) (\<lambda>\<sigma>. Inr (w1, \<sigma>)) = Inr s1"
      using s1(1) by (auto simp: s ProcessOneEvent_def res_bind_Inr_iff split: if_splits)
    have t: "system_ok (w, take_event ev events \<sigma>)"
      using Suc.prems(2) by (simp add: s system_ok_def no_start_def take_event_def)
    have "fst (m_impls \<sigma> ! ev_impl ev) \<noteq> CallStart" if "ev_impl ev < length (m_impls \<sigma>)"
      using Suc.prems(2) nth_mem [OF that] by (force simp: s system_ok_def no_start_def)
    then have "system_ok (w1, \<sigma>1)"
      using e(1) t sender_notify_ok [OF _ t]
      by (auto simp: EventImpl_Invoke_def take_event_def split: if_splits)
    then have "system_ok s1"
      using e(2) context_events_impls
      by (fastforce simp: res_bind_Inr_iff system_ok_def no_start_def)
    then show ?thesis using Suc.IH s1(2) by blast
  qed
qed

section \<open>From the start of the application on\<close>

definition fresh_sender :: "('g, 'r, 'k) world \<Rightarrow> bool" where
  "fresh_sender w \<longleftrightarrow>
     strategy_ptr (w_sender w) = None \<and> w_trace w = [] \<and>
     (\<forall>x\<in>set (sn_interfaces (w_sender w)).
        correctPackages x = 0 \<and> corruptPackages x = 0 \<and> if_pendingpackets x = []) \<and>
     (\<forall>a\<in>set (sn_application (w_sender w)). app_generated a = 0 \<and> app_pending a = [])"

lemma InitSocket_fresh:
  assumes "InitSocket env device from_a destination em c w = Inr w'" and "fresh_sender w"
  shows "fresh_sender w' \<and> sn_application (w_sender w') = sn_application (w_sender w)"
  using assms
  by (auto simp: InitSocket_def Let_def res_bind_Inr_iff fresh_sender_def add_interface_def
      getNextInterfaceId_def set_interfaces_def getInterfaces_def ISPInterface_copy_id ISPInterface_def
      split: if_splits prod.splits)

lemma init_address_fresh:
  "init_address env node i j w = Inr w' \<Longrightarrow> fresh_sender w \<Longrightarrow>
   fresh_sender w' \<and> sn_application (w_sender w') = sn_application (w_sender w)"
  by (auto simp: init_address_def Let_def res_bind_Inr_iff split: option.splits dest: InitSocket_fresh)

lemma init_sockets_fresh:
  assumes "init_sockets env node w = Inr w'" and "fresh_sender w"
  shows "fresh_sender w' \<and> sn_application (w_sender w') = sn_application (w_sender w)"
proof -
  let ?P = "\<lambda>v. fresh_sender v \<and> sn_application (w_sender v) = sn_application (w_sender w)"
  have "?P w'"
  proof (rule res_fold_invariant [OF assms(1) [unfolded init_sockets_def], of ?P])
    fix i v v'
    assume v: "?P v"
      and f: "res_fold (init_address env node i) [0..<length (ni_addresses (node ! i))] v = Inr v'"
    show "?P v'"
      by (rule res_fold_invariant [OF f, of ?P]) (use v init_address_fresh in \<open>fastforce+\<close>)
  qed (use assms(2) in simp)
  then show ?thesis .
qed

lemma fresh_books:
  assumes "\<forall>a\<in>set apps. app_generated a = 0 \<and> app_pending a = []"
    and "\<forall>x\<in>set ifaces. correctPackages x = 0 \<and> corruptPackages x = 0 \<and> if_pendingpackets x = []"
  shows "books_ok apps ifaces []"
proof -
  have "generated_from ident apps = 0 \<and> pending_from ident apps = 0" for ident
    using assms(1) by (induction apps) auto
  moreover have "queued_from ident ifaces = 0" for ident
    using assms(2) by (induction ifaces) (auto simp: packets_from_def)
  ultimately show ?thesis using assms(2) by (simp add: books_ok_def)
qed

lemma StartApplication_ok:
  assumes "StartApplication env node (w, \<sigma>) = Inr s'" and "fresh_sender w"
  shows "world_ok (fst s')" and "no_start \<sigma> \<Longrightarrow> no_start (snd s')"
proof -
  obtain w1 apps where w1: "init_sockets env node w = Inr w1"
      and apps: "res_map OnApplicationStart (sn_application (w_sender w1)) = Inr apps"
      and rest: "(let so = make_strategy (env_compute env) (strategyType (w_sender w1))
              (sn_application (w_sender w1)) (sn_interfaces (w_sender w1));
            w = w1\<lparr>w_sender := (w_sender w1)\<lparr>strategy_ptr := Some (so_set_applications apps so)\<rparr>\<rparr>
        in res_bind (res_fold InitInterfaceEventLoop [0..<length (so_interfaces so)] (w, \<sigma>))
             (ComputeStrategyAndContinue env)) = Inr s'"
    using assms(1) by (auto simp: StartApplication_def Let_def res_bind_Inr_iff)
  define so where "so = make_strategy (env_compute env) (strategyType (w_sender w1))
              (sn_application (w_sender w1)) (sn_interfaces (w_sender w1))"
  define w2 where "w2 = w1\<lparr>w_sender := (w_sender w1)\<lparr>strategy_ptr := Some (so_set_applications apps so)\<rparr>\<rparr>"
  have "fresh_sender w1" using init_sockets_fresh [OF w1 assms(2)] by blast
  then have "books_ok (sn_application (w_sender w1)) (sn_interfaces (w_sender w1)) (w_trace w1)"
    by (simp add: fresh_sender_def fresh_books)
  then have "books_ok apps (sn_interfaces (w_sender w1)) (w_trace w1)"
    using grows_books [OF res_map_list_all2 [OF apps OnApplicationStart_grows]] by blast
  then have "world_ok w2" by (simp add: w2_def so_def world_ok_def world_so_def)
  obtain s1 where s1: "res_fold InitInterfaceEventLoop [0..<length (so_interfaces so)] (w2, \<sigma>) = Inr s1"
      "ComputeStrategyAndContinue env s1 = Inr s'"
    using rest unfolding Let_def so_def [symmetric] w2_def [symmetric] by (auto simp: res_bind_Inr_iff)
  have "world_ok (fst s1) \<and> (no_start \<sigma> \<longrightarrow> no_start (snd s1))"
  proof (rule res_fold_invariant [OF s1(1), of "\<lambda>s. world_ok (fst s) \<and> (no_start \<sigma> \<longrightarrow> no_start (snd s))"])
    fix i and s t :: "('a, 'b, 'c) system"
    assume "world_ok (fst s) \<and> (no_start \<sigma> \<longrightarrow> no_start (snd s))" and "InitInterfaceEventLoop i s = Inr t"
    then show "world_ok (fst t) \<and> (no_start \<sigma> \<longrightarrow> no_start (snd t))"
      by (cases s) (auto simp: InitInterfaceEventLoop_def res_bind_Inr_iff dest: schedule_effect(1) schedule_no_start)
  qed (use \<open>world_ok w2\<close> in simp)
  then show "world_ok (fst s')" "no_start \<sigma> \<Longrightarrow> no_start (snd s')"
    using ComputeStrategy_ok [OF s1(2)] ComputeStrategy_no_start [OF s1(2)] by blast+
qed

section \<open>Properties\<close>


end
