(* ===== verification/App_Progress.thy ===== *)
theory App_Progress
  imports Reactive_Feasible
begin

text \<open>
  How far the applications are: the packets they have left to generate, the updates they need for it, and
  what an update or the start takes from them. A sinusoidal application is done after 1200 updates.
\<close>

section \<open>How long the applications generate\<close>

fun app_started :: "application \<Rightarrow> bool" where
  "app_started (StaticApp a) \<longleftrightarrow> st_allPacketsGenerated a \<and> generatedPackets a = amountOfPacketsToSend a"
| "app_started (SinApp a) = sin_inv a"

fun updates_left :: "application \<Rightarrow> nat" where
  "updates_left (StaticApp a) = 0"
| "updates_left (SinApp a) = 1200 - unat (currentSample a)"

fun packets_left :: "application \<Rightarrow> nat" where
  "packets_left (StaticApp a) = 0"
| "packets_left (SinApp a) =
     sum_list (map (unat \<circ> snd) (drop (unat (currentSample a)) (take 1200 (sinValues a))))"

fun app_total :: "application \<Rightarrow> nat" where
  "app_total (StaticApp a) = unat (amountOfPacketsToSend a)"
| "app_total (SinApp a) = sum_list (map (unat \<circ> snd) (take 1200 (sinValues a)))"

text \<open>What does not change while an application runs: its identifier and how much it generates in all.\<close>

definition app_fixed :: "application \<Rightarrow> u32 \<times> nat" where
  "app_fixed a = (app_id a, app_total a)"

definition all_packets_left :: "application list \<Rightarrow> nat" where
  "all_packets_left apps = sum_list (map packets_left apps)"

lemma all_packets_left_simps [simp]:
  "all_packets_left [] = 0"
  "all_packets_left (a # apps) = packets_left a + all_packets_left apps"
  by (simp_all add: all_packets_left_def)

lemma packets_left_drained [simp]:
  "packets_left (app_drained a) = packets_left a"
  "updates_left (app_drained a) = updates_left a"
  "app_started (app_drained a) = app_started a"
  "app_pending (app_drained a) = []"
  "app_fixed (app_drained a) = app_fixed a"
  by (cases a; simp add: sin_inv_def app_fixed_def)+

lemma stopped_when_nothing_left:
  "app_started a \<Longrightarrow> updates_left a = 0 \<Longrightarrow> app_pending a = [] \<Longrightarrow> getHasStoppedGeneratingData a"
  by (cases a) (auto simp: static_getHasStoppedGeneratingData_def sin_getHasStoppedGeneratingData_def
      sin_inv_def)

lemma nothing_left_when_stopped:
  "app_started a \<Longrightarrow> getHasStoppedGeneratingData a \<Longrightarrow>
   updates_left a = 0 \<and> packets_left a = 0 \<and> app_pending a = []"
  by (cases a) (auto simp: static_getHasStoppedGeneratingData_def sin_getHasStoppedGeneratingData_def
      sin_inv_def)

text \<open>One step of generation takes its packets from those that are left.\<close>

definition generates :: "application \<Rightarrow> application \<Rightarrow> bool" where
  "generates a b \<longleftrightarrow> app_started b \<and> app_fixed b = app_fixed a \<and> updates_left b = updates_left a - 1 \<and>
     packets_left b + length (app_pending b) = packets_left a + length (app_pending a) \<and>
     app_demand b = app_demand a \<and> length (app_pending b) \<le> length (app_pending a) + app_peak a"

lemma enqueue_demand:
  assumes "enqueuePacketsForCurrentSample a = Inr b"
  shows "app_demand (SinApp b) = app_demand (SinApp a)"
  using assms
  by (auto simp: enqueuePacketsForCurrentSample_def res_bind_Inr_iff Let_def push_packets_eq app_demand_def
      sin_getRequiredDataRate_def split: if_splits)

lemma enqueue_generates:
  assumes "sin_inv a"
  shows "\<exists>b. enqueuePacketsForCurrentSample a = Inr b \<and> generates (SinApp a) (SinApp b)"
proof (cases "unat (currentSample a) < 1200")
  case True
  from assms True show ?thesis
  proof (rule enqueue_step)
    fix b assume b: "enqueuePacketsForCurrentSample a = Inr b" "sin_inv b" "applicationId b = applicationId a"
      "unat (currentSample b) = Suc (unat (currentSample a))" "sinValues b = sinValues a"
      "pendingpackets b = pendingpackets a @
           map of_nat [0..<unat (snd (sinValues a ! unat (currentSample a)))]"
    have "length (sinValues a) = 1201" using assms by (simp add: sin_inv_def)
    then have "drop (unat (currentSample a)) (take 1200 (sinValues a)) =
        sinValues a ! unat (currentSample a) # drop (Suc (unat (currentSample a))) (take 1200 (sinValues a))"
      using True by (simp add: Cons_nth_drop_Suc [symmetric])
    moreover have "sinValues a ! unat (currentSample a) \<in> set (sinValues a)"
      using True \<open>length (sinValues a) = 1201\<close> by (intro nth_mem) simp
    then have "unat (snd (sinValues a ! unat (currentSample a))) \<le> app_peak (SinApp a)" by (rule peak_sample)
    ultimately show ?thesis using b enqueue_demand [OF b(1)] by (auto simp: generates_def app_fixed_def)
  qed
next
  case False
  then show ?thesis
    using assms by (auto simp: enqueue_at_limit generates_def sin_inv_def)
qed

lemma Update_generates:
  assumes "app_started a"
  shows "\<exists>b. Update a = Inr b \<and> generates a b"
proof (cases a)
  case (StaticApp s)
  then show ?thesis using assms by (simp add: Update_def static_OnUpdate_def generates_def)
next
  case (SinApp s)
  then show ?thesis using assms enqueue_generates [of s] by (auto simp: Update_sin)
qed

text \<open>The start of an application is its first step; a static application generates all it has.\<close>

fun app_unstarted :: "application \<Rightarrow> bool" where
  "app_unstarted (StaticApp a) \<longleftrightarrow> pendingpackets a = [] \<and> generatedPackets a = 0"
| "app_unstarted (SinApp a) \<longleftrightarrow> pendingpackets a = [] \<and> sin_inv a \<and> currentSample a = 0"

lemma OnApplicationStart_generates:
  assumes "app_unstarted a"
  shows "\<exists>b. OnApplicationStart a = Inr b \<and> app_started b \<and> app_fixed b = app_fixed a \<and> updates_left b \<le> 1199 \<and>
             packets_left b + length (app_pending b) = app_total a \<and>
             app_demand b = app_demand a \<and> length (app_pending b) \<le> app_peak a"
proof (cases a)
  case (StaticApp s)
  then show ?thesis using assms 
    by (simp add: static_OnApplicationStart_def Let_def app_fixed_def push_packets_eq app_demand_def static_getRequiredDataRate_def)
next
  case (SinApp s)
  then show ?thesis
    using assms enqueue_generates [of s] by (auto simp: sin_OnApplicationStart_def generates_def)
qed

lemma app_unstarted_fresh: "app_unstarted a \<Longrightarrow> app_generated a = 0 \<and> app_pending a = []"
  by (cases a) (auto simp: sin_inv_def)

lemma res_map_total:
  assumes "\<And>x. x \<in> set xs \<Longrightarrow> \<exists>y. f x = Inr y \<and> R x y"
  shows "\<exists>ys. res_map f xs = Inr ys \<and> list_all2 R xs ys"
  using assms
proof (induction xs)
  case Nil
  then show ?case by simp
next
  case (Cons x xs)
  obtain y where "f x = Inr y" "R x y" using Cons.prems [of x] by auto
  moreover obtain ys where "res_map f xs = Inr ys" "list_all2 R xs ys" using Cons by auto
  ultimately show ?case by simp
qed

lemma generates_sum:
  assumes "list_all2 generates apps apps'"
  shows "all_packets_left apps' + pending apps' = all_packets_left apps + pending apps"
  using assms by (induction rule: list_all2_induct) (auto simp: generates_def)

lemma generates_all:
  assumes "list_all2 generates apps apps'" and "\<forall>a\<in>set apps. updates_left a \<le> r"
  shows "\<forall>a\<in>set apps'. app_started a \<and> updates_left a \<le> r - 1"
  using assms by (induction rule: list_all2_induct) (auto simp: generates_def)

lemma generates_demand: "list_all2 generates apps apps' \<Longrightarrow> map app_demand apps' = map app_demand apps"
  by (induction rule: list_all2_induct) (auto simp: generates_def)

lemma generates_peaks:
  assumes "list_all2 generates apps apps'" and "\<forall>a\<in>set apps. length (app_pending a) \<le> k * app_peak a"
  shows "\<forall>a\<in>set apps'. length (app_pending a) \<le> Suc k * app_peak a"
  using assms by (induction rule: list_all2_induct) (auto simp: generates_def app_demand_def)

lemma generates_fixed: "list_all2 generates apps apps' \<Longrightarrow> map app_fixed apps' = map app_fixed apps"
  by (induction rule: list_all2_induct) (auto simp: generates_def)

end
