(* ===== verification/Ns3_Agenda.thy ===== *)
theory Ns3_Agenda
  imports Ns3_Sim
begin

text \<open>
  An abstraction of the simulator for its clients: the timetable, which is the multiset of the calls
  that are still to come with the times at which they are due and the identifiers that order the calls
  of one moment; the agenda, which leaves out the identifiers; the clock and the identifiers used.
  Scheduling adds an entry, the loop of \<open>Run\<close> takes the earliest one. A client that keeps an
  invariant of this abstraction keeps the simulator running until its timetable is empty.
\<close>

section \<open>The abstraction\<close>

definition timetable :: "'e simulator \<Rightarrow> (nat \<times> nat \<times> 'e) multiset" where
  "timetable \<sigma> = {#(unat (ev_ts ev), unat (ev_uid ev), fst (m_impls \<sigma> ! ev_impl ev)). ev \<in># sched_events (m_events \<sigma>)#}"

definition plain :: "(nat \<times> nat \<times> 'e) multiset \<Rightarrow> (nat \<times> 'e) multiset" where
  "plain tt = image_mset (\<lambda>(t, u, c). (t, c)) tt"

definition agenda :: "'e simulator \<Rightarrow> (nat \<times> 'e) multiset" where
  "agenda \<sigma> = {#(unat (ev_ts ev), fst (m_impls \<sigma> ! ev_impl ev)). ev \<in># sched_events (m_events \<sigma>)#}"

definition clock :: "'e simulator \<Rightarrow> nat" where
  "clock \<sigma> = unat (m_currentTs \<sigma>)"

definition sim_ok :: "'e simulator \<Rightarrow> bool" where
  "sim_ok \<sigma> \<longleftrightarrow> sim_inv \<sigma> \<and> (\<forall>x\<in>set (m_impls \<sigma>). \<not> snd x)"

definition same_moment :: "'e simulator \<Rightarrow> 'e simulator \<Rightarrow> bool" where
  "same_moment \<sigma> \<sigma>' \<longleftrightarrow> m_currentTs \<sigma>' = m_currentTs \<sigma> \<and> m_currentUid \<sigma>' = m_currentUid \<sigma> \<and>
     m_stop \<sigma>' = m_stop \<sigma>"

lemma plain_simps [simp]:
  "plain {#} = {#}" "plain (add_mset (t, u, c) tt) = add_mset (t, c) (plain tt)"
  by (simp_all add: plain_def)

lemma plain_remove: "(t, u, c) \<in># tt \<Longrightarrow> plain (tt - {#(t, u, c)#}) = plain tt - {#(t, c)#}"
  by (auto simp: plain_def image_mset_Diff)

lemma plain_mem: "(t, u, c) \<in># tt \<Longrightarrow> (t, c) \<in># plain tt"
  by (force simp: plain_def)

lemma plain_timetable: "plain (timetable \<sigma>) = agenda \<sigma>"
  by (simp add: plain_def timetable_def agenda_def image_mset.compositionality comp_def)

text \<open>The order in which the entries of a timetable are due.\<close>

fun due_before :: "nat \<times> nat \<times> 'e \<Rightarrow> nat \<times> nat \<times> 'e \<Rightarrow> bool" where
  "due_before (t, u, c) (t', u', c') \<longleftrightarrow> t < t' \<or> t = t' \<and> u \<le> u'"

lemma same_moment_refl [simp]: "same_moment \<sigma> \<sigma>"
  by (simp add: same_moment_def)

lemma same_moment_trans: "same_moment \<sigma> \<sigma>' \<Longrightarrow> same_moment \<sigma>' \<sigma>'' \<Longrightarrow> same_moment \<sigma> \<sigma>''"
  by (simp add: same_moment_def)

lemma same_moment_clock: "same_moment \<sigma> \<sigma>' \<Longrightarrow> clock \<sigma>' = clock \<sigma>"
  by (simp add: same_moment_def clock_def)

lemma sint_of_clock: "clock \<sigma> < 2 ^ 63 \<Longrightarrow> sint (m_currentTs \<sigma>) = int (clock \<sigma>)"
  by (simp add: sint_u64 clock_def)

lemma unat_of_sum:
  assumes "0 \<le> delay" and "int n + delay < 2 ^ 63"
  shows "unat (of_int (delay + int n) :: u64) = n + nat delay"
proof -
  have "uint (of_int (delay + int n) :: u64) = delay + int n"
    using assms by (simp only: uint_word_of_int) simp
  then have "unat (of_int (delay + int n) :: u64) = nat (delay + int n)"
    by (simp only: unat_eq_nat_uint)
  then show ?thesis using assms by (simp add: nat_add_distrib)
qed

lemma timetable_extend:
  assumes "sim_inv \<sigma>"
  shows "{#(unat (ev_ts ev), unat (ev_uid ev), fst ((m_impls \<sigma> @ xs) ! ev_impl ev)). ev \<in># sched_events (m_events \<sigma>)#} =
    timetable \<sigma>"
proof -
  have "ev_impl ev < length (m_impls \<sigma>)" if "ev \<in># sched_events (m_events \<sigma>)" for ev
    using that assms by (auto simp: sim_inv_def)
  then show ?thesis unfolding timetable_def by (intro image_mset_cong) (simp add: nth_append)
qed

text \<open>Scheduling adds one entry to the timetable and uses up one identifier.\<close>

lemma schedule_timetable:
  assumes ok: "sim_ok \<sigma>" and u: "unat (sim_uid \<sigma>) < 4294967295" and d: "0 \<le> delay"
    and t: "int (clock \<sigma>) + delay < 2 ^ 63"
  shows "\<exists>ident \<sigma>'. Simulator_Schedule delay call \<sigma> = Inr (ident, \<sigma>') \<and> sim_ok \<sigma>' \<and> same_moment \<sigma> \<sigma>' \<and>
           timetable \<sigma>' = add_mset (clock \<sigma> + nat delay, unat (sim_uid \<sigma>), call) (timetable \<sigma>) \<and>
           unat (sim_uid \<sigma>') = unat (sim_uid \<sigma>) + 1"
proof -
  have I: "sim_inv \<sigma>" and nc: "\<forall>x\<in>set (m_impls \<sigma>). \<not> snd x" using ok by (auto simp: sim_ok_def)
  have "int (clock \<sigma>) < int (2 ^ 63)" using d t by simp
  then have s: "sint (m_currentTs \<sigma>) = int (clock \<sigma>)"
    by (intro sint_of_clock) (simp only: of_nat_less_iff)
  have ne: "sim_uid \<sigma> \<noteq> 0xffffffff" using u by auto
  let ?s = "\<lambda>events. \<sigma>\<lparr>m_impls := m_impls \<sigma> @ [(call, False)], sim_uid := sim_uid \<sigma> + 1,
                    m_unscheduledEvents := m_unscheduledEvents \<sigma> + 1, m_events := events\<rparr>"
  obtain ident events where
    sch: "Simulator_Schedule delay call \<sigma> = Inr (ident, ?s events)"
    and evs: "sched_events events =
        add_mset \<lparr>ev_impl = length (m_impls \<sigma>),
                   ev_key = \<lparr>m_ts = of_int (delay + sint (m_currentTs \<sigma>)), m_uid = sim_uid \<sigma>,
                             m_context = m_currentContext \<sigma>\<rparr>\<rparr>
          (sched_events (m_events \<sigma>))"
    and inv: "sim_inv (?s events)"
    using Simulator_Schedule_ok [OF I ne d, of call] s t by auto
  have "timetable (?s events) = add_mset (clock \<sigma> + nat delay, unat (sim_uid \<sigma>), call) (timetable \<sigma>)"
    using timetable_extend [OF I, of "[(call, False)]"] unat_of_sum [OF d t] unfolding timetable_def
    by (simp add: evs s nth_append)
  moreover have "unat (sim_uid \<sigma> + 1) = unat (sim_uid \<sigma>) + 1"
    using u by (simp add: unat_u32_add)
  ultimately show ?thesis
    using sch inv nc by (intro exI [of _ ident] exI [of _ "?s events"]) (auto simp: sim_ok_def same_moment_def)
qed

text \<open>Taking the next event takes the earliest entry.\<close>

lemma take_timetable:
  assumes ok: "sim_ok \<sigma>" and ne: "sched_events (m_events \<sigma>) \<noteq> {#}"
    and r: "sched_RemoveNext (m_events \<sigma>) = Inr (ev, events)"
  shows "sim_ok (take_event ev events \<sigma>)"
    and "(unat (ev_ts ev), unat (ev_uid ev), fst (m_impls \<sigma> ! ev_impl ev)) \<in># timetable \<sigma>"
    and "timetable (take_event ev events \<sigma>) =
           timetable \<sigma> - {#(unat (ev_ts ev), unat (ev_uid ev), fst (m_impls \<sigma> ! ev_impl ev))#}"
    and "\<forall>x\<in>#timetable \<sigma>. due_before (unat (ev_ts ev), unat (ev_uid ev), fst (m_impls \<sigma> ! ev_impl ev)) x"
    and "clock \<sigma> \<le> unat (ev_ts ev)"
    and "clock (take_event ev events \<sigma>) = unat (ev_ts ev)"
proof -
  have I: "sim_inv \<sigma>" using ok by (simp add: sim_ok_def)
  note t = take_event_inv [OF I r ne]
  show "sim_ok (take_event ev events \<sigma>)" using t ok by (simp add: sim_ok_def take_event_def)
  show "(unat (ev_ts ev), unat (ev_uid ev), fst (m_impls \<sigma> ! ev_impl ev)) \<in># timetable \<sigma>"
    using t by (auto simp: timetable_def)
  show "timetable (take_event ev events \<sigma>) =
      timetable \<sigma> - {#(unat (ev_ts ev), unat (ev_uid ev), fst (m_impls \<sigma> ! ev_impl ev))#}"
    using t by (simp add: timetable_def take_event_def image_mset_Diff)
  have "ev_ts ev < ev_ts x \<or> ev_ts ev = ev_ts x \<and> ev_uid ev \<le> ev_uid x" if "x \<in># sched_events (m_events \<sigma>)" for x
    using t that by (auto simp: first_event_def event_less_def')
  then show "\<forall>x\<in>#timetable \<sigma>. due_before (unat (ev_ts ev), unat (ev_uid ev), fst (m_impls \<sigma> ! ev_impl ev)) x"
    by (force simp: timetable_def word_le_nat_alt word_less_nat_alt)
  show "clock \<sigma> \<le> unat (ev_ts ev)"
    using t by (auto simp: clock_def after_current_def word_less_nat_alt)
  show "clock (take_event ev events \<sigma>) = unat (ev_ts ev)" by (simp add: clock_def take_event_def)
qed

lemma timetable_empty: "timetable \<sigma> = {#} \<longleftrightarrow> sched_events (m_events \<sigma>) = {#}"
  by (simp add: timetable_def)

section \<open>Clients\<close>

text \<open>
  \<open>V b w t tt u\<close> is the client's invariant of its state \<open>w\<close>, the clock \<open>t\<close>, the timetable \<open>tt\<close> and the
  identifiers \<open>u\<close> used so far, while at most \<open>b\<close> more calls are to come. A call made at the time it
  is due, with its entry taken off the timetable, must re-establish it.
\<close>

locale timetable_client =
  fixes notify :: "'e \<Rightarrow> 'w \<times> 'e simulator \<Rightarrow> ('w \<times> 'e simulator) res"
    and V :: "nat \<Rightarrow> 'w \<Rightarrow> nat \<Rightarrow> (nat \<times> nat \<times> 'e) multiset \<Rightarrow> nat \<Rightarrow> bool"
  assumes call_ok: "V (Suc b) w t0 tt (unat (sim_uid \<sigma>)) \<Longrightarrow> (clock \<sigma>, u, call) \<in># tt \<Longrightarrow>
      \<forall>x\<in>#tt. due_before (clock \<sigma>, u, call) x \<Longrightarrow> t0 \<le> clock \<sigma> \<Longrightarrow> sim_ok \<sigma> \<Longrightarrow>
      timetable \<sigma> = tt - {#(clock \<sigma>, u, call)#} \<Longrightarrow>
      \<exists>w' \<sigma>'. notify call (w, \<sigma>) = Inr (w', \<sigma>') \<and> sim_ok \<sigma>' \<and> same_moment \<sigma> \<sigma>' \<and>
              V b w' (clock \<sigma>') (timetable \<sigma>') (unat (sim_uid \<sigma>'))"
    and nothing_left: "V 0 w t tt u \<Longrightarrow> tt = {#}"
begin

definition client_inv :: "nat \<Rightarrow> 'w \<Rightarrow> 'e simulator \<Rightarrow> bool" where
  "client_inv b w \<sigma> \<longleftrightarrow> sim_ok \<sigma> \<and> \<not> m_stop \<sigma> \<and> V b w (clock \<sigma>) (timetable \<sigma>) (unat (sim_uid \<sigma>))"

end

sublocale timetable_client \<subseteq> terminating_client notify client_inv
proof
  fix b w \<sigma> ev events
  assume W: "client_inv (Suc b) w \<sigma>" and ne: "sched_events (m_events \<sigma>) \<noteq> {#}"
    and r: "sched_RemoveNext (m_events \<sigma>) = Inr (ev, events)"
  have ok: "sim_ok \<sigma>" and st: "\<not> m_stop \<sigma>" and V: "V (Suc b) w (clock \<sigma>) (timetable \<sigma>) (unat (sim_uid \<sigma>))"
    using W by (auto simp: client_inv_def)
  note t = take_timetable [OF ok ne r]
  let ?\<sigma> = "take_event ev events \<sigma>"
  have u: "sim_uid ?\<sigma> = sim_uid \<sigma>" by (simp add: take_event_def)
  have "\<exists>w' \<sigma>'. notify (fst (m_impls \<sigma> ! ev_impl ev)) (w, ?\<sigma>) = Inr (w', \<sigma>') \<and> sim_ok \<sigma>' \<and>
      same_moment ?\<sigma> \<sigma>' \<and> V b w' (clock \<sigma>') (timetable \<sigma>') (unat (sim_uid \<sigma>'))"
    using V t by (intro call_ok [of b w "clock \<sigma>" "timetable \<sigma>" ?\<sigma> "unat (ev_uid ev)"]) (simp_all add: u)
  then show "\<exists>w' \<sigma>'. notify (fst (m_impls \<sigma> ! ev_impl ev)) (w, ?\<sigma>) = Inr (w', \<sigma>') \<and>
      client_inv b w' \<sigma>' \<and> sim_inv \<sigma>' \<and> m_currentTs \<sigma>' = ev_ts ev \<and> m_currentUid \<sigma>' = ev_uid ev"
    using st by (auto simp: client_inv_def sim_ok_def same_moment_def take_event_def)
next
  fix b w \<sigma> ev events
  assume W: "client_inv (Suc b) w \<sigma>" and ne: "sched_events (m_events \<sigma>) \<noteq> {#}" and I: "sim_inv \<sigma>"
    and r: "sched_RemoveNext (m_events \<sigma>) = Inr (ev, events)" and c: "IsCancelled (ev_impl ev) \<sigma>"
  have "ev_impl ev < length (m_impls \<sigma>)"
    using take_event_inv [OF I r ne] I by (auto simp: sim_inv_def)
  then show "client_inv b w (take_event ev events \<sigma>)"
    using W c by (auto simp: client_inv_def sim_ok_def IsCancelled_def)
qed (auto simp: client_inv_def timetable_empty dest: nothing_left)

text \<open>So the loop of \<open>Run\<close> ends with nothing left to do.\<close>

context timetable_client
begin

lemma client_inv_init:
  assumes "sim_ok \<sigma>" and "V b w (clock \<sigma>) (timetable \<sigma>) (unat (sim_uid \<sigma>))"
  shows "client_inv b w (\<sigma>\<lparr>m_stop := False\<rparr>)"
  using assms by (simp add: client_inv_def sim_ok_def sim_inv_def after_current_def timetable_def clock_def)

lemma Run_to_the_end:
  assumes "sim_ok \<sigma>" and "V b w (clock \<sigma>) (timetable \<sigma>) (unat (sim_uid \<sigma>))"
  shows "\<exists>w' \<sigma>' b'. Sim_Run notify (w, \<sigma>) = Some (Inr (w', \<sigma>')) \<and> sim_ok \<sigma>' \<and>
           timetable \<sigma>' = {#} \<and> sched_IsEmpty (m_events \<sigma>') \<and>
           V b' w' (clock \<sigma>') {#} (unat (sim_uid \<sigma>'))"
proof -
  have I: "sim_inv \<sigma>" using assms(1) by (simp add: sim_ok_def)
  from Run_ok [OF client_inv_init [OF assms] I] obtain w' \<sigma>' b' where r: "Sim_Run notify (w, \<sigma>) = Some (Inr (w', \<sigma>'))"
      "IsFinished \<sigma>'" "client_inv b' w' \<sigma>'" "sim_inv \<sigma>'" by blast
  then have e: "sched_IsEmpty (m_events \<sigma>')" by (auto simp: IsFinished_def client_inv_def)
  then have "timetable \<sigma>' = {#}" using r(4) sched.IsEmpty_iff by (auto simp: timetable_empty sim_inv_def)
  then show ?thesis using r e by (auto simp: client_inv_def)
qed

end

text \<open>The timetable of a fresh simulator in which one call has been scheduled.\<close>

lemma first_schedule:
  assumes "s \<in> {MapS [], ListS [], HeapS HeapScheduler, PriorityQueueS []}"
  shows "\<exists>ident \<sigma>. Simulator_Schedule 0 call (DefaultSimulatorImpl s) = Inr (ident, \<sigma>) \<and> sim_ok \<sigma> \<and>
           clock \<sigma> = 0 \<and> timetable \<sigma> = {#(0, 4, call)#} \<and> unat (sim_uid \<sigma>) = 5"
proof -
  have e: "sched_inv s" "sched_events s = {#}"
    using assms heap_inv_HeapScheduler by (auto simp: list_sched_inv_def HeapScheduler_def)
  let ?\<sigma> = "DefaultSimulatorImpl s :: 'a simulator"
  have ok: "sim_ok ?\<sigma>" using sim_inv_init [OF e] by (simp add: sim_ok_def) (simp add: DefaultSimulatorImpl_def)
  have f: "timetable ?\<sigma> = {#}" "clock ?\<sigma> = 0" "unat (sim_uid ?\<sigma>) = 4"
    using e by (simp_all add: timetable_def clock_def DefaultSimulatorImpl_def UID_VALID_def)
  have pre: "unat (sim_uid ?\<sigma>) < 4294967295" "(0 :: int) \<le> 0" "int (clock ?\<sigma>) + 0 < 2 ^ 63"
    by (simp_all only: f) simp_all
  obtain ident \<sigma> where s: "Simulator_Schedule 0 call ?\<sigma> = Inr (ident, \<sigma>)" "sim_ok \<sigma>"
      "same_moment ?\<sigma> \<sigma>" "timetable \<sigma> = add_mset (clock ?\<sigma> + nat 0, unat (sim_uid ?\<sigma>), call) (timetable ?\<sigma>)"
      "unat (sim_uid \<sigma>) = unat (sim_uid ?\<sigma>) + 1"
    using schedule_timetable [OF ok pre, of call] by blast
  show ?thesis
    using s(1,2) s(4,5) same_moment_clock [OF s(3)] f by (intro exI conjI) (assumption | simp)+
qed

text \<open>When the call of the only event fails, so does the run.\<close>

lemma Run_first_fails:
  assumes ok: "sim_ok \<sigma>" and tt: "timetable \<sigma> = {#(t, u, call)#}"
    and fail: "\<And>\<sigma>'. \<lbrakk>sim_ok \<sigma>'; timetable \<sigma>' = {#}; clock \<sigma>' = t; sim_uid \<sigma>' = sim_uid \<sigma>\<rbrakk> \<Longrightarrow> notify call (w, \<sigma>') = Inl e"
  shows "Sim_Run notify (w, \<sigma>) = Some (Inl e)"
proof -
  let ?\<sigma> = "\<sigma>\<lparr>m_stop := False\<rparr>"
  have inv: "sim_inv \<sigma>" using ok by (simp add: sim_ok_def)
  have ok': "sim_ok ?\<sigma>" using ok by (simp add: sim_ok_def sim_inv_def after_current_def)
  have tt': "timetable ?\<sigma> = {#(t, u, call)#}" using tt by (simp add: timetable_def)
  then have ne: "sched_events (m_events ?\<sigma>) \<noteq> {#}" using timetable_empty [of ?\<sigma>] by simp
  have inv': "sim_inv ?\<sigma>" using ok' by (simp add: sim_ok_def)
  obtain ev events where r: "sched_RemoveNext (m_events ?\<sigma>) = Inr (ev, events)"
    using sched.RemoveNext_ok [OF _ ne] inv' by (auto simp: sim_inv_def)
  note k = take_timetable [OF ok' ne r] and i = take_event_inv [OF inv' r ne]
  have "m_ts (ev_key ev) = ev_ts ev" by simp
  have c: "(unat (ev_ts ev), unat (ev_uid ev), fst (m_impls ?\<sigma> ! ev_impl ev)) = (t, u, call)"
    using k(2) unfolding tt' by simp
  have "notify call (w, take_event ev events ?\<sigma>) = Inl e"
    using k(1,3,6) c tt' by (intro fail) (simp_all add: take_event_def)
  moreover have "ev_impl ev < length (m_impls ?\<sigma>)" using i inv' by (auto simp: sim_inv_def)
  moreover from this have "\<not> IsCancelled (ev_impl ev) (take_event ev events ?\<sigma>)"
    using ok' by (auto simp: sim_ok_def IsCancelled_def take_event_def)
  moreover have "m_currentTs ?\<sigma> \<le> ev_ts ev" using i by (auto simp: after_current_def)
  ultimately have "ProcessOneEvent notify (w, ?\<sigma>) = Inl e"
    using r c by (simp add: ProcessOneEvent_def EventImpl_Invoke_def take_event_def)
  moreover have "\<not> IsFinished ?\<sigma>" using ne inv' sched.IsEmpty_iff by (auto simp: IsFinished_def sim_inv_def)
  ultimately have "Run_loop notify (w, ?\<sigma>) = Some (Inl e)" by (simp add: Run_loop.simps)
  moreover have "ProcessEventsWithContext \<sigma> = Inr \<sigma>"
    using inv by (simp add: ProcessEventsWithContext_def sim_inv_def)
  ultimately show ?thesis by (simp add: Sim_Run_def)
qed

end
