(* ===== verification/Sender_Step.thy ===== *)
theory Sender_Step
  imports Sender_Books App_Progress Ns3_Agenda
begin

text \<open>
  One call of the sender: what a computation and what a pass of a sending loop do to the packets that
  are not handed over yet, for strategies whose computations return.
\<close>

section \<open>One event of the sender\<close>

text \<open>
  The sockets always have room for a packet and take all of it. Of the interfaces, the period of
  the sending loop matters, which the data rate of the device fixes: between \<open>p\<close> and \<open>P\<close> nanoseconds.
\<close>

definition ready_sockets :: "('g, 'r, 'k) sender_env \<Rightarrow> bool" where
  "ready_sockets env \<longleftrightarrow>
     (\<forall>sock k. PacketSizeByte \<le> sock_tx_available env sock k) \<and>
     (\<forall>sock flow k. fst (sock_send env sock PacketSizeByte flow k) = 128)"

definition paced :: "nat \<Rightarrow> nat \<Rightarrow> isp_interface \<Rightarrow> bool" where
  "paced p P x \<longleftrightarrow> (\<exists>t. next_send_time x = Inr (int t) \<and> p \<le> t \<and> t \<le> P)"

lemma paced_cong: "netDevice x = netDevice y \<Longrightarrow> paced p P x = paced p P y"
  by (simp add: paced_def next_send_time_def if_getDataRate_def)

text \<open>What does not change of an interface: its address, its device and its cost.\<close>

type_synonym fixed_interface = "address \<times> net_device \<times> u32"

definition if_fixed :: "isp_interface \<Rightarrow> fixed_interface" where
  "if_fixed x = (outgoingAddress x, netDevice x, cost x)"

lemma map_if_fixedD:
  assumes "map if_fixed xs = F"
  shows "map outgoingAddress xs = map fst F" and "map netDevice xs = map (fst \<circ> snd) F" and "map cost xs = map (snd \<circ> snd) F"
  using assms by (auto simp: if_fixed_def)

text \<open>The frame of a run: the fixed parts of the interfaces and of the applications.\<close>

type_synonym run_frame = "fixed_interface list \<times> (u32 \<times> nat) list"

definition frame_total :: "run_frame \<Rightarrow> nat" where
  "frame_total F = sum_list (map snd (snd F))"

definition trace_within :: "nat \<Rightarrow> (nat \<times> u32 \<times> bool) list \<Rightarrow> bool" where
  "trace_within n tr \<longleftrightarrow> (\<forall>(j, f, c)\<in>set tr. j < n)"

definition framed :: "run_frame \<Rightarrow> nat \<Rightarrow> nat \<Rightarrow> nat \<Rightarrow> 'g strategy_object \<Rightarrow> bool" where
  "framed F n p P so \<longleftrightarrow>
     length (so_interfaces so) = n \<and> map if_fixed (so_interfaces so) = fst F \<and>
     map app_fixed (so_applications so) = snd F \<and>
     length (so_applications so) < 2147483647 \<and> (\<forall>a\<in>set (so_applications so). app_started a) \<and>
     (\<forall>x\<in>set (so_interfaces so). paced p P x)"

definition settled :: "('g, 'r, 'k) sender_env \<Rightarrow> run_frame \<Rightarrow> nat \<Rightarrow> nat \<Rightarrow> nat \<Rightarrow> 'g strategy_object \<Rightarrow> bool" where
  "settled env F n p P so \<longleftrightarrow> drains (env_compute env) so \<and> framed F n p P so"

lemmas settled_defs = settled_def framed_def

definition emptied :: "'g strategy_object \<Rightarrow> bool" where
  "emptied so \<longleftrightarrow> (\<forall>a\<in>set (so_applications so). app_pending a = [])"

definition queue_length :: "'g strategy_object \<Rightarrow> nat \<Rightarrow> nat" where
  "queue_length so j = length (if_pendingpackets (so_interfaces so ! j))"

text \<open>The packets that are not handed over yet, those that will be generated included.\<close>

definition to_send :: "'g strategy_object \<Rightarrow> nat" where
  "to_send so = all_packets_left (so_applications so) + pending (so_applications so) +
     queued (so_interfaces so)"

lemma queued_zero_iff: "queued ifaces = 0 \<longleftrightarrow> (\<forall>x\<in>set ifaces. if_pendingpackets x = [])"
  by (induction ifaces) auto

lemma queue_length_le_queued: "j < length (so_interfaces so) \<Longrightarrow> queue_length so j \<le> queued (so_interfaces so)"
  unfolding queue_length_def queued_def
  by (intro member_le_sum_list) (auto intro: image_eqI [OF _ nth_mem])

lemma all_packets_left_zero:
  "\<forall>a\<in>set apps. app_started a \<and> updates_left a = 0 \<Longrightarrow> all_packets_left apps = 0"
proof (induction apps)
  case (Cons a apps)
  then show ?case by (cases a) (auto simp: sin_inv_def)
qed simp

lemma pending_emptied: "emptied so \<Longrightarrow> pending (so_applications so) = 0"
  by (simp add: emptied_def pending_def)

lemma sent_iff:
  assumes "settled env F n p P so" and "emptied so"
  shows "so_getAllDataHasBeenSent so \<longleftrightarrow>
    (\<forall>a\<in>set (so_applications so). updates_left a = 0) \<and> (\<forall>j<n. queue_length so j = 0)"
proof -
  have "getHasStoppedGeneratingData a \<longleftrightarrow> updates_left a = 0" if "a \<in> set (so_applications so)" for a
    using that assms stopped_when_nothing_left nothing_left_when_stopped
    by (auto simp: settled_defs emptied_def)
  then show ?thesis
    using assms(1)
    by (auto simp: so_getAllDataHasBeenSent_eq list_all_iff settled_defs queue_length_def all_set_conv_all_nth)
qed

lemma Seconds_0: "Seconds (Fin 0) = Inr 0"
proof -
  have "\<lfloor>(0 :: rat) * 2 ^ 64 + 1 / 2\<rfloor> = 0" by (simp add: floor_eq_iff)
  then show ?thesis using Seconds_eq [of 0] by simp
qed

lemma Seconds_1: "Seconds (Fin 1) = Inr 1000000000"
proof -
  have "\<lfloor>(1 :: rat) * 2 ^ 64 + 1 / 2\<rfloor> = 2 ^ 64" by (simp add: floor_eq_iff)
  then show ?thesis using Seconds_eq [of 1] by simp
qed

text \<open>After the update of the applications the strategy computes.\<close>

definition computes_next :: "('g, 'r, 'k) sender_env \<Rightarrow> 'g strategy_object \<Rightarrow> bool" where
  "computes_next env so \<longleftrightarrow>
     (\<forall>apps. res_map Update (so_applications so) = Inr apps \<longrightarrow> computes (env_compute env) (so_set_applications apps so))"

lemma Update_static: "is_static a \<Longrightarrow> Update a = Inr a"
  by (cases a) (simp_all add: Update_def static_OnUpdate_def)

lemma res_map_Update_static: "\<forall>a\<in>set apps. is_static a \<Longrightarrow> res_map Update apps = Inr apps"
  by (induction apps) (simp_all add: Update_static)

lemma res_map_length: "res_map f xs = Inr ys \<Longrightarrow> length ys = length xs"
  by (simp add: res_map_Inr_iff list_all2_lengthD)

lemma Update_all_generates:
  assumes "framed F n p P so" and "res_map Update (so_applications so) = Inr apps"
  shows "list_all2 generates (so_applications so) apps"
proof -
  obtain apps' where "res_map Update (so_applications so) = Inr apps'" "list_all2 generates (so_applications so) apps'"
    using res_map_total [of "so_applications so" Update generates] Update_generates assms(1) by (auto simp: framed_def)
  then show ?thesis using assms(2) by simp
qed

lemma settled_computes_next:
  assumes s: "settled env F n p P so" and n: "0 < n" "n < 4294967296"
    and e: "emptied so" and i: "is_reactive so \<Longrightarrow> idle so"
  shows "computes_next env so"
  unfolding computes_next_def
proof (intro allI impI)
  fix apps assume u: "res_map Update (so_applications so) = Inr apps"
  have g: "list_all2 generates (so_applications so) apps"
    using s u by (auto simp: settled_def intro: Update_all_generates)
  have "drains (env_compute env) (so_set_applications apps so)"
  proof (cases so)
    case (LinearS l)
    then have "apps = applications l" using s u res_map_Update_static [of "applications l"] by (simp add: settled_defs)
    then show ?thesis using LinearS s by (simp add: settled_defs)
  next
    case (ReactiveS r)
    then show ?thesis using s generates_demand [OF g] by (subst drains_set_applications) (simp_all add: settled_def)
  qed (use s in \<open>simp_all add: settled_defs\<close>)
  moreover have "within_peaks 1 (so_set_applications apps so)"
    using generates_peaks [OF g, of 0] e by (simp add: within_peaks_def emptied_def)
  moreover have "idle (so_set_applications apps so)" if "is_reactive so" using i [OF that] by (simp add: idle_def)
  ultimately show "computes (env_compute env) (so_set_applications apps so)"
    using s n res_map_length [OF u] by (intro drains_computes) (simp_all add: settled_defs)
qed

lemma compute_step:
  assumes so: "world_so w = Some so" and s: "framed F n p P so" and cn: "computes_next env so" and n: "0 < n" "n < 4294967296"
    and r: "\<forall>a\<in>set (so_applications so). updates_left a \<le> r"
  shows "\<exists>w' so'. ComputeStrategyAndContinue env (w, \<sigma>) =
             (if so_getAllDataHasBeenSent so' then Inr (w', \<sigma>)
              else schedule 1000000000 CallCompute (w', \<sigma>)) \<and>
           world_so w' = Some so' \<and> settled env F n p P so' \<and> emptied so' \<and> to_send so' = to_send so \<and>
           w_trace w' = w_trace w \<and>
           (\<forall>a\<in>set (so_applications so'). updates_left a \<le> r - 1) \<and>
           (all_packets_left (so_applications so) + pending (so_applications so) = 0 \<longrightarrow>
              (\<forall>j<n. queue_length so' j = queue_length so j)) \<and>
           is_reactive so' = is_reactive so \<and> (is_reactive so \<longrightarrow> within_capacity so') \<and>
           map if_fixed (so_interfaces so') = map if_fixed (so_interfaces so)"
proof -
  let ?apps = "so_applications so"
  obtain apps where a: "res_map Update ?apps = Inr apps" "list_all2 generates ?apps apps"
    using res_map_total [of ?apps Update generates] Update_generates s by (auto simp: settled_defs)
  let ?so = "so_set_applications apps so"
  have len: "length apps = length ?apps" using a(2) by (auto dest: list_all2_lengthD)
  obtain so' f where c: "Strategy_Compute (env_compute env) (Sim_Now \<sigma>) ?so = Inr (so', f)"
      "drains (env_compute env) so'" "so_applications so' = map app_drained apps"
      "is_reactive so' = is_reactive so" "is_reactive so \<longrightarrow> within_capacity so'"
    using cn a(1) unfolding computes_next_def computes_def by (metis so_get_set(1) is_reactive_set(1))
  have cons: "conserves apps (so_interfaces so) (so_applications so') (so_interfaces so')"
    using mover.compute_conserves [OF c(1)] by simp
  have g: "\<forall>a\<in>set apps. app_started a \<and> updates_left a \<le> r - 1"
    by (rule generates_all [OF a(2) r])
  have keep: "netDevice (so_interfaces so' ! j) = netDevice (so_interfaces so ! j)"
      "if_fixed (so_interfaces so' ! j) = if_fixed (so_interfaces so ! j)"
    if "j < length (so_interfaces so')" for j
  proof -
    have e: "if_emptied (so_interfaces so' ! j) = if_emptied (so_interfaces so ! j)"
      using mover.compute_iface [OF c(1), of j] conserves_length(2) [OF cons] that by simp
    show "netDevice (so_interfaces so' ! j) = netDevice (so_interfaces so ! j)"
        "if_fixed (so_interfaces so' ! j) = if_fixed (so_interfaces so ! j)"
      using arg_cong [OF e, of netDevice] arg_cong [OF e, of if_fixed] by (simp_all add: if_emptied_def if_fixed_def)
  qed
  have "paced p P x" if x: "x \<in> set (so_interfaces so')" for x
  proof -
    obtain j where j: "j < length (so_interfaces so')" "x = so_interfaces so' ! j"
      using x by (auto simp: in_set_conv_nth)
    then have "netDevice x = netDevice (so_interfaces so ! j)" using keep(1) by simp
    moreover have "paced p P (so_interfaces so ! j)"
      using s j conserves_length(2) [OF cons] by (auto simp: settled_defs)
    ultimately show ?thesis using paced_cong by blast
  qed
  moreover have fx: "map if_fixed (so_interfaces so') = map if_fixed (so_interfaces so)"
    using keep(2) conserves_length(2) [OF cons] by (intro nth_equalityI) simp_all
  moreover have "map app_fixed (so_applications so') = map app_fixed ?apps"
    using generates_fixed [OF a(2)] by (simp add: c(3) comp_def)
  ultimately have S: "settled env F n p P so'"
    using s c g len conserves_length(2) [OF cons] by (auto simp: settled_defs)
  have "all_packets_left (map app_drained apps) = all_packets_left apps"
    by (simp add: all_packets_left_def comp_def)
  moreover have "all_packets_left apps + pending apps = all_packets_left ?apps + pending ?apps"
    by (rule generates_sum [OF a(2)])
  ultimately have "to_send so' = to_send so"
    using conserves_total [OF cons] c(3) by (simp add: to_send_def)
  moreover define w' where "w' = w\<lparr>w_sender := (w_sender w)\<lparr>strategy_ptr := Some so'\<rparr>,
      w_files := w_files w @ (case f of None \<Rightarrow> [] | Some f \<Rightarrow> [f])\<rparr>"
  moreover have "ComputeStrategyAndContinue env (w, \<sigma>) =
      (if so_getAllDataHasBeenSent so' then Inr (w', \<sigma>) else schedule 1000000000 CallCompute (w', \<sigma>))"
    using so a(1) c(1)
    by (simp add: ComputeStrategyAndContinue_def world_so_def Seconds_1 w'_def [symmetric] Let_def)
  moreover have "world_so w' = Some so'" "w_trace w' = w_trace w" by (simp_all add: w'_def world_so_def)
  moreover have "emptied so'" by (auto simp: emptied_def c(3))
  moreover have "\<forall>a\<in>set (so_applications so'). updates_left a \<le> r - 1" using g c(3) by auto
  moreover have "\<forall>j<n. queue_length so' j = queue_length so j"
    if "all_packets_left ?apps + pending ?apps = 0"
  proof -
    have "map if_pendingpackets (so_interfaces so') = map if_pendingpackets (so_interfaces so)"
      using conserves_idle [OF cons] generates_sum [OF a(2)] that by simp
    then have "if_pendingpackets (so_interfaces so' ! j) = if_pendingpackets (so_interfaces so ! j)"
      if "j < n" for j
      using that s conserves_length(2) [OF cons] unfolding settled_defs by (metis nth_map)
    then show ?thesis by (simp add: queue_length_def)
  qed
  ultimately show ?thesis using S c(4,5) fx by (intro exI [of _ w'] exI [of _ so']) blast
qed

lemma transmit_ready:
  assumes "ready_sockets env" and "if_pendingpackets x \<noteq> []"
  shows "\<exists>w'. transmit env i x w = Inr w'"
proof -
  obtain p rest where q: "if_pendingpackets x = p # rest"
    using assms(2) by (cases "if_pendingpackets x") auto
  let ?x = "x\<lparr>if_pendingpackets := rest\<rparr>"
  obtain c r where c: "IsCorrupt (env_pow env) (env_draw env) (errorModel ?x) PacketSizeByte
      (w_random (update_interface i (\<lambda>_. ?x) w)) = (c, r)"
    by (metis surj_pair)
  obtain k where k: "sock_send env (socketInfo ?x) PacketSizeByte (originatedFrom p)
      (w_sockets (update_interface i (\<lambda>_. ?x) w)) = (128, k)"
    using assms(1) unfolding ready_sockets_def by (metis prod.collapse)
  have "(of_int 128 :: u32) = PacketSizeByte" by (simp add: PacketSizeByte_eq)
  then show ?thesis using q c k by (cases c) (simp_all add: transmit_def Let_def)
qed

lemma queued_update_fetched:
  assumes "i < length ifaces" and "if_pendingpackets (ifaces ! i) = q # rest"
  shows "Suc (queued (ifaces[i := fetched c (ifaces ! i)])) = queued ifaces"
  using assms
proof (induction ifaces arbitrary: i)
  case (Cons x xs)
  then show ?case by (cases i) (auto simp: queued_def)
qed simp

lemma send_step:
  assumes so: "world_so w = Some so" and s: "settled env F n p P so" and i: "i < n"
    and ready: "ready_sockets env" and ns: "\<not> so_getAllDataHasBeenSent so"
  shows "\<exists>w' so' t. SendPacket env i (w, \<sigma>) = schedule (int t) (CallSendPacket i) (w', \<sigma>) \<and>
           next_send_time (so_interfaces so ! i) = Inr (int t) \<and> is_reactive so' = is_reactive so \<and>
           map if_fixed (so_interfaces so') = map if_fixed (so_interfaces so) \<and>
           p \<le> t \<and> t \<le> P \<and> world_so w' = Some so' \<and> settled env F n p P so' \<and>
           so_applications so' = so_applications so \<and>
           to_send so' + length (w_trace w') = to_send so + length (w_trace w) \<and>
           (trace_within n (w_trace w) \<longrightarrow> trace_within n (w_trace w')) \<and>
           (\<forall>j<n. queue_length so' j = queue_length so j - (if j = i then 1 else 0))"
proof -
  let ?x = "so_interfaces so ! i"
  have il: "i < length (so_interfaces so)" using i s by (simp add: settled_defs)
  then have "paced p P ?x" using s by (auto simp: settled_defs)
  then obtain t where t: "next_send_time ?x = Inr (int t)" "p \<le> t" "t \<le> P"
    by (auto simp: paced_def)
  have ifs: "getInterfaces (w_sender w) = so_interfaces so"
    using so by (simp add: getInterfaces_def world_so_def)
  have room: "\<not> sock_tx_available env (socketInfo ?x) (w_sockets w) < PacketSizeByte"
    using ready by (simp add: ready_sockets_def not_less)
  have e: "SendPacket env i (w, \<sigma>) =
      (if if_pendingpackets ?x = [] then schedule (int t) (CallSendPacket i) (w, \<sigma>)
       else res_bind (transmit env i ?x w) (\<lambda>w. schedule (int t) (CallSendPacket i) (w, \<sigma>)))"
    using so ns il t room
    by (simp add: SendPacket_def SendData_def world_so_def ifs Let_def getHasAnyAvailablePackage_def)
  show ?thesis
  proof (cases "if_pendingpackets ?x")
    case Nil
    then have "\<forall>j<n. queue_length so j = queue_length so j - (if j = i then 1 else 0)"
      by (simp add: queue_length_def)
    then show ?thesis using e Nil t so s by force
  next
    case (Cons q rest)
    obtain w' where w': "transmit env i ?x w = Inr w'"
      using transmit_ready [OF ready, of ?x i w] Cons by auto
    obtain c where c: "world_so w' = Some (so_set_interfaces ((so_interfaces so)[i := fetched c ?x]) so)"
        "w_trace w' = w_trace w @ [(i, originatedFrom q, c)]"
      using transmit_effect [OF so il Cons w'] by blast
    have tw: "trace_within n (w_trace w) \<Longrightarrow> trace_within n (w_trace w')"
      using i by (simp add: c(2) trace_within_def)
    let ?so = "so_set_interfaces ((so_interfaces so)[i := fetched c ?x]) so"
    have "paced p P (fetched c ?x)"
      using s il by (subst paced_cong [of _ ?x]) (auto simp: settled_defs)
    moreover have fx: "map if_fixed ((so_interfaces so)[i := fetched c ?x]) = map if_fixed (so_interfaces so)"
      using il by (simp add: map_update fetched_def if_fixed_def Let_def list_update_same_conv)
    moreover have "map if_offer ((so_interfaces so)[i := fetched c ?x]) = map if_offer (so_interfaces so)"
      using il by (simp add: map_update fetched_def if_offer_def Let_def list_update_same_conv)
    then have "drains (env_compute env) ?so = drains (env_compute env) so" by (rule drains_set_interfaces)
    ultimately have "settled env F n p P ?so"
      using s by (auto simp: settled_defs dest: subsetD [OF set_update_subset_insert])
    moreover have "Suc (queued (so_interfaces ?so)) = queued (so_interfaces so)"
      using il Cons by (simp add: queued_update_fetched)
    then have "to_send ?so + length (w_trace w') = to_send so + length (w_trace w)"
      using c(2) by (simp add: to_send_def)
    moreover have "\<forall>j<n. queue_length ?so j = queue_length so j - (if j = i then 1 else 0)"
      using s by (auto simp: queue_length_def settled_defs nth_list_update)
    ultimately show ?thesis
      using e Cons w' c(1) t tw fx by (intro exI [of _ w'] exI [of _ ?so] exI [of _ t]) simp
  qed
qed

lemma schedule_system:
  assumes "sim_ok \<sigma>" and "unat (sim_uid \<sigma>) < 4294967295" and "clock \<sigma> + d < 2 ^ 63"
  shows "\<exists>\<sigma>'. schedule (int d) call (w, \<sigma>) = Inr (w, \<sigma>') \<and> sim_ok \<sigma>' \<and> same_moment \<sigma> \<sigma>' \<and>
           timetable \<sigma>' = add_mset (clock \<sigma> + d, unat (sim_uid \<sigma>), call) (timetable \<sigma>) \<and>
           agenda \<sigma>' = add_mset (clock \<sigma> + d, call) (agenda \<sigma>) \<and>
           unat (sim_uid \<sigma>') = unat (sim_uid \<sigma>) + 1"
proof -
  have "int (clock \<sigma> + d) < int (2 ^ 63)" using assms(3) by (simp only: of_nat_less_iff)
  then show ?thesis
    using schedule_timetable [OF assms(1,2), of "int d" call] by (auto simp: schedule_def plain_timetable [symmetric])
qed

lemma queued_by_length: "queued (so_interfaces so) = (\<Sum>j<length (so_interfaces so). queue_length so j)"
  unfolding queued_def queue_length_def by (simp add: sum_list_sum_nth atLeast0LessThan)

end
