(* ===== verification/Sender_Timetable.thy ===== *)
theory Sender_Timetable
  imports Sender_Step
begin

text \<open>
  The invariant of a run of the sender over the calls that are due: one computation and one pass of every
  loop while there is data left, a bound on the time until which there can be any, and for the reactive
  strategy the punctuality of the loops, which have always sent everything by the next computation.
\<close>

section \<open>The invariant\<close>

definition send_entries :: "(nat \<Rightarrow> nat) \<Rightarrow> nat \<Rightarrow> (nat \<times> sender_event) multiset" where
  "send_entries ts n = {#(ts i, CallSendPacket i). i \<in># mset_set {..<n}#}"

lemma send_entries_mem [simp]:
  "(t, CallSendPacket i) \<in># send_entries ts n \<longleftrightarrow> i < n \<and> t = ts i"
  "(t, CallCompute) \<notin># send_entries ts n"
  "(t, CallStart) \<notin># send_entries ts n"
  by (auto simp: send_entries_def)

lemma send_entries_update:
  assumes "i < n"
  shows "send_entries (ts(i := t)) n =
    add_mset (t, CallSendPacket i) (send_entries ts n - {#(ts i, CallSendPacket i)#})"
proof -
  have m: "mset_set {..<n} = add_mset i (mset_set ({..<n} - {i}))"
    using assms by (simp add: mset_set.remove)
  have "image_mset (\<lambda>j. ((ts(i := t)) j, CallSendPacket j)) (mset_set ({..<n} - {i})) =
      image_mset (\<lambda>j. (ts j, CallSendPacket j)) (mset_set ({..<n} - {i}))"
    by (intro image_mset_cong) auto
  then show ?thesis unfolding send_entries_def m by simp
qed

text \<open>
  No event is rescheduled after the time \<open>H\<close>, and every event rescheduled comes at least \<open>p\<close> later:
  so an event at time \<open>t\<close> stands for at most \<open>(H + p - t) div p + 1\<close> events.
\<close>

definition visits :: "nat \<Rightarrow> nat \<Rightarrow> nat \<Rightarrow> nat" where
  "visits H p t = Suc ((H + p - t) div p)"

definition load :: "nat \<Rightarrow> nat \<Rightarrow> (nat \<times> 'e) multiset \<Rightarrow> nat" where
  "load H p ag = (\<Sum>(t, c)\<in>#ag. visits H p t)"

lemma load_simps [simp]:
  "load H p {#} = 0"
  "load H p (add_mset (t, c) ag) = visits H p t + load H p ag"
  by (simp_all add: load_def)

lemma load_remove: "(t, c) \<in># ag \<Longrightarrow> load H p ag = visits H p t + load H p (ag - {#(t, c)#})"
  by (metis insert_DiffM load_simps(2))

lemma load_zero: "load H p ag = 0 \<Longrightarrow> ag = {#}"
  by (cases ag) (auto simp: visits_def)

lemma visits_later:
  assumes "t \<le> H" and "t + p \<le> t'" and "0 < p"
  shows "visits H p t' < visits H p t"
proof -
  obtain d where d: "H = t + d" using assms(1) le_iff_add by blast
  have "(H + p - t') div p \<le> d div p" using assms(2) by (intro div_le_mono) (simp add: d)
  moreover have "(H + p - t) div p = Suc (d div p)" using assms(3) by (simp add: d)
  ultimately show ?thesis by (simp add: visits_def)
qed

text \<open>
  While there is data left, one computation and one call per interface are pending. With updates
  left, the last of them comes in time to send all that there will be; without, every queue will be
  empty in time.
\<close>

definition running ::
  "nat \<Rightarrow> nat \<Rightarrow> nat \<Rightarrow> 'g strategy_object \<Rightarrow> nat \<Rightarrow> (nat \<times> sender_event) multiset \<Rightarrow> bool" where
  "running H P n so t ag \<longleftrightarrow>
     (\<exists>tc ts r. ag = add_mset (tc, CallCompute) (send_entries ts n) \<and> (\<forall>i<n. ts i \<le> t + P) \<and>
        (\<forall>a\<in>set (so_applications so). updates_left a \<le> r) \<and>
        (if 0 < r then tc + (r - 1) * 1000000000 + P + to_send so * P \<le> H
         else \<forall>i<n. 0 < queue_length so i \<longrightarrow> ts i + (queue_length so i - 1) * P \<le> H))"

definition suited :: "('g, 'r, 'k) sender_env \<Rightarrow> nat \<Rightarrow> nat \<Rightarrow> nat \<Rightarrow> nat \<Rightarrow> bool" where
  "suited env n p P H \<longleftrightarrow>
     ready_sockets env \<and> 0 < n \<and> n < 4294967296 \<and> 0 < p \<and> p \<le> 1000000000 \<and>
     H + P + 1000000000 < 2 ^ 63"

definition started_V ::
  "('g, 'r, 'k) sender_env \<Rightarrow> run_frame \<Rightarrow> nat \<Rightarrow> nat \<Rightarrow> nat \<Rightarrow> nat \<Rightarrow> nat \<Rightarrow> ('g, 'r, 'k) world \<Rightarrow> nat \<Rightarrow>
     (nat \<times> sender_event) multiset \<Rightarrow> nat \<Rightarrow> bool" where
  "started_V env F n p P H b w t ag u \<longleftrightarrow>
     u + b < 4294967296 \<and> load H p ag \<le> b \<and> world_ok w \<and> (\<forall>(s, c)\<in>#ag. c \<noteq> CallStart) \<and>
     (\<exists>so. world_so w = Some so \<and> settled env F n p P so \<and> emptied so \<and>
           to_send so + length (w_trace w) = frame_total F \<and> trace_within n (w_trace w) \<and>
           (so_getAllDataHasBeenSent so \<or> running H P n so t ag))"

lemma running_due:
  assumes "running H P n so t0 ag" and "settled env F n p P so" and "emptied so"
    and "\<not> so_getAllDataHasBeenSent so" and "\<forall>(s, c)\<in>#ag. t \<le> s"
  shows "t \<le> H"
proof -
  obtain tc ts r where r: "ag = add_mset (tc, CallCompute) (send_entries ts n)"
      "\<forall>a\<in>set (so_applications so). updates_left a \<le> r"
      "if 0 < r then tc + (r - 1) * 1000000000 + P + to_send so * P \<le> H
       else \<forall>i<n. 0 < queue_length so i \<longrightarrow> ts i + (queue_length so i - 1) * P \<le> H"
    using assms(1) by (auto simp: running_def)
  have tc: "t \<le> tc" using assms(5) by (simp add: r(1))
  have ts: "t \<le> ts i" if "i < n" for i
  proof -
    have "(ts i, CallSendPacket i) \<in># ag" using that by (simp add: r(1))
    then show ?thesis using assms(5) by blast
  qed
  show ?thesis
  proof (cases "0 < r")
    case True
    then show ?thesis using r(3) tc by simp
  next
    case False
    then obtain i where "i < n" "queue_length so i \<noteq> 0"
      using sent_iff [OF assms(2,3)] assms(4) r(2) by auto
    then show ?thesis using False r(3) ts [of i] by force
  qed
qed

section \<open>Punctuality\<close>

text \<open>
  The reactive strategy computes over empty queues: each interface sends in a second as many packets as
  the strategy gives it at most, and the loop of the interface comes before the next computation. Where
  both are due at the same moment, the order of scheduling decides, in favour of the computation: so the
  bounds below are strict.
\<close>

definition send_table :: "(nat \<Rightarrow> nat) \<Rightarrow> (nat \<Rightarrow> nat) \<Rightarrow> nat \<Rightarrow> (nat \<times> nat \<times> sender_event) multiset" where
  "send_table ts us n = {#(ts i, us i, CallSendPacket i). i \<in># mset_set {..<n}#}"

lemma send_table_mem [simp]:
  "(t, u, CallSendPacket i) \<in># send_table ts us n \<longleftrightarrow> i < n \<and> t = ts i \<and> u = us i"
  "(t, u, CallCompute) \<notin># send_table ts us n"
  by (auto simp: send_table_def)

lemma send_table_Suc: "send_table ts us (Suc n) = add_mset (ts n, us n, CallSendPacket n) (send_table ts us n)"
  by (simp add: send_table_def lessThan_Suc)

lemma send_table_cong: "(\<And>i. i < n \<Longrightarrow> ts i = ts' i \<and> us i = us' i) \<Longrightarrow> send_table ts us n = send_table ts' us' n"
  unfolding send_table_def by (intro image_mset_cong) auto

lemma send_table_update:
  assumes "i < n"
  shows "send_table (ts(i := t)) (us(i := u)) n =
    add_mset (t, u, CallSendPacket i) (send_table ts us n - {#(ts i, us i, CallSendPacket i)#})"
proof -
  have m: "mset_set {..<n} = add_mset i (mset_set ({..<n} - {i}))"
    using assms by (simp add: mset_set.remove)
  have "image_mset (\<lambda>j. ((ts(i := t)) j, (us(i := u)) j, CallSendPacket j)) (mset_set ({..<n} - {i})) =
      image_mset (\<lambda>j. (ts j, us j, CallSendPacket j)) (mset_set ({..<n} - {i}))"
    by (intro image_mset_cong) auto
  then show ?thesis unfolding send_table_def m by simp
qed

text \<open>An interface that sends in a second what the capacity of the problem allows for a second.\<close>

definition brisk :: "isp_interface \<Rightarrow> bool" where
  "brisk x \<longleftrightarrow> (\<exists>d. next_send_time x = Inr (int d) \<and> d \<le> 1000000000 \<and> unat (getPackageRate x) * d \<le> 1000000000)"

definition punctual :: "nat \<Rightarrow> 'g strategy_object \<Rightarrow> (nat \<times> nat \<times> sender_event) multiset \<Rightarrow> nat \<Rightarrow> bool" where
  "punctual n so tt u \<longleftrightarrow>
     (\<exists>tc uc ts us. tt = add_mset (tc, uc, CallCompute) (send_table ts us n) \<and> uc < u \<and>
        (\<forall>i<n. ts i = tc \<longrightarrow> uc < us i) \<and>
        (\<forall>i<n. \<forall>d. next_send_time (so_interfaces so ! i) = Inr (int d) \<longrightarrow>
           ts i < tc + d \<and> (0 < queue_length so i \<longrightarrow> ts i + (queue_length so i - 1) * d < tc)))"

definition all_brisk :: "nat \<Rightarrow> 'g strategy_object \<Rightarrow> bool" where
  "all_brisk n so \<longleftrightarrow> length (so_interfaces so) = n \<and> (\<forall>x\<in>set (so_interfaces so). brisk x)"

lemma all_briskD:
  assumes "all_brisk n so" and "i < n"
  shows "\<exists>d. next_send_time (so_interfaces so ! i) = Inr (int d) \<and> d \<le> 1000000000 \<and>
    unat (getPackageRate (so_interfaces so ! i)) * d \<le> 1000000000"
  using assms by (auto simp: all_brisk_def brisk_def)

lemma brisk_cong: "netDevice x = netDevice y \<Longrightarrow> brisk x = brisk y"
  by (simp add: brisk_def next_send_time_def if_getDataRate_def getPackageRate_def)

lemma all_brisk_fixed:
  assumes "all_brisk n so" and "map if_fixed (so_interfaces so') = map if_fixed (so_interfaces so)"
  shows "all_brisk n so'"
proof -
  have l: "length (so_interfaces so') = length (so_interfaces so)" by (rule map_eq_imp_length_eq [OF assms(2)])
  have "netDevice (so_interfaces so' ! i) = netDevice (so_interfaces so ! i)" if "i < length (so_interfaces so)" for i
    using arg_cong [OF assms(2), of "\<lambda>xs. fst (snd (xs ! i))"] that l by (simp add: if_fixed_def)
  then have "brisk (so_interfaces so' ! i)" if "i < length (so_interfaces so)" for i
    using assms(1) that brisk_cong by (metis all_brisk_def nth_mem)
  then show ?thesis using assms(1) l by (auto simp: all_brisk_def in_set_conv_nth)
qed

lemma punctual_idle:
  assumes p: "punctual n so tt u" and b: "all_brisk n so" and ev: "(t, v, CallCompute) \<in># tt"
    and m: "\<forall>x\<in>#tt. due_before (t, v, CallCompute) x"
  shows "idle so"
proof -
  obtain tc uc ts us where p: "tt = add_mset (tc, uc, CallCompute) (send_table ts us n)"
      "\<forall>i<n. \<forall>d. next_send_time (so_interfaces so ! i) = Inr (int d) \<longrightarrow>
           ts i < tc + d \<and> (0 < queue_length so i \<longrightarrow> ts i + (queue_length so i - 1) * d < tc)"
    using p by (auto simp: punctual_def)
  have t: "t = tc" using ev by (simp add: p(1))
  have "queue_length so i = 0" if i: "i < n" for i
  proof -
    have "(ts i, us i, CallSendPacket i) \<in># tt" using i by (simp add: p(1))
    then have "due_before (t, v, CallCompute) (ts i, us i, CallSendPacket i)" using m by blast
    then have "tc \<le> ts i" using t by auto
    then show ?thesis using p(2) i all_briskD [OF b i] by fastforce
  qed
  then show ?thesis using b by (auto simp: idle_def all_brisk_def queue_length_def all_set_conv_all_nth)
qed

text \<open>What an event changes on the timetable and of the frame.\<close>

definition rescheduled ::
  "'g strategy_object \<Rightarrow> 'g strategy_object \<Rightarrow> sender_event simulator \<Rightarrow> sender_event simulator \<Rightarrow> nat \<Rightarrow> sender_event \<Rightarrow> bool" where
  "rescheduled so so' \<sigma> \<sigma>' d call \<longleftrightarrow>
     timetable \<sigma>' = add_mset (clock \<sigma> + d, unat (sim_uid \<sigma>), call) (timetable \<sigma>) \<and>
     unat (sim_uid \<sigma>') = unat (sim_uid \<sigma>) + 1 \<and> is_reactive so' = is_reactive so \<and>
     map if_fixed (so_interfaces so') = map if_fixed (so_interfaces so)"

lemma same_send_time:
  assumes "map if_fixed (so_interfaces so') = map if_fixed (so_interfaces so)" and "i < length (so_interfaces so)"
  shows "next_send_time (so_interfaces so' ! i) = next_send_time (so_interfaces so ! i)"
    and "getPackageRate (so_interfaces so' ! i) = getPackageRate (so_interfaces so ! i)"
proof -
  have l: "length (so_interfaces so') = length (so_interfaces so)" by (rule map_eq_imp_length_eq [OF assms(1)])
  have "netDevice (so_interfaces so' ! i) = netDevice (so_interfaces so ! i)"
    using arg_cong [OF assms(1), of "\<lambda>xs. fst (snd (xs ! i))"] assms(2) l by (simp add: if_fixed_def)
  then show "next_send_time (so_interfaces so' ! i) = next_send_time (so_interfaces so ! i)"
      "getPackageRate (so_interfaces so' ! i) = getPackageRate (so_interfaces so ! i)"
    by (simp_all add: next_send_time_def if_getDataRate_def getPackageRate_def)
qed

lemma punctual_compute:
  assumes p: "punctual n so tt (unat (sim_uid \<sigma>))" and b: "all_brisk n so"
    and ev: "(clock \<sigma>, v, CallCompute) \<in># tt" and tt: "timetable \<sigma> = tt - {#(clock \<sigma>, v, CallCompute)#}"
    and r: "rescheduled so so' \<sigma> \<sigma>' 1000000000 CallCompute" and c: "within_capacity so'"
  shows "punctual n so' (timetable \<sigma>') (unat (sim_uid \<sigma>'))"
proof -
  obtain tc uc ts us where p: "tt = add_mset (tc, uc, CallCompute) (send_table ts us n)"
      "\<forall>i<n. \<forall>d. next_send_time (so_interfaces so ! i) = Inr (int d) \<longrightarrow>
           ts i < tc + d \<and> (0 < queue_length so i \<longrightarrow> ts i + (queue_length so i - 1) * d < tc)"
    using p by (auto simp: punctual_def)
  have t: "clock \<sigma> = tc" "v = uc" using ev by (auto simp: p(1))
  have fx: "map if_fixed (so_interfaces so') = map if_fixed (so_interfaces so)" using r by (simp add: rescheduled_def)
  have n: "length (so_interfaces so) = n" "length (so_interfaces so') = n"
    using b map_eq_imp_length_eq [OF fx] by (simp_all add: all_brisk_def)
  have each: "ts i \<noteq> tc + 1000000000 \<and> ts i < tc + 1000000000 + d \<and>
      (0 < queue_length so' i \<longrightarrow> ts i + (queue_length so' i - 1) * d < tc + 1000000000)"
    if i: "i < n" and d: "next_send_time (so_interfaces so' ! i) = Inr (int d)" for i d
  proof -
    have d': "next_send_time (so_interfaces so ! i) = Inr (int d)" using d same_send_time [OF fx] i n by simp
    then have l: "ts i < tc + d" using p(2) i by blast
    have R: "d \<le> 1000000000" "unat (getPackageRate (so_interfaces so' ! i)) * d \<le> 1000000000"
      using all_briskD [OF b i] d' same_send_time(2) [OF fx] i n by auto
    have "queue_length so' i \<le> unat (getPackageRate (so_interfaces so' ! i))"
      using c i n by (simp add: within_capacity_def queue_length_def)
    then have "queue_length so' i * d \<le> 1000000000" using R(2) mult_le_mono1 order_trans by blast
    moreover have "queue_length so' i * d = d + (queue_length so' i - 1) * d" if "0 < queue_length so' i"
      using that by (cases "queue_length so' i") simp_all
    ultimately show ?thesis using l R(1) by auto
  qed
  show ?thesis
    unfolding punctual_def
  proof (intro exI conjI allI impI)
    show "timetable \<sigma>' = add_mset (tc + 1000000000, unat (sim_uid \<sigma>), CallCompute) (send_table ts us n)"
      using r t by (simp add: rescheduled_def tt p(1))
    show "unat (sim_uid \<sigma>) < unat (sim_uid \<sigma>')" using r by (simp add: rescheduled_def)
    fix i assume i: "i < n"
    then obtain d where "next_send_time (so_interfaces so' ! i) = Inr (int d)"
      using all_briskD [OF b i] same_send_time(1) [OF fx] n by auto
    then show "ts i = tc + 1000000000 \<Longrightarrow> unat (sim_uid \<sigma>) < us i" using each [OF i] by blast
  qed (use each in blast)+
qed

lemma punctual_send:
  assumes p: "punctual n so tt (unat (sim_uid \<sigma>))" and b: "all_brisk n so"
    and ev: "(clock \<sigma>, v, CallSendPacket i) \<in># tt" and tt: "timetable \<sigma> = tt - {#(clock \<sigma>, v, CallSendPacket i)#}"
    and m: "\<forall>x\<in>#tt. due_before (clock \<sigma>, v, CallSendPacket i) x"
    and r: "rescheduled so so' \<sigma> \<sigma>' d (CallSendPacket i)" and d: "next_send_time (so_interfaces so ! i) = Inr (int d)"
    and q: "\<forall>j<n. queue_length so' j = queue_length so j - (if j = i then 1 else 0)"
  shows "punctual n so' (timetable \<sigma>') (unat (sim_uid \<sigma>'))"
proof -
  obtain tc uc ts us where p: "tt = add_mset (tc, uc, CallCompute) (send_table ts us n)" "uc < unat (sim_uid \<sigma>)"
      "\<forall>i<n. ts i = tc \<longrightarrow> uc < us i"
      "\<forall>i<n. \<forall>d. next_send_time (so_interfaces so ! i) = Inr (int d) \<longrightarrow>
           ts i < tc + d \<and> (0 < queue_length so i \<longrightarrow> ts i + (queue_length so i - 1) * d < tc)"
    using p by (auto simp: punctual_def)
  have t: "i < n" "clock \<sigma> = ts i" "v = us i" using ev by (auto simp: p(1))
  have "due_before (ts i, us i, CallSendPacket i) (tc, uc, CallCompute)" using m t by (simp add: p(1))
  then have lt: "ts i < tc" using p(3) t(1) by auto
  have fx: "map if_fixed (so_interfaces so') = map if_fixed (so_interfaces so)" using r by (simp add: rescheduled_def)
  have n: "length (so_interfaces so) = n" using b by (simp add: all_brisk_def)
  let ?ts = "ts(i := ts i + d)" and ?us = "us(i := unat (sim_uid \<sigma>))"
  show ?thesis
    unfolding punctual_def
  proof (intro exI conjI allI impI)
    have "timetable \<sigma>' = add_mset (ts i + d, unat (sim_uid \<sigma>), CallSendPacket i)
        (add_mset (tc, uc, CallCompute) (send_table ts us n - {#(ts i, us i, CallSendPacket i)#}))"
      using r t by (simp add: rescheduled_def tt p(1))
    then show "timetable \<sigma>' = add_mset (tc, uc, CallCompute) (send_table ?ts ?us n)"
      by (simp add: send_table_update [OF t(1)])
    show "uc < unat (sim_uid \<sigma>')" using r p(2) by (simp add: rescheduled_def)
    fix j assume j: "j < n"
    show "?ts j = tc \<Longrightarrow> uc < ?us j" using p(2,3) j by (auto split: if_splits)
    fix e assume e: "next_send_time (so_interfaces so' ! j) = Inr (int e)"
    then have e': "next_send_time (so_interfaces so ! j) = Inr (int e)" using same_send_time(1) [OF fx] j n by simp
    then show "?ts j < tc + e" using p(4) j d lt by auto
    assume pos: "0 < queue_length so' j"
    show "?ts j + (queue_length so' j - 1) * e < tc"
    proof (cases "j = i")
      case True
      then obtain k where "queue_length so i = Suc (Suc k)"
        using q j pos by (cases "queue_length so i"; cases "queue_length so i - 1") auto
      then show ?thesis using True e' d p(4) t(1) q by fastforce
    next
      case False
      then show ?thesis using p(4) j e' q pos by simp
    qed
  qed
qed

lemma punctual_start:
  assumes b: "all_brisk n so" and c: "within_capacity so" and u: "uc < u"
  shows "punctual n so (add_mset (1000000000, uc, CallCompute) (send_table (\<lambda>_. 0) us n)) u"
proof -
  have "0 < (1000000000 :: nat) + d \<and> (0 < queue_length so i \<longrightarrow> 0 + (queue_length so i - 1) * d < 1000000000)"
    if i: "i < n" and d: "next_send_time (so_interfaces so ! i) = Inr (int d)" for i d
  proof -
    have R: "d \<le> 1000000000" "unat (getPackageRate (so_interfaces so ! i)) * d \<le> 1000000000"
      using all_briskD [OF b i] d by auto
    have "queue_length so i \<le> unat (getPackageRate (so_interfaces so ! i))"
      using b c i by (simp add: within_capacity_def queue_length_def all_brisk_def)
    then have "queue_length so i * d \<le> 1000000000" using R(2) mult_le_mono1 order_trans by blast
    then have "(queue_length so i - 1) * d < 1000000000" if "0 < queue_length so i"
      using that by (cases "queue_length so i"; cases "d = 0") auto
    then show ?thesis by simp
  qed
  then show ?thesis
    using u unfolding punctual_def
    by (intro exI [of _ 1000000000] exI [of _ uc] exI [of _ "\<lambda>_. 0"] exI [of _ us]) auto
qed

end
