(* ===== verification/Sender_Events.thy ===== *)
theory Sender_Events
  imports Sender_Timetable
begin

text \<open>
  A computation and a pass of a sending loop keep the invariant of the run.
\<close>

section \<open>Every event keeps the invariant\<close>

text \<open>An event that is not rescheduled.\<close>

lemma started_done:
  assumes V: "started_V env F n p P H (Suc b) w t0 ag u" and ev: "(t, call) \<in># ag"
    and w': "world_ok w'" "world_so w' = Some so" "settled env F n p P so" "emptied so"
      "so_getAllDataHasBeenSent so" "to_send so + length (w_trace w') = frame_total F"
      "trace_within n (w_trace w')"
  shows "started_V env F n p P H b w' t (ag - {#(t, call)#}) u"
proof -
  have "load H p ag = visits H p t + load H p (ag - {#(t, call)#})" by (rule load_remove [OF ev])
  moreover have "1 \<le> visits H p t" by (simp add: visits_def)
  ultimately show ?thesis using V w' by (auto simp: started_V_def dest: in_diffD)
qed

text \<open>An event that is rescheduled at least \<open>p\<close> later.\<close>

lemma started_again:
  assumes V: "started_V env F n p P H (Suc b) w t0 ag u" and ev: "(t, call) \<in># ag"
    and t: "t \<le> H" "p \<le> d" "0 < p"
    and w': "world_ok w'" "world_so w' = Some so" "settled env F n p P so" "emptied so"
      "running H P n so t (add_mset (t + d, call) (ag - {#(t, call)#}))"
      "to_send so + length (w_trace w') = frame_total F"
      "trace_within n (w_trace w')"
  shows "started_V env F n p P H b w' t (add_mset (t + d, call) (ag - {#(t, call)#})) (u + 1)"
proof -
  have "load H p ag = visits H p t + load H p (ag - {#(t, call)#})" by (rule load_remove [OF ev])
  moreover have "visits H p (t + d) < visits H p t" using t by (intro visits_later) simp_all
  ultimately show ?thesis using V ev w' by (auto simp: started_V_def dest: in_diffD)
qed

lemma compute_event:
  assumes s: "suited env n p P H" and V: "started_V env F n p P H (Suc b) w t0 ag (unat (sim_uid \<sigma>))"
    and ev: "(clock \<sigma>, CallCompute) \<in># ag" and m: "\<forall>(t, c)\<in>#ag. clock \<sigma> \<le> t" and t0: "t0 \<le> clock \<sigma>"
    and ok: "sim_ok \<sigma>" and ag: "agenda \<sigma> = ag - {#(clock \<sigma>, CallCompute)#}"
    and wso: "world_so w = Some so" and idle: "is_reactive so \<Longrightarrow> idle so"
  shows "\<exists>w' \<sigma>' so'. ComputeStrategyAndContinue env (w, \<sigma>) = Inr (w', \<sigma>') \<and> sim_ok \<sigma>' \<and> same_moment \<sigma> \<sigma>' \<and>
           started_V env F n p P H b w' (clock \<sigma>') (agenda \<sigma>') (unat (sim_uid \<sigma>')) \<and> world_so w' = Some so' \<and>
           is_reactive so' = is_reactive so \<and> map if_fixed (so_interfaces so') = map if_fixed (so_interfaces so) \<and>
           (so_getAllDataHasBeenSent so' \<or> \<not> so_getAllDataHasBeenSent so \<and>
              rescheduled so so' \<sigma> \<sigma>' 1000000000 CallCompute \<and> (is_reactive so \<longrightarrow> within_capacity so'))"
proof -
  have so: "world_so w = Some so" "settled env F n p P so" "emptied so"
      "so_getAllDataHasBeenSent so \<or> running H P n so t0 ag"
    and tot: "to_send so + length (w_trace w) = frame_total F" and tw: "trace_within n (w_trace w)"
    using V wso by (auto simp: started_V_def)
  have n: "0 < n" "n < 4294967296" using s by (auto simp: suited_def)
  have fr: "framed F n p P so" using so(2) by (simp add: settled_def)
  have cn: "computes_next env so" by (rule settled_computes_next [OF so(2) n so(3) idle])
  have wok: "world_ok w" using V by (simp add: started_V_def)
  show ?thesis
  proof (cases "so_getAllDataHasBeenSent so")
    case True
    then have u0: "\<forall>a\<in>set (so_applications so). updates_left a \<le> 0" and q0: "\<forall>j<n. queue_length so j = 0"
      using sent_iff [OF so(2,3)] by auto
    obtain w' so' where c: "ComputeStrategyAndContinue env (w, \<sigma>) =
             (if so_getAllDataHasBeenSent so' then Inr (w', \<sigma>)
              else schedule 1000000000 CallCompute (w', \<sigma>))"
           "world_so w' = Some so'" "settled env F n p P so'" "emptied so'" "to_send so' = to_send so"
           "w_trace w' = w_trace w"
           "\<forall>a\<in>set (so_applications so'). updates_left a \<le> 0 - 1"
           "all_packets_left (so_applications so) + pending (so_applications so) = 0 \<longrightarrow>
              (\<forall>j<n. queue_length so' j = queue_length so j)"
           "is_reactive so' = is_reactive so" "map if_fixed (so_interfaces so') = map if_fixed (so_interfaces so)"
      using compute_step [OF so(1) fr cn n u0, of \<sigma>] by (elim exE conjE) (rule that, assumption+)
    have "all_packets_left (so_applications so) = 0"
      using all_packets_left_zero [of "so_applications so"] u0 so(2) by (auto simp: settled_defs)
    then have sent: "so_getAllDataHasBeenSent so'"
      using c(7,8) sent_iff [OF c(3,4)] q0 pending_emptied [OF so(3)] by simp
    then have r: "ComputeStrategyAndContinue env (w, \<sigma>) = Inr (w', \<sigma>)" using c(1) by simp
    then have "world_ok w'" using ComputeStrategy_ok [OF r] wok by simp
    then show ?thesis
      using r started_done [OF V ev _ c(2,3,4) sent] tot tw c(2,5,6,9,10) ok ag sent by auto
  next
    case False
    then obtain tc ts r where run: "ag = add_mset (tc, CallCompute) (send_entries ts n)"
        "\<forall>i<n. ts i \<le> t0 + P" "\<forall>a\<in>set (so_applications so). updates_left a \<le> r"
        "if 0 < r then tc + (r - 1) * 1000000000 + P + to_send so * P \<le> H
         else \<forall>i<n. 0 < queue_length so i \<longrightarrow> ts i + (queue_length so i - 1) * P \<le> H"
      using so(4) by (auto simp: running_def)
    have tc: "clock \<sigma> = tc" using ev by (simp add: run(1))
    have due: "clock \<sigma> \<le> H" using running_due [OF _ so(2,3) False m] so(4) False by blast
    obtain w' so' where c: "ComputeStrategyAndContinue env (w, \<sigma>) =
             (if so_getAllDataHasBeenSent so' then Inr (w', \<sigma>)
              else schedule 1000000000 CallCompute (w', \<sigma>))"
           "world_so w' = Some so'" "settled env F n p P so'" "emptied so'" "to_send so' = to_send so"
           "w_trace w' = w_trace w"
           "\<forall>a\<in>set (so_applications so'). updates_left a \<le> r - 1"
           "all_packets_left (so_applications so) + pending (so_applications so) = 0 \<longrightarrow>
              (\<forall>j<n. queue_length so' j = queue_length so j)"
           "is_reactive so' = is_reactive so" "is_reactive so \<longrightarrow> within_capacity so'"
           "map if_fixed (so_interfaces so') = map if_fixed (so_interfaces so)"
      using compute_step [OF so(1) fr cn n run(3), of \<sigma>] by (elim exE conjE) (rule that, assumption+)
    show ?thesis
    proof (cases "so_getAllDataHasBeenSent so'")
      case True
      then have e: "ComputeStrategyAndContinue env (w, \<sigma>) = Inr (w', \<sigma>)" using c(1) by simp
      then have "world_ok w'" using ComputeStrategy_ok [OF e] wok by simp
      then show ?thesis using e started_done [OF V ev _ c(2,3,4) True] tot tw c(2,5,6,9,11) ok ag True by auto
    next
      case ns: False
      have ub: "unat (sim_uid \<sigma>) < 4294967295" using V by (simp add: started_V_def)
      have tb: "clock \<sigma> + 1000000000 < 2 ^ 63" using due s by (simp add: suited_def)
      obtain \<sigma>' where s': "schedule (int 1000000000) CallCompute (w', \<sigma>) = Inr (w', \<sigma>')" "sim_ok \<sigma>'"
          "same_moment \<sigma> \<sigma>'" "agenda \<sigma>' = add_mset (clock \<sigma> + 1000000000, CallCompute) (agenda \<sigma>)"
          "unat (sim_uid \<sigma>') = unat (sim_uid \<sigma>) + 1"
          "timetable \<sigma>' = add_mset (clock \<sigma> + 1000000000, unat (sim_uid \<sigma>), CallCompute) (timetable \<sigma>)"
        using schedule_system [OF ok ub tb, of CallCompute w'] by blast
      have e: "ComputeStrategyAndContinue env (w, \<sigma>) = Inr (w', \<sigma>')" using c(1) ns s'(1) by simp
      then have wok': "world_ok w'" using ComputeStrategy_ok [OF e] wok by simp
      have late: "ts i \<le> clock \<sigma> + P" if "i < n" for i using run(2) that t0 by force
      have "if 0 < r - 1 then tc + 1000000000 + (r - 1 - 1) * 1000000000 + P + to_send so' * P \<le> H
         else \<forall>i<n. 0 < queue_length so' i \<longrightarrow> ts i + (queue_length so' i - 1) * P \<le> H"
      proof (cases "r = 0")
        case True
        then have "all_packets_left (so_applications so) = 0"
          using all_packets_left_zero [of "so_applications so"] run(3) so(2) by (auto simp: settled_defs)
        then show ?thesis using True run(4) c(8) pending_emptied [OF so(3)] by simp
      next
        case r: False
        then have h: "tc + (r - 1) * 1000000000 + P + to_send so * P \<le> H" using run(4) by simp
        show ?thesis
        proof (cases "r = 1")
          case True
          have "ts i + (queue_length so' i - 1) * P \<le> H" if "i < n" for i
          proof -
            have "queue_length so' i \<le> to_send so"
              using queue_length_le_queued [of i so'] c(3,5) that by (simp add: to_send_def settled_defs)
            then have "(queue_length so' i - 1) * P \<le> to_send so * P" by (intro mult_le_mono1) simp
            moreover have "tc + P + to_send so * P \<le> H" using h True by simp
            ultimately show ?thesis using late [OF that] tc by linarith
          qed
          then show ?thesis using True by simp
        next
          case False
          then obtain k where "r = Suc (Suc k)" using r by (cases r; cases "r - 1") auto
          then show ?thesis using h c(5) by simp
        qed
      qed
      then have "running H P n so' (clock \<sigma>)
          (add_mset (clock \<sigma> + 1000000000, CallCompute) (ag - {#(clock \<sigma>, CallCompute)#}))"
        using late c(7) unfolding running_def
        by (intro exI [of _ "tc + 1000000000"] exI [of _ ts] exI [of _ "r - 1"]) (simp add: run(1) tc)
      then have "started_V env F n p P H b w' (clock \<sigma>)
          (add_mset (clock \<sigma> + 1000000000, CallCompute) (ag - {#(clock \<sigma>, CallCompute)#}))
          (unat (sim_uid \<sigma>) + 1)"
        using s tot tw c(5,6) by (intro started_again [OF V ev due _ _ wok' c(2,3,4)]) (simp_all add: suited_def)
      moreover have "rescheduled so so' \<sigma> \<sigma>' 1000000000 CallCompute"
        using s'(5,6) c(9,11) by (simp add: rescheduled_def)
      ultimately show ?thesis using e s' ag same_moment_clock [OF s'(3)] c(2,9-11) False by auto
    qed
  qed
qed

lemma send_event:
  assumes s: "suited env n p P H" and V: "started_V env F n p P H (Suc b) w t0 ag (unat (sim_uid \<sigma>))"
    and ev: "(clock \<sigma>, CallSendPacket i) \<in># ag" and m: "\<forall>(t, c)\<in>#ag. clock \<sigma> \<le> t" and t0: "t0 \<le> clock \<sigma>"
    and ok: "sim_ok \<sigma>" and ag: "agenda \<sigma> = ag - {#(clock \<sigma>, CallSendPacket i)#}"
    and wso: "world_so w = Some so"
  shows "\<exists>w' \<sigma>' so'. SendPacket env i (w, \<sigma>) = Inr (w', \<sigma>') \<and> sim_ok \<sigma>' \<and> same_moment \<sigma> \<sigma>' \<and>
           started_V env F n p P H b w' (clock \<sigma>') (agenda \<sigma>') (unat (sim_uid \<sigma>')) \<and> world_so w' = Some so' \<and>
           is_reactive so' = is_reactive so \<and> map if_fixed (so_interfaces so') = map if_fixed (so_interfaces so) \<and>
           (so_getAllDataHasBeenSent so' \<or> \<not> so_getAllDataHasBeenSent so \<and>
              (\<exists>d. rescheduled so so' \<sigma> \<sigma>' d (CallSendPacket i) \<and> next_send_time (so_interfaces so ! i) = Inr (int d) \<and>
                 (\<forall>j<n. queue_length so' j = queue_length so j - (if j = i then 1 else 0))))"
proof -
  have so: "world_so w = Some so" "settled env F n p P so" "emptied so"
      "so_getAllDataHasBeenSent so \<or> running H P n so t0 ag"
    and tot: "to_send so + length (w_trace w) = frame_total F" and tw: "trace_within n (w_trace w)"
    using V wso by (auto simp: started_V_def)
  have wok: "world_ok w" using V by (simp add: started_V_def)
  show ?thesis
  proof (cases "so_getAllDataHasBeenSent so")
    case True
    then have "SendPacket env i (w, \<sigma>) = Inr (w, \<sigma>)"
      using so(1) by (simp add: SendPacket_def world_so_def)
    then show ?thesis using started_done [OF V ev wok so(1,2,3) True tot tw] ok ag so(1) True by auto
  next
    case False
    then obtain tc ts r where run: "ag = add_mset (tc, CallCompute) (send_entries ts n)"
        "\<forall>i<n. ts i \<le> t0 + P" "\<forall>a\<in>set (so_applications so). updates_left a \<le> r"
        "if 0 < r then tc + (r - 1) * 1000000000 + P + to_send so * P \<le> H
         else \<forall>i<n. 0 < queue_length so i \<longrightarrow> ts i + (queue_length so i - 1) * P \<le> H"
      using so(4) by (auto simp: running_def)
    have i: "i < n" "clock \<sigma> = ts i" using ev by (auto simp: run(1))
    have due: "clock \<sigma> \<le> H" using running_due [OF _ so(2,3) False m] so(4) False by blast
    have ready: "ready_sockets env" using s by (simp add: suited_def)
    obtain w' so' d where c: "SendPacket env i (w, \<sigma>) = schedule (int d) (CallSendPacket i) (w', \<sigma>)"
        "p \<le> d" "d \<le> P" "world_so w' = Some so'" "settled env F n p P so'"
        "so_applications so' = so_applications so"
        and fr: "next_send_time (so_interfaces so ! i) = Inr (int d)" "is_reactive so' = is_reactive so"
          "map if_fixed (so_interfaces so') = map if_fixed (so_interfaces so)"
        and tot': "to_send so' + length (w_trace w') = to_send so + length (w_trace w)"
        and tw': "trace_within n (w_trace w) \<longrightarrow> trace_within n (w_trace w')"
        and c7: "\<forall>j<n. queue_length so' j = queue_length so j - (if j = i then 1 else 0)"
      using send_step [OF so(1,2) i(1) ready False, of \<sigma>] by blast
    have ub: "unat (sim_uid \<sigma>) < 4294967295" using V by (simp add: started_V_def)
    have tb: "clock \<sigma> + d < 2 ^ 63" using due s c(3) by (simp add: suited_def)
    obtain \<sigma>' where s': "schedule (int d) (CallSendPacket i) (w', \<sigma>) = Inr (w', \<sigma>')" "sim_ok \<sigma>'"
        "same_moment \<sigma> \<sigma>'" "agenda \<sigma>' = add_mset (clock \<sigma> + d, CallSendPacket i) (agenda \<sigma>)"
        "unat (sim_uid \<sigma>') = unat (sim_uid \<sigma>) + 1"
        "timetable \<sigma>' = add_mset (clock \<sigma> + d, unat (sim_uid \<sigma>), CallSendPacket i) (timetable \<sigma>)"
      using schedule_system [OF ok ub tb, of "CallSendPacket i" w'] by blast
    have e: "SendPacket env i (w, \<sigma>) = Inr (w', \<sigma>')" using c(1) s'(1) by simp
    then have wok': "world_ok w'" using SendPacket_ok [OF e] wok by simp
    have em: "emptied so'" using so(3) c(6) by (simp add: emptied_def)
    have "queued (so_interfaces so') \<le> queued (so_interfaces so)"
      using c(5) c7 so(2) unfolding queued_by_length by (auto simp: settled_defs intro!: sum_mono)
    then have "to_send so' \<le> to_send so" using c(6) by (simp add: to_send_def)
    then have ts': "to_send so' * P \<le> to_send so * P" by (rule mult_le_mono1)
    let ?ts = "ts(i := ts i + d)"
    have late: "?ts j \<le> clock \<sigma> + P" if "j < n" for j
      using run(2) that t0 c(3) i(2) by (auto intro: order_trans [of _ "t0 + P"])
    have "if 0 < r then tc + (r - 1) * 1000000000 + P + to_send so' * P \<le> H
         else \<forall>j<n. 0 < queue_length so' j \<longrightarrow> ?ts j + (queue_length so' j - 1) * P \<le> H"
    proof (cases "0 < r")
      case True
      then have "tc + (r - 1) * 1000000000 + P + to_send so * P \<le> H" using run(4) by simp
      then have "tc + (r - 1) * 1000000000 + P + to_send so' * P \<le> H" using ts' by linarith
      then show ?thesis using True by simp
    next
      case r: False
      have "?ts j + (queue_length so' j - 1) * P \<le> H" if j: "j < n" "0 < queue_length so' j" for j
      proof (cases "j = i")
        case True
        then obtain k where k: "queue_length so i = Suc (Suc k)"
          using c7 j by (cases "queue_length so i"; cases "queue_length so i - 1") auto
        then have "ts i + (P + k * P) \<le> H" using r run(4) i(1) by auto
        then show ?thesis using True c(3) c7 i(1) k by simp
      qed (use r run(4) c7 j in auto)
      then show ?thesis using r by simp
    qed
    moreover have "add_mset (clock \<sigma> + d, CallSendPacket i) (ag - {#(clock \<sigma>, CallSendPacket i)#}) =
        add_mset (tc, CallCompute) (send_entries ?ts n)"
      using i by (simp add: run(1) send_entries_update [OF i(1)])
    ultimately have "running H P n so' (clock \<sigma>)
        (add_mset (clock \<sigma> + d, CallSendPacket i) (ag - {#(clock \<sigma>, CallSendPacket i)#}))"
      using late run(3) c(6) unfolding running_def
      by (intro exI [of _ tc] exI [of _ ?ts] exI [of _ r]) simp
    then have "started_V env F n p P H b w' (clock \<sigma>)
        (add_mset (clock \<sigma> + d, CallSendPacket i) (ag - {#(clock \<sigma>, CallSendPacket i)#}))
        (unat (sim_uid \<sigma>) + 1)"
      using s by (intro started_again [OF V ev due c(2) _ wok' c(4,5) em _ trans [OF tot' tot] mp [OF tw' tw]]) (simp_all add: suited_def)
    moreover have "rescheduled so so' \<sigma> \<sigma>' d (CallSendPacket i)"
      using s'(5,6) fr by (simp add: rescheduled_def)
    ultimately show ?thesis
      using e s'(2-5) ag same_moment_clock [OF s'(3)] c(4) c7 fr False by (intro exI [of _ w'] exI [of _ \<sigma>'] exI [of _ so']) auto
  qed
qed

end
