(* ===== verification/Sender_Start.thy ===== *)
theory Sender_Start
  imports Sender_Events
begin

text \<open>
  The start of the sender establishes the invariant, or it throws: when the first problem of the reactive
  strategy has no solution.
\<close>

section \<open>The start\<close>

definition app_totals :: "application list \<Rightarrow> nat" where
  "app_totals apps = sum_list (map app_total apps)"

text \<open>
  A strategy whose computations return from the start: for the linear one the solver has to solve the
  problem of the started applications, which have to be static ones; for the reactive one there have
  to be a route and brisk interfaces, and its first problem, which has the packets of two samples of
  every application, must have a solution.
\<close>

definition first_problem_solvable :: "application list \<Rightarrow> isp_interface list \<Rightarrow> bool" where
  "first_problem_solvable apps ifaces \<longleftrightarrow>
     (\<forall>apps1 apps2 now. res_map OnApplicationStart apps = Inr apps1 \<longrightarrow> res_map Update apps1 = Inr apps2 \<longrightarrow>
        (\<exists>p v. reactive_problem now apps2 ifaces = Inr p \<and> integer_solution p v))"

fun strategy_ready :: "'g compute_env \<Rightarrow> StrategyTypes \<Rightarrow> application list \<Rightarrow> isp_interface list \<Rightarrow> bool" where
  "strategy_ready env ROUND_ROBIN apps ifaces \<longleftrightarrow> env_opened env"
| "strategy_ready env RANDOM apps ifaces \<longleftrightarrow> env_opened env \<and> shuffle_keeps_length (env_shuffle env)"
| "strategy_ready env LINEAR apps ifaces \<longleftrightarrow>
     (\<forall>a\<in>set apps. is_static a) \<and> solver_contract (env_solve env) \<and>
     (\<forall>apps1. res_map OnApplicationStart apps = Inr apps1 \<longrightarrow>
        (\<exists>p values obj. linear_problem apps1 ifaces = Inr p \<and> env_solve env p = OPTIMAL values obj))"
| "strategy_ready env REACTIVE apps ifaces \<longleftrightarrow>
     env_opened env \<and> solver_contract (env_solve env) \<and> solver_complete (env_solve env) \<and>
     length ifaces < 32 \<and> (\<exists>f. route f apps ifaces) \<and> (\<forall>x\<in>set ifaces. brisk x) \<and> first_problem_solvable apps ifaces"

lemma static_started:
  assumes "is_static a" and "app_unstarted a" and "OnApplicationStart a = Inr b"
  shows "is_static b" and "length (app_pending b) = app_total a"
  using assms by (cases a; auto simp: static_OnApplicationStart_def Let_def push_packets_eq)+

lemma so_set_applications_twice [simp]: "so_set_applications bs (so_set_applications as so) = so_set_applications bs so"
  by (cases so) simp_all

lemma LinearStrategy_simps [simp]:
  "availableInterfaces (LinearStrategy apps ifaces) = ifaces" "\<not> hasBeenComputed (LinearStrategy apps ifaces)"
  by (simp_all add: LinearStrategy_def Strategy_def strategy.defs linear_strategy.defs)

lemma ReactiveStrategy_simps [simp]:
  "availableInterfaces (ReactiveStrategy apps ifaces) = ifaces" "applications (ReactiveStrategy apps ifaces) = apps"
  by (simp_all add: ReactiveStrategy_def Strategy_def)

text \<open>The starts of the applications: packets of one sample, the same demand.\<close>

lemma started_demand:
  assumes "\<forall>a\<in>set apps. app_unstarted a" and "res_map OnApplicationStart apps = Inr apps1"
  shows "map app_demand apps1 = map app_demand apps" and "\<forall>a\<in>set apps1. length (app_pending a) \<le> app_peak a \<and> app_started a"
proof -
  let ?R = "\<lambda>a b. app_demand b = app_demand a \<and> length (app_pending b) \<le> app_peak a \<and> app_started b"
  have "\<exists>y. OnApplicationStart x = Inr y \<and> ?R x y" if "x \<in> set apps" for x
    using OnApplicationStart_generates [of x] assms(1) that by blast
  then obtain apps' where r: "res_map OnApplicationStart apps = Inr apps'" "list_all2 ?R apps apps'"
    using res_map_total [of apps OnApplicationStart ?R] by blast
  then have "list_all2 ?R apps apps1" using assms(2) by simp
  then show "map app_demand apps1 = map app_demand apps" "\<forall>a\<in>set apps1. length (app_pending a) \<le> app_peak a \<and> app_started a"
    by (induction rule: list_all2_induct) (auto simp: app_demand_def)
qed

text \<open>The first two samples of the applications, which the first computation sees.\<close>

lemma first_samples_demand:
  assumes un: "\<forall>a\<in>set apps. app_unstarted a" and st: "res_map OnApplicationStart apps = Inr apps1"
    and u: "res_map Update apps1 = Inr apps2"
  shows "map app_demand apps2 = map app_demand apps" and "\<forall>a\<in>set apps2. length (app_pending a) \<le> 2 * app_peak a"
proof -
  note dem = started_demand [OF un st]
  have "list_all2 generates apps1 apps2"
    using res_map_total [of apps1 Update generates] Update_generates dem(2) u by fastforce
  then show "map app_demand apps2 = map app_demand apps" "\<forall>a\<in>set apps2. length (app_pending a) \<le> 2 * app_peak a"
    using generates_demand [of apps1 apps2] generates_peaks [of apps1 apps2 1] dem by (simp_all add: numeral_2_eq_2)
qed

text \<open>Whether the first problem has a solution depends on the offers of the interfaces.\<close>

lemma first_problem_solvable_cong:
  assumes un: "\<forall>a\<in>set apps. app_unstarted a" and f: "route f apps ifaces" and o: "map if_offer ifaces' = map if_offer ifaces"
    and idle: "\<forall>x\<in>set ifaces. if_pendingpackets x = []" "\<forall>x\<in>set ifaces'. if_pendingpackets x = []"
  shows "first_problem_solvable apps ifaces' = first_problem_solvable apps ifaces"
proof -
  have "reactive_problem now apps2 ifaces' = reactive_problem now apps2 ifaces"
    if st: "res_map OnApplicationStart apps = Inr apps1" and u: "res_map Update apps1 = Inr apps2" for now apps1 apps2
  proof -
    have "route f apps2 ifaces" by (rule route_cong [OF f first_samples_demand(1) [OF un st u] refl])
    note rates = route_rates [OF this]
    show ?thesis
      using reactive_problem_idle [OF idle(1) rates] reactive_problem_idle [OF idle(2) rates] idle_rows_cong [OF o]
        map_eq_imp_length_eq [OF o] by simp
  qed
  then show ?thesis unfolding first_problem_solvable_def by metis
qed

lemma reactive_ready_computes:
  assumes rd: "strategy_ready (env_compute env) REACTIVE apps ifaces" and st: "res_map OnApplicationStart apps = Inr apps1"
    and u: "res_map Update apps1 = Inr apps2"
    and un: "\<forall>a\<in>set apps. app_unstarted a" and n: "0 < length ifaces" and q: "\<forall>x\<in>set ifaces. if_pendingpackets x = []"
  shows "computes (env_compute env) (so_set_applications apps2 (make_strategy (env_compute env) REACTIVE apps ifaces) :: 'g strategy_object)"
proof -
  let ?s = "(ReactiveStrategy apps ifaces)\<lparr>applications := apps2\<rparr>"
  note d2 = first_samples_demand [OF un st u]
  obtain f where "route f apps ifaces" using rd by auto
  then have "route f apps2 ifaces" by (rule route_cong [OF _ d2(1) refl])
  then have d: "drains (env_compute env) (ReactiveS ?s :: 'g strategy_object)" using rd n by auto
  have "idle (ReactiveS ?s :: 'g strategy_object)" "within_peaks 2 (ReactiveS ?s :: 'g strategy_object)"
    using q d2(2) by (simp_all add: idle_def within_peaks_def)
  moreover have "\<exists>p v. reactive_problem now' (applications ?s) (availableInterfaces ?s) = Inr p \<and> integer_solution p v" for now'
    using rd st u by (simp add: first_problem_solvable_def)
  ultimately show ?thesis using reactive_computes [OF d] by simp
qed

lemma strategy_ready_computes_next:
  assumes rd: "strategy_ready (env_compute env) t apps ifaces" and st: "res_map OnApplicationStart apps = Inr apps1"
    and un: "\<forall>a\<in>set apps. app_unstarted a" and n: "0 < length ifaces" "length ifaces < 4294967296"
    and len: "length apps < 2147483647" and q: "\<forall>x\<in>set ifaces. if_pendingpackets x = []"
  shows "computes_next env (so_set_applications apps1 (make_strategy (env_compute env) t apps ifaces))"
proof -
  let ?so = "\<lambda>as. so_set_applications as (make_strategy (env_compute env) t apps ifaces)"
  have "computes (env_compute env) (?so apps2)" if u: "res_map Update apps1 = Inr apps2" for apps2
  proof (cases "t = REACTIVE")
    case True
    show ?thesis using rd unfolding True by (rule reactive_ready_computes [OF _ st u un n(1) q])
  next
    case nr: False
    show ?thesis
  proof (cases "t = LINEAR")
    case True
    have all: "is_static b \<and> length (app_pending b) < 4294967296" if b: "b \<in> set apps1" for b
    proof -
      obtain a where a: "a \<in> set apps" "OnApplicationStart a = Inr b"
        using st [unfolded res_map_Inr_iff] b unfolding list_all2_conv_all_nth in_set_conv_nth by metis
      then have s: "is_static a" "app_unstarted a" using rd un True by auto
      have "app_total a < 4294967296" using s(1) by (cases a) simp_all
      then show ?thesis using static_started [OF s a(2)] by simp
    qed
    then have "apps2 = apps1" using u res_map_Update_static [of apps1] by simp
    moreover obtain p vs obj where "linear_problem apps1 ifaces = Inr p" "env_solve (env_compute env) p = OPTIMAL vs obj"
      using rd st True by auto
    ultimately show ?thesis
      using rd all True by (auto intro!: Linear_first_computes)
  next
    case False
    then have "drains (env_compute env) (?so apps2)" "\<not> is_reactive (?so apps2)" using rd nr by (cases t; simp)+
    moreover have "length apps2 = length apps" using res_map_length [OF u] res_map_length [OF st] by simp
    ultimately show ?thesis using n len by (intro drains_computes) simp_all
  qed
  qed
  then show ?thesis by (simp add: computes_next_def)
qed

text \<open>
  What the start finds: an application that has not run, whose sockets can be opened, and, if it is ready,
  a strategy that is. After 1200 seconds nothing is generated any more, and
  then at most \<open>P\<close> nanoseconds per packet are needed.
\<close>

definition prepared_to_start ::
  "('g, 'r, 'k) sender_env \<Rightarrow> node_interface list \<Rightarrow> run_frame \<Rightarrow> nat \<Rightarrow> nat \<Rightarrow> nat \<Rightarrow> nat \<Rightarrow> ('g, 'r, 'k) world \<Rightarrow> bool" where
  "prepared_to_start env node F n p P H w \<longleftrightarrow>
     fresh_sender w \<and> (\<forall>a\<in>set (sn_application (w_sender w)). app_unstarted a) \<and>
     map app_fixed (sn_application (w_sender w)) = snd F \<and>
     length (sn_application (w_sender w)) < 2147483647 \<and>
     (\<exists>w1. init_sockets env node w = Inr w1 \<and> strategyType (w_sender w1) = strategyType (w_sender w) \<and>
        length (sn_interfaces (w_sender w1)) = n \<and>
        map if_fixed (sn_interfaces (w_sender w1)) = fst F \<and> (\<forall>x\<in>set (sn_interfaces (w_sender w1)). paced p P x)) \<and>
     1200 * 1000000000 + P + app_totals (sn_application (w_sender w)) * P \<le> H"

definition ready_to_start ::
  "('g, 'r, 'k) sender_env \<Rightarrow> node_interface list \<Rightarrow> run_frame \<Rightarrow> nat \<Rightarrow> nat \<Rightarrow> nat \<Rightarrow> nat \<Rightarrow> ('g, 'r, 'k) world \<Rightarrow> bool" where
  "ready_to_start env node F n p P H w \<longleftrightarrow> prepared_to_start env node F n p P H w \<and>
     (\<forall>w1. init_sockets env node w = Inr w1 \<longrightarrow>
        strategy_ready (env_compute env) (strategyType (w_sender w)) (sn_application (w_sender w)) (sn_interfaces (w_sender w1)))"

lemma start_loops:
  assumes "sim_ok \<sigma>" and "unat (sim_uid \<sigma>) + n < 4294967295" and "clock \<sigma> < 2 ^ 63"
  shows "\<exists>\<sigma>'. res_fold InitInterfaceEventLoop [0..<n] (w, \<sigma>) = Inr (w, \<sigma>') \<and> sim_ok \<sigma>' \<and>
           same_moment \<sigma> \<sigma>' \<and> agenda \<sigma>' = agenda \<sigma> + send_entries (\<lambda>_. clock \<sigma>) n \<and>
           timetable \<sigma>' = timetable \<sigma> + send_table (\<lambda>_. clock \<sigma>) (\<lambda>i. unat (sim_uid \<sigma>) + i) n \<and>
           unat (sim_uid \<sigma>') = unat (sim_uid \<sigma>) + n"
  using assms(2)
proof (induction n)
  case 0
  then show ?case using assms(1) by (auto simp: send_entries_def send_table_def)
next
  case (Suc n)
  then obtain \<sigma>1 where s1: "res_fold InitInterfaceEventLoop [0..<n] (w, \<sigma>) = Inr (w, \<sigma>1)" "sim_ok \<sigma>1"
      "same_moment \<sigma> \<sigma>1" "agenda \<sigma>1 = agenda \<sigma> + send_entries (\<lambda>_. clock \<sigma>) n"
      "unat (sim_uid \<sigma>1) = unat (sim_uid \<sigma>) + n"
      "timetable \<sigma>1 = timetable \<sigma> + send_table (\<lambda>_. clock \<sigma>) (\<lambda>i. unat (sim_uid \<sigma>) + i) n"
    by auto
  have c: "clock \<sigma>1 = clock \<sigma>" by (rule same_moment_clock [OF s1(3)])
  obtain \<sigma>2 where s2: "schedule (int 0) (CallSendPacket n) (w, \<sigma>1) = Inr (w, \<sigma>2)" "sim_ok \<sigma>2"
      "same_moment \<sigma>1 \<sigma>2" "agenda \<sigma>2 = add_mset (clock \<sigma>1 + 0, CallSendPacket n) (agenda \<sigma>1)"
      "unat (sim_uid \<sigma>2) = unat (sim_uid \<sigma>1) + 1"
      "timetable \<sigma>2 = add_mset (clock \<sigma>1 + 0, unat (sim_uid \<sigma>1), CallSendPacket n) (timetable \<sigma>1)"
    using schedule_system [OF s1(2), of 0 "CallSendPacket n" w] Suc.prems s1(5) assms(3) c by auto
  have "send_entries (\<lambda>_. clock \<sigma>) (Suc n) = add_mset (clock \<sigma>, CallSendPacket n) (send_entries (\<lambda>_. clock \<sigma>) n)"
    by (simp add: send_entries_def lessThan_Suc)
  moreover have "InitInterfaceEventLoop n (w, \<sigma>1) = Inr (w, \<sigma>2)"
    using s2(1) by (simp add: InitInterfaceEventLoop_def Seconds_0)
  ultimately show ?case
    using s1 s2(2-) c same_moment_trans [OF s1(3) s2(3)]
    by (intro exI [of _ \<sigma>2]) (simp add: res_fold_append send_table_Suc)
qed

lemma start_opens:
  assumes "prepared_to_start env node F n p P H w"
  shows "\<exists>w1 w2 apps so. init_sockets env node w = Inr w1 \<and>
           res_map OnApplicationStart (sn_application (w_sender w)) = Inr apps \<and>
           so = so_set_applications apps (make_strategy (env_compute env) (strategyType (w_sender w))
                  (sn_application (w_sender w)) (sn_interfaces (w_sender w1))) \<and>
           length (sn_interfaces (w_sender w1)) = n \<and> (\<forall>x\<in>set (sn_interfaces (w_sender w1)). if_pendingpackets x = []) \<and>
           StartApplication env node (w, \<sigma>) =
             res_bind (res_fold InitInterfaceEventLoop [0..<n] (w2, \<sigma>)) (ComputeStrategyAndContinue env) \<and>
           world_so w2 = Some so \<and> framed F n p P so \<and>
           to_send so = app_totals (sn_application (w_sender w)) \<and> w_trace w2 = [] \<and>
           (\<forall>a\<in>set (so_applications so). updates_left a \<le> 1199)"
proof -
  let ?apps = "sn_application (w_sender w)"
  obtain w1 where w1: "init_sockets env node w = Inr w1" "strategyType (w_sender w1) = strategyType (w_sender w)"
      "length (sn_interfaces (w_sender w1)) = n" "map if_fixed (sn_interfaces (w_sender w1)) = fst F" "\<forall>x\<in>set (sn_interfaces (w_sender w1)). paced p P x"
    using assms by (auto simp: prepared_to_start_def)
  have f: "fresh_sender w1" "sn_application (w_sender w1) = ?apps"
    using init_sockets_fresh [OF w1(1)] assms by (auto simp: prepared_to_start_def)
  let ?R = "\<lambda>a b. app_started b \<and> app_fixed b = app_fixed a \<and> updates_left b \<le> 1199 \<and>
      packets_left b + length (app_pending b) = app_total a"
  obtain apps where a: "res_map OnApplicationStart ?apps = Inr apps" "list_all2 ?R ?apps apps"
  proof -
    have "\<exists>b. OnApplicationStart a = Inr b \<and> ?R a b" if "a \<in> set ?apps" for a
      using OnApplicationStart_generates [of a] that assms by (auto simp: prepared_to_start_def)
    then show ?thesis using res_map_total [of ?apps OnApplicationStart ?R] that by blast
  qed
  define so where "so = so_set_applications apps
      (make_strategy (env_compute env) (strategyType (w_sender w)) ?apps (sn_interfaces (w_sender w1)))"
  have sum: "all_packets_left apps + pending apps = app_totals ?apps"
    using a(2) by (induction rule: list_all2_induct) (auto simp: app_totals_def)
  have fixd: "map app_fixed apps = map app_fixed ?apps"
    using a(2) by (induction rule: list_all2_induct) auto
  have all: "\<forall>b\<in>set apps. app_started b \<and> updates_left b \<le> 1199"
    using a(2) by (induction rule: list_all2_induct) auto
  have e: "\<forall>x\<in>set (sn_interfaces (w_sender w1)). if_pendingpackets x = []"
    using f(1) by (simp add: fresh_sender_def)
  then have "queued (so_interfaces so) = 0" by (simp add: so_def queued_zero_iff)
  then have "to_send so = app_totals ?apps" using sum by (simp add: to_send_def so_def)
  moreover have "framed F n p P so"
    using w1 all fixd assms list_all2_lengthD [OF a(2)]
    by (auto simp: framed_def so_def prepared_to_start_def)
  moreover define w2 where "w2 = w1\<lparr>w_sender := (w_sender w1)\<lparr>strategy_ptr := Some so\<rparr>\<rparr>"
  moreover have "StartApplication env node (w, \<sigma>) =
      res_bind (res_fold InitInterfaceEventLoop [0..<n] (w2, \<sigma>)) (ComputeStrategyAndContinue env)"
    using w1 a(1) f(2) by (simp add: StartApplication_def Let_def so_def [symmetric] w2_def)
  ultimately show ?thesis
    using all f(1) e w1(1,3) a(1)
    by (intro exI [of _ w1] exI [of _ w2] exI [of _ apps] exI [of _ so]) (simp add: world_so_def so_def fresh_sender_def)
qed

lemma start_step:
  assumes "ready_to_start env node F n p P H w" and n: "0 < n" "n < 4294967296"
  shows "\<exists>w2 so. StartApplication env node (w, \<sigma>) =
             res_bind (res_fold InitInterfaceEventLoop [0..<n] (w2, \<sigma>)) (ComputeStrategyAndContinue env) \<and>
           world_so w2 = Some so \<and> framed F n p P so \<and> computes_next env so \<and>
           to_send so = app_totals (sn_application (w_sender w)) \<and> w_trace w2 = [] \<and>
           (\<forall>a\<in>set (so_applications so). updates_left a \<le> 1199) \<and> (is_reactive so \<longrightarrow> all_brisk n so) \<and>
           is_reactive so = (strategyType (w_sender w) = REACTIVE)"
proof -
  let ?apps = "sn_application (w_sender w)"
  have pr: "prepared_to_start env node F n p P H w" using assms(1) by (simp add: ready_to_start_def)
  obtain w1 w2 apps so where o: "init_sockets env node w = Inr w1"
      "res_map OnApplicationStart ?apps = Inr apps"
      "so = so_set_applications apps (make_strategy (env_compute env) (strategyType (w_sender w)) ?apps (sn_interfaces (w_sender w1)))"
      "length (sn_interfaces (w_sender w1)) = n" "\<forall>x\<in>set (sn_interfaces (w_sender w1)). if_pendingpackets x = []"
      "StartApplication env node (w, \<sigma>) =
        res_bind (res_fold InitInterfaceEventLoop [0..<n] (w2, \<sigma>)) (ComputeStrategyAndContinue env)"
      "world_so w2 = Some so" "framed F n p P so" "to_send so = app_totals ?apps" "w_trace w2 = []"
      "\<forall>a\<in>set (so_applications so). updates_left a \<le> 1199"
    using start_opens [OF pr, of \<sigma>] by (elim exE conjE) (rule that, assumption+)
  have rd: "strategy_ready (env_compute env) (strategyType (w_sender w)) ?apps (sn_interfaces (w_sender w1))"
    using assms(1) o(1) by (simp add: ready_to_start_def)
  have "computes_next env so"
    unfolding o(3) using pr n o(4)
    by (intro strategy_ready_computes_next [OF rd o(2) _ _ _ _ o(5)]) (simp_all add: prepared_to_start_def)
  moreover have "is_reactive so \<longrightarrow> all_brisk n so"
    using rd o(4) by (cases "strategyType (w_sender w)") (simp_all add: o(3) all_brisk_def)
  moreover have "is_reactive so = (strategyType (w_sender w) = REACTIVE)"
    by (cases "strategyType (w_sender w)") (simp_all add: o(3))
  ultimately show ?thesis using o(6-11) by blast
qed

text \<open>When the first problem of the reactive strategy has no solution, the start throws.\<close>

lemma start_fails:
  assumes pr: "prepared_to_start env node F n p P H w" and t: "strategyType (w_sender w) = REACTIVE"
    and n: "0 < n" "n < 32" and sv: "solver_contract (env_solve (env_compute env))"
    and rt: "\<And>w1. init_sockets env node w = Inr w1 \<Longrightarrow>
      (\<exists>f. route f (sn_application (w_sender w)) (sn_interfaces (w_sender w1))) \<and>
      \<not> first_problem_solvable (sn_application (w_sender w)) (sn_interfaces (w_sender w1))"
    and ok: "sim_ok \<sigma>" "unat (sim_uid \<sigma>) + n < 4294967295" "clock \<sigma> < 2 ^ 63"
  shows "StartApplication env node (w, \<sigma>) = Inl (ThrownPointer ''Nessuna soluzione trovata'')"
proof -
  let ?apps = "sn_application (w_sender w)"
  obtain w1 w2 apps so where o: "init_sockets env node w = Inr w1"
      "res_map OnApplicationStart ?apps = Inr apps"
      "so = so_set_applications apps (make_strategy (env_compute env) (strategyType (w_sender w)) ?apps (sn_interfaces (w_sender w1)))"
      "length (sn_interfaces (w_sender w1)) = n" "\<forall>x\<in>set (sn_interfaces (w_sender w1)). if_pendingpackets x = []"
      "StartApplication env node (w, \<sigma>) =
        res_bind (res_fold InitInterfaceEventLoop [0..<n] (w2, \<sigma>)) (ComputeStrategyAndContinue env)"
      "world_so w2 = Some so" "framed F n p P so"
    using start_opens [OF pr, of \<sigma>] by (elim exE conjE) (rule that, assumption+)
  let ?ifaces = "sn_interfaces (w_sender w1)"
  obtain f where f: "route f ?apps ?ifaces" and nf: "\<not> first_problem_solvable ?apps ?ifaces" using rt [OF o(1)] by blast
  obtain \<sigma>1 where s1: "res_fold InitInterfaceEventLoop [0..<n] (w2, \<sigma>) = Inr (w2, \<sigma>1)"
    using start_loops [OF ok, of w2] by blast
  obtain apps2 now' where u: "res_map Update apps = Inr apps2"
      and ns: "\<nexists>p v. reactive_problem now' apps2 ?ifaces = Inr p \<and> integer_solution p v"
    using nf o(2) unfolding first_problem_solvable_def by auto
  have un: "\<forall>a\<in>set ?apps. app_unstarted a" using pr by (simp add: prepared_to_start_def)
  have as: "so_applications so = apps" by (simp add: o(3))
  have "route f apps2 ?ifaces" by (rule route_cong [OF f first_samples_demand(1) [OF un o(2) u] refl])
  note rates = route_rates [OF this]
  let ?p = "\<lparr>int_variables = length apps2 * length ?ifaces, mip_rows = idle_rows apps2 ?ifaces,
         minimized = cost_coefficients (length apps2) ?ifaces\<rparr>"
  have p: "reactive_problem t apps2 ?ifaces = Inr ?p" for t by (rule reactive_problem_idle [OF o(5) rates])
  have nv: "\<nexists>v. integer_solution ?p v" using ns p by blast
  have "so = ReactiveS ((ReactiveStrategy ?apps ?ifaces)\<lparr>applications := apps\<rparr>)" by (simp add: o(3) t)
  then have st: "so_set_applications apps2 so = ReactiveS ((ReactiveStrategy ?apps ?ifaces)\<lparr>applications := apps2\<rparr>)" by simp
  have "Reactive_Compute (env_solve (env_compute env)) (env_opened (env_compute env)) (Sim_Now \<sigma>1)
      ((ReactiveStrategy ?apps ?ifaces)\<lparr>applications := apps2\<rparr>) = Inl (ThrownPointer ''Nessuna soluzione trovata'')"
    by (rule Reactive_Compute_unsolved [OF sv _ _ _ nv]) (simp_all add: o(4) n p del: length_greater_0_conv)
  then have "ComputeStrategyAndContinue env (w2, \<sigma>1) = Inl (ThrownPointer ''Nessuna soluzione trovata'')"
    using o(7) u as st
    by (simp add: ComputeStrategyAndContinue_def world_so_def Seconds_1 Let_def)
  then show ?thesis using o(6) s1 by simp
qed

definition start_V ::
  "('g, 'r, 'k) sender_env \<Rightarrow> node_interface list \<Rightarrow> run_frame \<Rightarrow> nat \<Rightarrow> nat \<Rightarrow> nat \<Rightarrow> nat \<Rightarrow> nat \<Rightarrow> ('g, 'r, 'k) world \<Rightarrow>
     nat \<Rightarrow> (nat \<times> sender_event) multiset \<Rightarrow> nat \<Rightarrow> bool" where
  "start_V env node F n p P H b w t ag u \<longleftrightarrow>
     t = 0 \<and> ag = {#(0, CallStart)#} \<and> ready_to_start env node F n p P H w \<and>
     u + n + 1 + b < 4294967296 \<and> (n + 1) * visits H p 0 < b"

lemma start_event:
  assumes s: "suited env n p P H"
    and V: "start_V env node F n p P H (Suc b) w t0 ag (unat (sim_uid \<sigma>))"
    and c: "clock \<sigma> = 0" and ok: "sim_ok \<sigma>" and tt: "timetable \<sigma> = {#}"
  shows "\<exists>w' \<sigma>' so'. StartApplication env node (w, \<sigma>) = Inr (w', \<sigma>') \<and> sim_ok \<sigma>' \<and> same_moment \<sigma> \<sigma>' \<and>
           started_V env F n p P H b w' (clock \<sigma>') (agenda \<sigma>') (unat (sim_uid \<sigma>')) \<and> world_so w' = Some so' \<and>
           is_reactive so' = (strategyType (w_sender w) = REACTIVE) \<and>
           (is_reactive so' \<longrightarrow> all_brisk n so' \<and>
             (so_getAllDataHasBeenSent so' \<or> punctual n so' (timetable \<sigma>') (unat (sim_uid \<sigma>'))))"
proof -
  have ready: "ready_to_start env node F n p P H w" and u: "unat (sim_uid \<sigma>) + n + 2 + b < 4294967296"
    and bud: "(n + 1) * visits H p 0 \<le> b"
    using V by (simp_all add: start_V_def)
  have n: "0 < n" "n < 4294967296" using s by (auto simp: suited_def)
  have ag: "agenda \<sigma> = {#}" using plain_timetable [of \<sigma>] tt by simp
  obtain w2 so where st: "StartApplication env node (w, \<sigma>) =
        res_bind (res_fold InitInterfaceEventLoop [0..<n] (w2, \<sigma>)) (ComputeStrategyAndContinue env)"
      "world_so w2 = Some so" "framed F n p P so" "to_send so = app_totals (sn_application (w_sender w))"
      "w_trace w2 = []" "\<forall>a\<in>set (so_applications so). updates_left a \<le> 1199" "computes_next env so"
      "is_reactive so \<longrightarrow> all_brisk n so" "is_reactive so = (strategyType (w_sender w) = REACTIVE)"
    using start_step [OF ready n, of \<sigma>] by blast
  obtain \<sigma>1 where s1: "res_fold InitInterfaceEventLoop [0..<n] (w2, \<sigma>) = Inr (w2, \<sigma>1)" "sim_ok \<sigma>1"
      "same_moment \<sigma> \<sigma>1" "agenda \<sigma>1 = send_entries (\<lambda>_. 0) n" "unat (sim_uid \<sigma>1) = unat (sim_uid \<sigma>) + n"
      "timetable \<sigma>1 = send_table (\<lambda>_. 0) (\<lambda>i. unat (sim_uid \<sigma>) + i) n"
    using start_loops [OF ok, of n w2] u c tt ag by auto
  have c1: "clock \<sigma>1 = 0" using same_moment_clock [OF s1(3)] c by simp
  obtain w' so' where r: "ComputeStrategyAndContinue env (w2, \<sigma>1) =
        (if so_getAllDataHasBeenSent so' then Inr (w', \<sigma>1)
         else schedule 1000000000 CallCompute (w', \<sigma>1))"
      "world_so w' = Some so'" "settled env F n p P so'" "emptied so'" "to_send so' = to_send so" "w_trace w' = w_trace w2"
      "\<forall>a\<in>set (so_applications so'). updates_left a \<le> 1199 - 1"
      "is_reactive so' = is_reactive so" "is_reactive so \<longrightarrow> within_capacity so'"
      "map if_fixed (so_interfaces so') = map if_fixed (so_interfaces so)"
    using compute_step [OF st(2,3,7) n st(6), of \<sigma>1] by (elim exE conjE) (rule that, assumption+)
  have run: "StartApplication env node (w, \<sigma>) = ComputeStrategyAndContinue env (w2, \<sigma>1)"
    using st(1) s1(1) by simp
  have br: "is_reactive so' \<longrightarrow> all_brisk n so'" using r(8,10) st(8) all_brisk_fixed by blast
  have fresh: "fresh_sender w" using ready by (simp add: ready_to_start_def prepared_to_start_def)
  have "map app_total (sn_application (w_sender w)) = map snd (snd F)"
    using ready by (auto simp: ready_to_start_def prepared_to_start_def app_fixed_def comp_def dest: arg_cong [of _ _ "map snd"])
  then have tot: "to_send so' + length (w_trace w') = frame_total F"
    using st(4,5) r(5,6) by (simp add: app_totals_def frame_total_def)
  have tw: "trace_within n (w_trace w')" using st(5) r(6) by (simp add: trace_within_def)
  have l: "load H p (send_entries (\<lambda>_. 0) n) = n * visits H p 0"
    by (simp add: load_def send_entries_def image_mset.compositionality comp_def sum_mset_constant)
  show ?thesis
  proof (cases "so_getAllDataHasBeenSent so'")
    case True
    then have e: "StartApplication env node (w, \<sigma>) = Inr (w', \<sigma>1)" using run r(1) by simp
    have "world_ok w'" using StartApplication_ok(1) [OF e fresh] by simp
    moreover have "n * visits H p 0 \<le> b" using bud by simp
    moreover have "\<forall>(s, c)\<in>#send_entries (\<lambda>_. 0) n. c \<noteq> CallStart" by (auto simp: send_entries_def)
    ultimately have "started_V env F n p P H b w' (clock \<sigma>1) (agenda \<sigma>1) (unat (sim_uid \<sigma>1))"
      using r(2,3,4) tot tw True u s1(5) by (auto simp: started_V_def s1(4) l)
    then show ?thesis using e s1(2,3) r(2,8) st(9) True br by blast
  next
    case False
    obtain \<sigma>2 where s2: "schedule (int 1000000000) CallCompute (w', \<sigma>1) = Inr (w', \<sigma>2)" "sim_ok \<sigma>2"
        "same_moment \<sigma>1 \<sigma>2" "agenda \<sigma>2 = add_mset (clock \<sigma>1 + 1000000000, CallCompute) (agenda \<sigma>1)"
        "unat (sim_uid \<sigma>2) = unat (sim_uid \<sigma>1) + 1"
        "timetable \<sigma>2 = add_mset (clock \<sigma>1 + 1000000000, unat (sim_uid \<sigma>1), CallCompute) (timetable \<sigma>1)"
      using schedule_system [OF s1(2), of 1000000000 CallCompute w'] u s1(5) c1 by auto
    have e: "StartApplication env node (w, \<sigma>) = Inr (w', \<sigma>2)" using run r(1) False s2(1) by simp
    have w: "world_ok w'" using StartApplication_ok(1) [OF e fresh] by simp
    have "1000000000 + (1198 - 1) * 1000000000 + P + to_send so' * P \<le> H"
      using ready st(4) r(5) by (simp add: ready_to_start_def prepared_to_start_def)
    then have "running H P n so' 0 (add_mset (1000000000, CallCompute) (send_entries (\<lambda>_. 0) n))"
      using r(7) unfolding running_def
      by (intro exI [of _ "1000000000"] exI [of _ "\<lambda>_. 0"] exI [of _ 1198]) simp
    moreover have "visits H p 1000000000 \<le> visits H p 0" by (simp add: visits_def div_le_mono)
    then have "visits H p 1000000000 + n * visits H p 0 \<le> b" using bud by simp
    moreover have "\<forall>(s, c)\<in>#send_entries (\<lambda>_. 0) n. c \<noteq> CallStart" by (auto simp: send_entries_def)
    ultimately have "started_V env F n p P H b w' (clock \<sigma>2) (agenda \<sigma>2) (unat (sim_uid \<sigma>2))"
      using r(2,3,4) tot tw w u s1(4,5) s2(4,5) c1 same_moment_clock [OF s2(3)]
      by (simp add: started_V_def l)
    moreover have "punctual n so' (timetable \<sigma>2) (unat (sim_uid \<sigma>2))" if "is_reactive so'"
      using punctual_start [of n so' "unat (sim_uid \<sigma>1)" "unat (sim_uid \<sigma>2)" "\<lambda>i. unat (sim_uid \<sigma>) + i"]
        br that r(8,9) s2(5,6) s1(6) c1 by simp
    ultimately show ?thesis using e s2(2) same_moment_trans [OF s1(3) s2(3)] r(2,8) st(9) br by blast
  qed
qed

end
