(* ===== verification/Sender_Run.thy ===== *)
theory Sender_Run
  imports Sender_Start
begin

text \<open>
  The run of the sender comes to its end: with sockets that take every packet and a strategy that
  empties the applications, the simulation processes finitely many events, none of which fails, and
  then every packet ever generated has been handed over. The sending loops poll for ever while
  there is data left, so the proof bounds the time until which there can be any, and with it the
  number of events.
\<close>

section \<open>The run\<close>

text \<open>
  The invariant over the timetable: under the reactive strategy the loops are punctual while there is
  data left.
\<close>

definition on_time :: "nat \<Rightarrow> bool \<Rightarrow> ('g, 'r, 'k) world \<Rightarrow> (nat \<times> nat \<times> sender_event) multiset \<Rightarrow> nat \<Rightarrow> bool" where
  "on_time n reactive w tt u \<longleftrightarrow>
     (\<forall>so. world_so w = Some so \<longrightarrow> is_reactive so = reactive \<and>
        (reactive \<longrightarrow> all_brisk n so \<and> (so_getAllDataHasBeenSent so \<or> punctual n so tt u)))"

definition sender_V ::
  "('g, 'r, 'k) sender_env \<Rightarrow> node_interface list \<Rightarrow> run_frame \<Rightarrow> nat \<Rightarrow> nat \<Rightarrow> nat \<Rightarrow> nat \<Rightarrow> bool \<Rightarrow> nat \<Rightarrow> ('g, 'r, 'k) world \<Rightarrow>
     nat \<Rightarrow> (nat \<times> nat \<times> sender_event) multiset \<Rightarrow> nat \<Rightarrow> bool" where
  "sender_V env node F n p P H reactive b w t tt u \<longleftrightarrow>
     suited env n p P H \<and>
     (start_V env node F n p P H b w t (plain tt) u \<and> reactive = (strategyType (w_sender w) = REACTIVE) \<or>
      started_V env F n p P H b w t (plain tt) u \<and> on_time n reactive w tt u)"

lemma plain_empty: "plain tt = {#} \<longleftrightarrow> tt = {#}"
  by (simp add: plain_def)

lemma plain_single:
  assumes "plain tt = {#(t, c)#}"
  shows "\<exists>u. tt = {#(t, u, c)#}"
proof -
  have "size tt = 1" using arg_cong [OF assms, of size] by (simp add: plain_def)
  then obtain x where "tt = {#x#}" using size_1_singleton_mset by blast
  then show ?thesis using assms by (cases x) (simp add: plain_def)
qed

lemma plain_due: "\<forall>x\<in>#tt. due_before (t, u, c) x \<Longrightarrow> \<forall>(s, d)\<in>#plain tt. t \<le> s"
  by (fastforce simp: plain_def)

text \<open>When a computation is due under the reactive strategy, the queues are empty.\<close>

lemma on_time_idle:
  assumes "on_time n reactive w tt u" and "world_so w = Some so" and "is_reactive so"
    and "(t, v, CallCompute) \<in># tt" and "\<forall>x\<in>#tt. due_before (t, v, CallCompute) x"
  shows "idle so"
proof (cases "so_getAllDataHasBeenSent so")
  case True
  then show ?thesis by (simp add: idle_def so_getAllDataHasBeenSent_eq list_all_iff)
next
  case False
  then show ?thesis using assms punctual_idle by (auto simp: on_time_def)
qed

interpretation run: timetable_client "sender_notify env node" "sender_V env node F n p P H reactive" for env node F n p P H reactive
proof
  fix b w t0 tt \<sigma> v call
  assume V: "sender_V env node F n p P H reactive (Suc b) w t0 tt (unat (sim_uid \<sigma>))"
    and ev: "(clock \<sigma>, v, call) \<in># tt" and m: "\<forall>x\<in>#tt. due_before (clock \<sigma>, v, call) x" and t0: "t0 \<le> clock \<sigma>"
    and ok: "sim_ok \<sigma>" and tt: "timetable \<sigma> = tt - {#(clock \<sigma>, v, call)#}"
  have s: "suited env n p P H" using V by (simp add: sender_V_def)
  have ag: "agenda \<sigma> = plain tt - {#(clock \<sigma>, call)#}"
    using plain_remove [OF ev] plain_timetable [of \<sigma>] tt by simp
  show "\<exists>w' \<sigma>'. sender_notify env node call (w, \<sigma>) = Inr (w', \<sigma>') \<and> sim_ok \<sigma>' \<and> same_moment \<sigma> \<sigma>' \<and>
      sender_V env node F n p P H reactive b w' (clock \<sigma>') (timetable \<sigma>') (unat (sim_uid \<sigma>'))"
  proof (cases "start_V env node F n p P H (Suc b) w t0 (plain tt) (unat (sim_uid \<sigma>)) \<and>
      reactive = (strategyType (w_sender w) = REACTIVE)")
    case True
    then have sv: "start_V env node F n p P H (Suc b) w t0 (plain tt) (unat (sim_uid \<sigma>))"
      and rx: "reactive = (strategyType (w_sender w) = REACTIVE)" by simp_all
    from sv obtain u where "tt = {#(0, u, CallStart)#}" using plain_single by (fastforce simp: start_V_def)
    then have "clock \<sigma> = 0" "call = CallStart" "timetable \<sigma> = {#}" using ev tt by auto
    then show ?thesis
      using start_event [OF s sv _ ok] s rx by (fastforce simp: sender_V_def plain_timetable on_time_def)
  next
    case False
    then have st: "started_V env F n p P H (Suc b) w t0 (plain tt) (unat (sim_uid \<sigma>))"
      and ot: "on_time n reactive w tt (unat (sim_uid \<sigma>))"
      using V False by (auto simp: sender_V_def)
    obtain so where so: "world_so w = Some so" using st by (auto simp: started_V_def)
    note ev' = plain_mem [OF ev] and m' = plain_due [OF m]
    show ?thesis
    proof (cases call)
      case CallStart
      then show ?thesis using st ev' by (auto simp: started_V_def)
    next
      case CallCompute
      have "is_reactive so \<Longrightarrow> idle so" using on_time_idle [OF ot so] ev m CallCompute by simp
      from compute_event [OF s st _ m' t0 ok _ so this] obtain w' \<sigma>' so'
        where c: "ComputeStrategyAndContinue env (w, \<sigma>) = Inr (w', \<sigma>')" "sim_ok \<sigma>'" "same_moment \<sigma> \<sigma>'"
          "started_V env F n p P H b w' (clock \<sigma>') (agenda \<sigma>') (unat (sim_uid \<sigma>'))" "world_so w' = Some so'"
          "so_getAllDataHasBeenSent so' \<or> \<not> so_getAllDataHasBeenSent so \<and>
             rescheduled so so' \<sigma> \<sigma>' 1000000000 CallCompute \<and> (is_reactive so \<longrightarrow> within_capacity so')"
          "is_reactive so' = is_reactive so" "map if_fixed (so_interfaces so') = map if_fixed (so_interfaces so)"
        using ev' ag CallCompute by auto
      have "all_brisk n so'" if "is_reactive so'"
        using all_brisk_fixed [OF _ c(8)] ot so c(7) that by (simp add: on_time_def)
      moreover have "punctual n so' (timetable \<sigma>') (unat (sim_uid \<sigma>'))" if "is_reactive so'" "\<not> so_getAllDataHasBeenSent so'"
        using punctual_compute [of n so tt \<sigma> v so' \<sigma>'] ot so c(6,7) that ev tt CallCompute by (simp add: on_time_def)
      moreover have "is_reactive so' = reactive" using ot so c(7) by (simp add: on_time_def)
      ultimately have "on_time n reactive w' (timetable \<sigma>') (unat (sim_uid \<sigma>'))" using c(5) by (auto simp: on_time_def)
      then show ?thesis using c(1-4) s CallCompute by (auto simp: sender_V_def plain_timetable)
    next
      case (CallSendPacket i)
      from send_event [OF s st _ m' t0 ok _ so, of i] obtain w' \<sigma>' so'
        where c: "SendPacket env i (w, \<sigma>) = Inr (w', \<sigma>')" "sim_ok \<sigma>'" "same_moment \<sigma> \<sigma>'"
          "started_V env F n p P H b w' (clock \<sigma>') (agenda \<sigma>') (unat (sim_uid \<sigma>'))" "world_so w' = Some so'"
          "so_getAllDataHasBeenSent so' \<or> \<not> so_getAllDataHasBeenSent so \<and>
              (\<exists>d. rescheduled so so' \<sigma> \<sigma>' d (CallSendPacket i) \<and> next_send_time (so_interfaces so ! i) = Inr (int d) \<and>
                 (\<forall>j<n. queue_length so' j = queue_length so j - (if j = i then 1 else 0)))"
          "is_reactive so' = is_reactive so" "map if_fixed (so_interfaces so') = map if_fixed (so_interfaces so)"
        using ev' ag CallSendPacket by auto
      have b: "all_brisk n so'" if "is_reactive so'"
        using all_brisk_fixed [OF _ c(8)] ot so c(7) that by (simp add: on_time_def)
      have "punctual n so' (timetable \<sigma>') (unat (sim_uid \<sigma>'))" if r: "is_reactive so'" "\<not> so_getAllDataHasBeenSent so'"
      proof -
        obtain d where d: "rescheduled so so' \<sigma> \<sigma>' d (CallSendPacket i)" "next_send_time (so_interfaces so ! i) = Inr (int d)"
            "\<forall>j<n. queue_length so' j = queue_length so j - (if j = i then 1 else 0)" "\<not> so_getAllDataHasBeenSent so"
          using c(6) r(2) by blast
        then show ?thesis
          using punctual_send [of n so tt \<sigma> v i so' \<sigma>' d] ot so c(7) r ev tt m CallSendPacket by (simp add: on_time_def)
      qed
      moreover have "is_reactive so' = reactive" using ot so c(7) by (simp add: on_time_def)
      ultimately have "on_time n reactive w' (timetable \<sigma>') (unat (sim_uid \<sigma>'))" using c(5) b by (auto simp: on_time_def)
      then show ?thesis using c(1-4) s CallSendPacket by (auto simp: sender_V_def plain_timetable)
    qed
  qed
next
  fix w t tt u
  show "sender_V env node F n p P H reactive 0 w t tt u \<Longrightarrow> tt = {#}"
    by (auto simp: sender_V_def start_V_def started_V_def plain_empty dest: load_zero)
qed

lemma all_generated:
  assumes "app_started a" and "updates_left a = 0"
  shows "app_generated a = of_nat (app_total a)"
proof (cases a)
  case (SinApp b)
  then have "unat (currentSample b) = 1200" "generatedPackets b = sum_list (map snd (take 1200 (sinValues b)))"
    using assms by (auto simp: sin_inv_def)
  moreover have "of_nat (sum_list (map (unat \<circ> snd) xs)) = sum_list (map snd xs)" for xs :: "(u32 \<times> u32) list"
    by (induction xs) simp_all
  ultimately show ?thesis using SinApp by simp
qed (use assms in auto)

text \<open>The invariant at the start of a run, and at its end.\<close>

lemma run_starts:
  assumes "s \<in> {MapS [], ListS [], HeapS HeapScheduler, PriorityQueueS []}"
    and "Simulator_Schedule 0 CallStart (DefaultSimulatorImpl s) = Inr (ident, \<sigma>)"
    and "suited env n p P H" and "ready_to_start env node F n p P H w"
    and "n + 7 + (n + 1) * visits H p 0 < 4294967296"
  shows "sim_ok \<sigma> \<and> (\<exists>b. sender_V env node F n p P H (strategyType (w_sender w) = REACTIVE) b w (clock \<sigma>) (timetable \<sigma>) (unat (sim_uid \<sigma>)))"
proof -
  have \<sigma>: "sim_ok \<sigma>" "clock \<sigma> = 0" "timetable \<sigma> = {#(0, 4, CallStart)#}" "unat (sim_uid \<sigma>) = 5"
    using first_schedule [OF assms(1), of CallStart] assms(2) by auto
  let ?b = "Suc ((n + 1) * visits H p 0)"
  have "sender_V env node F n p P H (strategyType (w_sender w) = REACTIVE) ?b w (clock \<sigma>) (timetable \<sigma>) (unat (sim_uid \<sigma>))"
    using assms(3-5) \<sigma> by (simp add: sender_V_def start_V_def)
  then show ?thesis using \<sigma>(1) by blast
qed

lemma run_ends:
  assumes "sender_V env node F n p P H reactive b w t {#} u"
  shows "\<exists>so. strategy_ptr (w_sender w) = Some so \<and>
    so_getAllDataHasBeenSent so \<and> map if_fixed (so_interfaces so) = fst F \<and>
    map app_fixed (so_applications so) = snd F \<and> length (w_trace w) = frame_total F \<and>
    trace_within n (w_trace w) \<and> (\<forall>a\<in>set (so_applications so). app_generated a = of_nat (app_total a)) \<and>
    (\<forall>i. generated_from i (so_applications so) = of_nat (traced_from i (w_trace w)))"
proof -
  obtain so where so: "world_so w = Some so" "settled env F n p P so" "emptied so"
      "so_getAllDataHasBeenSent so" "world_ok w" "to_send so + length (w_trace w) = frame_total F"
      "trace_within n (w_trace w)"
    using assms by (auto simp: sender_V_def start_V_def started_V_def running_def)
  have "pending (so_applications so) = 0" by (rule pending_emptied [OF so(3)])
  then have p: "pending_from i (so_applications so) = 0" for i
    using sum_pending_from [of "so_applications so"] by simp
  have q: "queued (so_interfaces so) = 0"
    using so(4) by (simp add: so_getAllDataHasBeenSent_eq queued_zero_iff list_all_iff)
  then have "queued_from i (so_interfaces so) = 0" for i
    using sum_queued_from [of "so_interfaces so"] by simp
  then have g: "\<forall>i. generated_from i (so_applications so) = of_nat (traced_from i (w_trace w))"
    using so(1,5) p by (auto simp: world_ok_def books_ok_def)
  have u: "\<forall>a\<in>set (so_applications so). updates_left a = 0 \<and> app_started a"
    using sent_iff [OF so(2,3)] so(2,4) by (auto simp: settled_defs)
  then have "all_packets_left (so_applications so) = 0" by (intro all_packets_left_zero) auto
  then have "to_send so = 0" using q \<open>pending (so_applications so) = 0\<close> by (simp add: to_send_def)
  then have "length (w_trace w) = frame_total F" using so(6) by simp
  moreover have "\<forall>a\<in>set (so_applications so). app_generated a = of_nat (app_total a)"
    using u all_generated by blast
  ultimately show ?thesis
    using so(1,2,4,7) g unfolding world_so_def settled_defs by blast
qed

lemma sender_run_complete:
  assumes "s \<in> {MapS [], ListS [], HeapS HeapScheduler, PriorityQueueS []}"
    and "Simulator_Schedule 0 CallStart (DefaultSimulatorImpl s) = Inr (ident, \<sigma>)"
    and "suited env n p P H" and "ready_to_start env node F n p P H w"
    and "n + 7 + (n + 1) * visits H p 0 < 4294967296"
  shows "\<exists>w' \<sigma>' so. Sim_Run (sender_notify env node) (w, \<sigma>) = Some (Inr (w', \<sigma>')) \<and>
    sched_IsEmpty (m_events \<sigma>') \<and> strategy_ptr (w_sender w') = Some so \<and>
    so_getAllDataHasBeenSent so \<and> map if_fixed (so_interfaces so) = fst F \<and>
    map app_fixed (so_applications so) = snd F \<and> length (w_trace w') = frame_total F \<and>
    trace_within n (w_trace w') \<and> (\<forall>a\<in>set (so_applications so). app_generated a = of_nat (app_total a)) \<and>
    (\<forall>i. generated_from i (so_applications so) = of_nat (traced_from i (w_trace w')))"
proof -
  obtain b where V: "sim_ok \<sigma>"
      "sender_V env node F n p P H (strategyType (w_sender w) = REACTIVE) b w (clock \<sigma>) (timetable \<sigma>) (unat (sim_uid \<sigma>))"
    using run_starts [OF assms] by blast
  show ?thesis using run.Run_to_the_end [OF V] run_ends by blast
qed

section \<open>A run with an assertion\<close>

text \<open>
  The sender, with an assertion at the start of \<open>ComputeStrategyAndContinue\<close>: no packet waits on any
  interface, so that every delay that \<open>DelayEstimator\<close> estimates is 0.
\<close>

definition nothing_waits :: "sim_time \<Rightarrow> 'g strategy_object \<Rightarrow> bool" where
  "nothing_waits now so \<longleftrightarrow> queued (so_interfaces so) = 0 \<and>
     list_all (\<lambda>a. list_all (\<lambda>x. DelayEstimator now a x = Inr 0) (so_interfaces so)) (so_applications so)"

definition asserted_notify ::
  "('g, 'r, 'k) sender_env \<Rightarrow> node_interface list \<Rightarrow> sender_event \<Rightarrow> ('g, 'r, 'k) system \<Rightarrow> ('g, 'r, 'k) system res" where
  "asserted_notify env node call s =
     (if call = CallCompute \<and> \<not> (case strategy_ptr (w_sender (fst s)) of None \<Rightarrow> False | Some so \<Rightarrow> nothing_waits (Sim_Now (snd s)) so)
      then Inl (AssertFailed ''nothing waits'') else sender_notify env node call s)"

lemma idle_nothing_waits: "idle so \<Longrightarrow> nothing_waits now so"
  using DelayEstimator_empty by (simp add: nothing_waits_def idle_def queued_zero_iff list_all_iff)

text \<open>Under the reactive strategy the assertion holds where the invariant does.\<close>

lemma asserted_notify_eq:
  assumes V: "sender_V env node F n p P H True b w t0 tt u"
    and ev: "(t, v, call) \<in># tt" and m: "\<forall>x\<in>#tt. due_before (t, v, call) x"
  shows "asserted_notify env node call (w, \<sigma>) = sender_notify env node call (w, \<sigma>)"
proof (cases "call = CallCompute")
  case True
  then have "(t, CallCompute) \<in># plain tt" using ev by (force simp: plain_def)
  then have "\<not> start_V env node F n p P H b w t0 (plain tt) u" by (auto simp: start_V_def)
  then have st: "started_V env F n p P H b w t0 (plain tt) u" "on_time n True w tt u"
    using V by (auto simp: sender_V_def)
  then obtain so where so: "world_so w = Some so" by (auto simp: started_V_def)
  then have "idle so" using on_time_idle [OF st(2) so] st(2) ev m True by (simp add: on_time_def)
  then show ?thesis using so by (simp add: asserted_notify_def world_so_def idle_nothing_waits)
qed (simp add: asserted_notify_def)

interpretation asserted: timetable_client "asserted_notify env node" "sender_V env node F n p P H True" for env node F n p P H
proof
  fix b w t0 tt \<sigma> v call
  assume a: "sender_V env node F n p P H True (Suc b) w t0 tt (unat (sim_uid \<sigma>))"
    "(clock \<sigma>, v, call) \<in># tt" "\<forall>x\<in>#tt. due_before (clock \<sigma>, v, call) x" "t0 \<le> clock \<sigma>" "sim_ok \<sigma>"
    "timetable \<sigma> = tt - {#(clock \<sigma>, v, call)#}"
  show "\<exists>w' \<sigma>'. asserted_notify env node call (w, \<sigma>) = Inr (w', \<sigma>') \<and> sim_ok \<sigma>' \<and> same_moment \<sigma> \<sigma>' \<and>
      sender_V env node F n p P H True b w' (clock \<sigma>') (timetable \<sigma>') (unat (sim_uid \<sigma>'))"
    unfolding asserted_notify_eq [OF a(1-3)] by (rule run.call_ok [OF a])
qed (rule run.nothing_left)

text \<open>A run whose start throws.\<close>

lemma sender_run_throws:
  assumes "s \<in> {MapS [], ListS [], HeapS HeapScheduler, PriorityQueueS []}"
    and "Simulator_Schedule 0 CallStart (DefaultSimulatorImpl s) = Inr (ident, \<sigma>)"
    and pr: "prepared_to_start env node F n p P H w" and t: "strategyType (w_sender w) = REACTIVE"
    and n: "0 < n" "n < 32" and sv: "solver_contract (env_solve (env_compute env))"
    and rt: "\<And>w1. init_sockets env node w = Inr w1 \<Longrightarrow>
      (\<exists>f. route f (sn_application (w_sender w)) (sn_interfaces (w_sender w1))) \<and>
      \<not> first_problem_solvable (sn_application (w_sender w)) (sn_interfaces (w_sender w1))"
  shows "Sim_Run (sender_notify env node) (w, \<sigma>) = Some (Inl (ThrownPointer ''Nessuna soluzione trovata''))"
proof -
  have \<sigma>: "sim_ok \<sigma>" "timetable \<sigma> = {#(0, 4, CallStart)#}" "unat (sim_uid \<sigma>) = 5"
    using first_schedule [OF assms(1), of CallStart] assms(2) by auto
  show ?thesis
  proof (rule Run_first_fails [OF \<sigma>(1,2)])
    fix \<sigma>' :: "sender_event simulator"
    assume "sim_ok \<sigma>'" "clock \<sigma>' = 0" "sim_uid \<sigma>' = sim_uid \<sigma>"
    then show "sender_notify env node CallStart (w, \<sigma>') = Inl (ThrownPointer ''Nessuna soluzione trovata'')"
      using n \<sigma>(3) by (simp add: start_fails [OF pr t n sv rt])
  qed
qed

section \<open>Properties\<close>


text \<open>One interface of one packet per second, one application with two packets.\<close>

definition demo_env :: "(nat, unit, nat) sender_env" where
  "demo_env = \<lparr>env_compute = sample_env, env_pow = (\<lambda>x y. x), env_draw = (\<lambda>r. (Fin (1 / 2), r)),
     sock_create = (\<lambda>k. (k, k + 1)), sock_is_stream = (\<lambda>s k. True), sock_bind = (\<lambda>s a k. (0, k)),
     sock_bind_any = (\<lambda>v s k. (0, k)), sock_set_tos = (\<lambda>s t k. k), sock_connect = (\<lambda>s a k. k),
     sock_shutdown_recv = (\<lambda>s k. k), sock_set_callbacks = (\<lambda>s k. k), sock_close = (\<lambda>s k. k),
     sock_tx_available = (\<lambda>s k. 131072), sock_send = (\<lambda>s size flow k. (128, k))\<rparr>"

definition demo_device :: net_device where
  "demo_device = \<lparr>channelDataRate = 1024, channelDelay = 150000000\<rparr>"

definition demo_node :: "node_interface list" where
  "demo_node =
     [\<lparr>ni_device = demo_device, ni_errorModel = None, ni_addresses = [2130706433]\<rparr>,
      \<lparr>ni_device = demo_device,
       ni_errorModel = Some \<lparr>errorEnabled = True, errorUnit = ERROR_UNIT_PACKET, errorRateAttribute = Fin (1 / 4)\<rparr>,
       ni_addresses = [167837953]\<rparr>]"

definition demo_world :: "(nat, unit, nat) world" where
  "demo_world =
     \<lparr>w_sender = sender_DoInstall (ApplicationSenderHelper [SocketAddress IPv4 167837954 8080]
          [StaticApp (SDWanStaticApplication False 1 10240 200 20 2)] [10] ROUND_ROBIN) SenderApplication,
      w_random = (), w_sockets = 0, w_files = [], w_trace = []\<rparr>"

lemma demo_init:
  "\<exists>w1. init_sockets demo_env demo_node demo_world = Inr w1 \<and>
     strategyType (w_sender w1) = ROUND_ROBIN \<and> map netDevice (sn_interfaces (w_sender w1)) = [demo_device] \<and>
     map if_fixed (sn_interfaces (w_sender w1)) = [(SocketAddress IPv4 167837953 8080, demo_device, 10)]"
  by (simp add: init_sockets_def init_address_def demo_node_def demo_world_def demo_env_def Let_def
      InitSocket_def add_interface_def getNextInterfaceId_def set_interfaces_def getInterfaces_def
      HasAlreadyInitSocket_def bind_socket_def incompatible_versions_def
      ISPInterface_copy_id ISPInterface_def if_fixed_def sender_DoInstall_def ApplicationSenderHelper_def
      SenderApplication_def upt_rec ConnectionPort_def)

lemma demo_paced: "netDevice x = demo_device \<Longrightarrow> paced 1000000000 1000000000 x"
proof -
  assume "netDevice x = demo_device"
  moreover have "rnd 1 = Fin 1" using rnd_of_nat [of 1] by simp
  ultimately have "next_send_time x = Inr (int 1000000000)"
    by (simp add: next_send_time_def if_getDataRate_def demo_device_def PacketSizeBit_def dbl_of_nat_small Seconds_1)
  then show ?thesis by (auto simp: paced_def)
qed

definition demo_frame :: run_frame where
  "demo_frame = ([(SocketAddress IPv4 167837953 8080, demo_device, 10)], [(1, 2)])"

lemma demo_ready: "ready_to_start demo_env demo_node demo_frame 1 1000000000 1000000000 1203000000000 demo_world"
proof -
  obtain w1 where w1: "init_sockets demo_env demo_node demo_world = Inr w1"
      "strategyType (w_sender w1) = ROUND_ROBIN" "map netDevice (sn_interfaces (w_sender w1)) = [demo_device]"
      "map if_fixed (sn_interfaces (w_sender w1)) = [(SocketAddress IPv4 167837953 8080, demo_device, 10)]"
    using demo_init by (elim exE conjE) (rule that, assumption+)
  have "length (sn_interfaces (w_sender w1)) = 1" using arg_cong [OF w1(3), of length] by simp
  moreover have "\<forall>x\<in>set (sn_interfaces (w_sender w1)). paced 1000000000 1000000000 x"
    using w1(3) demo_paced by (auto simp: map_eq_Cons_conv)
  moreover have "fresh_sender demo_world" "strategyType (w_sender demo_world) = ROUND_ROBIN"
      "sn_application (w_sender demo_world) = [StaticApp (SDWanStaticApplication False 1 10240 200 20 2)]"
    by (simp_all add: demo_world_def fresh_sender_def sender_DoInstall_def ApplicationSenderHelper_def
        SenderApplication_def SDWanStaticApplication_def SDWanApplication_def sdwan_application.defs
        sdwan_static.defs)
  ultimately show ?thesis
    using w1 by (auto simp: ready_to_start_def prepared_to_start_def demo_frame_def app_fixed_def app_totals_def SDWanStaticApplication_def
        SDWanApplication_def sdwan_application.defs sdwan_static.defs demo_env_def sample_env_def)
qed

lemma demo_suited: "suited demo_env 1 1000000000 1000000000 1203000000000"
  by (simp add: suited_def ready_sockets_def demo_env_def PacketSizeByte_eq)



end
