(* ===== verification/Ns3_Address.thy ===== *)
theory Ns3_Address
  imports Isp_Iface
begin

unbundle bit_operations_syntax

text \<open>
  The addresses of ns-3, byte by byte: \<open>Ipv4Address\<close> and \<open>Ipv4Mask\<close>, the polymorphic \<open>Address\<close> with
  its order (the key order of \<open>std::map<Address, ...>\<close>), \<open>InetSocketAddress\<close> and its conversions; and
  \<open>TagBuffer\<close> with \<open>FlowIdTag\<close>, the tag that carries the identifier of an application on a packet.
  \<open>NS_ASSERT\<close> is modelled as it acts in a build that enables it.
\<close>

section \<open>Ipv4Address and Ipv4Mask\<close>

type_synonym ipv4 = u32
type_synonym ipv4_mask = u32

definition low_byte :: "'a :: len word \<Rightarrow> u8" where
  "low_byte x = ucast (x AND 0xff)"

definition Ipv4_Serialize :: "ipv4 \<Rightarrow> u8 list" where
  "Ipv4_Serialize a =
     [low_byte (drop_bit 24 a), low_byte (drop_bit 16 a), low_byte (drop_bit 8 a), low_byte (drop_bit 0 a)]"

fun Ipv4_Deserialize :: "u8 list \<Rightarrow> ipv4 res" where
  "Ipv4_Deserialize (b0 # b1 # b2 # b3 # rest) =
     (let a = 0 OR ucast b0;
          a = push_bit 8 a OR ucast b1;
          a = push_bit 8 a OR ucast b2;
          a = push_bit 8 a OR ucast b3
      in Inr a)"
| "Ipv4_Deserialize bs = Inl (Undefined ''read past the end of a buffer'')"

definition Ipv4_IsAny :: "ipv4 \<Rightarrow> bool" where "Ipv4_IsAny a \<longleftrightarrow> a = 0x00000000"
definition Ipv4_IsLocalhost :: "ipv4 \<Rightarrow> bool" where "Ipv4_IsLocalhost a \<longleftrightarrow> a = 0x7f000001"
definition Ipv4_IsBroadcast :: "ipv4 \<Rightarrow> bool" where "Ipv4_IsBroadcast a \<longleftrightarrow> a = 0xffffffff"
definition Ipv4_IsMulticast :: "ipv4 \<Rightarrow> bool" where
  "Ipv4_IsMulticast a \<longleftrightarrow> 0xe0000000 \<le> a \<and> a \<le> 0xefffffff"
definition Ipv4_IsLocalMulticast :: "ipv4 \<Rightarrow> bool" where
  "Ipv4_IsLocalMulticast a \<longleftrightarrow> a AND 0xffffff00 = 0xe0000000"

definition Mask_IsMatch :: "ipv4 \<Rightarrow> ipv4 \<Rightarrow> ipv4_mask \<Rightarrow> bool" where
  "Mask_IsMatch a b m \<longleftrightarrow> a AND m = b AND m"

definition Mask_GetInverse :: "ipv4_mask \<Rightarrow> u32" where
  "Mask_GetInverse m = NOT m"

text \<open>\<open>GetPrefixLength\<close> shifts the mask left until nothing is left: at most 32 rounds.\<close>

fun prefix_loop :: "nat \<Rightarrow> u32 \<Rightarrow> u16 \<Rightarrow> u16 option" where
  "prefix_loop fuel m tmp =
     (if m = 0 then Some tmp
      else case fuel of 0 \<Rightarrow> None | Suc fuel \<Rightarrow> prefix_loop fuel (push_bit 1 m) (tmp + 1))"

declare prefix_loop.simps [simp del]

definition Mask_GetPrefixLength :: "ipv4_mask \<Rightarrow> u16 option" where
  "Mask_GetPrefixLength m = prefix_loop 32 m 0"

definition CombineMask :: "ipv4 \<Rightarrow> ipv4_mask \<Rightarrow> ipv4" where
  "CombineMask a m = a AND m"

definition GetSubnetDirectedBroadcast :: "ipv4 \<Rightarrow> ipv4_mask \<Rightarrow> ipv4 res" where
  "GetSubnetDirectedBroadcast a m =
     (if m = 0xffffffff then
        Inl (AssertFailed ''Trying to get subnet-directed broadcast address with an all-ones netmask'')
      else Inr (a OR Mask_GetInverse m))"

definition IsSubnetDirectedBroadcast :: "ipv4 \<Rightarrow> ipv4_mask \<Rightarrow> bool" where
  "IsSubnetDirectedBroadcast a m = (if m = 0xffffffff then False else (a OR m) = 0xffffffff)"

lemma bit_low_byte: "bit (low_byte x) n \<longleftrightarrow> n < 8 \<and> bit x n"
  for x :: "'a :: len word"
proof -
  have "low_byte x = ucast (x AND mask 8)" by (simp add: low_byte_def mask_eq_exp_minus_1)
  then show ?thesis using bit_imp_le_length [of x n] by (auto simp: bit_simps)
qed

lemma Ipv4_roundtrip: "Ipv4_Deserialize (Ipv4_Serialize a @ rest) = Inr a"
proof -
  let ?v = "push_bit 8 (push_bit 8 (push_bit 8 (0 OR ucast (low_byte (drop_bit 24 a))) OR
      ucast (low_byte (drop_bit 16 a))) OR ucast (low_byte (drop_bit 8 a))) OR
      ucast (low_byte (drop_bit 0 a)) :: u32"
  have "?v = a"
  proof (rule bit_word_eqI)
    fix n assume "n < LENGTH(32)"
    then consider "n < 8" | "8 \<le> n" "n < 16" | "16 \<le> n" "n < 24" | "24 \<le> n" "n < 32" by force
    then show "bit ?v n = bit a n" by cases (auto simp: bit_simps bit_low_byte)
  qed
  then show ?thesis by (simp add: Ipv4_Serialize_def)
qed

lemma subnet_broadcast_is_broadcast:
  assumes "GetSubnetDirectedBroadcast a m = Inr b"
  shows "IsSubnetDirectedBroadcast b m \<and> Mask_IsMatch a b m"
proof -
  have m: "m \<noteq> 0xffffffff" "b = a OR NOT m"
    using assms by (auto simp: GetSubnetDirectedBroadcast_def Mask_GetInverse_def split: if_splits)
  have "(a OR NOT m) OR m = - 1" "a AND m = (a OR NOT m) AND m"
    by (rule bit_word_eqI; auto simp: bit_simps)+
  moreover have "(- 1 :: u32) = 0xffffffff" by simp
  ultimately have "(a OR NOT m) OR m = 0xffffffff" "a AND m = (a OR NOT m) AND m" by simp_all
  then show ?thesis using m by (simp add: IsSubnetDirectedBroadcast_def Mask_IsMatch_def)
qed

section \<open>Address\<close>

text \<open>\<open>m_len\<close> is the length of the data; the constructors keep it within \<open>MAX_SIZE\<close>.\<close>

datatype ns3_address = Address (m_type: u8) (m_data: "u8 list")

definition MAX_SIZE :: nat where "MAX_SIZE = 20"

definition m_len :: "ns3_address \<Rightarrow> u8" where
  "m_len a = of_nat (length (m_data a))"

definition Address_default :: ns3_address where
  "Address_default = Address 0 []"

definition Address_of :: "u8 \<Rightarrow> u8 list \<Rightarrow> ns3_address res" where
  "Address_of t buffer =
     (if length buffer \<le> MAX_SIZE then Inr (Address t buffer) else Inl (AssertFailed ''m_len <= MAX_SIZE''))"

definition Address_IsInvalid :: "ns3_address \<Rightarrow> bool" where
  "Address_IsInvalid a \<longleftrightarrow> m_len a = 0 \<and> m_type a = 0"

definition Address_CopyAllTo :: "u8 \<Rightarrow> ns3_address \<Rightarrow> u8 list res" where
  "Address_CopyAllTo len a =
     (if uint len - uint (m_len a) > 1 then Inr ([m_type a, m_len a] @ m_data a)
      else Inl (AssertFailed ''len - m_len > 1''))"

text \<open>The copy writes \<open>m_len\<close> bytes into the 20 bytes of \<open>m_data\<close>; nothing checks that they fit.\<close>

definition Address_CopyAllFrom :: "u8 list \<Rightarrow> u8 \<Rightarrow> ns3_address res" where
  "Address_CopyAllFrom buffer len =
     (if \<not> 2 \<le> len then Inl (AssertFailed ''len >= 2'')
      else
        res_bind (vec_at buffer 0) (\<lambda>t.
        res_bind (vec_at buffer 1) (\<lambda>l.
        if \<not> uint len - uint l > 1 then Inl (AssertFailed ''len - m_len > 1'')
        else if MAX_SIZE < unat l then Inl (Undefined ''write past the end of m_data'')
        else if length buffer < 2 + unat l then Inl (Undefined ''read past the end of a buffer'')
        else Inr (Address t (take (unat l) (drop 2 buffer))))))"

definition CheckCompatible :: "u8 \<Rightarrow> u8 \<Rightarrow> ns3_address \<Rightarrow> bool res" where
  "CheckCompatible t len a =
     (if unat len \<le> MAX_SIZE then
        Inr ((m_len a = len \<and> m_type a = t) \<or> (len \<le> m_len a \<and> m_type a = 0))
      else Inl (AssertFailed ''len <= MAX_SIZE''))"

definition Address_IsMatchingType :: "u8 \<Rightarrow> ns3_address \<Rightarrow> bool" where
  "Address_IsMatchingType t a \<longleftrightarrow> m_type a = t"

text \<open>The counter of \<open>Register\<close> is a static variable, 1 at first.\<close>

definition Address_Register :: "u8 \<Rightarrow> u8 \<times> u8" where
  "Address_Register counter = (let counter = counter + 1 in (counter, counter))"

text \<open>Equality ignores the type when one of the two is zero.\<close>

definition Address_equal :: "ns3_address \<Rightarrow> ns3_address \<Rightarrow> bool" where
  "Address_equal a b =
     (if m_type a \<noteq> m_type b \<and> m_type a \<noteq> 0 \<and> m_type b \<noteq> 0 then False
      else if length (m_data a) \<noteq> length (m_data b) then False
      else m_data a = m_data b)"

fun bytes_less :: "u8 list \<Rightarrow> u8 list \<Rightarrow> bool" where
  "bytes_less (x # xs) (y # ys) = (if x < y then True else if y < x then False else bytes_less xs ys)"
| "bytes_less xs ys = False"

definition Address_less :: "ns3_address \<Rightarrow> ns3_address \<Rightarrow> bool" where
  "Address_less a b =
     (if m_type a < m_type b then True
      else if m_type b < m_type a then False
      else if length (m_data a) < length (m_data b) then True
      else if length (m_data b) < length (m_data a) then False
      else bytes_less (m_data a) (m_data b))"

lemma bytes_less_irrefl: "\<not> bytes_less xs xs"
  by (induction xs) auto

lemma bytes_less_trans: "bytes_less xs ys \<Longrightarrow> bytes_less ys zs \<Longrightarrow> bytes_less xs zs"
proof (induction xs ys arbitrary: zs rule: bytes_less.induct)
  case (1 x xs y ys)
  then show ?case by (cases zs) (auto split: if_splits)
qed auto

lemma bytes_less_linear: "length xs = length ys \<Longrightarrow> bytes_less xs ys \<or> xs = ys \<or> bytes_less ys xs"
  by (induction xs ys rule: list_induct2) auto

lemma Address_less_irrefl: "\<not> Address_less a a"
  by (simp add: Address_less_def bytes_less_irrefl)

lemma Address_less_trans: "Address_less a b \<Longrightarrow> Address_less b c \<Longrightarrow> Address_less a c"
  by (auto simp: Address_less_def split: if_splits dest: bytes_less_trans)

lemma Address_less_linear: "Address_less a b \<or> a = b \<or> Address_less b a"
  using bytes_less_linear [of "m_data a" "m_data b"]
  by (cases a; cases b) (auto simp: Address_less_def)

text \<open>So \<open>operator<\<close> is a linear order, which the library's ordered structures can use.\<close>

instantiation ns3_address :: linorder
begin

definition less_ns3_address :: "ns3_address \<Rightarrow> ns3_address \<Rightarrow> bool" where
  "less_ns3_address a b \<longleftrightarrow> Address_less a b"

definition less_eq_ns3_address :: "ns3_address \<Rightarrow> ns3_address \<Rightarrow> bool" where
  "less_eq_ns3_address a b \<longleftrightarrow> a = b \<or> Address_less a b"

instance
proof
  fix a b c :: ns3_address
  show "a < b \<longleftrightarrow> a \<le> b \<and> \<not> b \<le> a"
    using Address_less_irrefl Address_less_trans
    by (auto simp: less_ns3_address_def less_eq_ns3_address_def)
  show "a \<le> a" by (simp add: less_eq_ns3_address_def)
  show "a \<le> b \<Longrightarrow> b \<le> c \<Longrightarrow> a \<le> c"
    using Address_less_trans by (auto simp: less_eq_ns3_address_def)
  show "a \<le> b \<Longrightarrow> b \<le> a \<Longrightarrow> a = b"
    using Address_less_irrefl Address_less_trans by (auto simp: less_eq_ns3_address_def)
  show "a \<le> b \<or> b \<le> a" using Address_less_linear by (auto simp: less_eq_ns3_address_def)
qed

end

section \<open>InetSocketAddress\<close>

record inet_socket_address =
  m_ipv4 :: ipv4
  m_port :: u16

text \<open>
  The types are handed out by \<open>Register\<close> when \<open>GetType\<close> is first called, so their values depend on
  the order of these calls: they are an argument \<open>t\<close>.
\<close>

definition InetSocketAddress :: "ipv4 \<Rightarrow> u16 \<Rightarrow> inet_socket_address" where
  "InetSocketAddress a port = \<lparr>m_ipv4 = a, m_port = port\<rparr>"

definition Inet_ConvertTo :: "u8 \<Rightarrow> inet_socket_address \<Rightarrow> ns3_address res" where
  "Inet_ConvertTo t s =
     (let buf = Ipv4_Serialize (m_ipv4 s) @ [low_byte (m_port s), low_byte (drop_bit 8 (m_port s))]
      in Address_of t buf)"

definition Inet_ConvertFrom :: "u8 \<Rightarrow> ns3_address \<Rightarrow> inet_socket_address res" where
  "Inet_ConvertFrom t address =
     res_bind (CheckCompatible t 6 address) (\<lambda>ok.
     if \<not> ok then Inl (AssertFailed ''address.CheckCompatible(GetType(), 6)'')
     else
       (let buf = m_data address in
        res_bind (Ipv4_Deserialize buf) (\<lambda>a.
        res_bind (vec_at buf 4) (\<lambda>b4.
        res_bind (vec_at buf 5) (\<lambda>b5.
        Inr (InetSocketAddress a (ucast b4 OR push_bit 8 (ucast b5))))))))"

definition Inet_IsMatchingType :: "u8 \<Rightarrow> ns3_address \<Rightarrow> bool res" where
  "Inet_IsMatchingType t address = CheckCompatible t 6 address"

text \<open>\<open>addressUtils::IsMulticast\<close> of an IPv4 socket address.\<close>

definition Inet_IsMulticast :: "u8 \<Rightarrow> ns3_address \<Rightarrow> bool res" where
  "Inet_IsMulticast t address =
     res_bind (Inet_ConvertFrom t address) (\<lambda>s. Inr (Ipv4_IsMulticast (m_ipv4 s)))"

lemma port_roundtrip: "ucast (low_byte p) OR push_bit 8 (ucast (low_byte (drop_bit 8 p))) = p"
  for p :: u16
proof -
  let ?v = "ucast (low_byte p) OR push_bit 8 (ucast (low_byte (drop_bit 8 p))) :: u16"
  show "?v = p"
  proof (rule bit_word_eqI)
    fix n assume "n < LENGTH(16)"
    then consider "n < 8" | "8 \<le> n" "n < 16" by force
    then show "bit ?v n = bit p n" by cases (auto simp: bit_simps bit_low_byte)
  qed
qed

lemma Ipv4_Serialize_length [simp]: "length (Ipv4_Serialize a) = 4"
  by (simp add: Ipv4_Serialize_def)

lemma Inet_ConvertTo_ok:
  "Inet_ConvertTo t s =
     Inr (Address t (Ipv4_Serialize (m_ipv4 s) @ [low_byte (m_port s), low_byte (drop_bit 8 (m_port s))]))"
  by (simp add: Inet_ConvertTo_def Address_of_def MAX_SIZE_def)

lemma Inet_roundtrip:
  assumes "Inet_ConvertTo t s = Inr a"
  shows "Inet_ConvertFrom t a = Inr s" and "Inet_IsMatchingType t a = Inr True"
proof -
  have a: "a = Address t (Ipv4_Serialize (m_ipv4 s) @ [low_byte (m_port s), low_byte (drop_bit 8 (m_port s))])"
    using assms by (simp add: Inet_ConvertTo_ok)
  have l: "m_len a = 6" by (simp add: a m_len_def)
  then show "Inet_IsMatchingType t a = Inr True"
    by (simp add: Inet_IsMatchingType_def CheckCompatible_def MAX_SIZE_def a)
  then show "Inet_ConvertFrom t a = Inr s"
    by (simp add: Inet_IsMatchingType_def Inet_ConvertFrom_def a Ipv4_roundtrip vec_at_def nth_append
        port_roundtrip InetSocketAddress_def)
qed

lemma Address_roundtrip:
  assumes "Address_CopyAllTo len a = Inr buf" and "length (m_data a) \<le> MAX_SIZE"
  shows "Address_CopyAllFrom buf len = Inr a"
proof -
  have b: "buf = [m_type a, m_len a] @ m_data a" "uint len - uint (m_len a) > 1"
    using assms(1) by (auto simp: Address_CopyAllTo_def split: if_splits)
  have l: "unat (m_len a) = length (m_data a)"
    using assms(2) by (simp add: m_len_def MAX_SIZE_def unat_of_nat take_bit_nat_eq_self)
  have "(2 :: int) \<le> uint len" using b(2) uint_ge_0 [of "m_len a"] by linarith
  then have "2 \<le> len" by (simp add: word_le_def)
  then show ?thesis
    using b assms(2) l by (cases a) (simp add: Address_CopyAllFrom_def vec_at_def)
qed

section \<open>TagBuffer and FlowIdTag\<close>

text \<open>The bytes between the start and the end of the buffer, and the offset of \<open>m_current\<close>.\<close>

record tag_buffer =
  tb_bytes :: "u8 list"
  tb_current :: nat

definition TagBuffer :: "u8 list \<Rightarrow> tag_buffer" where
  "TagBuffer bytes = \<lparr>tb_bytes = bytes, tb_current = 0\<rparr>"

definition WriteU8 :: "u8 \<Rightarrow> tag_buffer \<Rightarrow> tag_buffer res" where
  "WriteU8 v b =
     (if tb_current b + 1 \<le> length (tb_bytes b) then
        Inr (b\<lparr>tb_bytes := (tb_bytes b)[tb_current b := v], tb_current := tb_current b + 1\<rparr>)
      else Inl (AssertFailed ''m_current + 1 <= m_end''))"

definition ReadU8 :: "tag_buffer \<Rightarrow> (u8 \<times> tag_buffer) res" where
  "ReadU8 b =
     (if tb_current b + 1 \<le> length (tb_bytes b) then
        Inr (tb_bytes b ! tb_current b, b\<lparr>tb_current := tb_current b + 1\<rparr>)
      else Inl (AssertFailed ''m_current + 1 <= m_end''))"

definition WriteU32 :: "u32 \<Rightarrow> tag_buffer \<Rightarrow> tag_buffer res" where
  "WriteU32 v b =
     res_bind (WriteU8 (low_byte (drop_bit 0 v)) b) (\<lambda>b.
     res_bind (WriteU8 (low_byte (drop_bit 8 v)) b) (\<lambda>b.
     res_bind (WriteU8 (low_byte (drop_bit 16 v)) b) (\<lambda>b.
     WriteU8 (low_byte (drop_bit 24 v)) b)))"

definition ReadU32 :: "tag_buffer \<Rightarrow> (u32 \<times> tag_buffer) res" where
  "ReadU32 b =
     res_bind (ReadU8 b) (\<lambda>(byte0, b).
     res_bind (ReadU8 b) (\<lambda>(byte1, b).
     res_bind (ReadU8 b) (\<lambda>(byte2, b).
     res_bind (ReadU8 b) (\<lambda>(byte3, b).
     (let v = ucast byte3;
          v = push_bit 8 v OR ucast byte2;
          v = push_bit 8 v OR ucast byte1;
          v = push_bit 8 v OR ucast byte0
      in Inr (v, b))))))"

text \<open>A tag is written into as many bytes as \<open>GetSerializedSize\<close> says, and read back from them.\<close>

definition FlowIdTag_GetSerializedSize :: u32 where "FlowIdTag_GetSerializedSize = 4"

definition FlowIdTag_Serialize :: "u32 \<Rightarrow> tag_buffer \<Rightarrow> tag_buffer res" where
  "FlowIdTag_Serialize m_flowId buf = WriteU32 m_flowId buf"

definition FlowIdTag_Deserialize :: "tag_buffer \<Rightarrow> u32 res" where
  "FlowIdTag_Deserialize buf = res_bind (ReadU32 buf) (\<lambda>(m_flowId, buf). Inr m_flowId)"

lemma u32_bytes:
  "push_bit 8 (push_bit 8 (push_bit 8 (ucast (low_byte (drop_bit 24 v))) OR
     ucast (low_byte (drop_bit 16 v))) OR ucast (low_byte (drop_bit 8 v))) OR
     ucast (low_byte (drop_bit 0 v)) = v"
  for v :: u32
  using Ipv4_roundtrip [of v "[]"] by (simp add: Ipv4_Serialize_def)

lemma WriteU32_ok:
  assumes "length (tb_bytes b) = 4" and "tb_current b = 0"
  shows "WriteU32 v b = Inr \<lparr>tb_bytes = [low_byte (drop_bit 0 v), low_byte (drop_bit 8 v),
      low_byte (drop_bit 16 v), low_byte (drop_bit 24 v)], tb_current = 4\<rparr>"
proof -
  obtain b0 b1 b2 b3 where "tb_bytes b = [b0, b1, b2, b3]"
    using assms(1) by (auto simp: length_Suc_conv numeral_eq_Suc)
  then show ?thesis using assms(2) by (simp add: WriteU32_def WriteU8_def)
qed

section \<open>Properties\<close>

lemma Inet_ConvertTo_inj:
  "Inet_ConvertTo t s = Inr a \<Longrightarrow> Inet_ConvertTo t s' = Inr a \<Longrightarrow> s' = s"
  using Inet_roundtrip(1) [of t s a] Inet_roundtrip(1) [of t s' a] by simp

lemma Address_equal_same_type: "m_type a = m_type b \<Longrightarrow> Address_equal a b \<longleftrightarrow> a = b"
  by (cases a; cases b) (auto simp: Address_equal_def)

text \<open>
  C34. Every IPv4 socket address can be converted to an Address, which is recognised as a socket
  address, converts back to the same host and port, survives being copied to and from a buffer of 20
  bytes with its type and length, and is equal, as Addresses are compared, to the conversion of no
  other socket address.
\<close>

theorem Inet_address_roundtrip:
  "\<exists>a. Inet_ConvertTo t s = Inr a \<and> Inet_IsMatchingType t a = Inr True \<and> Inet_ConvertFrom t a = Inr s \<and>
     (\<exists>buf. Address_CopyAllTo 20 a = Inr buf \<and> Address_CopyAllFrom buf 20 = Inr a) \<and>
     (\<forall>s'. (\<exists>b. Inet_ConvertTo t s' = Inr b \<and> Address_equal a b) \<longleftrightarrow> s' = s)"
proof -
  obtain a where a: "Inet_ConvertTo t s = Inr a" and l: "length (m_data a) = 6" "m_type a = t"
    by (simp add: Inet_ConvertTo_ok)
  have "m_len a = 6" using l by (simp add: m_len_def)
  then have "Address_CopyAllTo 20 a = Inr ([m_type a, m_len a] @ m_data a)"
    by (simp add: Address_CopyAllTo_def)
  moreover have "length (m_data a) \<le> MAX_SIZE" by (simp add: l MAX_SIZE_def)
  ultimately have c: "\<exists>buf. Address_CopyAllTo 20 a = Inr buf \<and> Address_CopyAllFrom buf 20 = Inr a"
    using Address_roundtrip by blast
  have "(\<exists>b. Inet_ConvertTo t s' = Inr b \<and> Address_equal a b) \<longleftrightarrow> s' = s" for s'
  proof
    assume "\<exists>b. Inet_ConvertTo t s' = Inr b \<and> Address_equal a b"
    then obtain b where b: "Inet_ConvertTo t s' = Inr b" "Address_equal a b" by blast
    then have "m_type b = t" by (auto simp: Inet_ConvertTo_ok)
    then have "a = b" using b(2) l(2) Address_equal_same_type by metis
    then show "s' = s" using a b(1) Inet_ConvertTo_inj by metis
  next
    assume "s' = s"
    then show "\<exists>b. Inet_ConvertTo t s' = Inr b \<and> Address_equal a b"
      using a by (auto simp: Address_equal_same_type)
  qed
  then show ?thesis using a c Inet_roundtrip by blast
qed

text \<open>
  Writing a flow identifier into a tag buffer of the size that the tag announces succeeds, and
  reading the buffer back gives the identifier: the receiver learns which application a packet is of.
\<close>

theorem FlowIdTag_roundtrip:
  assumes "length bytes = unat FlowIdTag_GetSerializedSize"
  shows "\<exists>b. FlowIdTag_Serialize v (TagBuffer bytes) = Inr b \<and>
    FlowIdTag_Deserialize (TagBuffer (tb_bytes b)) = Inr v"
proof -
  have "FlowIdTag_Serialize v (TagBuffer bytes) = Inr \<lparr>tb_bytes = [low_byte (drop_bit 0 v),
      low_byte (drop_bit 8 v), low_byte (drop_bit 16 v), low_byte (drop_bit 24 v)], tb_current = 4\<rparr>"
    using assms WriteU32_ok [of "TagBuffer bytes" v]
    by (simp add: FlowIdTag_Serialize_def TagBuffer_def FlowIdTag_GetSerializedSize_def)
  then show ?thesis
    using u32_bytes [of v]
    by (simp add: FlowIdTag_Deserialize_def ReadU32_def ReadU8_def TagBuffer_def)
qed

theorem FlowIdTag_roundtrip_witness:
  "\<exists>b. FlowIdTag_Serialize 3 (TagBuffer [0, 0, 0, 0]) = Inr b \<and>
    FlowIdTag_Deserialize (TagBuffer (tb_bytes b)) = Inr 3"
  by (rule FlowIdTag_roundtrip) (simp add: FlowIdTag_GetSerializedSize_def)

end
