(* ===== verification/Ns3_Ip_Alloc.thy ===== *)
theory Ns3_Ip_Alloc
  imports Ns3_Address
begin

unbundle bit_operations_syntax

text \<open>
  How addresses are handed out: \<open>Ipv4AddressGeneratorImpl\<close>, which keeps the allocated addresses as a
  sorted list of blocks and refuses duplicates, and \<open>Ipv4AddressHelper\<close>, which numbers the devices of
  a subnet.
\<close>

section \<open>The generator\<close>

record network_state =
  ns_mask :: u32
  ns_shift :: u32
  ns_network :: u32
  ns_addr :: u32
  ns_addrMax :: u32

record alloc_entry =
  addrLow :: u32
  addrHigh :: u32

record ip_generator =
  m_netTable :: "network_state list"
  m_entries :: "alloc_entry list"
  m_test :: bool

definition N_BITS :: nat where "N_BITS = 32"
definition MOST_SIGNIFICANT_BIT :: u32 where "MOST_SIGNIFICANT_BIT = 0x80000000"

definition reset_step :: "nat \<Rightarrow> u32 \<times> network_state list \<Rightarrow> u32 \<times> network_state list" where
  "reset_step i s =
     (case s of (m, tab) \<Rightarrow>
        (drop_bit 1 m OR MOST_SIGNIFICANT_BIT,
         tab[i := \<lparr>ns_mask = m, ns_shift = of_nat (N_BITS - i), ns_network = 1, ns_addr = 1,
                   ns_addrMax = NOT m\<rparr>]))"

definition Gen_Reset :: "ip_generator \<Rightarrow> ip_generator" where
  "Gen_Reset g =
     g\<lparr>m_netTable := snd (fold reset_step [0..<N_BITS] (0, m_netTable g)), m_entries := [], m_test := False\<rparr>"

text \<open>The constructor finds 32 uninitialised states, which the reset sets.\<close>

definition Ipv4AddressGeneratorImpl :: "network_state list \<Rightarrow> ip_generator" where
  "Ipv4AddressGeneratorImpl garbage = Gen_Reset \<lparr>m_netTable = garbage, m_entries = [], m_test = False\<rparr>"

function index_loop :: "nat \<Rightarrow> u32 \<Rightarrow> nat res" where
  "index_loop i maskBits =
     (if i < N_BITS then
        (if bit maskBits 0 then
           (let index = N_BITS - i in
            if 0 < index \<and> index < N_BITS then Inr index
            else Inl (AbortMsg ''Ipv4AddressGenerator::MaskToIndex(): Illegal Mask''))
         else index_loop (i + 1) (drop_bit 1 maskBits))
      else Inl (AssertFailed ''Ipv4AddressGenerator::MaskToIndex(): Impossible''))"
  by auto
termination
  by (relation "measure (\<lambda>(i, maskBits). N_BITS - i)") auto

declare index_loop.simps [simp del]

definition MaskToIndex :: "ipv4_mask \<Rightarrow> nat res" where
  "MaskToIndex m = index_loop 0 m"

definition net_update :: "nat \<Rightarrow> (network_state \<Rightarrow> network_state) \<Rightarrow> ip_generator \<Rightarrow> ip_generator" where
  "net_update index f g = g\<lparr>m_netTable := (m_netTable g)[index := f (m_netTable g ! index)]\<rparr>"

definition Gen_Init :: "ipv4 \<Rightarrow> ipv4_mask \<Rightarrow> ipv4 \<Rightarrow> ip_generator \<Rightarrow> ip_generator res" where
  "Gen_Init netBits maskBits addrBits g =
     (if netBits AND NOT maskBits \<noteq> 0 then
        Inl (AbortMsg ''Ipv4AddressGeneratorImpl::Init (): Inconsistent network and mask'')
      else if addrBits AND maskBits \<noteq> 0 then
        Inl (AbortMsg ''Ipv4AddressGeneratorImpl::Init (): Inconsistent address and mask'')
      else
        res_bind (MaskToIndex maskBits) (\<lambda>index.
        let g = net_update index (\<lambda>s. s\<lparr>ns_network := drop_bit (unat (ns_shift s)) netBits\<rparr>) g in
        if \<not> addrBits \<le> ns_addrMax (m_netTable g ! index) then
          Inl (AbortMsg ''Ipv4AddressGeneratorImpl::Init(): Address overflow'')
        else Inr (net_update index (\<lambda>s. s\<lparr>ns_addr := addrBits\<rparr>) g)))"

definition Gen_GetNetwork :: "ipv4_mask \<Rightarrow> ip_generator \<Rightarrow> ipv4 res" where
  "Gen_GetNetwork m g =
     res_bind (MaskToIndex m) (\<lambda>index.
     let s = m_netTable g ! index in Inr (push_bit (unat (ns_shift s)) (ns_network s)))"

definition Gen_NextNetwork :: "ipv4_mask \<Rightarrow> ip_generator \<Rightarrow> (ipv4 \<times> ip_generator) res" where
  "Gen_NextNetwork m g =
     res_bind (MaskToIndex m) (\<lambda>index.
     let g = net_update index (\<lambda>s. s\<lparr>ns_network := ns_network s + 1\<rparr>) g;
         s = m_netTable g ! index
     in Inr (push_bit (unat (ns_shift s)) (ns_network s), g))"

definition Gen_InitAddress :: "ipv4 \<Rightarrow> ipv4_mask \<Rightarrow> ip_generator \<Rightarrow> ip_generator res" where
  "Gen_InitAddress addrBits m g =
     res_bind (MaskToIndex m) (\<lambda>index.
     if \<not> addrBits \<le> ns_addrMax (m_netTable g ! index) then
       Inl (AbortMsg ''Ipv4AddressGeneratorImpl::InitAddress(): Address overflow'')
     else Inr (net_update index (\<lambda>s. s\<lparr>ns_addr := addrBits\<rparr>) g))"

definition Gen_GetAddress :: "ipv4_mask \<Rightarrow> ip_generator \<Rightarrow> ipv4 res" where
  "Gen_GetAddress m g =
     res_bind (MaskToIndex m) (\<lambda>index.
     let s = m_netTable g ! index in Inr (push_bit (unat (ns_shift s)) (ns_network s) OR ns_addr s))"

text \<open>\<open>AddAllocated\<close> walks over the blocks; a collision is fatal outside the test mode.\<close>

definition collision :: "bool \<Rightarrow> alloc_entry list \<Rightarrow> (bool \<times> alloc_entry list) res" where
  "collision test es =
     (if \<not> test then Inl (FatalError ''Ipv4AddressGeneratorImpl::Add(): Address Collision: '')
      else Inr (False, es))"

fun add_entries :: "bool \<Rightarrow> u32 \<Rightarrow> alloc_entry list \<Rightarrow> (bool \<times> alloc_entry list) res" where
  "add_entries test addr [] = Inr (True, [\<lparr>addrLow = addr, addrHigh = addr\<rparr>])"
| "add_entries test addr (i # es) =
     (if addrLow i \<le> addr \<and> addr \<le> addrHigh i then collision test (i # es)
      else if addr < addrLow i - 1 then Inr (True, \<lparr>addrLow = addr, addrHigh = addr\<rparr> # i # es)
      else if addr = addrHigh i + 1 then
        (if es \<noteq> [] \<and> addr = addrLow (hd es) then collision test (i # es)
         else Inr (True, i\<lparr>addrHigh := addr\<rparr> # es))
      else if addr = addrLow i - 1 then Inr (True, i\<lparr>addrLow := addr\<rparr> # es)
      else res_bind (add_entries test addr es) (\<lambda>(ok, es). Inr (ok, i # es)))"

definition AddAllocated :: "ipv4 \<Rightarrow> ip_generator \<Rightarrow> (bool \<times> ip_generator) res" where
  "AddAllocated addr g =
     (if addr = 0 then
        Inl (AbortMsg ''Ipv4AddressGeneratorImpl::Add(): Allocating the broadcast address is not a good idea'')
      else res_bind (add_entries (m_test g) addr (m_entries g)) (\<lambda>(ok, es). Inr (ok, g\<lparr>m_entries := es\<rparr>)))"

definition Gen_NextAddress :: "ipv4_mask \<Rightarrow> ip_generator \<Rightarrow> (ipv4 \<times> ip_generator) res" where
  "Gen_NextAddress m g =
     res_bind (MaskToIndex m) (\<lambda>index.
     let s = m_netTable g ! index in
     if \<not> ns_addr s \<le> ns_addrMax s then
       Inl (AbortMsg ''Ipv4AddressGeneratorImpl::NextAddress(): Address overflow'')
     else
       (let addr = push_bit (unat (ns_shift s)) (ns_network s) OR ns_addr s;
            g = net_update index (\<lambda>s. s\<lparr>ns_addr := ns_addr s + 1\<rparr>) g
        in res_bind (AddAllocated addr g) (\<lambda>(ok, g). Inr (addr, g))))"

definition IsAddressAllocated :: "ipv4 \<Rightarrow> ip_generator \<Rightarrow> bool res" where
  "IsAddressAllocated addr g =
     (if addr = 0 then
        Inl (AbortMsg ''Ipv4AddressGeneratorImpl::IsAddressAllocated(): Don't check for the broadcast address...'')
      else Inr (list_ex (\<lambda>i. addrLow i \<le> addr \<and> addr \<le> addrHigh i) (m_entries g)))"

definition IsNetworkAllocated :: "ipv4 \<Rightarrow> ipv4_mask \<Rightarrow> ip_generator \<Rightarrow> bool res" where
  "IsNetworkAllocated address m g =
     (if address \<noteq> CombineMask address m then
        Inl (AbortMsg ''Ipv4AddressGeneratorImpl::IsNetworkAllocated(): network address and mask don't match '')
      else Inr (\<not> list_ex (\<lambda>i. address = CombineMask (addrLow i) m \<or> address = CombineMask (addrHigh i) m)
                   (m_entries g)))"

definition TestMode :: "ip_generator \<Rightarrow> ip_generator" where
  "TestMode g = g\<lparr>m_test := True\<rparr>"

section \<open>The helper\<close>

record ip_helper =
  h_network :: u32
  h_mask :: u32
  h_address :: u32
  h_base :: u32
  h_shift :: u32
  h_max :: u32

definition Ipv4AddressHelper :: ip_helper where
  "Ipv4AddressHelper =
     \<lparr>h_network = 0xffffffff, h_mask = 0, h_address = 0xffffffff, h_base = 0xffffffff, h_shift = 0,
      h_max = 0xffffffff\<rparr>"

function bits_loop :: "nat \<Rightarrow> u32 \<Rightarrow> nat res" where
  "bits_loop i maskbits =
     (if i < 32 then (if bit maskbits 0 then Inr i else bits_loop (i + 1) (drop_bit 1 maskbits))
      else Inl (AssertFailed ''Ipv4AddressHelper::NumAddressBits(): Bad Mask''))"
  by auto
termination
  by (relation "measure (\<lambda>(i, maskbits). 32 - i)") auto

declare bits_loop.simps [simp del]

definition NumAddressBits :: "u32 \<Rightarrow> nat res" where
  "NumAddressBits maskbits = bits_loop 0 maskbits"

text \<open>\<open>(1 << 31) - 2\<close> overflows an \<open>int\<close>.\<close>

definition SetBase :: "ipv4 \<Rightarrow> ipv4_mask \<Rightarrow> ipv4 \<Rightarrow> ip_helper res" where
  "SetBase network m address =
     (if network AND NOT m \<noteq> 0 then
        Inl (AssertFailed ''Ipv4AddressHelper::SetBase(): Inconsistent network and mask'')
      else
        res_bind (NumAddressBits m) (\<lambda>shift.
        if shift = 31 then Inl (Undefined ''int overflow'')
        else Inr \<lparr>h_network = drop_bit shift network, h_mask = m, h_address = address, h_base = address,
                  h_shift = of_nat shift, h_max = of_int (2 ^ shift - 2)\<rparr>))"

definition NewAddress :: "ip_helper \<times> ip_generator \<Rightarrow> (ipv4 \<times> ip_helper \<times> ip_generator) res" where
  "NewAddress s =
     (case s of (h, g) \<Rightarrow>
        if \<not> h_address h \<le> h_max h then
          Inl (AssertFailed ''Ipv4AddressHelper::NewAddress(): Address overflow'')
        else
          (let addr = push_bit (unat (h_shift h)) (h_network h) OR h_address h;
               h = h\<lparr>h_address := h_address h + 1\<rparr>
           in res_bind (AddAllocated addr g) (\<lambda>(ok, g). Inr (addr, h, g))))"

definition NewNetwork :: "ip_helper \<Rightarrow> ipv4 \<times> ip_helper" where
  "NewNetwork h =
     (let h = h\<lparr>h_network := h_network h + 1, h_address := h_base h\<rparr>
      in (push_bit (unat (h_shift h)) (h_network h), h))"

text \<open>\<open>Assign\<close>, as far as addresses go: one new address per device of the container.\<close>

fun Assign :: "nat \<Rightarrow> ip_helper \<times> ip_generator \<Rightarrow> (ipv4 list \<times> ip_helper \<times> ip_generator) res" where
  "Assign 0 s = Inr ([], s)"
| "Assign (Suc n) s =
     res_bind (NewAddress s) (\<lambda>(addr, s). res_bind (Assign n s) (\<lambda>(as, s). Inr (addr # as, s)))"

section \<open>The blocks\<close>

text \<open>
  The blocks are non-empty, leave out 0 and are sorted without overlapping; \<open>allocated\<close> is what they
  stand for.
\<close>

definition entries_ok :: "alloc_entry list \<Rightarrow> bool" where
  "entries_ok es \<longleftrightarrow> (\<forall>e\<in>set es. addrLow e \<le> addrHigh e \<and> addrLow e \<noteq> 0) \<and>
     sorted_wrt (\<lambda>e f. addrHigh e < addrLow f) es"

definition allocated :: "alloc_entry list \<Rightarrow> u32 set" where
  "allocated es = (\<Union>e\<in>set es. {addrLow e..addrHigh e})"

lemma allocated_simps [simp]:
  "allocated [] = {}"
  "allocated (e # es) = {addrLow e..addrHigh e} \<union> allocated es"
  by (simp_all add: allocated_def)

lemma entries_ok_Cons:
  "entries_ok (e # es) \<longleftrightarrow>
     addrLow e \<le> addrHigh e \<and> addrLow e \<noteq> 0 \<and> (\<forall>a\<in>allocated es. addrHigh e < a) \<and> entries_ok es"
proof -
  have "(\<forall>f\<in>set es. addrHigh e < addrLow f) \<longleftrightarrow> (\<forall>a\<in>allocated es. addrHigh e < a)"
    if "\<forall>f\<in>set es. addrLow f \<le> addrHigh f"
    using that by (auto simp: allocated_def intro: order_less_le_trans)
  then show ?thesis by (auto simp: entries_ok_def)
qed

lemma word_between:
  fixes a l h :: u32
  assumes "l \<noteq> 0" and "a \<noteq> 0" and "l \<le> h"
  shows "a < l - 1 \<Longrightarrow> a < l" and "\<not> a < l - 1 \<Longrightarrow> a \<noteq> l - 1 \<Longrightarrow> l \<le> a"
    and "a = l - 1 \<Longrightarrow> {a..h} = insert a {l..h}" and "a = h + 1 \<Longrightarrow> h < a"
    and "a = h + 1 \<Longrightarrow> {l..a} = insert a {l..h}" and "a = l - 1 \<Longrightarrow> a < l"
proof -
  have l1: "unat (l - 1) = unat l - 1" "0 < unat l"
    using assms(1) by (simp_all add: unat_minus_one unat_gt_0)
  show "a < l - 1 \<Longrightarrow> a < l" "\<not> a < l - 1 \<Longrightarrow> a \<noteq> l - 1 \<Longrightarrow> l \<le> a" "a = l - 1 \<Longrightarrow> a < l"
    using l1 by (auto simp: word_less_nat_alt word_le_nat_alt word_unat_eq_iff)
  show "a = l - 1 \<Longrightarrow> {a..h} = insert a {l..h}"
    using l1 assms(3) by (auto simp: word_less_nat_alt word_le_nat_alt word_unat_eq_iff)
  have h: "a = h + 1 \<Longrightarrow> unat a = unat h + 1"
    using assms(2) by (metis add.commute unatSuc Suc_eq_plus1_left)
  then show "a = h + 1 \<Longrightarrow> h < a" by (simp add: word_less_nat_alt)
  show "a = h + 1 \<Longrightarrow> {l..a} = insert a {l..h}"
    using h assms(3) by (auto simp: word_less_nat_alt word_le_nat_alt word_unat_eq_iff)
qed

lemma add_entries_new:
  assumes "entries_ok es" and "a \<noteq> 0" and "a \<notin> allocated es"
  shows "\<exists>es'. add_entries t a es = Inr (True, es') \<and> entries_ok es' \<and> allocated es' = insert a (allocated es)"
  using assms(1,3)
proof (induction es)
  case Nil
  then show ?case using assms(2) by (auto simp: entries_ok_def)
next
  case (Cons e es)
  have e: "addrLow e \<le> addrHigh e" "addrLow e \<noteq> 0" "\<forall>x\<in>allocated es. addrHigh e < x" "entries_ok es"
    using Cons.prems(1) by (simp_all add: entries_ok_Cons)
  note w = word_between [OF e(2) assms(2) e(1)]
  have nin: "\<not> (addrLow e \<le> a \<and> a \<le> addrHigh e)" "a \<notin> allocated es" using Cons.prems(2) by auto
  consider "a < addrLow e - 1" | "\<not> a < addrLow e - 1" "a = addrHigh e + 1"
    | "\<not> a < addrLow e - 1" "a \<noteq> addrHigh e + 1" "a = addrLow e - 1"
    | "\<not> a < addrLow e - 1" "a \<noteq> addrHigh e + 1" "a \<noteq> addrLow e - 1" by blast
  then show ?case
  proof cases
    case 1
    then show ?thesis
      using nin e assms(2) w(1)
      by (auto simp: entries_ok_Cons intro: order_less_le_trans order_le_less_trans)
  next
    case 2
    have h: "es = [] \<or> a \<noteq> addrLow (hd es)"
    proof (cases es)
      case (Cons f fs)
      then have "addrLow f \<in> allocated es" using e(4) by (auto simp: entries_ok_Cons)
      then show ?thesis using nin(2) Cons by auto
    qed simp
    have after: "\<forall>x\<in>allocated es. a < x"
    proof
      fix x assume x: "x \<in> allocated es"
      then have "addrHigh e < x" "x \<noteq> a" using e(3) nin(2) by auto
      then show "a < x" using 2(2) assms(2) by (metis inc_le order_le_imp_less_or_eq)
    qed
    have "allocated (e\<lparr>addrHigh := a\<rparr> # es) = insert a (allocated (e # es))"
      using w(5) [OF 2(2)] by auto
    moreover have "entries_ok (e\<lparr>addrHigh := a\<rparr> # es)"
      using e after w(4) [OF 2(2)] by (auto simp: entries_ok_Cons)
    ultimately show ?thesis using nin 2 h by auto
  next
    case 3
    have "allocated (e\<lparr>addrLow := a\<rparr> # es) = insert a (allocated (e # es))"
      using w(3) [OF 3(3)] by auto
    moreover have "entries_ok (e\<lparr>addrLow := a\<rparr> # es)"
    proof -
      have "a \<in> {a..addrHigh e}" using w(3) [OF 3(3)] by auto
      then show ?thesis using e assms(2) by (auto simp: entries_ok_Cons)
    qed
    ultimately show ?thesis using nin 3 by auto
  next
    case 4
    then have h: "addrHigh e < a" using nin(1) w(2) by auto
    obtain es' where "add_entries t a es = Inr (True, es')" "entries_ok es'" "allocated es' = insert a (allocated es)"
      using Cons.IH [OF e(4) nin(2)] by blast
    then show ?thesis using nin 4 e h by (auto simp: entries_ok_Cons)
  qed
qed

lemma add_entries_taken:
  assumes "entries_ok es" and "a \<noteq> 0" and "a \<in> allocated es"
  shows "add_entries t a es = (if t then Inr (False, es) else Inl (FatalError ''Ipv4AddressGeneratorImpl::Add(): Address Collision: ''))"
  using assms(1,3)
proof (induction es)
  case Nil
  then show ?case by simp
next
  case (Cons e es)
  have e: "addrLow e \<le> addrHigh e" "addrLow e \<noteq> 0" "\<forall>x\<in>allocated es. addrHigh e < x" "entries_ok es"
    using Cons.prems(1) by (simp_all add: entries_ok_Cons)
  note w = word_between [OF e(2) assms(2) e(1)]
  show ?case
  proof (cases "addrLow e \<le> a \<and> a \<le> addrHigh e")
    case True
    then show ?thesis by (simp add: collision_def)
  next
    case False
    then have a: "a \<in> allocated es" using Cons.prems(2) by auto
    then have h: "addrHigh e < a" using e(3) by blast
    then have l: "addrLow e < a" using e(1) by order
    have n1: "\<not> a < addrLow e - 1" "a \<noteq> addrLow e - 1"
      using l w(1,6) by (metis order_less_asym)+
    show ?thesis
    proof (cases "a = addrHigh e + 1")
      case True
      obtain f fs where es: "es = f # fs" using a by (cases es) auto
      have "addrLow f \<in> allocated es" using e(4) es by (auto simp: entries_ok_Cons)
      then have "addrHigh e < addrLow f" using e(3) by blast
      then have "a \<le> addrLow f" using True by (metis inc_le)
      moreover have "addrLow f \<le> a" using a e(4) es by (auto simp: entries_ok_Cons)
      ultimately show ?thesis using False n1 True es by (simp add: collision_def)
    next
      case no: False
      then show ?thesis using False n1 Cons.IH [OF e(4) a] h by (cases t) (auto simp: not_le)
    qed
  qed
qed

section \<open>Addresses of a subnet\<close>

lemma IsAddressAllocated_iff:
  "a \<noteq> 0 \<Longrightarrow> IsAddressAllocated a g = Inr (a \<in> allocated (m_entries g))"
  by (auto simp: IsAddressAllocated_def allocated_def list_ex_iff)

lemma unat_u32_exp: "k < 32 \<Longrightarrow> unat (2 ^ k :: u32) = 2 ^ k"
proof -
  assume "k < 32"
  then have "(2 :: nat) ^ k < 2 ^ 32" by (intro power_strict_increasing) auto
  then show ?thesis using unat_u32_of_nat_small [of "2 ^ k"] by simp
qed

lemma take_bit_below:
  fixes a :: u32
  assumes "a < 2 ^ k" and "k < 32"
  shows "take_bit k a = a"
proof -
  have "unat a < 2 ^ k" using assms by (simp add: word_less_nat_alt unat_u32_exp)
  then show ?thesis by (simp add: word_unat_eq_iff unsigned_take_bit_eq take_bit_nat_eq_self)
qed

text \<open>The count of trailing zero bits is the shift of the mask.\<close>

lemma bits_loop_bound: "bits_loop i m = Inr k \<Longrightarrow> i \<le> k \<and> k < 32 \<and> (\<forall>j < k - i. \<not> bit m j) \<and> bit m (k - i)"
proof (induction i m rule: bits_loop.induct)
  case (1 i m)
  show ?case
  proof (cases "i < 32 \<and> \<not> bit m 0")
    case True
    then have "bits_loop (i + 1) (drop_bit 1 m) = Inr k"
      using 1(2) by (subst (asm) bits_loop.simps) simp
    then have IH: "i + 1 \<le> k" "k < 32" "\<forall>j < k - (i + 1). \<not> bit m (Suc j)" "bit m (Suc (k - (i + 1)))"
      using 1(1) True by (auto simp: bit_simps)
    have "\<not> bit m j" if "j < k - i" for j
      using True IH(3) that by (cases j) auto
    then show ?thesis using IH by (simp add: Suc_diff_Suc)
  next
    case False
    then show ?thesis using 1(2) by (subst (asm) bits_loop.simps) (auto split: if_splits)
  qed
qed

lemma shifted_mask:
  assumes "NumAddressBits m = Inr k"
  shows "push_bit k (drop_bit k x) AND m = x AND m" and "a < 2 ^ k \<Longrightarrow> a AND m = 0"
proof -
  have b: "k < 32" "\<forall>j<k. \<not> bit m j"
    using bits_loop_bound [of 0 m k] assms by (auto simp: NumAddressBits_def)
  show "push_bit k (drop_bit k x) AND m = x AND m"
  proof (rule bit_word_eqI)
    fix n assume "n < LENGTH(32)"
    then show "bit (push_bit k (drop_bit k x) AND m) n = bit (x AND m) n"
      using b by (cases "k \<le> n") (auto simp: bit_simps)
  qed
  show "a < 2 ^ k \<Longrightarrow> a AND m = 0"
  proof (rule bit_word_eqI)
    fix n assume a: "a < 2 ^ k" and n: "n < LENGTH(32)"
    have "take_bit k a = a" using a b(1) by (rule take_bit_below)
    then have "bit a n \<Longrightarrow> n < k" by (metis bit_take_bit_iff)
    then show "bit (a AND m) n = bit (0 :: u32) n" using b by (auto simp: bit_simps)
  qed
qed

lemma SetBase_spec:
  assumes "SetBase network m base = Inr h"
  obtains k where "NumAddressBits m = Inr k" and "k < 31" and "push_bit k (drop_bit k network) = network"
    and "h = \<lparr>h_network = drop_bit k network, h_mask = m, h_address = base, h_base = base,
                h_shift = of_nat k, h_max = of_int (2 ^ k - 2)\<rparr>"
proof -
  obtain k where k: "NumAddressBits m = Inr k" "k \<noteq> 31" "network AND NOT m = 0"
      "h = \<lparr>h_network = drop_bit k network, h_mask = m, h_address = base, h_base = base,
                h_shift = of_nat k, h_max = of_int (2 ^ k - 2)\<rparr>"
    using assms by (auto simp: SetBase_def res_bind_Inr_iff split: if_splits)
  have b: "k < 32" "\<forall>j<k. \<not> bit m j"
    using bits_loop_bound [of 0 m k] k(1) by (auto simp: NumAddressBits_def)
  have nm: "bit network n \<Longrightarrow> bit m n" if "n < 32" for n
    using arg_cong [OF k(3), of "\<lambda>w. bit w n"] that by (simp add: bit_simps)
  have "push_bit k (drop_bit k network) = network"
  proof (rule bit_word_eqI)
    fix n assume "n < LENGTH(32)"
    then show "bit (push_bit k (drop_bit k network)) n = bit network n"
      using b nm [of n] by (cases "k \<le> n") (auto simp: bit_simps)
  qed
  then show thesis using that [of k] k b by simp
qed

lemma low_or_inj:
  fixes a b x :: u32
  assumes "push_bit k (drop_bit k x) = x" and "a < 2 ^ k" and "b < 2 ^ k" and "k < 32"
    and "x OR a = x OR b"
  shows "a = b"
proof -
  have "take_bit k x = 0" by (subst assms(1) [symmetric]) (simp add: take_bit_push_bit)
  then have "take_bit k a = take_bit k b"
    using arg_cong [OF assms(5), of "take_bit k"] by (simp add: take_bit_or)
  then show ?thesis using assms(2-4) by (simp add: take_bit_below)
qed

definition subnet_address :: "u32 \<Rightarrow> u32 \<Rightarrow> nat \<Rightarrow> ipv4" where
  "subnet_address network base i = network OR (base + of_nat i)"

lemma subnet_offset:
  fixes base :: u32
  assumes "unat base + i < 2 ^ k" and "k < 32"
  shows "unat (base + of_nat i) = unat base + i" and "base + of_nat i < 2 ^ k"
proof -
  have "(2 :: nat) ^ k < 2 ^ 32" using assms(2) by (intro power_strict_increasing) auto
  then show u: "unat (base + of_nat i) = unat base + i" using assms(1) by (simp add: unat_u32_add)
  show "base + of_nat i < 2 ^ k"
    unfolding word_less_nat_alt u unat_u32_exp [OF assms(2)] by (rule assms(1))
qed

lemma subnet_address_inj:
  assumes "push_bit k (drop_bit k network) = network" and "k < 32"
    and "unat base + i < 2 ^ k" and "unat base + j < 2 ^ k"
    and "subnet_address network base i = subnet_address network base j"
  shows "i = j"
proof -
  have "base + of_nat i = base + of_nat j"
    by (rule low_or_inj [OF assms(1) subnet_offset(2) [OF assms(3,2)] subnet_offset(2) [OF assms(4,2)] assms(2)])
      (use assms(5) in \<open>simp only: subnet_address_def\<close>)
  then have "unat (base + of_nat i) = unat (base + of_nat j)" by (rule arg_cong)
  then show ?thesis
    unfolding subnet_offset(1) [OF assms(3,2)] subnet_offset(1) [OF assms(4,2)] by simp
qed

lemma NewAddress_ok:
  assumes "push_bit (unat (h_shift h)) (h_network h) = network" and "h_address h \<le> h_max h"
    and "network OR h_address h \<noteq> 0" and "entries_ok (m_entries g)"
    and "network OR h_address h \<notin> allocated (m_entries g)"
  shows "\<exists>g'. NewAddress (h, g) = Inr (network OR h_address h, h\<lparr>h_address := h_address h + 1\<rparr>, g') \<and>
    entries_ok (m_entries g') \<and> allocated (m_entries g') = insert (network OR h_address h) (allocated (m_entries g))"
  using add_entries_new [OF assms(4,3,5), of "m_test g"] assms(1-3)
  by (auto simp: NewAddress_def AddAllocated_def Let_def)

lemma Assign_ok:
  assumes "NumAddressBits m = Inr k" and "push_bit k (drop_bit k network) = network" and "h_shift h = of_nat k"
    and "h_network h = drop_bit k network" and "h_max h = of_int (2 ^ k - 2)" and "k < 31"
    and "entries_ok (m_entries g)" and "0 < unat (h_address h)" and "unat (h_address h) + n < 2 ^ k"
    and "\<forall>i<n. subnet_address network (h_address h) i \<notin> allocated (m_entries g)"
  shows "\<exists>h' g'. Assign n (h, g) = Inr (map (subnet_address network (h_address h)) [0..<n], h', g') \<and>
    entries_ok (m_entries g') \<and>
    allocated (m_entries g') = allocated (m_entries g) \<union> subnet_address network (h_address h) ` {..<n}"
  using assms(3-5,7-)
proof (induction n arbitrary: h g)
  case 0
  then show ?case by auto
next
  case (Suc n)
  let ?a = "h_address h"
  have k: "(2 :: nat) ^ k < 2 ^ 32" using assms(6) by (intro power_strict_increasing) auto
  have sh: "unat (h_shift h) = k" using Suc.prems(1) assms(6) by simp
  have ge: "2 \<le> (2 :: nat) ^ k" using Suc.prems(5,6) by linarith
  have m: "unat (h_max h) = 2 ^ k - 2"
  proof -
    have "h_max h = of_nat (2 ^ k - 2)" using ge Suc.prems(3) by (simp add: of_nat_diff)
    then show ?thesis using k unat_u32_of_nat_small [of "2 ^ k - 2"] by simp
  qed
  have small: "x < 2 ^ k" if "unat x < 2 ^ k" for x :: u32
    using that assms(6) by (simp add: word_less_nat_alt unat_u32_exp)
  have a1: "unat (?a + 1) = unat ?a + 1" using Suc.prems(6) k by (simp add: unat_u32_add)
  have low: "take_bit k network = 0"
    by (subst assms(2) [symmetric]) (simp add: take_bit_push_bit)
  have nz: "network OR ?a \<noteq> 0"
  proof
    assume "network OR ?a = 0"
    then have "take_bit k (network OR ?a) = 0" by simp
    then have "take_bit k ?a = 0" using low unfolding take_bit_or by simp
    then have "?a = 0" using take_bit_below [OF small, of ?a] assms(6) Suc.prems(6) by simp
    then show False using Suc.prems(5) by simp
  qed
  have s0: "subnet_address network ?a 0 = network OR ?a" by (simp add: subnet_address_def)
  have sS: "subnet_address network ?a (Suc i) = subnet_address network (?a + 1) i" for i
    by (simp add: subnet_address_def add.assoc)
  have le: "?a \<le> h_max h" using m Suc.prems(6) by (simp add: word_le_nat_alt)
  obtain g1 where g1: "NewAddress (h, g) = Inr (network OR ?a, h\<lparr>h_address := ?a + 1\<rparr>, g1)"
      "entries_ok (m_entries g1)" "allocated (m_entries g1) = insert (network OR ?a) (allocated (m_entries g))"
    using NewAddress_ok [of h network g] le nz Suc.prems(2,4) sh assms(2) spec [OF Suc.prems(7), of 0] s0 by auto
  have new: "subnet_address network (?a + 1) i \<notin> allocated (m_entries g1)" if i: "i < n" for i
  proof -
    have "subnet_address network ?a (Suc i) \<noteq> subnet_address network ?a 0"
      using subnet_address_inj [OF assms(2), of ?a "Suc i" 0] assms(6) Suc.prems(6) i by auto
    moreover have "subnet_address network ?a (Suc i) \<notin> allocated (m_entries g)"
      using Suc.prems(7) i by blast
    ultimately show ?thesis unfolding g1(3) sS [symmetric] s0 by simp
  qed
  obtain h' g' where g': "Assign n (h\<lparr>h_address := ?a + 1\<rparr>, g1) =
        Inr (map (subnet_address network (?a + 1)) [0..<n], h', g')" "entries_ok (m_entries g')"
      "allocated (m_entries g') = allocated (m_entries g1) \<union> subnet_address network (?a + 1) ` {..<n}"
    using Suc.IH [of "h\<lparr>h_address := ?a + 1\<rparr>" g1] Suc.prems(1-3,6) g1(2) a1 new by auto
  have l: "map (subnet_address network ?a) [0..<Suc n] = (network OR ?a) # map (subnet_address network (?a + 1)) [0..<n]"
    by (simp add: upt_conv_Cons map_Suc_upt [symmetric] s0 sS del: upt_Suc)
  have "{..<Suc n} = insert 0 (Suc ` {..<n})" by (auto simp: image_iff less_Suc_eq_0_disj)
  then have i: "subnet_address network ?a ` {..<Suc n} = insert (network OR ?a) (subnet_address network (?a + 1) ` {..<n})"
    by (simp add: s0 image_image sS)
  show ?case using g1(1,3) g' l i by auto
qed

section \<open>Properties\<close>

text \<open>
  C38. The generator keeps the set of allocated addresses. On sorted disjoint blocks, adding an address
  other than 0.0.0.0 that is not allocated succeeds, keeps the blocks sorted and disjoint and adds
  exactly this address to the set they stand for, whether a block is extended up, down or inserted;
  adding an allocated one changes nothing and is fatal outside the test mode; and
  \<open>IsAddressAllocated\<close> tells the two cases apart.
\<close>

theorem AddAllocated_set:
  assumes "entries_ok (m_entries g)" and "a \<noteq> 0"
  shows "if a \<in> allocated (m_entries g) then
           IsAddressAllocated a g = Inr True \<and>
           AddAllocated a g = (if m_test g then Inr (False, g)
             else Inl (FatalError ''Ipv4AddressGeneratorImpl::Add(): Address Collision: ''))
         else IsAddressAllocated a g = Inr False \<and>
           (\<exists>es. AddAllocated a g = Inr (True, g\<lparr>m_entries := es\<rparr>) \<and> entries_ok es \<and>
              allocated es = insert a (allocated (m_entries g)))"
proof (cases "a \<in> allocated (m_entries g)")
  case True
  then show ?thesis
    using add_entries_taken [OF assms True, of "m_test g"] assms(2)
    by (simp add: AddAllocated_def IsAddressAllocated_iff)
next
  case False
  obtain es where "add_entries (m_test g) a (m_entries g) = Inr (True, es)" "entries_ok es"
      "allocated es = insert a (allocated (m_entries g))"
    using add_entries_new [OF assms False] by blast
  then have "AddAllocated a g = Inr (True, g\<lparr>m_entries := es\<rparr>) \<and> entries_ok es \<and>
      allocated es = insert a (allocated (m_entries g))"
    using assms(2) by (simp add: AddAllocated_def)
  then show ?thesis using False assms(2) by (auto simp: IsAddressAllocated_iff)
qed

definition demo_generator :: ip_generator where
  "demo_generator = \<lparr>m_netTable = [], m_entries = [\<lparr>addrLow = 4, addrHigh = 6\<rparr>, \<lparr>addrLow = 9, addrHigh = 9\<rparr>],
     m_test = False\<rparr>"

theorem AddAllocated_set_witness:
  "\<exists>es. AddAllocated 8 demo_generator = Inr (True, demo_generator\<lparr>m_entries := es\<rparr>) \<and> entries_ok es \<and>
     allocated es = {4..6} \<union> {8, 9}"
proof -
  have "entries_ok (m_entries demo_generator)"
    by (auto simp: demo_generator_def entries_ok_def)
  from AddAllocated_set [OF this, of 8] show ?thesis
    by (auto simp: demo_generator_def insert_commute)
qed

text \<open>
  C39. \<open>Assign\<close> numbers the devices of a subnet. After \<open>SetBase\<close> with a non-zero base, for as many
  devices as the host part can number, none of whose addresses is taken, it returns, assigns the
  addresses base, base + 1, ... of the network, all different and all matching the network under the
  mask, and allocates exactly these.
\<close>

theorem Assign_numbers_subnet:
  assumes "SetBase network m base = Inr h" and "NumAddressBits m = Inr k"
    and "0 < unat base" and "unat base + n < 2 ^ k" and "entries_ok (m_entries g)"
    and "\<forall>i<n. subnet_address network base i \<notin> allocated (m_entries g)"
  shows "\<exists>h' g'. Assign n (h, g) = Inr (map (subnet_address network base) [0..<n], h', g') \<and>
    entries_ok (m_entries g') \<and>
    allocated (m_entries g') = allocated (m_entries g) \<union> subnet_address network base ` {..<n} \<and>
    inj_on (subnet_address network base) {..<n} \<and>
    (\<forall>i\<in>{..<n}. Mask_IsMatch (subnet_address network base i) network m)"
proof -
  have k: "k < 31" "push_bit k (drop_bit k network) = network"
    and h: "h = \<lparr>h_network = drop_bit k network, h_mask = m, h_address = base, h_base = base,
                h_shift = of_nat k, h_max = of_int (2 ^ k - 2)\<rparr>"
    using SetBase_spec [OF assms(1)] assms(2) by (metis Inr_inject)+
  have small: "base + of_nat i < 2 ^ k" if "i < n" for i
    by (rule subnet_offset(2)) (use that assms(4) k(1) in simp_all)
  have "inj_on (subnet_address network base) {..<n}"
    by (rule inj_onI) (rule subnet_address_inj [OF k(2), of base]; use assms(4) k(1) in simp)
  moreover have "\<forall>i\<in>{..<n}. Mask_IsMatch (subnet_address network base i) network m"
  proof
    fix i assume "i \<in> {..<n}"
    then have "(base + of_nat i) AND m = 0" using shifted_mask(2) [OF assms(2) small] by simp
    then show "Mask_IsMatch (subnet_address network base i) network m"
      unfolding Mask_IsMatch_def subnet_address_def word_ao_dist by simp
  qed
  ultimately show ?thesis
    using Assign_ok [OF assms(2) k(2), of h g n] assms(3-6) k(1) by (auto simp: h)
qed

theorem Assign_numbers_subnet_witness:
  "\<exists>h h' g'. SetBase 0x0a010100 0xffffff00 1 = Inr h \<and>
     Assign 2 (h, Ipv4AddressGeneratorImpl []) = Inr ([0x0a010101, 0x0a010102], h', g')"
proof -
  have b: "NumAddressBits 0xffffff00 = Inr 8"
    by (simp add: NumAddressBits_def bits_loop.simps bit_iff_odd_drop_bit)
  then obtain h where h: "SetBase 0x0a010100 0xffffff00 1 = Inr h" by (auto simp: SetBase_def)
  have e: "m_entries (Ipv4AddressGeneratorImpl []) = []"
    by (simp add: Ipv4AddressGeneratorImpl_def Gen_Reset_def)
  have "map (subnet_address 0x0a010100 1) [0..<2] = [0x0a010101, 0x0a010102]"
    by (simp add: subnet_address_def upt_rec)
  then show ?thesis
    using Assign_numbers_subnet [OF h b, of 2 "Ipv4AddressGeneratorImpl []"] h
    by (auto simp: e entries_ok_def)
qed



end
