(* ===== verification/Main_Setup.thy ===== *)
theory Main_Setup
  imports Sender_Run Ns3_Ip_Alloc
begin

text \<open>
  The first half of \<open>RunSimulation\<close> in \<open>main.cpp\<close>: the network between the CPE and the sink (three
  channels with their error models, costs and addresses) and the three applications.
\<close>

section \<open>The network\<close>

text \<open>A channel is installed with its data rate in packets per second and its delay in milliseconds.\<close>

definition make_channel :: "u32 \<Rightarrow> u64 \<Rightarrow> net_device" where
  "make_channel packetsPerSecond ms =
     \<lparr>channelDataRate = ConvertPacketsPerSecondToBitPerSecond packetsPerSecond, channelDelay = MilliSeconds ms\<rparr>"

text \<open>\<open>factory.Create<RateErrorModel>\<close> makes an enabled model; its defaults are overwritten at once.\<close>

definition make_error_model :: "rat \<Rightarrow> rate_error_model" where
  "make_error_model rate =
     RateErrorModel_SetUnit ERROR_UNIT_PACKET (RateErrorModel_SetRate (rnd rate)
       \<lparr>errorEnabled = True, errorUnit = ERROR_UNIT_BYTE, errorRateAttribute = Fin 0\<rparr>)"

definition main_channels :: "net_device list" where
  "main_channels = [make_channel 10 150, make_channel 20 100, make_channel 30 30]"

definition main_error_models :: "rate_error_model list" where
  "main_error_models = [make_error_model (2 / 10), make_error_model (1 / 10), make_error_model (1 / 100)]"

definition main_costs :: "u32 list" where
  "main_costs = [10, 20, 100]"

text \<open>The networks 10.1.1.0, 10.1.2.0 and 10.1.3.0 with the mask 255.255.255.0.\<close>

definition main_networks :: "ipv4 list" where
  "main_networks = [0x0a010100, 0x0a010200, 0x0a010300]"

definition main_mask :: ipv4_mask where "main_mask = 0xffffff00"

text \<open>One subnet: the addresses of its two devices, the first on the CPE and the second on the sink.\<close>

definition assign_subnet :: "ipv4 \<Rightarrow> ip_generator \<Rightarrow> (ipv4 list \<times> ip_generator) res" where
  "assign_subnet network g =
     res_bind (SetBase network main_mask 1) (\<lambda>h.
     res_bind (Assign 2 (h, g)) (\<lambda>(as, h, g). Inr (as, g)))"

fun assign_subnets :: "ipv4 list \<Rightarrow> ip_generator \<Rightarrow> (ipv4 list list \<times> ip_generator) res" where
  "assign_subnets [] g = Inr ([], g)"
| "assign_subnets (n # ns) g =
     res_bind (assign_subnet n g) (\<lambda>(as, g).
     res_bind (assign_subnets ns g) (\<lambda>(ass, g). Inr (as # ass, g)))"

record topology =
  cpe :: "node_interface list"
  sink :: "nat list list"
  destinations :: "address list"

text \<open>Both nodes have the loopback interface first; it has no error model.\<close>

definition loopback :: node_interface where
  "loopback = \<lparr>ni_device = \<lparr>channelDataRate = 0, channelDelay = 0\<rparr>, ni_errorModel = None,
     ni_addresses = [2130706433]\<rparr>"

definition make_topology :: "ip_generator \<Rightarrow> (topology \<times> ip_generator) res" where
  "make_topology g =
     res_bind (assign_subnets main_networks g) (\<lambda>(ass, g).
     Inr (\<lparr>cpe = loopback # map (\<lambda>(d, e, as). \<lparr>ni_device = d, ni_errorModel = Some e, ni_addresses = [unat (as ! 0)]\<rparr>)
                    (zip main_channels (zip main_error_models ass)),
           sink = [2130706433] # map (\<lambda>as. [unat (as ! 1)]) ass,
           destinations = map (\<lambda>as. SocketAddress IPv4 (unat (as ! 1)) (ucast ConnectionPort)) ass\<rparr>, g))"

section \<open>The applications\<close>

text \<open>
  Three sinusoidal applications are made in any case; \<open>gs\<close> is what their members \<open>horizontalShift\<close>
  hold before, \<open>bs\<close> what the static ones have in \<open>allPacketsGenerated\<close>.
\<close>

definition make_sin_applications ::
  "(dbl \<Rightarrow> dbl) \<Rightarrow> 'g rand_fun \<Rightarrow> u32 \<times> u32 \<times> u32 \<Rightarrow> run_parameters \<Rightarrow> 'g \<Rightarrow> (sin_application list \<times> 'g) res"
where
  "make_sin_applications sinf rand gs p g =
     (case gs of (g1, g2, g3) \<Rightarrow>
      res_bind (SinApplication sinf rand g1 1 200 20 (applicationOnePeak p) (applicationOneNoise p)
                  (applicationOneShift p) g) (\<lambda>(a1, g).
      res_bind (SinApplication sinf rand g2 2 150 10 (applicationTwoPeak p) (applicationTwoNoise p)
                  (applicationTwoShift p) g) (\<lambda>(a2, g).
      res_bind (SinApplication sinf rand g3 3 100 5 (applicationThreePeak p) (applicationThreeNoise p)
                  (applicationThreeShift p) g) (\<lambda>(a3, g).
      Inr ([a1, a2, a3], g)))))"

text \<open>The static application of the linear run that stands for a sinusoidal one.\<close>

definition static_of :: "bool \<Rightarrow> sin_application \<Rightarrow> sdwan_static res" where
  "static_of garbage a =
     res_bind (sin_getRequiredDataRate a) (\<lambda>rate.
     Inr (SDWanStaticApplication garbage (applicationId a) rate (requiredDelay a) (app_errorRate a) (getTotalData a)))"

definition make_applications ::
  "(dbl \<Rightarrow> dbl) \<Rightarrow> 'g rand_fun \<Rightarrow> u32 \<times> u32 \<times> u32 \<Rightarrow> bool \<Rightarrow> run_parameters \<Rightarrow> 'g \<Rightarrow>
     (application list \<times> 'g) res"
where
  "make_applications sinf rand gs garbage p g =
     res_bind (make_sin_applications sinf rand gs p g) (\<lambda>(as, g).
     if rp_strategyType p \<noteq> LINEAR then Inr (map SinApp as, g)
     else res_bind (res_map (static_of garbage) as) (\<lambda>ss. Inr (map StaticApp ss, g)))"

section \<open>The sender\<close>

text \<open>What \<open>ApplicationSenderHelper::Install\<close> puts on the CPE, in a fresh world.\<close>

definition sender_world ::
  "topology \<Rightarrow> application list \<Rightarrow> StrategyTypes \<Rightarrow> 'r \<Rightarrow> 'k \<Rightarrow> ('g, 'r, 'k) world" where
  "sender_world t apps strategy r k =
     \<lparr>w_sender = sender_DoInstall (ApplicationSenderHelper (destinations t) apps main_costs strategy) SenderApplication,
      w_random = r, w_sockets = k, w_files = [], w_trace = []\<rparr>"

text \<open>\<open>Simulator::Run\<close> with the start of the sender scheduled at time 0, on the default scheduler.\<close>

definition run_sender ::
  "('g, 'r, 'k) sender_env \<Rightarrow> topology \<Rightarrow> ('g, 'r, 'k) world \<Rightarrow> ('g, 'r, 'k) system res option" where
  "run_sender env t w =
     (case Simulator_Schedule 0 CallStart (DefaultSimulatorImpl (MapS [])) of
        Inl e \<Rightarrow> Some (Inl e)
      | Inr (ident, \<sigma>) \<Rightarrow> Sim_Run (sender_notify env (cpe t)) (w, \<sigma>))"

section \<open>The addresses\<close>

lemma main_mask_bits: "NumAddressBits main_mask = Inr 8"
  by (simp add: NumAddressBits_def main_mask_def bits_loop.simps bit_iff_odd_drop_bit)

lemma assign_subnet_ok:
  assumes "network AND NOT main_mask = 0" and "entries_ok (m_entries g)"
    and "subnet_address network 1 0 \<notin> allocated (m_entries g)"
    and "subnet_address network 1 1 \<notin> allocated (m_entries g)"
  shows "\<exists>g'. assign_subnet network g = Inr ([subnet_address network 1 0, subnet_address network 1 1], g') \<and>
    entries_ok (m_entries g') \<and>
    allocated (m_entries g') = allocated (m_entries g) \<union> {subnet_address network 1 0, subnet_address network 1 1}"
proof -
  obtain h where h: "SetBase network main_mask 1 = Inr h"
    using assms(1) main_mask_bits by (simp add: SetBase_def)
  obtain k where k: "NumAddressBits main_mask = Inr k" "k < 31" "push_bit k (drop_bit k network) = network"
      "h = \<lparr>h_network = drop_bit k network, h_mask = main_mask, h_address = 1, h_base = 1,
                h_shift = of_nat k, h_max = of_int (2 ^ k - 2)\<rparr>"
    by (rule SetBase_spec [OF h])
  have k8: "k = 8" using k(1) main_mask_bits by simp
  have "\<forall>i<2. subnet_address network 1 i \<notin> allocated (m_entries g)"
    using assms(3,4) by (auto simp: less_2_cases_iff)
  then obtain h' g' where "Assign 2 (h, g) = Inr (map (subnet_address network 1) [0..<2], h', g')"
      "entries_ok (m_entries g')"
      "allocated (m_entries g') = allocated (m_entries g) \<union> subnet_address network 1 ` {..<2}"
    using Assign_ok [OF k(1,3), of h g 2] k(2,4) assms(2) k8 by auto
  moreover have "{..<2} = {0, 1 :: nat}" by auto
  ultimately show ?thesis by (auto simp: assign_subnet_def h upt_rec)
qed

lemma fresh_generator [simp]:
  "m_entries (Ipv4AddressGeneratorImpl garbage) = []"
  by (simp add: Ipv4AddressGeneratorImpl_def Gen_Reset_def)

lemma main_subnets:
  "\<exists>g. assign_subnets main_networks (Ipv4AddressGeneratorImpl garbage) =
     Inr ([[0x0a010101, 0x0a010102], [0x0a010201, 0x0a010202], [0x0a010301, 0x0a010302]], g)"
proof -
  let ?g0 = "Ipv4AddressGeneratorImpl garbage"
  have a: "subnet_address 0x0a010100 1 0 = 0x0a010101" "subnet_address 0x0a010100 1 1 = 0x0a010102"
      "subnet_address 0x0a010200 1 0 = 0x0a010201" "subnet_address 0x0a010200 1 1 = 0x0a010202"
      "subnet_address 0x0a010300 1 0 = 0x0a010301" "subnet_address 0x0a010300 1 1 = 0x0a010302"
    by (simp_all add: subnet_address_def)
  have m: "0x0a010100 AND NOT main_mask = 0" "0x0a010200 AND NOT main_mask = 0" "0x0a010300 AND NOT main_mask = 0"
    by (simp_all add: main_mask_def)
  obtain g1 where g1: "assign_subnet 0x0a010100 ?g0 = Inr ([0x0a010101, 0x0a010102], g1)"
      "entries_ok (m_entries g1)" "allocated (m_entries g1) = {0x0a010101, 0x0a010102}"
    using assign_subnet_ok [OF m(1), of ?g0] by (auto simp: a a [unfolded One_nat_def] entries_ok_def)
  obtain g2 where g2: "assign_subnet 0x0a010200 g1 = Inr ([0x0a010201, 0x0a010202], g2)"
      "entries_ok (m_entries g2)" "allocated (m_entries g2) = {0x0a010101, 0x0a010102} \<union> {0x0a010201, 0x0a010202}"
    using assign_subnet_ok [OF m(2) g1(2)] by (auto simp: a a [unfolded One_nat_def] g1(3))
  obtain g3 where g3: "assign_subnet 0x0a010300 g2 = Inr ([0x0a010301, 0x0a010302], g3)"
    using assign_subnet_ok [OF m(3) g2(2)] by (auto simp: a a [unfolded One_nat_def] g2(3))
  show ?thesis by (simp add: main_networks_def g1(1) g2(1) g3)
qed

definition main_cpe :: "node_interface list" where
  "main_cpe = loopback # map (\<lambda>(d, e, a). \<lparr>ni_device = d, ni_errorModel = Some e, ni_addresses = [a]\<rparr>)
     (zip main_channels (zip main_error_models [0x0a010101, 0x0a010201, 0x0a010301]))"

definition main_destinations :: "address list" where
  "main_destinations = map (\<lambda>a. SocketAddress IPv4 a 8080) [0x0a010102, 0x0a010202, 0x0a010302]"

lemma make_topology_eq:
  "\<exists>g. make_topology (Ipv4AddressGeneratorImpl garbage) =
     Inr (\<lparr>cpe = main_cpe, sink = [[2130706433], [0x0a010102], [0x0a010202], [0x0a010302]],
           destinations = main_destinations\<rparr>, g)"
proof -
  obtain g where "assign_subnets main_networks (Ipv4AddressGeneratorImpl garbage) =
     Inr ([[0x0a010101, 0x0a010102], [0x0a010201, 0x0a010202], [0x0a010301, 0x0a010302]], g)"
    using main_subnets by blast
  then show ?thesis
    by (simp add: make_topology_def main_cpe_def main_destinations_def main_channels_def
        main_error_models_def ConnectionPort_def)
qed

section \<open>Opening the sockets of the main program\<close>

text \<open>Sockets that can be opened: streams that bind.\<close>

definition opening_sockets :: "('g, 'r, 'k) sender_env \<Rightarrow> bool" where
  "opening_sockets env \<longleftrightarrow> (\<forall>s k. sock_is_stream env s k) \<and> (\<forall>s a k. fst (sock_bind env s a k) \<noteq> - 1)"

definition opened_interface ::
  "net_device \<Rightarrow> nat \<Rightarrow> nat \<Rightarrow> rate_error_model \<Rightarrow> u32 \<Rightarrow> nat \<Rightarrow> u32 \<Rightarrow> isp_interface" where
  "opened_interface device a b em c sock ident =
     ISPInterface ident (''Interfaccia '' @ to_string (unat ident)) device (SocketAddress IPv4 a 8080) sock
       (SocketAddress IPv4 b 8080) em c"

lemma set_interfaces_unstarted:
  "strategy_ptr s = None \<Longrightarrow> set_interfaces is s = s\<lparr>sn_interfaces := is\<rparr>"
  by (cases s) (simp add: set_interfaces_def)

lemma InitSocket_opens:
  assumes "opening_sockets env" and "strategy_ptr (w_sender w) = None"
    and "\<forall>x\<in>set (sn_interfaces (w_sender w)). outgoingAddress x \<noteq> SocketAddress IPv4 a 8080"
  shows "\<exists>sock k. InitSocket env device (SocketAddress IPv4 a 8080) (SocketAddress IPv4 b 8080) em c w =
    Inr (w\<lparr>w_sender := (w_sender w)
      \<lparr>initialInterfaceId := initialInterfaceId (w_sender w) + 1,
       sn_interfaces := sn_interfaces (w_sender w) @
          [opened_interface device a b em c sock (initialInterfaceId (w_sender w) + 1)]\<rparr>, w_sockets := k\<rparr>)"
proof -
  obtain sock k0 where "sock_create env (w_sockets w) = (sock, k0)" by (cases "sock_create env (w_sockets w)")
  moreover obtain ret k1 where "sock_bind env sock (SocketAddress IPv4 a 8080) k0 = (ret, k1)" "ret \<noteq> - 1"
    using assms(1) by (metis opening_sockets_def prod.collapse)
  ultimately show ?thesis
    using assms
    by (intro exI [of _ sock] exI)
      (simp add: InitSocket_def HasAlreadyInitSocket_def getInterfaces_def list_ex_iff Let_def add_interface_def
        getNextInterfaceId_def set_interfaces_unstarted bind_socket_def incompatible_versions_def
        opening_sockets_def ISPInterface_copy_id opened_interface_def)
qed

text \<open>The interfaces of the CPE: their addresses, devices and costs.\<close>

definition main_addresses :: "address list" where
  "main_addresses = map (\<lambda>a. SocketAddress IPv4 a 8080) [0x0a010101, 0x0a010201, 0x0a010301]"

definition main_interfaces :: "fixed_interface list" where
  "main_interfaces = zip main_addresses (zip main_channels main_costs)"

lemma main_interfaces_parts [simp]:
  "map fst main_interfaces = main_addresses" "map (fst \<circ> snd) main_interfaces = main_channels"
  "map (snd \<circ> snd) main_interfaces = main_costs"
  by (simp_all add: main_interfaces_def main_addresses_def main_channels_def main_costs_def)

lemma main_init:
  assumes "opening_sockets env" and "destinations t = main_destinations"
  obtains w1 where "init_sockets env main_cpe (sender_world t apps strategy r k) = Inr w1"
    and "strategyType (w_sender w1) = strategy"
    and "map netDevice (sn_interfaces (w_sender w1)) = main_channels"
    and "map if_fixed (sn_interfaces (w_sender w1)) = main_interfaces"
    and "map errorModel (sn_interfaces (w_sender w1)) = main_error_models"
proof -
  define w0 :: "('a, 'b, 'c) world" where "w0 = sender_world t apps strategy r k"
  have w0: "strategy_ptr (w_sender w0) = None" "sn_interfaces (w_sender w0) = []"
      "addresses (w_sender w0) = main_destinations" "costs (w_sender w0) = main_costs"
      "strategyType (w_sender w0) = strategy" "initialInterfaceId (w_sender w0) = 100"
    by (simp_all add: w0_def sender_world_def sender_DoInstall_def ApplicationSenderHelper_def
        SenderApplication_def assms(2))
  note o = InitSocket_opens [OF assms(1)]
  obtain s1 k1 where 1: "init_address env main_cpe 1 0 w0 =
      Inr (w0\<lparr>w_sender := (w_sender w0)\<lparr>initialInterfaceId := 101, sn_interfaces := 
        [opened_interface (make_channel 10 150) 0x0a010101 0x0a010102 (make_error_model (2 / 10)) 10 s1 101]\<rparr>, w_sockets := k1\<rparr>)" (is "_ = Inr ?w1")
    using o [where w = "w0" and a = "0x0a010101" and device = "make_channel 10 150" and b = "0x0a010102" and em = "make_error_model (2 / 10)" and c = "10"]
    by (auto simp: init_address_def w0 main_cpe_def main_channels_def main_error_models_def
        main_destinations_def main_costs_def ConnectionPort_def)
  obtain s2 k2 where 2: "init_address env main_cpe 2 0 ?w1 =
      Inr (?w1\<lparr>w_sender := (w_sender ?w1)\<lparr>initialInterfaceId := 102, sn_interfaces := sn_interfaces (w_sender ?w1) @
        [opened_interface (make_channel 20 100) 0x0a010201 0x0a010202 (make_error_model (1 / 10)) 20 s2 102]\<rparr>, w_sockets := k2\<rparr>)" (is "_ = Inr ?w2")
    using o [where w = "?w1" and a = "0x0a010201" and device = "make_channel 20 100" and b = "0x0a010202" and em = "make_error_model (1 / 10)" and c = "20"]
    by (auto simp: init_address_def w0 main_cpe_def main_channels_def main_error_models_def
        main_destinations_def main_costs_def ConnectionPort_def opened_interface_def ISPInterface_def)
  obtain s3 k3 where 3: "init_address env main_cpe 3 0 ?w2 =
      Inr (?w2\<lparr>w_sender := (w_sender ?w2)\<lparr>initialInterfaceId := 103, sn_interfaces := sn_interfaces (w_sender ?w2) @
        [opened_interface (make_channel 30 30) 0x0a010301 0x0a010302 (make_error_model (1 / 100)) 100 s3 103]\<rparr>, w_sockets := k3\<rparr>)" (is "_ = Inr ?w3")
    using o [where w = "?w2" and a = "0x0a010301" and device = "make_channel 30 30" and b = "0x0a010302" and em = "make_error_model (1 / 100)" and c = "100"]
    by (auto simp: init_address_def w0 main_cpe_def main_channels_def main_error_models_def
        main_destinations_def main_costs_def ConnectionPort_def opened_interface_def ISPInterface_def)
  have n: "[1..<length main_cpe] = [1, 2, 3]"
    by (simp add: main_cpe_def main_channels_def main_error_models_def upt_rec)
  have a: "[0..<length (ni_addresses (main_cpe ! i))] = [0]" if "i \<in> {1, 2, 3}" for i
    using that by (auto simp: main_cpe_def main_channels_def main_error_models_def)
  have "init_sockets env main_cpe w0 = Inr ?w3"
    unfolding init_sockets_def n using 1 2 3 a by simp
  then show thesis
    by (intro that [of ?w3])
      (simp_all add: w0_def [symmetric] w0 main_channels_def opened_interface_def ISPInterface_def
          main_interfaces_def main_addresses_def main_costs_def main_error_models_def if_fixed_def)
qed

end
