(* ===== verification/Linear_Feasible.thy ===== *)
theory Linear_Feasible
  imports Linear_Strat Routed_Solution
begin

text \<open>
  When the problem of the linear strategy can be solved: it is enough that every application has an
  interface that meets its requirements; the linear problem has no capacities. Its row on the bandwidth
  is there for applications without packets, too: these must not require any.
\<close>

lemma linear_problem_solvable:
  assumes serve: "\<And>j. j < length apps \<Longrightarrow> f j < length ifaces \<and> serves (ifaces ! f j) (apps ! j) \<and>
      (app_pending (apps ! j) = [] \<longrightarrow> getRequiredDataRate (apps ! j) = Inr 0)"
  shows "\<exists>p. linear_problem apps ifaces = Inr p \<and> integer_solution p (routed f (length ifaces) apps)"
proof -
  let ?n = "length apps" and ?m = "length ifaces"
  let ?v = "routed f ?m apps"
  let ?pend = "\<lambda>j. length (app_pending (apps ! j))"
  define rate where "rate = (\<lambda>j. projr (getRequiredDataRate (apps ! j)))"
  have rt: "getRequiredDataRate (apps ! j) = Inr (rate j)" "?pend j < 4294967296" if "j < ?n" for j
    using serve [OF that] by (auto simp: serves_def rate_def)
  let ?bw = "\<lambda>j. application_row ?n ?m j (dbl_of_nat (unat (rate j))) PInf
      (\<lambda>i. per_packet (dbl_of_nat (unat (getDataBitRate (ifaces ! i)))) (?pend j))"
  have "res_map (linear_bandwidth_row apps ifaces) [0..<?n] = Inr (map ?bw [0..<?n])"
    by (rule res_map_eqI) (simp add: linear_bandwidth_row_def Let_def rt(1))
  then have p: "linear_problem apps ifaces = Inr \<lparr>int_variables = ?n * ?m,
      mip_rows = map ?bw [0..<?n] @ map (linear_delay_row apps ifaces) [0..<?n] @ map (error_row apps ifaces) [0..<?n] @
        map (packets_row apps ifaces) [0..<?n], minimized = cost_coefficients ?n ifaces\<rparr>"
    by (simp add: linear_problem_def Let_def)
  have "row_met (?bw j) ?v" if "j < ?n" for j
    using serve [OF that] rt(1) [OF that] by (intro bandwidth_row_met that) auto
  moreover have "row_met (linear_delay_row apps ifaces j) ?v" if "j < ?n" for j
    unfolding linear_delay_row_def Let_def using serve [OF that] by (intro delay_row_met that) simp_all
  moreover have "row_met (error_row apps ifaces j) ?v" "row_met (packets_row apps ifaces j) ?v" if "j < ?n" for j
    using serve [OF that] rt(2) [OF that] by (auto intro: error_row_met packets_row_routed that)
  moreover have "list_all nonneg_integer ?v"
    by (rule routed_nonneg) (use rt(2) in \<open>auto simp: in_set_conv_nth\<close>)
  ultimately show ?thesis
    using p by (auto simp: integer_solution_def routed_def list_all_iff)
qed

lemma linear_problem_solved:
  assumes "solver_complete solve"
    and "\<And>j. j < length apps \<Longrightarrow> f j < length ifaces \<and> serves (ifaces ! f j) (apps ! j) \<and>
      (app_pending (apps ! j) = [] \<longrightarrow> getRequiredDataRate (apps ! j) = Inr 0)"
  shows "\<exists>p values obj. linear_problem apps ifaces = Inr p \<and> solve p = OPTIMAL values obj"
  using linear_problem_solvable [OF assms(2)] assms(1) unfolding solver_complete_def by blast

end
