(* ===== verification/Main_Routes.thy ===== *)
theory Main_Routes
  imports Main_Setup Linear_Feasible
begin

text \<open>
  What the three channels of the main program offer, and to which of its applications: their sending
  periods, their error rates, and a route of the three sinusoidal applications over the second and the
  third channel.
\<close>

section \<open>Sending periods\<close>

text \<open>10, 20 and 30 packets per second: periods of 100, 50 and 33.3 milliseconds.\<close>

lemma pace_bounds:
  assumes "1 / 32 \<le> q" and "q \<le> 1 / 8"
  shows "\<exists>t. Seconds (rnd q) = Inr (int t) \<and> 31000000 \<le> t \<and> t \<le> 126000000"
proof -
  have "fl (1 / 32) = 1 / 32" "fl (1 / 8) = 1 / 8"
    using fl_powi [of "- 5"] fl_powi [of "- 3"] by (simp_all add: power_int_minus)
  then have f: "1 / 32 \<le> fl q" "fl q \<le> 1 / 8"
    using fl_mono [OF assms(1)] fl_mono [OF assms(2)] by simp_all
  have "\<bar>q\<bar> \<le> 2 ^ 53" using assms by simp
  then have r: "rnd q = Fin (fl q)" by (rule rnd_small)
  obtain t where t: "Seconds (Fin (fl q)) = Inr t" "0 \<le> t"
      "\<bar>of_int t - fl q * 1000000000\<bar> \<le> 1 / 2 + 1 / 10 ^ 10"
    by (rule Seconds_bounds [of "fl q"]) (use f in auto)
  have "\<bar>of_int t - fl q * 1000000000\<bar> \<le> 1"
    by (rule order_trans [OF t(3)]) simp
  then have d: "of_int t \<le> fl q * 1000000000 + 1" "fl q * 1000000000 - 1 \<le> of_int t" by linarith+
  have "of_int 31000000 \<le> (of_int t :: rat)" "(of_int t :: rat) \<le> of_int 126000000"
    using d f by linarith+
  then have "31000000 \<le> t" "t \<le> 126000000" unfolding of_int_le_iff by simp_all
  then show ?thesis using t(1) r by (intro exI [of _ "nat t"]) (simp add: le_nat_iff nat_le_iff)
qed

lemma channel_paced:
  assumes "netDevice x = make_channel pps ms" and "pps \<in> {10, 20, 30}"
  shows "paced 31000000 126000000 x"
proof -
  have u: "unat (if_getDataRate x) = unat pps * 1024"
    using assms by (auto simp: if_getDataRate_def make_channel_def ConvertPacketsPerSecondToBitPerSecond_def
        unat_ConvertToDataRate_small)
  have "next_send_time x = Seconds (rnd (1 / of_nat (unat pps)))"
    using assms(2) by (auto simp: next_send_time_def u PacketSizeBit_def dbl_of_nat_small)
  moreover have "1 / 32 \<le> (1 / of_nat (unat pps) :: rat)" "(1 / of_nat (unat pps) :: rat) \<le> 1 / 8"
    using assms(2) by auto
  ultimately show ?thesis using pace_bounds unfolding paced_def by metis
qed

lemma main_channel_period:
  assumes "netDevice x = make_channel pps ms" and "pps \<in> {10, 20, 30}"
  shows "next_send_time x = Seconds (rnd (1 / of_nat (unat pps)))"
  using assms
  by (auto simp: next_send_time_def if_getDataRate_def make_channel_def ConvertPacketsPerSecondToBitPerSecond_def
      unat_ConvertToDataRate_small PacketSizeBit_def dbl_of_nat_small)

lemma main_channel_package_rate:
  assumes "netDevice x = make_channel pps ms" and "pps \<in> {10, 20, 30}"
  shows "unat (getPackageRate x) = unat pps"
  using assms by (auto simp: make_channel_def intro!: getPackageRate_of_packets)

text \<open>The rounding of a period does not cost a packet per second.\<close>

lemma channel_brisk:
  assumes "netDevice x = make_channel pps ms" and "pps \<in> {10, 20, 30}"
  shows "brisk x"
proof -
  define n where "n = unat pps"
  have n: "n = 10 \<or> n = 20 \<or> n = 30" using assms(2) by (auto simp: n_def)
  let ?q = "1 / of_nat n :: rat"
  have q: "1 / 30 \<le> ?q" "?q \<le> 1 / 10" using n by auto
  have fl: "0 \<le> fl ?q" "fl ?q \<le> 1 / 8" "\<bar>fl ?q - ?q\<bar> \<le> ?q / 2 ^ 52"
  proof -
    have "fl (1 / 8) = 1 / 8" using fl_powi [of "- 3"] by (simp add: power_int_minus)
    then show "fl ?q \<le> 1 / 8" using fl_mono [of ?q "1 / 8"] q(2) by simp
    show "0 \<le> fl ?q" using fl_mono [of 0 ?q] q(1) by simp
    have "2 powi (- 60) \<le> (1 / 30 :: rat)" by simp
    then show "\<bar>fl ?q - ?q\<bar> \<le> ?q / 2 ^ 52" using q(1) by (intro fl_error) linarith
  qed
  have r: "rnd ?q = Fin (fl ?q)" using q by (intro rnd_small) simp
  have "fl ?q < 2 ^ 32" using fl(2) by simp
  then obtain t where t: "Seconds (Fin (fl ?q)) = Inr t" "0 \<le> t"
      "\<bar>of_int t - fl ?q * 1000000000\<bar> \<le> 1 / 2 + 1 / 10 ^ 10"
    using Seconds_bounds [OF fl(1)] by metis
  have "?q / 2 ^ 52 * 1000000000 \<le> 1 / 10 ^ 4" using q(2) by simp
  moreover have "fl ?q * 1000000000 \<le> (?q + ?q / 2 ^ 52) * 1000000000" using fl(3) by (simp add: abs_le_iff)
  ultimately have "of_int t \<le> ?q * 1000000000 + 1 / 10 ^ 4 + 1 / 2 + 1 / 10 ^ 10"
    using t(3) unfolding distrib_right abs_le_iff by linarith
  then have "of_int t < (of_int (1000000000 div int n + 1) :: rat)" using n by auto
  then have "t \<le> 1000000000 div int n" unfolding of_int_less_iff by simp
  then have "nat t \<le> 1000000000" "n * nat t \<le> 1000000000" using n t(2) by auto
  moreover have "next_send_time x = Inr (int (nat t))"
    using main_channel_period [OF assms] r t(1,2) by (simp flip: n_def)
  ultimately show ?thesis
    unfolding brisk_def main_channel_package_rate [OF assms] n_def [symmetric] by blast
qed

section \<open>Error rates\<close>

lemma percents:
  assumes k: "k \<le> 8" and p: "2 powi (- int k) \<le> (q :: rat)" "q \<le> 2 powi (1 - int k)"
  shows "\<exists>e. dmul (rnd q) (dbl_of_nat 100) = Fin e \<and> 64 * 2 powi (- int k) \<le> e \<and> e \<le> 128 * 2 powi (1 - int k)"
proof -
  let ?l = "2 powi (- int k) :: rat" and ?u = "2 powi (1 - int k) :: rat"
  have f: "?l \<le> fl q" "fl q \<le> ?u"
    using fl_mono [OF p(1)] fl_mono [OF p(2)] fl_powi [of "- int k"] fl_powi [of "1 - int k"] k by simp_all
  have u: "?u \<le> 2" "0 < ?l" using power_int_increasing [of "1 - int k" 1 "2 :: rat"] by simp_all
  have g: "64 * ?l \<le> fl q * 100" "fl q * 100 \<le> 128 * ?u" using f u by linarith+
  have pw: "64 * ?l = 2 powi (6 - int k)" "128 * ?u = 2 powi (8 - int k)"
    by (simp_all add: power_int_diff power_int_minus field_simps)
  have "fl (64 * ?l) = 64 * ?l" "fl (128 * ?u) = 128 * ?u"
    unfolding pw using k by (intro fl_powi; simp)+
  then have h: "64 * ?l \<le> fl (fl q * 100)" "fl (fl q * 100) \<le> 128 * ?u"
    using fl_mono [OF g(1)] fl_mono [OF g(2)] by simp_all
  have "0 \<le> q" using p(1) by (rule order_trans [rotated]) simp
  moreover have "q \<le> 2" using p(2) u(1) by linarith
  ultimately have "rnd q = Fin (fl q)" by (intro rnd_small) simp
  moreover have "0 \<le> fl q * 100" using g(1) by (rule order_trans [rotated]) simp
  moreover have "fl q * 100 \<le> 256" using g(2) u(1) by linarith
  moreover from calculation have "rnd (fl q * 100) = Fin (fl (fl q * 100))" by (intro rnd_small) simp
  ultimately show ?thesis using h by (simp add: dbl_of_nat_small)
qed

lemma one_percent: "\<exists>e. dmul (rnd (1 / 100)) (dbl_of_nat 100) = Fin e \<and> 1 / 2 \<le> e \<and> e \<le> 2"
  using percents [of 7 "1 / 100"] by (simp add: power_int_minus)

lemma ten_percent: "\<exists>e. dmul (rnd (1 / 10)) (dbl_of_nat 100) = Fin e \<and> 1 / 2 \<le> e \<and> e \<le> 16"
  using percents [of 4 "1 / 10"] by (fastforce simp: power_int_minus)

text \<open>An interface of a channel of the main program.\<close>

lemma channel_meets:
  assumes dev: "netDevice x = make_channel pps ms" and em: "errorModel x = make_error_model q"
    and pps: "pps \<in> {10, 20, 30}" and ms: "ms \<in> {150, 100, 30}" "unat ms \<le> unat (app_requiredDelay a)"
    and e: "\<exists>e. dmul (rnd q) (dbl_of_nat 100) = Fin e \<and> 1 / 2 \<le> e \<and> e \<le> of_nat err"
    and err: "err \<le> 100" "err \<le> unat (app_maxErrorRate a)"
  shows "meets x a" and "unat (getDataBitRate x) = unat pps * 1024"
proof -
  show bw: "unat (getDataBitRate x) = unat pps * 1024"
    using dev pps by (auto simp: getDataBitRate_def if_getDataRate_def make_channel_def ConvertPacketsPerSecondToBitPerSecond_def
        unat_ConvertToDataRate_small)
  have dl: "unat (getDelayInMilliseconds x) = unat ms"
    using dev ms(1) by (intro getDelayInMilliseconds_exact) (auto simp: make_channel_def MilliSeconds_def)
  obtain e where e: "getErrorRate x = Fin e" "1 / 2 \<le> e" "e \<le> of_nat err"
    using e em by (auto simp: getErrorRate_def make_error_model_def RateErrorModel_SetUnit_def RateErrorModel_SetRate_def)
  have "(of_nat err :: rat) \<le> of_nat (unat (app_maxErrorRate a))" "(of_nat err :: rat) \<le> of_nat 100"
    using err by (simp_all only: of_nat_le_iff)
  then show "meets x a" unfolding meets_def using pps ms bw dl e by auto
qed

section \<open>The applications of a run\<close>

text \<open>The identifiers, delay limits and error limits of the three applications.\<close>

definition main_requirements :: "(u32 \<times> u32 \<times> u32) list" where
  "main_requirements = [(1, 200, 20), (2, 150, 10), (3, 100, 5)]"

text \<open>
  What the sinusoidal applications of a run of the sweep are like: 1201 samples of at most 15 packets
  (a peak of at most 12 and a noise of at most 3).
\<close>

definition small_sin :: "u32 \<times> u32 \<times> u32 \<Rightarrow> sin_application \<Rightarrow> bool" where
  "small_sin req a \<longleftrightarrow> app_unstarted (SinApp a) \<and> (applicationId a, requiredDelay a, app_errorRate a) = req \<and>
     length (sinValues a) = 1201 \<and> (\<forall>v\<in>set (sinValues a). unat (snd v) \<le> 15)"

fun small_app :: "u32 \<times> u32 \<times> u32 \<Rightarrow> application \<Rightarrow> bool" where
  "small_app req (SinApp a) \<longleftrightarrow> small_sin req a"
| "small_app req (StaticApp a) \<longleftrightarrow> False"

lemma fold_max_le: "\<lbrakk>\<forall>x\<in>set xs. x \<le> c; k \<le> c\<rbrakk> \<Longrightarrow> fold max xs k \<le> (c :: nat)"
  by (induction xs arbitrary: k) auto

lemma small_rate:
  assumes "small_sin req a"
  shows "\<exists>rate v. sin_getRequiredDataRate a = Inr rate \<and> v \<in> set (sinValues a) \<and> unat rate = unat (snd v) * 1024 \<and> unat rate \<le> 15360"
proof -
  have "sinValues a \<noteq> []" using assms by (auto simp: small_sin_def)
  then obtain rate where r: "sin_getRequiredDataRate a = Inr rate"
    using sin_rate_defined [of a] by (auto simp: res_ok_iff)
  obtain m where m: "m \<in> set (sinValues a)" "rate = ConvertPacketsPerSecondToBitPerSecondToDataRate (snd m)"
    using sin_rate_is_max [OF r] by blast
  have "unat (snd m) \<le> 15" using assms m(1) by (simp add: small_sin_def)
  then have "unat rate = unat (snd m) * 1024" "unat rate \<le> 15360"
    unfolding m(2) by (subst unat_ConvertToDataRate_small; simp)+
  then show ?thesis using r m(1) by blast
qed

lemma small_app_demand:
  assumes "small_app req a"
  shows "app_peak a \<le> 15" and "\<exists>r. getRequiredDataRate a = Inr r \<and> unat r \<le> 15360"
    and "app_requiredDelay a = fst (snd req)" and "app_maxErrorRate a = snd (snd req)"
  using assms small_rate [of req] by (cases a; fastforce simp: small_sin_def intro!: fold_max_le)+

section \<open>The interfaces of a run\<close>

text \<open>The interfaces as the sender creates them, the numbers of the sockets apart.\<close>

definition main_offers :: "isp_interface list" where
  "main_offers =
     [opened_interface (make_channel 10 150) 0x0a010101 0x0a010102 (make_error_model (2 / 10)) 10 0 101,
      opened_interface (make_channel 20 100) 0x0a010201 0x0a010202 (make_error_model (1 / 10)) 20 0 102,
      opened_interface (make_channel 30 30) 0x0a010301 0x0a010302 (make_error_model (1 / 100)) 100 0 103]"

lemma main_offers_offer:
  "map if_offer main_offers = zip main_channels (zip main_error_models main_costs)"
  "\<forall>x\<in>set main_offers. if_pendingpackets x = []"
  by (simp_all add: main_offers_def if_offer_def opened_interface_def ISPInterface_def main_channels_def
      main_error_models_def main_costs_def)

lemma offers_of_parts:
  assumes "map netDevice xs = main_channels" and "map errorModel xs = main_error_models" and "map cost xs = main_costs"
  shows "map if_offer xs = map if_offer main_offers"
proof -
  obtain a b c where "xs = [a, b, c]" using assms(1) by (auto simp: main_channels_def map_eq_Cons_conv)
  then show ?thesis using assms
    unfolding main_offers_offer by (simp add: if_offer_def main_channels_def main_error_models_def main_costs_def)
qed

text \<open>The first application over the second channel, the others over the third.\<close>

definition main_route :: "nat \<Rightarrow> nat" where
  "main_route j = (if j = 0 then 1 else 2)"

lemma main_offers_route:
  assumes "list_all2 small_app main_requirements apps"
  shows "route main_route apps main_offers"
proof -
  obtain a b c where apps: "apps = [a, b, c]"
    and s: "small_app (1, 200, 20) a" "small_app (2, 150, 10) b" "small_app (3, 100, 5) c"
    using assms by (auto simp: main_requirements_def list_all2_Cons1)
  note da = small_app_demand [OF s(1)] and db = small_app_demand [OF s(2)] and dc = small_app_demand [OF s(3)]
  have dev: "netDevice (main_offers ! 0) = make_channel 10 150" "netDevice (main_offers ! 1) = make_channel 20 100"
      "netDevice (main_offers ! 2) = make_channel 30 30" "errorModel (main_offers ! 1) = make_error_model (1 / 10)"
      "errorModel (main_offers ! 2) = make_error_model (1 / 100)"
    by (simp_all add: main_offers_def opened_interface_def ISPInterface_def)
  have l: "length main_offers = 3" "\<forall>x\<in>set main_offers. unat (cost x) \<le> 100"
    by (simp_all add: main_offers_def opened_interface_def ISPInterface_def)
  have m: "meets (main_offers ! 1) a" "unat (getDataBitRate (main_offers ! 1)) = 20480"
    using channel_meets [OF dev(2,4), of a 16] ten_percent da(3,4) by simp_all
  have "meets (main_offers ! 2) z" "unat (getDataBitRate (main_offers ! 2)) = 30720"
    if "30 \<le> unat (app_requiredDelay z)" "2 \<le> unat (app_maxErrorRate z)" for z
    using channel_meets [OF dev(3,5), of z 2] one_percent that by simp_all
  from this this(2) [of b] have m': "meets (main_offers ! 2) b" "meets (main_offers ! 2) c" "unat (getDataBitRate (main_offers ! 2)) = 30720"
    using db(3,4) dc(3,4) by simp_all
  have r: "unat (getPackageRate (main_offers ! 0)) = 10" "unat (getPackageRate (main_offers ! 1)) = 20"
      "unat (getPackageRate (main_offers ! 2)) = 30"
    using main_channel_package_rate [OF dev(1)] main_channel_package_rate [OF dev(2)] main_channel_package_rate [OF dev(3)]
    by simp_all
  have p53: "(2 :: nat) ^ 53 = 9007199254740992" by simp
  have "(\<forall>j<length apps. main_route j < length main_offers \<and> meets (main_offers ! main_route j) (apps ! j) \<and>
      app_peak (apps ! j) < 2147483648 \<and>
      (\<exists>r. getRequiredDataRate (apps ! j) = Inr r \<and> unat r \<le> unat (getDataBitRate (main_offers ! main_route j))))"
    using m m' da(1,2) db(1,2) dc(1,2) by (auto simp: apps l main_route_def less_Suc_eq numeral_3_eq_3)
  moreover have "(\<forall>i<length main_offers. (\<Sum>j<length apps. if main_route j = i then app_peak (apps ! j) else 0) \<le>
      unat (getPackageRate (main_offers ! i)) \<and> unat (getPackageRate (main_offers ! i)) \<le> 2 ^ 53)"
    unfolding p53 using r da(1) db(1) dc(1)
    by (auto simp: apps l main_route_def less_Suc_eq numeral_3_eq_3 numeral_2_eq_2 lessThan_Suc)
  moreover have "100 * (2 * sum_list (map app_peak apps)) < 4294967296"
    using da(1) db(1) dc(1) by (simp add: apps)
  ultimately show ?thesis unfolding route_def using l(2) by blast
qed

end
