(* ===== verification/Main_Ready.thy ===== *)
theory Main_Ready
  imports Main_Routes
begin

text \<open>
  The sender that \<open>RunSimulation\<close> sets up is ready to run: its channels pace it, its applications are
  small, and its strategy computes. For the linear strategy the third channel (30 packets per second,
  30 milliseconds, one percent of errors) serves every application, so that its problem has a solution.
\<close>

section \<open>The run of the sender in the main program\<close>

lemma sint_small_u32: "unat (x :: u32) < 2 ^ 31 \<Longrightarrow> sint x = int (unat x)"
proof -
  assume a: "unat x < 2 ^ 31"
  have u: "uint x = int (unat x)" by (simp add: of_nat_unat)
  have "signed_take_bit 31 (int (unat x)) = int (unat x)"
    using a by (intro signed_take_bit_int_eq_self) simp_all
  then show ?thesis unfolding u [symmetric] by (simp add: sint_uint)
qed

lemma make_sin_ok:
  assumes "sin_bounded sinf" and "unat peak \<le> 12" and "unat noise \<le> 3"
  shows "\<exists>a g'. SinApplication sinf rand garbage ident delay err peak noise hs g = Inr (a, g') \<and> small_sin (ident, delay, err) a"
proof -
  have n: "sint noise = int (unat noise)" using assms(3) by (intro sint_small_u32) simp
  obtain vs g' where v: "generateValues sinf rand (Fin (of_nat (unat peak))) (sint noise) hs g = Inr (vs, g')"
      "samples_ok (unat peak) (sint noise) 1201 vs"
    using generateValues_ok [OF assms(1), of "sint noise" "unat peak" rand hs g] assms(2,3) n by auto
  then obtain a where a: "SinApplication sinf rand garbage ident delay err peak noise hs g = Inr (a, g')" "sinValues a = vs"
      "requiredDelay a = delay" "app_errorRate a = err"
    by (auto simp: SinApplication_def SDWanApplication_def dbl_simps sdwan_application.defs sin_application.defs)
  have "unat (snd x) \<le> 15" if "x \<in> set vs" for x
    using v(2) that assms(2,3) n by (force simp: samples_ok_def)
  moreover have "length vs = 1201"
  proof -
    have "map fst vs = map of_nat [0..<1201]" using v(2) by (simp add: samples_ok_def)
    from arg_cong [OF this, of length] show ?thesis by simp
  qed
  ultimately show ?thesis using a SinApplication_inv [OF a(1)] by (auto simp: small_sin_def)
qed

lemma small_sum:
  assumes "small_sin req a"
  shows "sum_list (map (unat \<circ> snd) (sinValues a)) \<le> 18015"
proof -
  have "sum_list (map (unat \<circ> snd) (sinValues a)) \<le> sum_list (map (\<lambda>_. 15) (sinValues a))"
    using assms by (intro sum_list_mono) (simp add: small_sin_def)
  then show ?thesis using assms by (simp add: sum_list_triv small_sin_def)
qed

lemma small_total:
  assumes "small_sin req a"
  shows "app_total (SinApp a) \<le> 18015"
proof -
  let ?f = "unat \<circ> snd"
  have "sum_list (map ?f (sinValues a)) = sum_list (map ?f (take 1200 (sinValues a))) + sum_list (map ?f (drop 1200 (sinValues a)))"
    by (simp flip: sum_list_append map_append)
  then show ?thesis using small_sum [OF assms] by simp
qed

text \<open>The parameters of a run of the sweep: peaks of at most 12 packets, noises of at most 3.\<close>

definition small_parameters :: "run_parameters \<Rightarrow> bool" where
  "small_parameters p \<longleftrightarrow>
     unat (applicationOnePeak p) \<le> 12 \<and> unat (applicationTwoPeak p) \<le> 12 \<and> unat (applicationThreePeak p) \<le> 12 \<and>
     unat (applicationOneNoise p) \<le> 3 \<and> unat (applicationTwoNoise p) \<le> 3 \<and> unat (applicationThreeNoise p) \<le> 3"

lemma make_sin_applications_ok:
  assumes "sin_bounded sinf" and "small_parameters p"
  shows "\<exists>as g'. make_sin_applications sinf rand gs p g = Inr (as, g') \<and> list_all2 small_sin main_requirements as"
proof -
  obtain g1 g2 g3 where gs: "gs = (g1, g2, g3)" by (cases gs)
  note m = make_sin_ok [OF assms(1)]
  obtain a1 h1 where 1: "SinApplication sinf rand g1 1 200 20 (applicationOnePeak p) (applicationOneNoise p)
       (applicationOneShift p) g = Inr (a1, h1)" "small_sin (1, 200, 20) a1"
    using m [of "applicationOnePeak p" "applicationOneNoise p" rand g1 1 200 20 "applicationOneShift p" g] assms(2)
    by (auto simp: small_parameters_def)
  obtain a2 h2 where 2: "SinApplication sinf rand g2 2 150 10 (applicationTwoPeak p) (applicationTwoNoise p)
       (applicationTwoShift p) h1 = Inr (a2, h2)" "small_sin (2, 150, 10) a2"
    using m [of "applicationTwoPeak p" "applicationTwoNoise p" rand g2 2 150 10 "applicationTwoShift p" h1] assms(2)
    by (auto simp: small_parameters_def)
  obtain a3 h3 where 3: "SinApplication sinf rand g3 3 100 5 (applicationThreePeak p) (applicationThreeNoise p)
       (applicationThreeShift p) h2 = Inr (a3, h3)" "small_sin (3, 100, 5) a3"
    using m [of "applicationThreePeak p" "applicationThreeNoise p" rand g3 3 100 5 "applicationThreeShift p" h2] assms(2)
    by (auto simp: small_parameters_def)
  show ?thesis
    using 1 2 3 by (intro exI [of _ "[a1, a2, a3]"] exI [of _ h3]) (simp add: make_sin_applications_def gs main_requirements_def)
qed

section \<open>The static applications of a linear run\<close>

text \<open>Requirements that the third channel meets with a factor of two to spare.\<close>

fun modest :: "application \<Rightarrow> bool" where
  "modest (StaticApp a) \<longleftrightarrow>
     (if amountOfPacketsToSend a = 0 then st_requiredDataRate a = 0 else unat (st_requiredDataRate a) \<le> 15360) \<and>
     60 \<le> unat (requiredDelay a) \<and> 4 \<le> unat (app_errorRate a)"
| "modest (SinApp a) \<longleftrightarrow> False"

lemma unat_getTotalData:
  assumes "small_sin req a"
  shows "unat (getTotalData a) = sum_list (map (unat \<circ> snd) (sinValues a))"
proof -
  have "map snd (sinValues a) = map of_nat (map (unat \<circ> snd) (sinValues a))" by simp
  then have "unat (getTotalData a) = sum_list (map (unat \<circ> snd) (sinValues a)) mod 4294967296"
    by (simp only: sin_getTotalData unat_sum_list_u32)
  then show ?thesis using small_sum [OF assms] by simp
qed

lemma static_of_small:
  assumes a: "small_sin req a" and req: "req \<in> set main_requirements"
  shows "\<exists>s. static_of garbage a = Inr s \<and> applicationId s = fst req \<and> app_unstarted (StaticApp s) \<and>
    app_total (StaticApp s) \<le> 18015 \<and> modest (StaticApp s)"
proof -
  obtain rate m where r: "sin_getRequiredDataRate a = Inr rate" and m: "m \<in> set (sinValues a)"
    and u: "unat rate = unat (snd m) * 1024" and le: "unat rate \<le> 15360"
    using small_rate [OF a] by blast
  have "unat (snd m) = 0" if "getTotalData a = 0"
  proof -
    have "sum_list (map (unat \<circ> snd) (sinValues a)) = 0" using unat_getTotalData [OF a] that by simp
    then show ?thesis using m(1) by simp
  qed
  then have z: "getTotalData a = 0 \<Longrightarrow> rate = 0" using u by (metis mult_0 unat_eq_zero)
  let ?s = "SDWanStaticApplication garbage (applicationId a) rate (requiredDelay a) (app_errorRate a) (getTotalData a)"
  have s: "applicationId ?s = applicationId a" "pendingpackets ?s = []" "generatedPackets ?s = 0"
      "amountOfPacketsToSend ?s = getTotalData a" "st_requiredDataRate ?s = rate"
      "requiredDelay ?s = requiredDelay a" "app_errorRate ?s = app_errorRate a"
    by (simp_all add: SDWanStaticApplication_def SDWanApplication_def sdwan_application.defs sdwan_static.defs)
  have "static_of garbage a = Inr ?s" by (simp add: static_of_def r)
  moreover have "unat (getTotalData a) \<le> 18015" using unat_getTotalData [OF a] small_sum [OF a] by simp
  ultimately show ?thesis
    using s z le a req by (intro exI [of _ ?s]) (auto simp: small_sin_def main_requirements_def)
qed

text \<open>The applications of a run.\<close>

definition main_apps :: "StrategyTypes \<Rightarrow> application list \<Rightarrow> bool" where
  "main_apps strategy apps \<longleftrightarrow> map app_id apps = [1, 2, 3] \<and>
     (\<forall>a\<in>set apps. app_unstarted a \<and> app_total a \<le> 18015 \<and> (strategy = LINEAR \<longrightarrow> modest a)) \<and>
     (strategy = REACTIVE \<longrightarrow> list_all2 small_app main_requirements apps)"

lemma main_apps_length: "main_apps strategy apps \<Longrightarrow> length apps = 3"
  using map_eq_imp_length_eq [of app_id apps id "[1, 2, 3]"] by (simp add: main_apps_def)

lemma make_applications_ok:
  assumes "sin_bounded sinf" and "small_parameters params"
  shows "\<exists>apps h'. make_applications sinf rand gs garbage params h = Inr (apps, h') \<and> main_apps (rp_strategyType params) apps"
proof -
  obtain as h' where as: "make_sin_applications sinf rand gs params h = Inr (as, h')" "list_all2 small_sin main_requirements as"
    using make_sin_applications_ok [OF assms, of rand gs h] by blast
  obtain a1 a2 a3 where l: "as = [a1, a2, a3]" "small_sin (1, 200, 20) a1" "small_sin (2, 150, 10) a2" "small_sin (3, 100, 5) a3"
    using as(2) by (auto simp: main_requirements_def list_all2_Cons1)
  show ?thesis
  proof (cases "rp_strategyType params = LINEAR")
    case True
    obtain s1 s2 s3 where
      "static_of garbage a1 = Inr s1" "applicationId s1 = 1" "app_unstarted (StaticApp s1)" "app_total (StaticApp s1) \<le> 18015" "modest (StaticApp s1)"
      "static_of garbage a2 = Inr s2" "applicationId s2 = 2" "app_unstarted (StaticApp s2)" "app_total (StaticApp s2) \<le> 18015" "modest (StaticApp s2)"
      "static_of garbage a3 = Inr s3" "applicationId s3 = 3" "app_unstarted (StaticApp s3)" "app_total (StaticApp s3) \<le> 18015" "modest (StaticApp s3)"
      using static_of_small [OF l(2), of garbage] static_of_small [OF l(3), of garbage] static_of_small [OF l(4), of garbage]
      unfolding main_requirements_def by (metis fst_conv list.set_intros)
    then show ?thesis
      using as(1) True by (simp add: make_applications_def l(1) main_apps_def del: app_total.simps app_unstarted.simps modest.simps)
  next
    case False
    then show ?thesis
      using as(1) l(2-4) small_total by (simp add: make_applications_def l(1) main_apps_def main_requirements_def small_sin_def del: app_total.simps)
  qed
qed

section \<open>The strategies\<close>

text \<open>What the strategies need of their environment.\<close>

fun supported :: "('g, 'r, 'k) sender_env \<Rightarrow> StrategyTypes \<Rightarrow> bool" where
  "supported env ROUND_ROBIN \<longleftrightarrow> env_opened (env_compute env)"
| "supported env RANDOM \<longleftrightarrow> env_opened (env_compute env) \<and> shuffle_keeps_length (env_shuffle (env_compute env))"
| "supported env LINEAR \<longleftrightarrow> solver_contract (env_solve (env_compute env)) \<and> solver_complete (env_solve (env_compute env))"
| "supported env REACTIVE \<longleftrightarrow> env_opened (env_compute env) \<and> solver_contract (env_solve (env_compute env)) \<and>
     solver_complete (env_solve (env_compute env))"

text \<open>
  The first problem of a run under the reactive strategy has the packets of two samples of every
  application. It has a solution or the start throws.
\<close>

definition starts_feasible :: "application list \<Rightarrow> bool" where
  "starts_feasible apps \<longleftrightarrow> first_problem_solvable apps main_offers"

lemma third_channel_serves:
  assumes dev: "netDevice x = make_channel 30 30" and em: "errorModel x = make_error_model (1 / 100)"
    and a: "modest a" "app_unstarted a" and b: "OnApplicationStart a = Inr b"
  shows "serves x b" and "app_pending b = [] \<longrightarrow> getRequiredDataRate b = Inr 0"
proof -
  obtain s where s: "a = StaticApp s" using a(1) by (cases a) simp_all
  then have b': "b = StaticApp (static_OnApplicationStart s)" using b by simp
  have l: "length (app_pending b) = unat (amountOfPacketsToSend s)"
    using static_started(2) [OF _ a(2) b] by (simp add: s)
  have fields: "st_requiredDataRate (static_OnApplicationStart s) = st_requiredDataRate s"
      "requiredDelay (static_OnApplicationStart s) = requiredDelay s" "app_errorRate (static_OnApplicationStart s) = app_errorRate s"
    by (simp_all add: static_OnApplicationStart_def Let_def push_packets_eq)
  have "meets x b" "unat (getDataBitRate x) = 30720"
    using channel_meets [OF dev em, of b 2] one_percent a(1) by (simp_all add: s b' fields)
  then show "serves x b" "app_pending b = [] \<longrightarrow> getRequiredDataRate b = Inr 0"
    unfolding serves_def using a(1) l
    by (auto simp: s b' static_getRequiredDataRate_def fields simp flip: length_0_conv split: if_splits)
qed

text \<open>The sockets of the main program open, and the start finds what it needs.\<close>

lemma main_opened:
  assumes "opening_sockets env" and "destinations t = main_destinations"
    and "init_sockets env main_cpe (sender_world t apps strategy r k) = Inr w1"
  shows "map netDevice (sn_interfaces (w_sender w1)) = main_channels"
    and "map errorModel (sn_interfaces (w_sender w1)) = main_error_models"
    and "map if_offer (sn_interfaces (w_sender w1)) = map if_offer main_offers"
    and "length (sn_interfaces (w_sender w1)) = 3"
proof -
  obtain w2 where w2: "init_sockets env main_cpe (sender_world t apps strategy r k) = Inr w2"
      "map netDevice (sn_interfaces (w_sender w2)) = main_channels"
      "map if_fixed (sn_interfaces (w_sender w2)) = main_interfaces"
      "map errorModel (sn_interfaces (w_sender w2)) = main_error_models"
    by (rule main_init [OF assms(1,2)])
  then have e: "w2 = w1" using assms(3) by simp
  show p: "map netDevice (sn_interfaces (w_sender w1)) = main_channels"
      "map errorModel (sn_interfaces (w_sender w1)) = main_error_models"
    using w2 by (simp_all add: e)
  have "map cost (sn_interfaces (w_sender w1)) = main_costs" using map_if_fixedD(3) [OF w2(3)] by (simp add: e)
  then show "map if_offer (sn_interfaces (w_sender w1)) = map if_offer main_offers" by (rule offers_of_parts [OF p])
  show "length (sn_interfaces (w_sender w1)) = 3"
    using arg_cong [OF p(1), of length] by (simp add: main_channels_def)
qed

lemma main_prepared:
  fixes env :: "('g, 'r, 'k) sender_env"
  assumes "opening_sockets env" and "destinations t = main_destinations" and "main_apps strategy apps"
  shows "prepared_to_start env main_cpe (main_interfaces, map app_fixed apps) 3 31000000 126000000 9000000000000
           (sender_world t apps strategy r k)"
    and "sn_application (w_sender (sender_world t apps strategy r k :: ('g, 'r, 'k) world)) = apps"
    and "strategyType (w_sender (sender_world t apps strategy r k :: ('g, 'r, 'k) world)) = strategy"
proof -
  let ?w = "sender_world t apps strategy r k :: ('g, 'r, 'k) world"
  obtain w1 where w1: "init_sockets env main_cpe ?w = Inr w1" "strategyType (w_sender w1) = strategy"
      "map netDevice (sn_interfaces (w_sender w1)) = main_channels"
      "map if_fixed (sn_interfaces (w_sender w1)) = main_interfaces"
    by (rule main_init [OF assms(1,2)])
  note l3 = main_apps_length [OF assms(3)]
  have apps: "\<forall>a\<in>set apps. app_unstarted a \<and> app_total a \<le> 18015" using assms(3) by (simp add: main_apps_def)
  have "paced 31000000 126000000 x" if x: "x \<in> set (sn_interfaces (w_sender w1))" for x
  proof -
    have "netDevice x \<in> set main_channels" using x arg_cong [OF w1(3), of set] by auto
    then show ?thesis using channel_paced by (auto simp: main_channels_def)
  qed
  moreover have "app_totals apps \<le> 54045"
  proof -
    have "app_totals apps \<le> sum_list (map (\<lambda>_. 18015) apps)"
      unfolding app_totals_def using apps by (intro sum_list_mono) auto
    then show ?thesis using l3 by (simp add: sum_list_triv)
  qed
  moreover have w: "fresh_sender ?w" "sn_application (w_sender ?w) = apps" "strategyType (w_sender ?w) = strategy"
    using apps app_unstarted_fresh
    by (auto simp: fresh_sender_def sender_world_def sender_DoInstall_def ApplicationSenderHelper_def
        SenderApplication_def)
  ultimately show "prepared_to_start env main_cpe (main_interfaces, map app_fixed apps) 3 31000000 126000000 9000000000000 ?w"
    using w1 main_opened(4) [OF assms(1,2) w1(1)] apps l3 unfolding prepared_to_start_def by auto
  show "sn_application (w_sender ?w) = apps" "strategyType (w_sender ?w) = strategy" by (rule w)+
qed

text \<open>Under the reactive strategy there is a route, and the first problem is that of the fresh interfaces.\<close>

lemma main_reactive:
  fixes env :: "('g, 'r, 'k) sender_env"
  assumes "opening_sockets env" and "destinations t = main_destinations" and "main_apps REACTIVE apps"
    and "init_sockets env main_cpe (sender_world t apps REACTIVE r k) = Inr w1"
  shows "route main_route apps (sn_interfaces (w_sender w1))"
    and "first_problem_solvable apps (sn_interfaces (w_sender w1)) = starts_feasible apps"
    and "\<forall>x\<in>set (sn_interfaces (w_sender w1)). brisk x"
proof -
  have small: "list_all2 small_app main_requirements apps" and un: "\<forall>a\<in>set apps. app_unstarted a"
    using assms(3) by (simp_all add: main_apps_def)
  note o = main_opened [OF assms(1,2,4)] and f = main_offers_route [OF small]
  show "route main_route apps (sn_interfaces (w_sender w1))" by (rule route_cong [OF f refl o(3)])
  have "fresh_sender (sender_world t apps REACTIVE r k :: ('g, 'r, 'k) world)"
    using main_prepared(1) [OF assms(1-3)] unfolding prepared_to_start_def by (rule conjunct1)
  then have "\<forall>x\<in>set (sn_interfaces (w_sender w1)). if_pendingpackets x = []"
    using init_sockets_fresh [OF assms(4)] by (simp add: fresh_sender_def)
  then show "first_problem_solvable apps (sn_interfaces (w_sender w1)) = starts_feasible apps"
    unfolding starts_feasible_def by (rule first_problem_solvable_cong [OF un f o(3) main_offers_offer(2)])
  show "\<forall>x\<in>set (sn_interfaces (w_sender w1)). brisk x"
  proof
    fix x assume "x \<in> set (sn_interfaces (w_sender w1))"
    then have "netDevice x \<in> set main_channels" using arg_cong [OF o(1), of set] by auto
    then show "brisk x" using channel_brisk by (auto simp: main_channels_def)
  qed
qed

lemma main_ready:
  fixes env :: "('g, 'r, 'k) sender_env"
  assumes "opening_sockets env" and "destinations t = main_destinations" and "supported env strategy" and "main_apps strategy apps"
    and "strategy = REACTIVE \<longrightarrow> starts_feasible apps"
  shows "ready_to_start env main_cpe (main_interfaces, map app_fixed apps) 3 31000000 126000000 9000000000000
           (sender_world t apps strategy r k)"
proof -
  have "strategy_ready (env_compute env) strategy apps (sn_interfaces (w_sender w1))"
    if i: "init_sockets env main_cpe (sender_world t apps strategy r k) = Inr w1" for w1 :: "('g, 'r, 'k) world"
  proof -
    note o = main_opened [OF assms(1,2) i]
    consider "strategy = ROUND_ROBIN \<or> strategy = RANDOM" | "strategy = LINEAR" | "strategy = REACTIVE"
      by (cases strategy) simp_all
    then show ?thesis
    proof cases
      case 1
      then show ?thesis using assms(3) by auto
    next
      case 2
      have x: "netDevice (sn_interfaces (w_sender w1) ! 2) = make_channel 30 30"
          "errorModel (sn_interfaces (w_sender w1) ! 2) = make_error_model (1 / 100)"
        using arg_cong [OF o(1), of "\<lambda>xs. xs ! 2"] arg_cong [OF o(2), of "\<lambda>xs. xs ! 2"] o(4)
        by (simp_all add: main_channels_def main_error_models_def)
      have "serves (sn_interfaces (w_sender w1) ! 2) b \<and> (app_pending b = [] \<longrightarrow> getRequiredDataRate b = Inr 0)"
        if r: "res_map OnApplicationStart apps = Inr apps1" "b \<in> set apps1" for apps1 b
      proof -
        obtain a where "a \<in> set apps" "OnApplicationStart a = Inr b"
          using r(1) [unfolded res_map_Inr_iff] r(2) unfolding list_all2_conv_all_nth in_set_conv_nth by metis
        then show ?thesis using third_channel_serves [OF x] assms(4) 2 by (auto simp: main_apps_def)
      qed
      then have "\<exists>p vs obj. linear_problem apps1 (sn_interfaces (w_sender w1)) = Inr p \<and> env_solve (env_compute env) p = OPTIMAL vs obj"
        if "res_map OnApplicationStart apps = Inr apps1" for apps1
        using linear_problem_solved [of "env_solve (env_compute env)" apps1 "\<lambda>_. 2" "sn_interfaces (w_sender w1)"]
          that assms(3) 2 o(4) by simp
      moreover have "is_static a" if "a \<in> set apps" for a using assms(4) 2 that by (cases a) (auto simp: main_apps_def)
      ultimately show ?thesis using assms(3) 2 by simp
    next
      case 3
      note m = main_reactive [OF assms(1,2) assms(4) [unfolded 3] i [unfolded 3]]
      show ?thesis using m assms(3,5) o(4) 3 by auto
    qed
  qed
  then show ?thesis unfolding ready_to_start_def using main_prepared [OF assms(1,2,4)] by simp
qed

lemma run_sender_complete:
  assumes "opening_sockets env" and "ready_sockets env" and "supported env strategy"
    and "cpe t = main_cpe" and "destinations t = main_destinations" and "main_apps strategy apps"
    and "strategy = REACTIVE \<longrightarrow> starts_feasible apps"
  shows "\<exists>w' \<sigma>' so. run_sender env t (sender_world t apps strategy r k) = Some (Inr (w', \<sigma>')) \<and>
    sched_IsEmpty (m_events \<sigma>') \<and> strategy_ptr (w_sender w') = Some so \<and>
    so_getAllDataHasBeenSent so \<and> map if_fixed (so_interfaces so) = main_interfaces \<and>
    map app_fixed (so_applications so) = map app_fixed apps \<and> length (w_trace w') = app_totals apps \<and>
    trace_within 3 (w_trace w') \<and>
    (\<forall>a\<in>set (so_applications so). app_generated a = of_nat (app_total a)) \<and>
    (\<forall>i. generated_from i (so_applications so) = of_nat (traced_from i (w_trace w')))"
proof -
  obtain ident and \<sigma> :: "sender_event simulator"
    where s: "Simulator_Schedule 0 CallStart (DefaultSimulatorImpl (MapS [])) = Inr (ident, \<sigma>)"
    using first_schedule [of "MapS []" CallStart] by auto
  have su: "suited env 3 31000000 126000000 9000000000000"
    using assms(2) by (simp add: suited_def)
  have "frame_total (main_interfaces, map app_fixed apps) = app_totals apps"
    by (simp add: frame_total_def app_totals_def app_fixed_def comp_def)
  moreover have "(3 :: nat) + 7 + (3 + 1) * visits 9000000000000 31000000 0 < 4294967296"
    by (simp add: visits_def)
  ultimately show ?thesis
    using sender_run_complete [OF _ s su main_ready [OF assms(1,5,3,6,7), of r k]] assms(4) s
    by (simp add: run_sender_def)
qed

lemma run_sender_throws:
  fixes env :: "('g, 'r, 'k) sender_env"
  assumes "opening_sockets env" and "supported env REACTIVE"
    and "cpe t = main_cpe" and "destinations t = main_destinations" and "main_apps REACTIVE apps" and "\<not> starts_feasible apps"
  shows "run_sender env t (sender_world t apps REACTIVE r k) = Some (Inl (ThrownPointer ''Nessuna soluzione trovata''))"
proof -
  obtain ident and \<sigma> :: "sender_event simulator"
    where s: "Simulator_Schedule 0 CallStart (DefaultSimulatorImpl (MapS [])) = Inr (ident, \<sigma>)"
    using first_schedule [of "MapS []" CallStart] by auto
  note p = main_prepared [OF assms(1,4,5), of r k]
  have "Sim_Run (sender_notify env main_cpe) (sender_world t apps REACTIVE r k :: ('g, 'r, 'k) world, \<sigma>) =
      Some (Inl (ThrownPointer ''Nessuna soluzione trovata''))"
    using main_reactive [OF assms(1,4,5)] assms(2,6) p(2,3)
    by (intro sender_run_throws [OF _ s p(1)]) auto
  then show ?thesis using s assms(3) by (simp add: run_sender_def)
qed

end
