(* ===== verification/Main_Feasible.thy ===== *)
theory Main_Feasible
  imports Main_Ready
begin

text \<open>
  When a run under the reactive strategy gets past its start. The first computation comes at time 0,
  and it finds two samples of every application: that of the start and that of the update that precedes
  every computation. The capacities of the interfaces are for one second.
\<close>

section \<open>The first two samples\<close>

fun first_two :: "application \<Rightarrow> nat" where
  "first_two (SinApp a) = unat (snd (sinValues a ! 0)) + unat (snd (sinValues a ! 1))"
| "first_two (StaticApp a) = 0"

lemma first_two_generated:
  assumes a: "small_app req a" and b: "OnApplicationStart a = Inr b" and c: "Update b = Inr c"
  shows "length (app_pending c) = first_two a"
proof -
  obtain s where s: "a = SinApp s" "sin_inv s" "currentSample s = 0" "pendingpackets s = []"
    using a by (cases a) (auto simp: small_sin_def)
  obtain t where t: "enqueuePacketsForCurrentSample s = Inr t" "sin_inv t"
      "unat (currentSample t) = 1" "sinValues t = sinValues s" "length (pendingpackets t) = unat (snd (sinValues s ! 0))"
    using enqueue_step [of s] s by (metis One_nat_def append_Nil length_map length_upt minus_nat.diff_0 unat_0 zero_less_numeral)
  obtain u where u: "enqueuePacketsForCurrentSample t = Inr u"
      "length (pendingpackets u) = unat (snd (sinValues s ! 0)) + unat (snd (sinValues s ! 1))"
    using enqueue_step [of t] t by (metis length_append length_map length_upt minus_nat.diff_0 one_less_numeral_iff semiring_norm(76) numeral_less_iff)
  have "b = SinApp t" using b s t by (simp add: sin_OnApplicationStart_def)
  then have "c = SinApp u" using c u by (simp add: Update_sin [OF t(2)])
  then show ?thesis using u by (simp add: s)
qed

lemma first_problem_apps:
  assumes small: "list_all2 small_app main_requirements apps"
  shows "\<exists>apps1 apps2. res_map OnApplicationStart apps = Inr apps1 \<and> res_map Update apps1 = Inr apps2 \<and>
    map (\<lambda>a. length (app_pending a)) apps2 = map first_two apps \<and> route main_route apps2 main_offers \<and>
    (\<forall>a\<in>set apps2. length (app_pending a) \<le> 30)"
proof -
  have l: "length apps = 3" using list_all2_lengthD [OF small] by (simp add: main_requirements_def)
  have sm: "\<exists>req. small_app req a" if "a \<in> set apps" for a
    using small that by (metis in_set_conv_nth list_all2_conv_all_nth)
  then have un: "\<forall>a\<in>set apps. app_unstarted a"
    by (metis app_unstarted.simps(2) small_app.elims(2) small_sin_def)
  let ?S = "\<lambda>a b. OnApplicationStart a = Inr b \<and> app_started b"
  have "\<exists>b. OnApplicationStart a = Inr b \<and> ?S a b" if "a \<in> set apps" for a
    using OnApplicationStart_generates un that by blast
  then obtain apps1 where st: "res_map OnApplicationStart apps = Inr apps1" "list_all2 ?S apps apps1"
    using res_map_total [of apps OnApplicationStart ?S] by blast
  let ?U = "\<lambda>b c. Update b = Inr c"
  have "\<exists>c. Update b = Inr c \<and> ?U b c" if "b \<in> set apps1" for b
  proof -
    have "app_started b" using st(2) that by (auto simp: list_all2_conv_all_nth in_set_conv_nth)
    then show ?thesis using Update_generates by blast
  qed
  then obtain apps2 where u: "res_map Update apps1 = Inr apps2" "list_all2 ?U apps1 apps2"
    using res_map_total [of apps1 Update ?U] by blast
  have l2: "length apps1 = 3" "length apps2 = 3"
    using st(2) u(2) l by (simp_all add: list_all2_lengthD [symmetric])
  have "length (app_pending (apps2 ! j)) = first_two (apps ! j)" if "j < 3" for j
  proof -
    have "apps ! j \<in> set apps" using that l by simp
    then obtain req where "small_app req (apps ! j)" using sm by blast
    moreover have "OnApplicationStart (apps ! j) = Inr (apps1 ! j)" using list_all2_nthD [OF st(2)] that l by simp
    moreover have "Update (apps1 ! j) = Inr (apps2 ! j)" using list_all2_nthD [OF u(2)] that l2 by simp
    ultimately show ?thesis by (rule first_two_generated)
  qed
  then have ft: "map (\<lambda>a. length (app_pending a)) apps2 = map first_two apps"
    using l l2 by (intro nth_equalityI) simp_all
  note d = first_samples_demand [OF un st(1) u(1)]
  have rt: "route main_route apps2 main_offers" by (rule route_cong [OF main_offers_route [OF small] d(1) refl])
  have "app_peak a \<le> 15" if "a \<in> set apps2" for a
  proof -
    have "app_peak a \<in> app_peak ` set apps"
      using arg_cong [OF d(1), of "\<lambda>xs. fst ` set xs"] that by (auto simp: app_demand_def image_image)
    then obtain b where b: "b \<in> set apps" "app_peak a = app_peak b" by blast
    then obtain req where "small_app req b" using sm by blast
    then show ?thesis using small_app_demand(1) b(2) by simp
  qed
  then have "\<forall>a\<in>set apps2. length (app_pending a) \<le> 30" using d(2) by fastforce
  then show ?thesis using st(1) u(1) ft rt by blast
qed

section \<open>When the first problem has a solution\<close>

text \<open>The second channel takes 20 packets per second, the third 30.\<close>

lemma starts_feasibleI:
  assumes small: "list_all2 small_app main_requirements apps"
    and "first_two (apps ! 0) \<le> 20" and "first_two (apps ! 1) + first_two (apps ! 2) \<le> 30"
  shows "starts_feasible apps"
proof -
  obtain apps1 apps2 where s: "res_map OnApplicationStart apps = Inr apps1" "res_map Update apps1 = Inr apps2"
      "map (\<lambda>a. length (app_pending a)) apps2 = map first_two apps" "route main_route apps2 main_offers"
      "\<forall>a\<in>set apps2. length (app_pending a) \<le> 30"
    using first_problem_apps [OF small] by blast
  have l: "length apps = 3" using list_all2_lengthD [OF small] by (simp add: main_requirements_def)
  then have l2: "length apps2 = 3" using arg_cong [OF s(3), of length] by simp
  have ft: "length (app_pending (apps2 ! j)) = first_two (apps ! j)" if "j < 3" for j
    using arg_cong [OF s(3), of "\<lambda>xs. xs ! j"] that l l2 by simp
  have dev: "netDevice (main_offers ! 0) = make_channel 10 150" "netDevice (main_offers ! 1) = make_channel 20 100"
      "netDevice (main_offers ! 2) = make_channel 30 30"
    by (simp_all add: main_offers_def opened_interface_def ISPInterface_def)
  have r: "unat (getPackageRate (main_offers ! 0)) = 10" "unat (getPackageRate (main_offers ! 1)) = 20"
      "unat (getPackageRate (main_offers ! 2)) = 30"
    using main_channel_package_rate [OF dev(1)] main_channel_package_rate [OF dev(2)] main_channel_package_rate [OF dev(3)]
    by simp_all
  have lo: "length main_offers = 3" by (simp add: main_offers_def)
  have p53: "(2 :: nat) ^ 53 = 9007199254740992" by simp
  have serve: "main_route j < length main_offers \<and> serves (main_offers ! main_route j) (apps2 ! j)" if j: "j < length apps2" for j
    using s(4,5) j nth_mem [OF j] by (fastforce simp: route_def serves_def)
  have "(\<Sum>j<length apps2. if main_route j = i then length (app_pending (apps2 ! j)) else 0) \<le> unat (getPackageRate (main_offers ! i)) \<and>
      unat (getPackageRate (main_offers ! i)) \<le> 2 ^ 53" if "i < length main_offers" for i
  proof -
    have "i = 0 \<or> i = 1 \<or> i = 2" using that lo by linarith
    moreover have "{..<length apps2} = {0, 1, 2}" using l2 by auto
    ultimately show ?thesis using r assms(2,3) ft [of 0] ft [of 1] ft [of 2] unfolding p53
      by (elim disjE) (simp_all add: main_route_def)
  qed
  then have "\<exists>p v. reactive_problem now apps2 main_offers = Inr p \<and> integer_solution p v" for "now"
    using reactive_problem_solvable [OF main_offers_offer(2) serve] by blast
  then show ?thesis using s(1,2) unfolding starts_feasible_def first_problem_solvable_def by auto
qed

section \<open>When it has none\<close>

text \<open>All the packets have to fit the capacities of one second.\<close>

lemma solution_within_capacity:
  assumes v: "integer_solution p v" and p: "reactive_problem now apps ifaces = Inr p"
    and small: "\<forall>a\<in>set apps. length (app_pending a) < 4294967296"
    and rate: "\<forall>x\<in>set ifaces. unat (getPackageRate x) \<le> 2 ^ 53"
  shows "pending apps \<le> sum_list (map (\<lambda>x. unat (getPackageRate x)) ifaces)"
proof -
  let ?n = "length apps" and ?m = "length ifaces"
  note rows = reactive_problem_rows [OF p]
  have row: "(\<Sum>i<?m. packets_on ?n v j i) = length (app_pending (apps ! j))" if j: "j < ?n" for j
  proof -
    have "packets_row apps ifaces j \<in> set (mip_rows p)" using rows(2) j by auto
    moreover have "length (app_pending (apps ! j)) < 4294967296" using small j by simp
    ultimately show ?thesis
      using packets_row_met [OF v _ rows(1) j] by (simp add: interv_sum_list_conv_sum_set_nat atLeast0LessThan)
  qed
  have col: "(\<Sum>j<?n. packets_on ?n v j i) \<le> unat (getPackageRate (ifaces ! i))" if i: "i < ?m" for i
    using reactive_received(2) [OF v p small i] rate i by (simp add: interv_sum_list_conv_sum_set_nat atLeast0LessThan)
  have "pending apps = (\<Sum>j<?n. length (app_pending (apps ! j)))"
    by (simp add: pending_def sum_list_sum_nth atLeast0LessThan)
  also have "\<dots> = (\<Sum>j<?n. \<Sum>i<?m. packets_on ?n v j i)" using row by simp
  also have "\<dots> = (\<Sum>i<?m. \<Sum>j<?n. packets_on ?n v j i)" by (rule sum.swap)
  also have "\<dots> \<le> (\<Sum>i<?m. unat (getPackageRate (ifaces ! i)))" using col by (intro sum_mono) simp
  also have "\<dots> = sum_list (map (\<lambda>x. unat (getPackageRate x)) ifaces)" by (simp add: sum_list_sum_nth atLeast0LessThan)
  finally show ?thesis .
qed

lemma starts_feasibleD:
  assumes small: "list_all2 small_app main_requirements apps" and f: "starts_feasible apps"
  shows "sum_list (map first_two apps) \<le> 60"
proof -
  obtain apps1 apps2 where s: "res_map OnApplicationStart apps = Inr apps1" "res_map Update apps1 = Inr apps2"
      "map (\<lambda>a. length (app_pending a)) apps2 = map first_two apps"
      "\<forall>a\<in>set apps2. length (app_pending a) \<le> 30"
    using first_problem_apps [OF small] by blast
  obtain p v where p: "reactive_problem 0 apps2 main_offers = Inr p" "integer_solution p v"
    using f s(1,2) unfolding starts_feasible_def first_problem_solvable_def by blast
  have r: "map (\<lambda>x. unat (getPackageRate x)) main_offers = [10, 20, 30]"
    using main_channel_package_rate [of _ 10 150] main_channel_package_rate [of _ 20 100] main_channel_package_rate [of _ 30 30]
    by (simp add: main_offers_def opened_interface_def ISPInterface_def)
  then have rs: "unat (getPackageRate x) \<in> {10, 20, 30}" if "x \<in> set main_offers" for x
  proof -
    have "unat (getPackageRate x) \<in> set (map (\<lambda>x. unat (getPackageRate x)) main_offers)" using that by simp
    then show ?thesis unfolding r by simp
  qed
  have "pending apps2 \<le> sum_list (map (\<lambda>x. unat (getPackageRate x)) main_offers)"
    by (rule solution_within_capacity [OF p(2,1)]) (use s(4) rs in fastforce)+
  then show ?thesis unfolding pending_def s(3) r by simp
qed

section \<open>Runs at the crest of the sine\<close>

text \<open>With \<open>sin\<close> at 1 and a random number of 0 every sample is the peak.\<close>

lemma crest_sample:
  assumes "p \<le> 12" and "0 \<le> noise" and "noise \<le> 3"
  shows "sample_value (\<lambda>_. Fin 1) (\<lambda>h. (0, h)) (Fin (of_nat p)) noise hs x g = (Fin (of_nat p), g)"
proof -
  have a: "(of_nat p :: rat) \<le> 12" using assms(1) of_nat_le_iff [of p 12, where 'a = rat] by simp
  have r: "rnd (of_nat p) = Fin (of_nat p)" using assms(1) by (intro rnd_of_nat) simp
  have z: "dbl_of_int 0 = Fin 0" using rnd_of_nat [of 0] by (simp add: dbl_of_int_def)
  have "0 mod (noise + 1) = 0" by simp
  then show ?thesis using a
    by (simp add: sample_value_def add_noise_def Let_def r z)
qed

lemma crest_values:
  assumes "p \<le> 12" and "0 \<le> noise" and "noise \<le> 3"
  shows "generateValues (\<lambda>_. Fin 1) (\<lambda>h. (0, h)) (Fin (of_nat p)) noise hs g =
    Inr (map (\<lambda>x. (of_nat x, of_nat p)) [0..<1201], g)"
proof -
  have "dbl_to_u32 (Fin (of_nat p)) = Some (of_nat p)" using assms(1) by (intro dbl_to_u32_nat) simp
  then have "res_fold (generate_step (\<lambda>_. Fin 1) (\<lambda>h. (0, h)) (Fin (of_nat p)) noise hs) [0..<n] ([], g) =
      Inr (map (\<lambda>x. (of_nat x, of_nat p)) [0..<n], g)" for n
  proof (induction n)
    case (Suc n)
    then show ?case
      using \<open>dbl_to_u32 (Fin (of_nat p)) = Some (of_nat p)\<close>
      by (simp add: res_fold_append) (simp add: generate_step_def crest_sample [OF assms])
  qed simp
  then show ?thesis by (simp add: generateValues_def SimulationDurationInSeconds_def)
qed

text \<open>The three applications: twice the peak in the first two samples.\<close>

lemma crest_applications:
  fixes h :: 'h
  assumes "small_parameters params" and "rp_strategyType params \<noteq> LINEAR"
    and "make_applications (\<lambda>_. Fin 1) (\<lambda>h. (0, h)) gs garbage params h = Inr (apps, h')"
  shows "map first_two apps =
    [2 * unat (applicationOnePeak params), 2 * unat (applicationTwoPeak params), 2 * unat (applicationThreePeak params)]"
proof -
  have v: "generateValues (\<lambda>_. Fin 1) (\<lambda>h. (0, h)) (dbl_of_nat (unat peak)) (sint noise) hs g =
      Inr (map (\<lambda>x. (of_nat x, peak)) [0..<1201], g)" if "unat peak \<le> 12" "unat noise \<le> 3" for peak noise :: u32 and hs and g :: 'h
    using crest_values [of "unat peak" "sint noise" hs g] that
    by (simp add: dbl_of_u32 sint_small_u32)
  obtain g1 g2 g3 where "gs = (g1, g2, g3)" by (cases gs)
  then show ?thesis
    using assms v by (auto simp: make_applications_def make_sin_applications_def SinApplication_def small_parameters_def
        SDWanApplication_def sdwan_application.defs sin_application.defs)
qed

text \<open>With peaks of one packet the first problem has a solution.\<close>

definition crest_params :: "u32 \<Rightarrow> run_parameters" where
  "crest_params peak = RunParameters peak peak peak 1 1 1 150 150 150 REACTIVE"

lemma crest_params_simps [simp]:
  "unat peak \<le> 12 \<Longrightarrow> small_parameters (crest_params peak)" "rp_strategyType (crest_params peak) = REACTIVE"
  "applicationOnePeak (crest_params peak) = peak" "applicationTwoPeak (crest_params peak) = peak"
  "applicationThreePeak (crest_params peak) = peak"
  by (simp_all add: crest_params_def RunParameters_def small_parameters_def)

lemma crest_run:
  assumes "unat peak \<le> 12"
    and m: "make_applications (\<lambda>_. Fin 1) (\<lambda>h. (0, h)) gs garbage (crest_params peak) h = Inr (apps, h')"
  shows "main_apps REACTIVE apps" and "map first_two apps = [2 * unat peak, 2 * unat peak, 2 * unat peak]"
    and "unat peak \<le> 7 \<Longrightarrow> starts_feasible apps"
proof -
  have "sin_bounded (\<lambda>_. Fin 1)" by (simp add: sin_bounded_def)
  then have "\<exists>apps h'. make_applications (\<lambda>_. Fin 1) (\<lambda>h. (0, h)) gs garbage (crest_params peak) h = Inr (apps, h') \<and>
      main_apps (rp_strategyType (crest_params peak)) apps"
    by (rule make_applications_ok) (simp add: assms(1))
  then show ma: "main_apps REACTIVE apps" using m by simp
  show ft: "map first_two apps = [2 * unat peak, 2 * unat peak, 2 * unat peak]"
    using crest_applications [OF _ _ m] assms(1) by simp
  assume p: "unat peak \<le> 7"
  obtain a b c where "apps = [a, b, c]" using ft by (auto simp: map_eq_Cons_conv)
  then show "starts_feasible apps"
    using ma ft p by (intro starts_feasibleI) (simp_all add: main_apps_def)
qed

section \<open>Properties\<close>



end
