(* ===== verification/Std_Map.thy ===== *)
theory Std_Map
  imports Prelude
begin

text \<open>
  \<open>std::map\<close> as its users see it: the entries in key order, \<open>find\<close> and \<open>insert_or_assign\<close>. The listening
  sockets of the receiver and the groups of packets of the main program are such maps.
\<close>

section \<open>The interface\<close>

text \<open>
  A map finds what was put, and lists its entries with ascending keys. The lemmas for its clients
  say what a loop leaves that appends every element of a list to the entry of its key.
\<close>

locale ordered_map =
  fixes find_key :: "'k :: linorder \<Rightarrow> 'm \<Rightarrow> 'v option"
    and put :: "'k \<Rightarrow> 'v \<Rightarrow> 'm \<Rightarrow> 'm"
    and entries :: "'m \<Rightarrow> ('k \<times> 'v) list"
    and valid :: "'m \<Rightarrow> bool"
  assumes find_entries: "valid m \<Longrightarrow> find_key k m = map_of (entries m) k"
    and entries_sorted: "valid m \<Longrightarrow> sorted_wrt (<) (map fst (entries m))"
    and entries_put: "valid m \<Longrightarrow> map_of (entries (put k v m)) = (map_of (entries m))(k \<mapsto> v)"
    and valid_put: "valid m \<Longrightarrow> valid (put k v m)"
begin

lemma find_put: "valid m \<Longrightarrow> find_key k' (put k v m) = (if k' = k then Some v else find_key k' m)"
  by (simp add: find_entries entries_put valid_put)

lemma valid_fold: "valid m \<Longrightarrow> valid (fold (\<lambda>x m. put (key x) (val x m) m) xs m)"
  by (induction xs arbitrary: m) (simp_all add: valid_put)

lemma entries_eq:
  assumes "valid m"
  shows "entries m = map (\<lambda>k. (k, the (find_key k m))) (map fst (entries m))"
proof -
  have d: "distinct (map fst (entries m))"
    using entries_sorted [OF assms] by (simp add: strict_sorted_iff)
  have "(k, the (map_of (entries m) k)) = (k, v)" if "(k, v) \<in> set (entries m)" for k v
    using map_of_is_SomeI [OF d that] by simp
  then have "map (\<lambda>e. (fst e, the (map_of (entries m) (fst e)))) (entries m) = entries m"
    by (intro map_idI) auto
  then show ?thesis using find_entries [OF assms] by (simp add: comp_def)
qed

lemma keys_eq:
  assumes "valid m" and "\<And>k. find_key k m \<noteq> None \<longleftrightarrow> k \<in> K" and "finite K"
  shows "map fst (entries m) = sorted_list_of_set K"
proof -
  have "set (map fst (entries m)) = K"
    using assms(2) find_entries [OF assms(1)] by (auto simp: map_of_eq_None_iff)
  then show ?thesis
    using entries_sorted [OF assms(1)] by (metis sorted_list_of_set.idem_if_sorted_distinct strict_sorted_iff)
qed

end

text \<open>Clients whose values are lists: the groups of a list by key.\<close>

locale grouping_map = ordered_map find_key put entries valid
  for find_key :: "'k :: linorder \<Rightarrow> 'm \<Rightarrow> 'x list option" and put entries valid +
  fixes blank :: 'm
  assumes valid_blank: "valid blank" and entries_blank: "entries blank = []"
begin

lemma find_grouped:
  assumes "valid m"
  shows "find_key k (fold (\<lambda>x m. put (key x) ((case find_key (key x) m of None \<Rightarrow> [] | Some g \<Rightarrow> g) @ [x]) m) xs m) =
    (case (find_key k m, filter (\<lambda>x. key x = k) xs) of
       (None, []) \<Rightarrow> None
     | (g, ys) \<Rightarrow> Some ((case g of None \<Rightarrow> [] | Some g \<Rightarrow> g) @ ys))"
  using assms
proof (induction xs arbitrary: m)
  case Nil
  then show ?case by (simp split: option.splits)
next
  case (Cons x xs)
  then show ?case
    by (simp add: valid_put find_put split: option.splits list.splits)
qed

lemma grouped_entries:
  "entries (fold (\<lambda>x m. put (key x) ((case find_key (key x) m of None \<Rightarrow> [] | Some g \<Rightarrow> g) @ [x]) m) xs blank) =
     map (\<lambda>k. (k, filter (\<lambda>x. key x = k) xs)) (sorted_list_of_set (key ` set xs))"
proof -
  let ?m = "fold (\<lambda>x m. put (key x) ((case find_key (key x) m of None \<Rightarrow> [] | Some g \<Rightarrow> g) @ [x]) m) xs blank"
  have v: "valid ?m" by (rule valid_fold [OF valid_blank])
  have f: "find_key k ?m = (if k \<in> key ` set xs then Some (filter (\<lambda>x. key x = k) xs) else None)" for k
  proof -
    have "find_key k blank = None" by (simp add: find_entries valid_blank entries_blank)
    moreover have "filter (\<lambda>x. key x = k) xs = [] \<longleftrightarrow> k \<notin> key ` set xs"
      by (auto simp: filter_empty_conv)
    ultimately show ?thesis
      using find_grouped [OF valid_blank, of k key xs] by (auto split: list.splits)
  qed
  have "map fst (entries ?m) = sorted_list_of_set (key ` set xs)"
    by (rule keys_eq [OF v]) (simp_all add: f)
  then show ?thesis
    using entries_eq [OF v] by (simp add: f cong: map_cong)
qed

end

section \<open>The map\<close>

fun key_find :: "('a \<Rightarrow> 'a \<Rightarrow> bool) \<Rightarrow> 'a \<Rightarrow> ('a \<times> 'v) list \<Rightarrow> 'v option" where
  "key_find lt k [] = None"
| "key_find lt k ((k', v) # xs) = (if \<not> lt k k' \<and> \<not> lt k' k then Some v else key_find lt k xs)"

fun insert_or_assign :: "('a \<Rightarrow> 'a \<Rightarrow> bool) \<Rightarrow> 'a \<Rightarrow> 'v \<Rightarrow> ('a \<times> 'v) list \<Rightarrow> ('a \<times> 'v) list" where
  "insert_or_assign lt k v [] = [(k, v)]"
| "insert_or_assign lt k v ((k', v') # xs) =
     (if lt k k' then (k, v) # (k', v') # xs
      else if lt k' k then (k', v') # insert_or_assign lt k v xs
      else (k', v) # xs)"

text \<open>Opening a socket twice for the same address reuses the first; the keys stay in order.\<close>

lemma insert_or_assign_find:
  assumes "\<And>x. \<not> lt x x"
  shows "key_find lt k (insert_or_assign lt k v xs) = Some v"
  using assms by (induction lt k v xs rule: insert_or_assign.induct) auto

lemma key_find_map_of: "key_find (<) k xs = map_of xs k" for k :: "'k :: linorder"
  by (induction xs) (auto simp: not_less_iff_gr_or_eq)

lemma insert_or_assign_keys:
  "set (map fst (insert_or_assign (<) k v xs)) = insert k (set (map fst xs))" for k :: "'k :: linorder"
  by (induction "(<) :: 'k \<Rightarrow> 'k \<Rightarrow> bool" k v xs rule: insert_or_assign.induct) auto

lemma insert_or_assign_sorted:
  "sorted_wrt (<) (map fst xs) \<Longrightarrow> sorted_wrt (<) (map fst (insert_or_assign (<) k v xs))"
  for k :: "'k :: linorder"
proof (induction "(<) :: 'k \<Rightarrow> 'k \<Rightarrow> bool" k v xs rule: insert_or_assign.induct)
  case (2 k v k' v' xs)
  then show ?case
    using insert_or_assign_keys [of k v xs] by (auto intro: order_less_trans)
qed simp

lemma insert_or_assign_map_of:
  "sorted_wrt (<) (map fst xs) \<Longrightarrow> map_of (insert_or_assign (<) k v xs) = (map_of xs)(k \<mapsto> v)"
  for k :: "'k :: linorder"
  by (induction "(<) :: 'k \<Rightarrow> 'k \<Rightarrow> bool" k v xs rule: insert_or_assign.induct) (auto simp: fun_eq_iff)

interpretation std_map: grouping_map "key_find (<)" "insert_or_assign (<)" id
  "\<lambda>m. sorted_wrt (<) (map fst m)" "[] :: ('k :: linorder \<times> 'x list) list"
  by unfold_locales
    (simp_all add: key_find_map_of insert_or_assign_sorted insert_or_assign_map_of)

end
