(* ===== verification/Receiver_App.thy ===== *)
theory Receiver_App
  imports Ns3_Address Std_Map
begin

text \<open>
  \<open>ReceiverApplication\<close>, \<open>ReceivedPacketInfo\<close> and \<open>ReceiverApplicationHelper\<close>: the sink behind the
  interfaces. It listens on every address of its node, reads packets of 128 bytes from the accepted
  sockets and notes for each the interface it was sent from and its application. The sockets are
  part of the environment, of which nothing is assumed here. The vector of interfaces is the sender's,
  shared, and an argument of the operations that read it.
\<close>

section \<open>State\<close>

text \<open>A received packet: its bytes and the value of its first \<open>FlowIdTag\<close>, if it has one.\<close>

record rx_packet =
  pk_bytes :: "u8 list"
  pk_flow :: "u32 option"

text \<open>\<open>fromInterface\<close> is a pointer to one of the sender's interfaces: its position.\<close>

record received_packet_info =
  fromInterface :: nat
  fromApplication :: u32

definition ReceivedPacketInfo :: "nat \<Rightarrow> u32 \<Rightarrow> received_packet_info" where
  "ReceivedPacketInfo interface app = \<lparr>fromInterface = interface, fromApplication = app\<rparr>"

definition rpi_getDelayInMilliSeconds :: "isp_interface list \<Rightarrow> received_packet_info \<Rightarrow> u32" where
  "rpi_getDelayInMilliSeconds ifaces p = getDelayInMilliseconds (ifaces ! fromInterface p)"

definition rpi_getCost :: "isp_interface list \<Rightarrow> received_packet_info \<Rightarrow> u32" where
  "rpi_getCost ifaces p = cost (ifaces ! fromInterface p)"

definition rpi_getDataRateInPacketPerSeconds :: "isp_interface list \<Rightarrow> received_packet_info \<Rightarrow> u32" where
  "rpi_getDataRateInPacketPerSeconds ifaces p =
     ucast (getDataBitRate (ifaces ! fromInterface p) div ucast PacketSizeBit)"

record receiver =
  receivedPacketInfo :: "received_packet_info list"
  m_buffer :: "address \<rightharpoonup> u8 list"
  listeningSocketInfo :: "(address \<times> nat) list"
  m_socketList :: "nat list"
  m_localPort :: u16
  m_totalRx :: u64
  m_enableSeqTsSizeHeader :: bool

definition ReceiverApplication :: receiver where
  "ReceiverApplication =
     \<lparr>receivedPacketInfo = [], m_buffer = Map.empty, listeningSocketInfo = [], m_socketList = [],
      m_localPort = 0, m_totalRx = 0, m_enableSeqTsSizeHeader = False\<rparr>"

definition GetTotalRx :: "receiver \<Rightarrow> u64" where "GetTotalRx r = m_totalRx r"
definition GetAcceptedSockets :: "receiver \<Rightarrow> nat list" where "GetAcceptedSockets r = m_socketList r"

text \<open>What the helper installs on the sink node: the application, with the vector of the sender.\<close>

definition receiver_DoInstall :: "isp_interface list \<Rightarrow> receiver \<times> isp_interface list" where
  "receiver_DoInstall interfaces = (ReceiverApplication, interfaces)"

definition getReceivedPacketInfo :: "receiver \<Rightarrow> received_packet_info list" where
  "getReceivedPacketInfo r = receivedPacketInfo r"

section \<open>The environment\<close>

text \<open>
  \<open>rx_traced\<close>: is anything connected to the \<open>Rx\<close> or \<open>RxWithAddresses\<close> trace sources,
  \<open>rx_traced_header\<close>: to \<open>RxWithSeqTsSize\<close>. \<open>rx_udp\<close>: is the socket a UDP socket. \<open>rx_less\<close> is the
  order of \<open>Address\<close>.
\<close>

record 'k rx_env =
  rx_create :: "'k \<Rightarrow> nat \<times> 'k"
  rx_bind :: "nat \<Rightarrow> address \<Rightarrow> 'k \<Rightarrow> int \<times> 'k"
  rx_listen :: "nat \<Rightarrow> 'k \<Rightarrow> 'k"
  rx_shutdown_send :: "nat \<Rightarrow> 'k \<Rightarrow> 'k"
  rx_udp :: "nat \<Rightarrow> 'k \<Rightarrow> bool"
  rx_join :: "nat \<Rightarrow> address \<Rightarrow> 'k \<Rightarrow> 'k"
  rx_set_callbacks :: "nat \<Rightarrow> 'k \<Rightarrow> 'k"
  rx_set_recv_callback :: "nat \<Rightarrow> 'k \<Rightarrow> 'k"
  rx_clear_recv_callback :: "nat \<Rightarrow> 'k \<Rightarrow> 'k"
  rx_close :: "nat \<Rightarrow> 'k \<Rightarrow> 'k"
  rx_available :: "nat \<Rightarrow> 'k \<Rightarrow> u32"
  rx_recv_from :: "nat \<Rightarrow> u32 \<Rightarrow> 'k \<Rightarrow> (rx_packet \<times> address) option \<times> 'k"
  rx_less :: "address \<Rightarrow> address \<Rightarrow> bool"
  rx_traced :: bool
  rx_traced_header :: bool

type_synonym 'k rx_system = "receiver \<times> 'k"

section \<open>Listening\<close>

fun IsMulticast :: "address \<Rightarrow> bool" where
  "IsMulticast InvalidAddress = False"
| "IsMulticast (SocketAddress IPv4 host port) = Ipv4_IsMulticast (of_nat host)"
| "IsMulticast (SocketAddress IPv6 host port) = (host div 2 ^ 120 = 255)"

fun port_of :: "address \<Rightarrow> u16" where
  "port_of InvalidAddress = 0"
| "port_of (SocketAddress v host port) = port"

definition open_socket :: "'k rx_env \<Rightarrow> address \<Rightarrow> 'k rx_system \<Rightarrow> (nat \<times> 'k rx_system) res" where
  "open_socket env interfaceAddress s =
     (case s of (r, k) \<Rightarrow>
      case rx_create env k of (sock, k) \<Rightarrow>
        let r = r\<lparr>listeningSocketInfo :=
                    insert_or_assign (rx_less env) interfaceAddress sock (listeningSocketInfo r)\<rparr> in
        if interfaceAddress = InvalidAddress then Inl (AbortMsg '' 'Local' attribute not properly set'')
        else
          (case rx_bind env sock interfaceAddress k of (ret, k) \<Rightarrow>
             if ret = - 1 then Inl (FatalError ''Failed to bind socket'')
             else
               (let k = rx_listen env sock k;
                    k = rx_shutdown_send env sock k
                in if IsMulticast interfaceAddress then
                     (if rx_udp env sock k then Inr (sock, r, rx_join env sock interfaceAddress k)
                      else Inl (FatalError ''Error: joining multicast on a non-UDP socket''))
                   else Inr (sock, r, k))))"

definition InitReceivingSocket :: "'k rx_env \<Rightarrow> address \<Rightarrow> 'k rx_system \<Rightarrow> 'k rx_system res" where
  "InitReceivingSocket env interfaceAddress s =
     res_bind
       (case key_find (rx_less env) interfaceAddress (listeningSocketInfo (fst s)) of
          None \<Rightarrow> open_socket env interfaceAddress s
        | Some sock \<Rightarrow> Inr (sock, s))
       (\<lambda>(sock, r, k). Inr (r\<lparr>m_localPort := port_of interfaceAddress\<rparr>, rx_set_callbacks env sock k))"

text \<open>Per interface of the node its addresses; the first interface is the loopback one.\<close>

definition receiver_StartApplication :: "'k rx_env \<Rightarrow> nat list list \<Rightarrow> 'k rx_system \<Rightarrow> 'k rx_system res" where
  "receiver_StartApplication env ipv4Node s =
     res_fold (\<lambda>i. res_fold (\<lambda>j. InitReceivingSocket env
                      (SocketAddress IPv4 (ipv4Node ! i ! j) (ucast ConnectionPort)))
                  [0..<length (ipv4Node ! i)])
       [1..<length ipv4Node] s"

definition HandleAccept :: "'k rx_env \<Rightarrow> nat \<Rightarrow> 'k rx_system \<Rightarrow> 'k rx_system" where
  "HandleAccept env sock s =
     (case s of (r, k) \<Rightarrow>
        (r\<lparr>m_socketList := m_socketList r @ [sock]\<rparr>, rx_set_recv_callback env sock k))"

definition HandlePeerClose :: "nat \<Rightarrow> 'k rx_system \<Rightarrow> 'k rx_system" where "HandlePeerClose sock s = s"
definition HandlePeerError :: "nat \<Rightarrow> 'k rx_system \<Rightarrow> 'k rx_system" where "HandlePeerError sock s = s"

definition receiver_StopApplication :: "'k rx_env \<Rightarrow> 'k rx_system \<Rightarrow> 'k rx_system" where
  "receiver_StopApplication env s =
     (case s of (r, k) \<Rightarrow>
        let k = fold (rx_close env) (m_socketList r) k;
            r = r\<lparr>m_socketList := []\<rparr>;
            k = fold (\<lambda>(a, sock) k. rx_clear_recv_callback env sock (rx_close env sock k))
                  (listeningSocketInfo r) k
        in (r, k))"

definition receiver_DoDispose :: "receiver \<Rightarrow> receiver" where
  "receiver_DoDispose r = r\<lparr>listeningSocketInfo := [], m_socketList := []\<rparr>"

section \<open>Reassembly of messages\<close>

text \<open>
  \<open>SeqTsSizeHeader\<close>: size, sequence number and time in 20 bytes, most significant byte first; only the
  size is used. Reading a header from fewer bytes violates an assertion.
\<close>

definition HEADER_SIZE :: nat where "HEADER_SIZE = 20"

definition be_bytes :: "u8 list \<Rightarrow> nat" where
  "be_bytes bs = foldl (\<lambda>n b. 256 * n + unat b) 0 bs"

definition PeekHeader :: "u8 list \<Rightarrow> nat res" where
  "PeekHeader buffer =
     (if length buffer < HEADER_SIZE then Inl (AssertFailed ''header longer than the buffer'')
      else Inr (be_bytes (take 8 buffer)))"

text \<open>
  The loop takes complete messages off the buffer; a message shorter than its header violates the
  assertion of \<open>RemoveHeader\<close>. Sizes beyond 32 bits never get here: the buffer is shorter.
\<close>

function reassemble :: "nat \<Rightarrow> u8 list \<Rightarrow> u8 list list \<Rightarrow> (u8 list \<times> u8 list list) res" where
  "reassemble sz buffer out =
     (if length buffer < sz then Inr (buffer, out)
      else
        (let complete = take sz buffer; rest = drop sz buffer in
         if sz < HEADER_SIZE then Inl (AssertFailed ''header longer than the buffer'')
         else
           (let out = out @ [drop HEADER_SIZE complete] in
            if HEADER_SIZE < length rest then
              (case PeekHeader rest of Inl e \<Rightarrow> Inl e | Inr sz \<Rightarrow> reassemble sz rest out)
            else Inr (rest, out))))"
  by auto
termination
  by (relation "measure (\<lambda>(sz, buffer, out). length buffer)") (auto simp: HEADER_SIZE_def)

declare reassemble.simps [simp del]

text \<open>The hash of an address, by which the buffers are found; \<open>h4\<close> and \<open>h6\<close> hash the host.\<close>

fun AddressHash :: "(nat \<Rightarrow> nat) \<Rightarrow> (nat \<Rightarrow> nat) \<Rightarrow> address \<Rightarrow> nat res" where
  "AddressHash h4 h6 (SocketAddress IPv4 host port) = Inr (h4 host)"
| "AddressHash h4 h6 (SocketAddress IPv6 host port) = Inr (h6 host)"
| "AddressHash h4 h6 InvalidAddress =
     Inl (AbortMsg ''PacketSink: unexpected address type, neither IPv4 nor IPv6'')"

definition PacketReceived ::
  "rx_packet \<Rightarrow> address \<Rightarrow> receiver \<Rightarrow> (u8 list list \<times> receiver) res" where
  "PacketReceived p from_a r =
     res_bind (AddressHash id id from_a) (\<lambda>_.
     let buffer = (case m_buffer r from_a of None \<Rightarrow> [] | Some b \<Rightarrow> b) @ pk_bytes p in
     res_bind (PeekHeader buffer) (\<lambda>sz.
     if sz = 0 then Inl (AbortMsg ''header.GetSize() == 0'')
     else res_bind (reassemble sz buffer []) (\<lambda>(rest, out).
       Inr (out, r\<lparr>m_buffer := (m_buffer r)(from_a \<mapsto> rest)\<rparr>))))"

section \<open>Reading\<close>

text \<open>
  One round of the loop of \<open>HandleRead\<close>. \<open>originFlowId\<close> is declared before the loop and not
  initialised: a packet without tag keeps the value of the one before it, and using it before any
  tagged packet reads an indeterminate value. \<open>RecvFrom\<close> may return no packet, which is dereferenced.
\<close>

definition find_interface :: "isp_interface list \<Rightarrow> address \<Rightarrow> nat option" where
  "find_interface ifaces from_a =
     (case filter (\<lambda>i. outgoingAddress (ifaces ! i) = from_a) [0..<length ifaces] of
        [] \<Rightarrow> None | i # is \<Rightarrow> Some i)"

definition note_packet ::
  "isp_interface list \<Rightarrow> address \<Rightarrow> u32 option \<Rightarrow> receiver \<Rightarrow> receiver res" where
  "note_packet ifaces from_a originFlowId r =
     (case find_interface ifaces from_a of
        None \<Rightarrow> Inr r
      | Some i \<Rightarrow>
          (case originFlowId of
             None \<Rightarrow> Inl (Undefined ''originFlowId is not initialised'')
           | Some f \<Rightarrow> Inr (r\<lparr>receivedPacketInfo := receivedPacketInfo r @ [ReceivedPacketInfo i f]\<rparr>)))"

definition read_one ::
  "'k rx_env \<Rightarrow> isp_interface list \<Rightarrow> nat \<Rightarrow> 'k rx_system \<times> u32 option \<Rightarrow>
     ('k rx_system \<times> u32 option) res" where
  "read_one env ifaces sock st =
     (case st of ((r, k), originFlowId) \<Rightarrow>
        case rx_recv_from env sock PacketSizeByte k of
          (None, k) \<Rightarrow> Inl (Undefined ''null packet dereferenced'')
        | (Some (packet, from_a), k) \<Rightarrow>
            (let r = r\<lparr>m_totalRx := m_totalRx r + of_nat (length (pk_bytes packet))\<rparr>;
                 originFlowId = (case pk_flow packet of None \<Rightarrow> originFlowId | Some f \<Rightarrow> Some f)
             in res_bind
                  (if rx_traced_header env \<and> m_enableSeqTsSizeHeader r
                   then res_bind (PacketReceived packet from_a r) (\<lambda>(out, r). Inr r) else Inr r)
                  (\<lambda>r. res_bind (note_packet ifaces from_a originFlowId r)
                         (\<lambda>r. Inr ((r, k), originFlowId)))))"

text \<open>The loop goes on as long as the socket has 128 bytes: it need not end.\<close>

partial_function (option) HandleRead_loop ::
  "'k rx_env \<Rightarrow> isp_interface list \<Rightarrow> nat \<Rightarrow> 'k rx_system \<times> u32 option \<Rightarrow> 'k rx_system res option" where
  "HandleRead_loop env ifaces sock st =
     (if \<not> rx_available env sock (snd (fst st)) \<ge> PacketSizeByte then Some (Inr (fst st))
      else
        (case read_one env ifaces sock st of
           Inl e \<Rightarrow> Some (Inl e)
         | Inr st \<Rightarrow> HandleRead_loop env ifaces sock st))"

definition HandleRead ::
  "'k rx_env \<Rightarrow> isp_interface list \<Rightarrow> nat \<Rightarrow> 'k rx_system \<Rightarrow> 'k rx_system res option" where
  "HandleRead env ifaces sock s = HandleRead_loop env ifaces sock (s, None)"

section \<open>What reading does\<close>

text \<open>
  The documented behaviour of a connected stream socket, as far as the application relies on it:
  while packets of 128 bytes are queued it reports at least as many bytes, otherwise fewer, and
  reading 128 bytes takes the first packet of the queue.
\<close>

definition delivers :: "'k rx_env \<Rightarrow> nat \<Rightarrow> ('k \<Rightarrow> (rx_packet \<times> address) list) \<Rightarrow> bool" where
  "delivers env sock queue \<longleftrightarrow>
     (\<forall>k. rx_available env sock k \<ge> PacketSizeByte \<longleftrightarrow> queue k \<noteq> []) \<and>
     (\<forall>k x q. queue k = x # q \<longrightarrow>
        (\<exists>k'. rx_recv_from env sock PacketSizeByte k = (Some x, k') \<and> queue k' = q))"

definition received_from :: "isp_interface list \<Rightarrow> (rx_packet \<times> address) list \<Rightarrow> received_packet_info list" where
  "received_from ifaces q =
     concat (map (\<lambda>(p, a). case find_interface ifaces a of
                              None \<Rightarrow> []
                            | Some i \<Rightarrow> [ReceivedPacketInfo i (the (pk_flow p))]) q)"

definition received_bytes :: "(rx_packet \<times> address) list \<Rightarrow> u64" where
  "received_bytes q = sum_list (map (\<lambda>(p, a). of_nat (length (pk_bytes p))) q)"

lemma received_from_Cons:
  "received_from ifaces ((p, a) # q) =
     (case find_interface ifaces a of None \<Rightarrow> [] | Some i \<Rightarrow> [ReceivedPacketInfo i (the (pk_flow p))]) @
     received_from ifaces q"
  by (simp add: received_from_def)

text \<open>\<open>Q\<close> is anything that receiving from this socket keeps.\<close>

lemma HandleRead_loop_drains:
  assumes "delivers env sock queue" and "\<not> rx_traced_header env"
    and "\<forall>(p, a)\<in>set (queue k). pk_flow p \<noteq> None"
    and Q: "\<And>k. Q k \<Longrightarrow> Q (snd (rx_recv_from env sock PacketSizeByte k))" and "Q k"
  shows "\<exists>k'. HandleRead_loop env ifaces sock ((r, k), f) =
      Some (Inr (r\<lparr>m_totalRx := m_totalRx r + received_bytes (queue k),
                   receivedPacketInfo := receivedPacketInfo r @ received_from ifaces (queue k)\<rparr>, k')) \<and>
      queue k' = [] \<and> Q k'"
  using assms(3,5)
proof (induction "queue k" arbitrary: k r f)
  case Nil
  then have "\<not> rx_available env sock k \<ge> PacketSizeByte"
    using assms(1) by (simp add: delivers_def)
  then show ?case
    using Nil by (subst HandleRead_loop.simps) (auto simp: received_bytes_def received_from_def)
next
  case (Cons x q)
  obtain p a where x: "x = (p, a)" by (cases x)
  obtain fl where fl: "pk_flow p = Some fl" using Cons.prems Cons.hyps(2) [symmetric] x by auto
  have "rx_available env sock k \<ge> PacketSizeByte"
    using assms(1) Cons.hyps(2) [symmetric] by (simp add: delivers_def)
  moreover obtain k1 where k1: "rx_recv_from env sock PacketSizeByte k = (Some (p, a), k1)" "queue k1 = q"
    using assms(1) Cons.hyps(2) [symmetric] x unfolding delivers_def by metis
  have q1: "Q k1" using Q [OF Cons.prems(2)] k1(1) by simp
  let ?r = "r\<lparr>m_totalRx := m_totalRx r + of_nat (length (pk_bytes p)),
      receivedPacketInfo := receivedPacketInfo r @ received_from ifaces [(p, a)]\<rparr>"
  have "read_one env ifaces sock ((r, k), f) = Inr ((?r, k1), Some fl)"
    using k1 fl assms(2)
    by (auto simp: read_one_def note_packet_def received_from_def split: option.splits)
  moreover obtain k' where k': "HandleRead_loop env ifaces sock ((?r, k1), Some fl) =
      Some (Inr (?r\<lparr>m_totalRx := m_totalRx ?r + received_bytes (queue k1),
                   receivedPacketInfo := receivedPacketInfo ?r @ received_from ifaces (queue k1)\<rparr>, k'))"
      "queue k' = []" "Q k'"
    using Cons.hyps(1) [of k1 ?r "Some fl"] k1(2) q1 Cons.prems Cons.hyps(2) [symmetric] by auto
  moreover have "received_bytes (queue k) = of_nat (length (pk_bytes p)) + received_bytes q"
      "received_from ifaces (queue k) = received_from ifaces [(p, a)] @ received_from ifaces q"
    using Cons.hyps(2) [symmetric] x by (simp_all add: received_bytes_def received_from_def)
  ultimately show ?case
    using k1(2) by (subst HandleRead_loop.simps) (auto simp: add.assoc)
qed

lemma reassemble_frames:
  assumes "reassemble sz buffer out = Inr (rest, out')" and "sz = be_bytes (take 8 buffer)"
  shows "\<exists>frames. out' = out @ map (drop HEADER_SIZE) frames \<and> buffer = concat frames @ rest \<and>
           (\<forall>f\<in>set frames. HEADER_SIZE \<le> length f \<and> length f = be_bytes (take 8 f))"
  using assms
proof (induction sz buffer out rule: reassemble.induct)
  case (1 sz buffer out)
  show ?case
  proof (cases "length buffer < sz")
    case True
    then show ?thesis using 1(2) by (subst (asm) reassemble.simps) (auto intro: exI [of _ "[]"])
  next
    case False
    let ?c = "take sz buffer" and ?rest = "drop sz buffer"
    let ?out = "out @ [drop HEADER_SIZE ?c]"
    have h: "HEADER_SIZE \<le> sz" using 1(2) False by (subst (asm) reassemble.simps) (auto simp: Let_def split: if_splits)
    have c: "length ?c = sz" "take 8 ?c = take 8 buffer"
      using False h by (simp_all add: HEADER_SIZE_def)
    show ?thesis
    proof (cases "HEADER_SIZE < length ?rest")
      case True
      then obtain sz' where p: "PeekHeader ?rest = Inr sz'" "reassemble sz' ?rest ?out = Inr (rest, out')"
        using 1(2) False h
        by (subst (asm) reassemble.simps) (auto simp: Let_def split: sum.splits if_splits)
      then have "sz' = be_bytes (take 8 ?rest)" by (auto simp: PeekHeader_def split: if_splits)
      then obtain frames where f: "out' = ?out @ map (drop HEADER_SIZE) frames" "?rest = concat frames @ rest"
          "\<forall>f\<in>set frames. HEADER_SIZE \<le> length f \<and> length f = be_bytes (take 8 f)"
        using 1(1) [OF False refl refl _ refl True p(1) p(2)] h by auto
      have b: "buffer = concat (?c # frames) @ rest" using f(2) by (metis append_take_drop_id append_assoc concat.simps(2))
      have g: "\<forall>f\<in>set (?c # frames). HEADER_SIZE \<le> length f \<and> length f = be_bytes (take 8 f)"
      proof
        fix g assume "g \<in> set (?c # frames)"
        then consider "g = ?c" | "g \<in> set frames" by auto
        then show "HEADER_SIZE \<le> length g \<and> length g = be_bytes (take 8 g)"
          by cases (use f(3) h c 1(3) in \<open>metis+\<close>)
      qed
      show ?thesis
      proof (intro exI conjI)
        show "out' = out @ map (drop HEADER_SIZE) (?c # frames)" using f(1) by simp
      qed (fact b, fact g)
    next
      case nr: False
      then have "rest = ?rest" "out' = ?out"
        using 1(2) False h by (subst (asm) reassemble.simps; auto simp: Let_def split: if_splits)+
      then show ?thesis using h c 1(3) by (intro exI [of _ "[?c]"]) simp
    qed
  qed
qed

section \<open>Properties\<close>

text \<open>
  C32. Reading returns, and notes every packet: when the socket behaves as a stream of 128-byte packets
  and every packet carries a flow tag, \<open>HandleRead\<close> ends after as many rounds as packets are queued,
  whatever their number, with the queue empty, the byte count increased by all their bytes, and one
  entry per packet, in order, whose source address is that of an interface: the first such interface
  and the application of the tag. Packets from elsewhere are counted in bytes only.
\<close>

theorem HandleRead_notes_all:
  assumes "delivers env sock queue" and "\<not> rx_traced_header env"
    and "\<forall>(p, a)\<in>set (queue k). pk_flow p \<noteq> None"
  shows "\<exists>r' k'. HandleRead env ifaces sock (r, k) = Some (Inr (r', k')) \<and> queue k' = [] \<and>
    m_totalRx r' = m_totalRx r + received_bytes (queue k) \<and>
    receivedPacketInfo r' = receivedPacketInfo r @ received_from ifaces (queue k) \<and>
    m_socketList r' = m_socketList r"
  using HandleRead_loop_drains [OF assms, of "\<lambda>_. True" ifaces r None] by (auto simp: HandleRead_def)

text \<open>
  C37. A packet without tag that arrives first on a socket makes \<open>HandleRead\<close> use \<open>originFlowId\<close>
  uninitialised, when it comes from one of the interfaces.
\<close>

theorem HandleRead_untagged:
  assumes "delivers env sock queue" and "\<not> rx_traced_header env"
    and "queue k = (p, a) # q" and "pk_flow p = None" and "find_interface ifaces a = Some i"
  shows "HandleRead env ifaces sock (r, k) = Some (Inl (Undefined ''originFlowId is not initialised''))"
proof -
  have "rx_available env sock k \<ge> PacketSizeByte" using assms(1,3) by (simp add: delivers_def)
  moreover obtain k1 where "rx_recv_from env sock PacketSizeByte k = (Some (p, a), k1)"
    using assms(1,3) unfolding delivers_def by metis
  then have "read_one env ifaces sock ((r, k), None) = Inl (Undefined ''originFlowId is not initialised'')"
    using assms(2,4,5) by (simp add: read_one_def note_packet_def)
  ultimately show ?thesis unfolding HandleRead_def by (subst HandleRead_loop.simps) simp
qed


text \<open>A socket whose state is its queue, and one interface.\<close>

definition stream_env :: "(rx_packet \<times> address) list rx_env" where
  "stream_env = \<lparr>rx_create = (\<lambda>k. (0, k)), rx_bind = (\<lambda>s a k. (0, k)), rx_listen = (\<lambda>s k. k),
     rx_shutdown_send = (\<lambda>s k. k), rx_udp = (\<lambda>s k. False), rx_join = (\<lambda>s a k. k),
     rx_set_callbacks = (\<lambda>s k. k), rx_set_recv_callback = (\<lambda>s k. k), rx_clear_recv_callback = (\<lambda>s k. k),
     rx_close = (\<lambda>s k. k), rx_available = (\<lambda>s k. if k = [] then 0 else 128),
     rx_recv_from = (\<lambda>s n k. case k of [] \<Rightarrow> (None, k) | x # q \<Rightarrow> (Some x, q)),
     rx_less = (\<lambda>a b. False), rx_traced = False, rx_traced_header = False\<rparr>"

definition demo_iface :: isp_interface where
  "demo_iface = ISPInterface 101 ''Interfaccia 101'' \<lparr>channelDataRate = 10240, channelDelay = 150000000\<rparr>
     (SocketAddress IPv4 167837953 8080) 0 (SocketAddress IPv4 167837954 8080)
     \<lparr>errorEnabled = True, errorUnit = ERROR_UNIT_PACKET, errorRateAttribute = Fin 0\<rparr> 10"

lemma stream_env_delivers: "delivers stream_env 0 id"
  by (auto simp: delivers_def stream_env_def PacketSizeByte_eq)

theorem HandleRead_notes_all_witness:
  "\<exists>r' k'. HandleRead stream_env [demo_iface] 0
       (ReceiverApplication, [(\<lparr>pk_bytes = replicate 128 0, pk_flow = Some 3\<rparr>, outgoingAddress demo_iface)]) =
     Some (Inr (r', k')) \<and> m_totalRx r' = 128 \<and> receivedPacketInfo r' = [ReceivedPacketInfo 0 3]"
  using HandleRead_notes_all [OF stream_env_delivers,
      of "[(\<lparr>pk_bytes = replicate 128 0, pk_flow = Some 3\<rparr>, outgoingAddress demo_iface)]"
        "[demo_iface]" ReceiverApplication]
  by (auto simp: stream_env_def ReceiverApplication_def received_bytes_def received_from_def find_interface_def)

theorem HandleRead_untagged_witness:
  "HandleRead stream_env [demo_iface] 0
       (ReceiverApplication, [(\<lparr>pk_bytes = [], pk_flow = None\<rparr>, outgoingAddress demo_iface)]) =
     Some (Inl (Undefined ''originFlowId is not initialised''))"
  by (rule HandleRead_untagged [OF stream_env_delivers, of _ "\<lparr>pk_bytes = [], pk_flow = None\<rparr>" "outgoingAddress demo_iface" "[]" _ 0])
    (simp_all add: stream_env_def find_interface_def)

definition demo_message :: rx_packet where
  "demo_message = \<lparr>pk_bytes = [0, 0, 0, 0, 0, 0, 0, 21, 0, 0, 0, 0, 0, 0, 0, 0, 0, 0, 0, 0, 7], pk_flow = None\<rparr>"

lemma demo_message_received:
  "PacketReceived demo_message (outgoingAddress demo_iface) ReceiverApplication =
     Inr ([[7]], ReceiverApplication\<lparr>m_buffer := [outgoingAddress demo_iface \<mapsto> []]\<rparr>)"
  by (simp add: PacketReceived_def demo_iface_def ISPInterface_def demo_message_def ReceiverApplication_def PeekHeader_def HEADER_SIZE_def
      be_bytes_def reassemble.simps Let_def)


section \<open>Listening sockets\<close>

text \<open>Opening a socket twice for the same address reuses the first.\<close>

lemma InitReceivingSocket_again:
  assumes "key_find (rx_less env) a (listeningSocketInfo r) = Some sock"
  shows "InitReceivingSocket env a (r, k) = Inr (r\<lparr>m_localPort := port_of a\<rparr>, rx_set_callbacks env sock k)"
  using assms by (simp add: InitReceivingSocket_def)

end
