(* ===== verification/Sink_Delivery.thy ===== *)
theory Sink_Delivery
  imports Sender_Run Receiver_App
begin

text \<open>
  From the sender to the receiver. The network between them is ns-3's TCP, a parameter: the callbacks
  it makes at the sink, in order, each with what it does to the state of the sockets before. What is
  relied on is what a stream socket promises: per interface, what arrives over time is what was handed
  over, in order and without loss.
\<close>

section \<open>The run of the sink\<close>

text \<open>A connection is accepted; or bytes have arrived, which changes the sockets, and the receive callback is called.\<close>

datatype 'n sink_event = Accepted nat | Arrived nat "'n \<Rightarrow> 'n"

fun sink_events ::
  "'n rx_env \<Rightarrow> isp_interface list \<Rightarrow> 'n sink_event list \<Rightarrow> 'n rx_system \<Rightarrow> 'n rx_system res option" where
  "sink_events rx ifaces [] s = Some (Inr s)"
| "sink_events rx ifaces (Accepted sock # evs) s = sink_events rx ifaces evs (HandleAccept rx sock s)"
| "sink_events rx ifaces (Arrived sock arrive # evs) (r, k) =
     (case HandleRead rx ifaces sock (r, arrive k) of
        None \<Rightarrow> None
      | Some (Inl e) \<Rightarrow> Some (Inl e)
      | Some (Inr s) \<Rightarrow> sink_events rx ifaces evs s)"

definition run_sink ::
  "'n rx_env \<Rightarrow> nat list list \<Rightarrow> isp_interface list \<Rightarrow> 'n sink_event list \<Rightarrow> 'n \<Rightarrow> 'n rx_system res option" where
  "run_sink rx ipv4Node interfaces evs k =
     (case receiver_DoInstall interfaces of (r, ifaces) \<Rightarrow>
      case receiver_StartApplication rx ipv4Node (r, k) of
        Inl e \<Rightarrow> Some (Inl e)
      | Inr s \<Rightarrow> sink_events rx ifaces evs s)"

section \<open>The network\<close>

text \<open>Of the trace of the sender: the applications of the packets that left over interface \<open>i\<close> uncorrupted.\<close>

definition sent_on :: "nat \<Rightarrow> (nat \<times> u32 \<times> bool) list \<Rightarrow> u32 list" where
  "sent_on i tr = map (\<lambda>(j, f, c). f) (filter (\<lambda>(j, f, c). j = i \<and> \<not> c) tr)"

text \<open>
  The sockets of the sink are streams with queues of their own; the accepted socket \<open>i\<close> is that of
  interface \<open>i\<close>. Opening sockets succeeds and, as accepting a connection, touches no queue.
\<close>

definition stream_sockets :: "'n rx_env \<Rightarrow> (nat \<Rightarrow> 'n \<Rightarrow> (rx_packet \<times> address) list) \<Rightarrow> bool" where
  "stream_sockets rx queue \<longleftrightarrow> \<not> rx_traced_header rx \<and> (\<forall>s. delivers rx s (queue s)) \<and>
     (\<forall>s s' k. s' \<noteq> s \<longrightarrow> queue s' (snd (rx_recv_from rx s PacketSizeByte k)) = queue s' k) \<and>
     (\<forall>s a k. fst (rx_bind rx s a k) \<noteq> - 1) \<and>
     (\<forall>q s a k. queue q (snd (rx_create rx k)) = queue q k \<and> queue q (snd (rx_bind rx s a k)) = queue q k \<and>
        queue q (rx_listen rx s k) = queue q k \<and> queue q (rx_shutdown_send rx s k) = queue q k \<and>
        queue q (rx_set_callbacks rx s k) = queue q k \<and> queue q (rx_set_recv_callback rx s k) = queue q k)"

text \<open>An event that brings the packets of a list of applications, to a socket of a sink that has read everything.\<close>

fun arrives ::
  "(nat \<Rightarrow> 'n \<Rightarrow> (rx_packet \<times> address) list) \<Rightarrow> address list \<Rightarrow> 'n sink_event \<Rightarrow> nat \<times> u32 list \<Rightarrow> bool" where
  "arrives queue addrs (Accepted s) (i, flows) \<longleftrightarrow> i < length addrs \<and> flows = []"
| "arrives queue addrs (Arrived s arrive) (i, flows) \<longleftrightarrow> s = i \<and> i < length addrs \<and>
     (\<forall>k. (\<forall>s. queue s k = []) \<longrightarrow>
        (\<exists>ps. queue i (arrive k) = map (\<lambda>p. (p, addrs ! i)) ps \<and> map pk_flow ps = map Some flows) \<and>
        (\<forall>s'. s' \<noteq> i \<longrightarrow> queue s' (arrive k) = []))"

definition reliable ::
  "(nat \<Rightarrow> 'n \<Rightarrow> (rx_packet \<times> address) list) \<Rightarrow> address list \<Rightarrow> (nat \<times> u32 \<times> bool) list \<Rightarrow>
     'n sink_event list \<Rightarrow> bool" where
  "reliable queue addrs tr evs \<longleftrightarrow>
     (\<exists>chunks. list_all2 (arrives queue addrs) evs chunks \<and>
        (\<forall>i < length addrs. concat (map snd (filter (\<lambda>c. fst c = i) chunks)) = sent_on i tr))"

section \<open>One delivery\<close>

lemma find_interface_nth:
  assumes "distinct (map outgoingAddress ifaces)" and "i < length ifaces"
  shows "find_interface ifaces (outgoingAddress (ifaces ! i)) = Some i"
proof -
  have "outgoingAddress (ifaces ! j) = outgoingAddress (ifaces ! i) \<longleftrightarrow> j = i" if "j < length ifaces" for j
    using assms that by (auto simp: distinct_conv_nth)
  then have "filter (\<lambda>j. outgoingAddress (ifaces ! j) = outgoingAddress (ifaces ! i)) [0..<length ifaces] =
      filter (\<lambda>j. j = i) [0..<length ifaces]"
    by (intro filter_cong) auto
  also have "\<dots> = [i]" using assms(2) by (induction ifaces arbitrary: i rule: rev_induct) (auto simp: less_Suc_eq)
  finally show ?thesis by (simp add: find_interface_def)
qed

lemma received_from_one:
  assumes "find_interface ifaces a = Some i" and "map pk_flow ps = map Some flows"
  shows "received_from ifaces (map (\<lambda>p. (p, a)) ps) = map (ReceivedPacketInfo i) flows"
proof -
  have "map (\<lambda>p. ReceivedPacketInfo i (the (pk_flow p))) ps = map (ReceivedPacketInfo i \<circ> the) (map pk_flow ps)"
    by simp
  also have "\<dots> = map (ReceivedPacketInfo i) flows" by (simp add: assms(2))
  finally have "map (\<lambda>p. ReceivedPacketInfo i (the (pk_flow p))) ps = map (ReceivedPacketInfo i) flows" .
  then show ?thesis by (simp add: received_from_def comp_def assms(1) concat_map_singleton)
qed

lemma delivery_read:
  assumes rx: "stream_sockets rx queue" and d: "arrives queue (map outgoingAddress ifaces) (Arrived s arrive) (i, flows)"
    and dist: "distinct (map outgoingAddress ifaces)" and k: "\<forall>s. queue s k = []"
  shows "\<exists>r' k'. HandleRead rx ifaces s (r, arrive k) = Some (Inr (r', k')) \<and> (\<forall>s. queue s k' = []) \<and>
    receivedPacketInfo r' = receivedPacketInfo r @ map (ReceivedPacketInfo i) flows"
proof -
  have i: "s = i" "i < length ifaces" using d by simp_all
  obtain ps where ps: "queue i (arrive k) = map (\<lambda>p. (p, outgoingAddress (ifaces ! i))) ps"
      "map pk_flow ps = map Some flows" "\<forall>s'. s' \<noteq> i \<longrightarrow> queue s' (arrive k) = []"
    using d k by auto
  have "pk_flow p \<noteq> None" if "p \<in> set ps" for p
  proof -
    have "pk_flow p \<in> set (map Some flows)" using that ps(2) [symmetric] by auto
    then show ?thesis by auto
  qed
  then have tags: "\<forall>(p, a)\<in>set (queue i (arrive k)). pk_flow p \<noteq> None" by (auto simp: ps(1))
  let ?Q = "\<lambda>k. \<forall>s'. s' \<noteq> i \<longrightarrow> queue s' k = []"
  have "?Q (snd (rx_recv_from rx i PacketSizeByte k))" if "?Q k" for k
    using rx that by (simp add: stream_sockets_def)
  then obtain k' where "HandleRead_loop rx ifaces i ((r, arrive k), None) =
      Some (Inr (r\<lparr>m_totalRx := m_totalRx r + received_bytes (queue i (arrive k)),
                   receivedPacketInfo := receivedPacketInfo r @ received_from ifaces (queue i (arrive k))\<rparr>, k'))"
      "queue i k' = []" "?Q k'"
    using HandleRead_loop_drains [of rx i "queue i" "arrive k" ?Q ifaces r None] rx tags ps(3)
    by (auto simp: stream_sockets_def)
  moreover have "received_from ifaces (queue i (arrive k)) = map (ReceivedPacketInfo i) flows"
    unfolding ps(1) by (rule received_from_one [OF find_interface_nth [OF dist i(2)] ps(2)])
  ultimately show ?thesis using i(1) by (auto simp: HandleRead_def)
qed

section \<open>All events\<close>

lemma events_read:
  assumes rx: "stream_sockets rx queue" and dist: "distinct (map outgoingAddress ifaces)"
    and "list_all2 (arrives queue (map outgoingAddress ifaces)) evs chunks" and "\<forall>s. queue s k = []"
  shows "\<exists>r' k'. sink_events rx ifaces evs (r, k) = Some (Inr (r', k')) \<and>
    receivedPacketInfo r' = receivedPacketInfo r @
      concat (map (\<lambda>(i, flows). map (ReceivedPacketInfo i) flows) chunks)"
  using assms(3,4)
proof (induction evs chunks arbitrary: r k rule: list_all2_induct)
  case Nil
  then show ?case by simp
next
  case (Cons d evs c chunks)
  obtain i flows where c: "c = (i, flows)" by (cases c)
  show ?case
  proof (cases d)
    case (Accepted s)
    obtain r1 k1 where 1: "HandleAccept rx s (r, k) = (r1, k1)" "\<forall>s. queue s k1 = []"
        "receivedPacketInfo r1 = receivedPacketInfo r"
      using rx Cons.prems by (auto simp: HandleAccept_def stream_sockets_def)
    then show ?thesis using Cons.IH [OF 1(2), of r1] Cons.hyps(1) by (auto simp: Accepted c)
  next
    case (Arrived s arrive)
    obtain r1 k1 where 1: "HandleRead rx ifaces s (r, arrive k) = Some (Inr (r1, k1))" "\<forall>s. queue s k1 = []"
        "receivedPacketInfo r1 = receivedPacketInfo r @ map (ReceivedPacketInfo i) flows"
      using delivery_read [OF rx Cons.hyps(1) [unfolded c Arrived] dist Cons.prems] by blast
    then show ?thesis using Cons.IH [OF 1(2), of r1] by (auto simp: Arrived c)
  qed
qed

text \<open>Starting the sink opens its sockets; nothing has been received then.\<close>

definition unicast :: "nat list list \<Rightarrow> bool" where
  "unicast ipv4Node \<longleftrightarrow> (\<forall>as\<in>set ipv4Node. \<forall>a\<in>set as. \<not> Ipv4_IsMulticast (of_nat a))"

definition sink_quiet :: "(nat \<Rightarrow> 'n \<Rightarrow> (rx_packet \<times> address) list) \<Rightarrow> 'n rx_system \<Rightarrow> bool" where
  "sink_quiet queue s \<longleftrightarrow> receivedPacketInfo (fst s) = [] \<and> (\<forall>q. queue q (snd s) = [])"

lemma InitReceivingSocket_quiet:
  assumes rx: "stream_sockets rx queue" and "\<not> Ipv4_IsMulticast (of_nat a)" and "sink_quiet queue s"
  shows "\<exists>t. InitReceivingSocket rx (SocketAddress IPv4 a p) s = Inr t \<and> sink_quiet queue t"
proof -
  obtain r k where s: "s = (r, k)" by (cases s)
  obtain sock k1 where 1: "rx_create rx k = (sock, k1)" by (cases "rx_create rx k")
  obtain ret k2 where 2: "rx_bind rx sock (SocketAddress IPv4 a p) k1 = (ret, k2)"
    by (cases "rx_bind rx sock (SocketAddress IPv4 a p) k1")
  have b: "ret \<noteq> - 1" using rx 2 unfolding stream_sockets_def by (metis fst_conv)
  have "queue q k2 = []" for q
    using rx assms(3) s 1 2 unfolding stream_sockets_def sink_quiet_def by (metis snd_conv)
  then show ?thesis
    using assms s 1 2 b
    by (auto simp: InitReceivingSocket_def open_socket_def stream_sockets_def sink_quiet_def Let_def split: option.splits)
qed

lemma sink_started:
  assumes rx: "stream_sockets rx queue" and u: "unicast ipv4Node" and q: "\<forall>s. queue s k = []"
  shows "\<exists>s. receiver_StartApplication rx ipv4Node (ReceiverApplication, k) = Inr s \<and> sink_quiet queue s"
  unfolding receiver_StartApplication_def
proof (rule res_fold_total [where P = "sink_quiet queue"])
  fix i s assume i: "i \<in> set [1..<length ipv4Node]" and s: "sink_quiet queue s"
  have m: "\<not> Ipv4_IsMulticast (of_nat (ipv4Node ! i ! j))" if "j \<in> set [0..<length (ipv4Node ! i)]" for j
    using u i that unfolding unicast_def by (metis atLeastLessThan_iff nth_mem set_upt)
  show "\<exists>t. res_fold (\<lambda>j. InitReceivingSocket rx (SocketAddress IPv4 (ipv4Node ! i ! j) (ucast ConnectionPort)))
      [0..<length (ipv4Node ! i)] s = Inr t \<and> sink_quiet queue t"
    by (rule res_fold_total [where P = "sink_quiet queue", OF InitReceivingSocket_quiet [OF rx] s]) (use m in auto)
qed (use q in \<open>simp add: sink_quiet_def ReceiverApplication_def\<close>)

lemma received_on:
  "map fromApplication (filter (\<lambda>p. fromInterface p = i)
      (concat (map (\<lambda>(i, flows). map (ReceivedPacketInfo i) flows) chunks))) =
   concat (map snd (filter (\<lambda>c. fst c = i) chunks))"
proof (induction chunks)
  case (Cons c chunks)
  obtain j flows where c: "c = (j, flows)" by (cases c)
  have "map fromApplication (filter (\<lambda>p. fromInterface p = i) (map (ReceivedPacketInfo j) flows)) =
      (if j = i then flows else [])"
    by (auto simp: filter_map comp_def ReceivedPacketInfo_def)
  then show ?case using Cons by (simp add: c)
qed simp

lemma reliable_received:
  assumes "stream_sockets rx queue" and "distinct (map outgoingAddress ifaces)"
    and "reliable queue (map outgoingAddress ifaces) tr evs" and "\<forall>s. queue s k = []" and "unicast ipv4Node"
  shows "\<exists>r' k'. run_sink rx ipv4Node ifaces evs k = Some (Inr (r', k')) \<and>
    (\<forall>p\<in>set (receivedPacketInfo r'). fromInterface p < length ifaces) \<and>
    (\<forall>i<length ifaces. map fromApplication (filter (\<lambda>p. fromInterface p = i) (receivedPacketInfo r')) = sent_on i tr)"
proof -
  obtain chunks where c: "list_all2 (arrives queue (map outgoingAddress ifaces)) evs chunks"
      "\<forall>i<length ifaces. concat (map snd (filter (\<lambda>c. fst c = i) chunks)) = sent_on i tr"
    using assms(3) by (auto simp: reliable_def)
  obtain r0 k0 where s: "receiver_StartApplication rx ipv4Node (ReceiverApplication, k) = Inr (r0, k0)"
      "receivedPacketInfo r0 = []" "\<forall>s. queue s k0 = []"
    using sink_started [OF assms(1,5,4)] by (auto simp: sink_quiet_def)
  obtain r' k' where r: "sink_events rx ifaces evs (r0, k0) = Some (Inr (r', k'))"
      "receivedPacketInfo r' = concat (map (\<lambda>(i, flows). map (ReceivedPacketInfo i) flows) chunks)"
    using events_read [OF assms(1,2) c(1) s(3), of r0] by (auto simp: s(2))
  have "fst c < length ifaces" if "c \<in> set chunks" for c
    using c(1) that by (induction rule: list_all2_induct) (auto elim: arrives.elims)
  then have "\<forall>p\<in>set (receivedPacketInfo r'). fromInterface p < length ifaces"
    by (force simp: r(2) ReceivedPacketInfo_def)
  moreover have "run_sink rx ipv4Node ifaces evs k = Some (Inr (r', k'))"
    by (simp add: run_sink_def receiver_DoInstall_def s(1) r(1))
  ultimately show ?thesis using c(2) received_on [of _ chunks] by (auto simp: r(2))
qed

section \<open>Counting\<close>

text \<open>The packets of application \<open>f\<close> that left uncorrupted.\<close>

definition delivered_from :: "u32 \<Rightarrow> (nat \<times> u32 \<times> bool) list \<Rightarrow> nat" where
  "delivered_from f tr = length (filter (\<lambda>(j, g, c). g = f \<and> \<not> c) tr)"

lemma delivered_from_sent_on:
  assumes "trace_within n tr"
  shows "delivered_from f tr = (\<Sum>i<n. count_list (sent_on i tr) f)"
  using assms
proof (induction tr)
  case Nil
  then show ?case by (simp add: delivered_from_def sent_on_def)
next
  case (Cons x tr)
  obtain j g c where x: "x = (j, g, c)" by (cases x)
  have j: "j < n" "trace_within n tr" using Cons.prems by (simp_all add: x trace_within_def)
  have "count_list (sent_on i (x # tr)) f = (if i = j then of_bool (g = f \<and> \<not> c) else 0) + count_list (sent_on i tr) f" for i
    by (simp add: sent_on_def x)
  then have "(\<Sum>i<n. count_list (sent_on i (x # tr)) f) = of_bool (g = f \<and> \<not> c) + (\<Sum>i<n. count_list (sent_on i tr) f)"
    using j(1) by (simp add: sum.distrib)
  moreover have "delivered_from f (x # tr) = of_bool (g = f \<and> \<not> c) + delivered_from f tr"
    by (simp add: delivered_from_def x)
  ultimately show ?case using Cons.IH [OF j(2)] by simp
qed

text \<open>How many packets of application \<open>f\<close> a receiver has noted.\<close>

definition received_of :: "u32 \<Rightarrow> received_packet_info list \<Rightarrow> nat" where
  "received_of f ps = length (filter (\<lambda>p. fromApplication p = f) ps)"

lemma received_of_interfaces:
  assumes "\<forall>p\<in>set ps. fromInterface p < n"
  shows "received_of f ps = (\<Sum>i<n. count_list (map fromApplication (filter (\<lambda>p. fromInterface p = i) ps)) f)"
  using assms
proof (induction ps)
  case Nil
  then show ?case by (simp add: received_of_def)
next
  case (Cons p ps)
  have "(\<Sum>i<n. count_list (map fromApplication (filter (\<lambda>p. fromInterface p = i) (p # ps))) f) =
      (\<Sum>i<n. (if i = fromInterface p then of_bool (fromApplication p = f) else 0) +
         count_list (map fromApplication (filter (\<lambda>p. fromInterface p = i) ps)) f)"
    by (intro sum.cong) auto
  also have "\<dots> = of_bool (fromApplication p = f) + received_of f ps"
    using Cons by (simp add: sum.distrib)
  finally show ?case by (simp add: received_of_def)
qed

lemma received_delivered:
  assumes "trace_within n tr" and "\<forall>p\<in>set ps. fromInterface p < n"
    and "\<forall>i<n. map fromApplication (filter (\<lambda>p. fromInterface p = i) ps) = sent_on i tr"
  shows "received_of f ps = delivered_from f tr"
  using assms(3) by (simp add: received_of_interfaces [OF assms(2)] delivered_from_sent_on [OF assms(1)])

section \<open>The property\<close>

text \<open>
  C26. The sink notes exactly what the network brings: over stream sockets that deliver per interface,
  in order and without loss, what the sender handed over uncorrupted, the sink starts, every callback
  returns without an error, every noted packet is of an interface of the sender, the applications
  noted for an interface are those sent over it in the order of sending, and the number of packets
  noted for an application is that of its uncorrupted packets.
\<close>

theorem sink_notes_what_was_sent:
  assumes "stream_sockets rx queue" and "\<forall>s. queue s k = []" and "unicast ipv4Node"
    and "distinct (map outgoingAddress ifaces)" and "trace_within (length ifaces) tr"
    and "reliable queue (map outgoingAddress ifaces) tr evs"
  shows "\<exists>r' k'. run_sink rx ipv4Node ifaces evs k = Some (Inr (r', k')) \<and>
    (\<forall>p\<in>set (getReceivedPacketInfo r'). fromInterface p < length ifaces) \<and>
    (\<forall>i<length ifaces.
       map fromApplication (filter (\<lambda>p. fromInterface p = i) (getReceivedPacketInfo r')) = sent_on i tr) \<and>
    (\<forall>f. received_of f (getReceivedPacketInfo r') = delivered_from f tr)"
  using reliable_received [OF assms(1,4,6,2,3)] received_delivered [OF assms(5)]
  unfolding getReceivedPacketInfo_def by blast

text \<open>Sockets whose state is a queue per socket, two interfaces, and an interleaving of their packets.\<close>

definition queues_env :: "(nat \<Rightarrow> (rx_packet \<times> address) list) rx_env" where
  "queues_env = \<lparr>rx_create = (\<lambda>k. (0, k)), rx_bind = (\<lambda>s a k. (0, k)), rx_listen = (\<lambda>s k. k),
     rx_shutdown_send = (\<lambda>s k. k), rx_udp = (\<lambda>s k. False), rx_join = (\<lambda>s a k. k),
     rx_set_callbacks = (\<lambda>s k. k), rx_set_recv_callback = (\<lambda>s k. k), rx_clear_recv_callback = (\<lambda>s k. k),
     rx_close = (\<lambda>s k. k), rx_available = (\<lambda>s k. if k s = [] then 0 else 128),
     rx_recv_from = (\<lambda>s n k. case k s of [] \<Rightarrow> (None, k) | x # q \<Rightarrow> (Some x, k(s := q))),
     rx_less = (\<lambda>a b. False), rx_traced = False, rx_traced_header = False\<rparr>"

lemma queues_env_stream: "stream_sockets queues_env (\<lambda>s k. k s)"
  by (auto simp: stream_sockets_def delivers_def queues_env_def PacketSizeByte_eq split: list.splits)

definition brings :: "(nat \<Rightarrow> address) \<Rightarrow> nat \<Rightarrow> u32 list \<Rightarrow> (nat \<Rightarrow> (rx_packet \<times> address) list) sink_event" where
  "brings addr i flows =
     Arrived i (\<lambda>k. k(i := k i @ map (\<lambda>f. (\<lparr>pk_bytes = replicate 128 0, pk_flow = Some f\<rparr>, addr i)) flows))"

lemma brings_arrives:
  assumes "i < length addrs"
  shows "arrives (\<lambda>s k. k s) addrs (brings ((!) addrs) i flows) (i, flows)"
proof -
  have "\<exists>ps. map (\<lambda>f. (\<lparr>pk_bytes = replicate 128 0, pk_flow = Some f\<rparr>, addrs ! i)) flows = map (\<lambda>p. (p, addrs ! i)) ps \<and>
      map pk_flow ps = map Some flows"
    by (rule exI [of _ "map (\<lambda>f. \<lparr>pk_bytes = replicate 128 0, pk_flow = Some f\<rparr>) flows"]) simp
  then show ?thesis using assms unfolding brings_def arrives.simps by simp
qed

definition demo_iface2 :: isp_interface where
  "demo_iface2 = demo_iface\<lparr>interfaceId := 102, outgoingAddress := SocketAddress IPv4 167838209 8080\<rparr>"

definition demo_trace :: "(nat \<times> u32 \<times> bool) list" where
  "demo_trace = [(0, 1, False), (1, 2, False), (0, 3, True), (0, 2, False), (1, 1, False)]"

definition demo_addresses :: "address list" where
  "demo_addresses = map outgoingAddress [demo_iface, demo_iface2]"

definition demo_events :: "(nat \<Rightarrow> (rx_packet \<times> address) list) sink_event list" where
  "demo_events = [Accepted 0, brings ((!) demo_addresses) 1 [2, 1], brings ((!) demo_addresses) 0 [1, 2]]"

lemma demo_reliable: "reliable (\<lambda>s k. k s) demo_addresses demo_trace demo_events"
proof -
  have l: "length demo_addresses = 2" by (simp add: demo_addresses_def)
  have "list_all2 (arrives (\<lambda>s k. k s) demo_addresses) demo_events [(0, []), (1, [2, 1]), (0, [1, 2])]"
    by (simp add: demo_events_def l brings_arrives del: arrives.simps(2))
  moreover have "\<forall>i<2. concat (map snd (filter (\<lambda>c. fst c = i) [(0, []), (1, [2, 1]), (0, [1, 2])])) = sent_on i demo_trace"
    by (auto simp: sent_on_def demo_trace_def less_2_cases_iff)
  ultimately show ?thesis unfolding reliable_def l by blast
qed

theorem sink_notes_what_was_sent_witness:
  "\<exists>r' k'. run_sink queues_env [[2130706433], [0x0a010102], [0x0a010202]] [demo_iface, demo_iface2] demo_events (\<lambda>s. []) =
       Some (Inr (r', k')) \<and>
     map fromApplication (filter (\<lambda>p. fromInterface p = 1) (getReceivedPacketInfo r')) = [2, 1] \<and>
     received_of 3 (getReceivedPacketInfo r') = 0"
proof -
  have u: "unicast [[2130706433], [0x0a010102], [0x0a010202]]"
    by (simp add: unicast_def Ipv4_IsMulticast_def)
  have d: "distinct (map outgoingAddress [demo_iface, demo_iface2])"
    by (simp add: demo_iface2_def demo_iface_def ISPInterface_def)
  have t: "trace_within (length [demo_iface, demo_iface2]) demo_trace"
    by (simp add: trace_within_def demo_trace_def)
  have s: "sent_on 1 demo_trace = [2, 1]" "delivered_from 3 demo_trace = 0"
    by (simp_all add: sent_on_def delivered_from_def demo_trace_def)
  show ?thesis
    using sink_notes_what_was_sent [OF queues_env_stream _ u d t demo_reliable [unfolded demo_addresses_def], of "\<lambda>s. []"] s
    by auto
qed

end
