(* ===== verification/Run_Results.thy ===== *)
theory Run_Results
  imports Receiver_App Sdwan_App
begin

text \<open>
  The second half of \<open>RunSimulation\<close> in \<open>main.cpp\<close>: the received packets are sorted and grouped by
  application, and every group gives an error rate, a bandwidth and its cost to the \<open>RunInfo\<close>.
  \<open>std::ranges::sort\<close> is not stable, so which of its permutations it returns is a parameter.
\<close>

section \<open>The groups\<close>

definition sorts :: "(received_packet_info list \<Rightarrow> received_packet_info list) \<Rightarrow> bool" where
  "sorts srt \<longleftrightarrow> (\<forall>ps. mset (srt ps) = mset ps \<and> sorted (map fromApplication (srt ps)))"

text \<open>\<open>flowGroups[key].push_back(p)\<close>: a missing key gets an empty vector first.\<close>

definition push_group ::
  "received_packet_info \<Rightarrow> (u32 \<times> received_packet_info list) list \<Rightarrow> (u32 \<times> received_packet_info list) list"
where
  "push_group p m =
     insert_or_assign (<) (fromApplication p)
       ((case key_find (<) (fromApplication p) m of None \<Rightarrow> [] | Some g \<Rightarrow> g) @ [p]) m"

definition flow_groups :: "received_packet_info list \<Rightarrow> (u32 \<times> received_packet_info list) list" where
  "flow_groups ps = fold push_group ps []"

section \<open>The results of a group\<close>

definition average :: "(received_packet_info \<Rightarrow> u32) \<Rightarrow> received_packet_info list \<Rightarrow> dbl" where
  "average f ps =
     ddiv (fold (\<lambda>p total. dadd total (dbl_of_nat (unat (f p)))) ps (dbl_of_nat 0)) (dbl_of_nat (length ps))"

definition error_rate :: "nat \<Rightarrow> u32 \<Rightarrow> dbl" where
  "error_rate received generated =
     (let successRate = dmul (ddiv (dbl_of_nat received) (dbl_of_nat (unat generated))) (dbl_of_nat 100)
      in dsub (dbl_of_nat 100) successRate)"

text \<open>\<open>totalCost += (double) cost\<close>: the sum is a double, which has to fit into the 32 bits it is stored in.\<close>

definition add_cost :: "isp_interface list \<Rightarrow> received_packet_info \<Rightarrow> u32 \<Rightarrow> u32 res" where
  "add_cost ifaces p totalCost =
     (case dbl_to_u32 (dadd (dbl_of_nat (unat totalCost)) (dbl_of_nat (unat (rpi_getCost ifaces p)))) of
        None \<Rightarrow> Inl (Undefined ''conversion of a double out of range'')
      | Some c \<Rightarrow> Inr c)"

text \<open>
  A group of packets of an application that is not known is skipped. The average delay, the cost of
  the group and its packets per interface are computed and not used; only the first is kept here.
\<close>

definition group_results ::
  "isp_interface list \<Rightarrow> application list \<Rightarrow> u32 \<times> received_packet_info list \<Rightarrow> u32 \<times> dbl list \<times> dbl list \<Rightarrow>
     (u32 \<times> dbl list \<times> dbl list) res"
where
  "group_results ifaces apps groupOfPackets st =
     (case groupOfPackets of (ident, ps) \<Rightarrow>
      case st of (totalCost, errorRates, bandWidth) \<Rightarrow>
      if length ps < 1 then Inr st
      else
        (case find (\<lambda>a. app_id a = ident) apps of
           None \<Rightarrow> Inr st
         | Some currentApplication \<Rightarrow>
             (let averageDelay = average (rpi_getDelayInMilliSeconds ifaces) ps;
                  averageBandwidth = average (rpi_getDataRateInPacketPerSeconds ifaces) ps;
                  bandWidth = bandWidth @ [averageBandwidth];
                  errorRates = errorRates @ [error_rate (length ps) (app_generated currentApplication)]
              in res_bind (res_fold (add_cost ifaces) ps totalCost) (\<lambda>totalCost.
                   Inr (totalCost, errorRates, bandWidth)))))"

definition run_results ::
  "(received_packet_info list \<Rightarrow> received_packet_info list) \<Rightarrow> isp_interface list \<Rightarrow> application list \<Rightarrow>
     received_packet_info list \<Rightarrow> run_parameters \<Rightarrow> run_info res"
where
  "run_results srt ifaces apps received runParameters =
     (let allPackets = srt received in
      res_bind (res_fold (group_results ifaces apps) (flow_groups allPackets) (0, [], [])) (\<lambda>(totalCost, errorRates, bandWidth).
      Inr (RunInfo (of_nat (length allPackets)) totalCost errorRates bandWidth runParameters)))"

section \<open>Costs\<close>

definition cost_of :: "isp_interface list \<Rightarrow> received_packet_info list \<Rightarrow> nat" where
  "cost_of ifaces ps = sum_list (map (\<lambda>p. unat (rpi_getCost ifaces p)) ps)"

lemma cost_of_Cons [simp]:
  "cost_of ifaces [] = 0"
  "cost_of ifaces (p # ps) = unat (rpi_getCost ifaces p) + cost_of ifaces ps"
  by (simp_all add: cost_of_def)

lemma add_cost_eq:
  "add_cost ifaces p c =
     (if unat c + unat (rpi_getCost ifaces p) < 4294967296 then Inr (c + rpi_getCost ifaces p)
      else Inl (Undefined ''conversion of a double out of range''))"
proof -
  let ?n = "unat c + unat (rpi_getCost ifaces p)"
  have "?n \<le> 2 ^ 53" using unat_u32_lt [of c] unat_u32_lt [of "rpi_getCost ifaces p"] by (simp del: unat_u32_lt)
  then have "dadd (dbl_of_nat (unat c)) (dbl_of_nat (unat (rpi_getCost ifaces p))) = Fin (of_nat ?n)"
    unfolding dbl_of_u32 by (rule dadd_nats)
  moreover have "dbl_to_u32 (Fin (of_nat ?n)) = (if ?n < 4294967296 then Some (of_nat ?n) else None)"
    by (simp add: dbl_to_u32_def rat_trunc_def Let_def flip: of_nat_add)
  ultimately show ?thesis by (simp add: add_cost_def)
qed

lemma add_costs_eq:
  "res_fold (add_cost ifaces) ps c =
     (if unat c + cost_of ifaces ps < 4294967296 then Inr (c + of_nat (cost_of ifaces ps))
      else Inl (Undefined ''conversion of a double out of range''))"
proof (induction ps arbitrary: c)
  case Nil
  then show ?case by simp
next
  case (Cons p ps)
  show ?case
  proof (cases "unat c + unat (rpi_getCost ifaces p) < 4294967296")
    case True
    then have "unat (c + rpi_getCost ifaces p) = unat c + unat (rpi_getCost ifaces p)"
      by (simp add: unat_u32_add)
    moreover have "res_fold (add_cost ifaces) (p # ps) c = res_fold (add_cost ifaces) ps (c + rpi_getCost ifaces p)"
      using True by (simp add: add_cost_eq)
    ultimately show ?thesis unfolding Cons.IH by (simp add: add.assoc)
  next
    case False
    then show ?thesis by (simp add: add_cost_eq)
  qed
qed

section \<open>Averages\<close>

text \<open>A sum of 32-bit numbers is exact in a double as long as there are at most \<open>2^21\<close>: the order does not matter.\<close>

lemma average_exact:
  assumes "length ps \<le> 2 ^ 21"
  shows "average f ps = ddiv (dbl_of_nat (sum_list (map (\<lambda>p. unat (f p)) ps))) (dbl_of_nat (length ps))"
proof -
  let ?ns = "map (\<lambda>p. unat (f p)) ps"
  have "sum_list ?ns \<le> sum_list (map (\<lambda>_. 2 ^ 32) ps)"
  proof (rule sum_list_mono)
    show "unat (f p) \<le> 2 ^ 32" for p using unat_u32_lt [of "f p"] by (simp del: unat_u32_lt)
  qed
  also have "\<dots> \<le> 2 ^ 21 * 2 ^ 32"
    unfolding sum_list_triv using mult_le_mono1 [OF assms, of "2 ^ 32"] by simp
  finally have le: "sum_list ?ns \<le> 2 ^ 53" by (simp flip: power_add)
  have "fold (\<lambda>p total. dadd total (dbl_of_nat (unat (f p)))) ps (dbl_of_nat 0) =
      fold (\<lambda>n s. dadd s (dbl_of_nat n)) ?ns (Fin (of_nat 0))"
    by (simp add: fold_map comp_def dbl_of_nat_small)
  also have "\<dots> = Fin (of_nat (sum_list ?ns))" using dadd_sum_exact [of 0 ?ns] le by simp
  also have "\<dots> = dbl_of_nat (sum_list ?ns)" using le by (simp add: dbl_of_nat_small)
  finally show ?thesis by (simp add: average_def)
qed

lemma sum_list_map_mset: "mset xs = mset ys \<Longrightarrow> sum_list (map f xs) = sum_list (map f ys)" for f :: "'a \<Rightarrow> nat"
  by (metis mset_map sum_mset_sum_list)

section \<open>All groups\<close>

text \<open>The groups by key, whatever the order within the sorted list.\<close>

lemma flow_groups_eq:
  "flow_groups ps = map (\<lambda>k. (k, filter (\<lambda>p. fromApplication p = k) ps)) (sorted_list_of_set (fromApplication ` set ps))"
  using std_map.grouped_entries [of fromApplication ps] unfolding flow_groups_def push_group_def by simp

text \<open>The applications that get an entry, in the order of the entries.\<close>

definition reported :: "application list \<Rightarrow> received_packet_info list \<Rightarrow> u32 list" where
  "reported apps ps =
     filter (\<lambda>k. k \<in> app_id ` set apps) (sorted_list_of_set (fromApplication ` set ps))"

definition of_application :: "u32 \<Rightarrow> received_packet_info list \<Rightarrow> received_packet_info list" where
  "of_application k ps = filter (\<lambda>p. fromApplication p = k) ps"

definition mean :: "(received_packet_info \<Rightarrow> u32) \<Rightarrow> received_packet_info list \<Rightarrow> dbl" where
  "mean f ps = ddiv (dbl_of_nat (sum_list (map (\<lambda>p. unat (f p)) ps))) (dbl_of_nat (length ps))"

definition generated_by :: "application list \<Rightarrow> u32 \<Rightarrow> u32" where
  "generated_by apps k = app_generated (the (find (\<lambda>a. app_id a = k) apps))"

lemma find_known: "find (\<lambda>a. app_id a = k) apps = None \<longleftrightarrow> k \<notin> app_id ` set apps"
  by (auto simp: find_None_iff)

lemma groups_results:
  assumes "\<forall>k\<in>set ks. of_application k ps \<noteq> [] \<and> length (of_application k ps) \<le> 2 ^ 21"
  shows "res_fold (group_results ifaces apps) (map (\<lambda>k. (k, of_application k ps)) ks) (c, es, bs) =
    (let known = filter (\<lambda>k. k \<in> app_id ` set apps) ks;
         total = sum_list (map (\<lambda>k. cost_of ifaces (of_application k ps)) known) in
     if unat c + total < 4294967296 then
       Inr (c + of_nat total,
            es @ map (\<lambda>k. error_rate (length (of_application k ps)) (generated_by apps k)) known,
            bs @ map (\<lambda>k. mean (rpi_getDataRateInPacketPerSeconds ifaces) (of_application k ps)) known)
     else Inl (Undefined ''conversion of a double out of range''))"
  using assms
proof (induction ks arbitrary: c es bs)
  case Nil
  then show ?case by simp
next
  case (Cons k ks)
  let ?g = "of_application k ps"
  have g: "?g \<noteq> []" "length ?g \<le> 2 ^ 21" using Cons.prems by auto
  have IH: "\<forall>k\<in>set ks. of_application k ps \<noteq> [] \<and> length (of_application k ps) \<le> 2 ^ 21"
    using Cons.prems by simp
  show ?case
  proof (cases "find (\<lambda>a. app_id a = k) apps")
    case None
    then show ?thesis using Cons.IH [OF IH] find_known [of k apps] by (simp add: group_results_def)
  next
    case (Some a)
    then have k: "k \<in> app_id ` set apps" "generated_by apps k = app_generated a"
      using find_known [of k apps] by (auto simp: generated_by_def)
    show ?thesis
    proof (cases "unat c + cost_of ifaces ?g < 4294967296")
      case True
      then have "unat (c + of_nat (cost_of ifaces ?g)) = unat c + cost_of ifaces ?g"
        by (simp add: unat_u32_add)
      then show ?thesis
        using True Some k g Cons.IH [OF IH]
        by (simp add: group_results_def add_costs_eq average_exact mean_def Let_def Suc_le_eq add.assoc)
    next
      case False
      then show ?thesis using Some k g by (simp add: group_results_def add_costs_eq Let_def Suc_le_eq)
    qed
  qed
qed

text \<open>Sorting permutes each group, which changes none of the results.\<close>

lemma sorted_group:
  assumes "sorts srt"
  shows "mset (of_application k (srt ps)) = mset (of_application k ps)"
  using assms by (simp add: sorts_def of_application_def)

lemma sorted_group_results:
  assumes "sorts srt"
  shows "length (of_application k (srt ps)) = length (of_application k ps)"
    and "cost_of ifaces (of_application k (srt ps)) = cost_of ifaces (of_application k ps)"
    and "mean f (of_application k (srt ps)) = mean f (of_application k ps)"
    and "of_application k (srt ps) = [] \<longleftrightarrow> of_application k ps = []"
proof -
  note m = sorted_group [OF assms, of k ps]
  show l: "length (of_application k (srt ps)) = length (of_application k ps)"
    using m by (rule mset_eq_length)
  show "cost_of ifaces (of_application k (srt ps)) = cost_of ifaces (of_application k ps)"
    unfolding cost_of_def by (rule sum_list_map_mset [OF m])
  show "mean f (of_application k (srt ps)) = mean f (of_application k ps)"
    unfolding mean_def l sum_list_map_mset [OF m] by (rule refl)
  show "of_application k (srt ps) = [] \<longleftrightarrow> of_application k ps = []"
    using l by auto
qed

lemma run_results_eq:
  assumes "sorts srt" and "length ps \<le> 2 ^ 21"
  shows "run_results srt ifaces apps ps params =
    (let ks = reported apps ps;
         total = sum_list (map (\<lambda>k. cost_of ifaces (of_application k ps)) ks) in
     if total < 4294967296 then
       Inr (RunInfo (of_nat (length ps)) (of_nat total)
              (map (\<lambda>k. error_rate (length (of_application k ps)) (generated_by apps k)) ks)
              (map (\<lambda>k. mean (rpi_getDataRateInPacketPerSeconds ifaces) (of_application k ps)) ks) params)
     else Inl (Undefined ''conversion of a double out of range''))"
proof -
  let ?K = "sorted_list_of_set (fromApplication ` set ps)"
  have m: "mset (srt ps) = mset ps" using assms(1) by (simp add: sorts_def)
  have g: "flow_groups (srt ps) = map (\<lambda>k. (k, of_application k (srt ps))) ?K"
    by (simp add: flow_groups_eq of_application_def mset_eq_setD [OF m])
  have "of_application k ps \<noteq> [] \<and> length (of_application k ps) \<le> 2 ^ 21" if "k \<in> set ?K" for k
  proof
    show "of_application k ps \<noteq> []"
      using that by (auto simp: of_application_def filter_empty_conv)
    show "length (of_application k ps) \<le> 2 ^ 21"
      using assms(2) by (simp add: of_application_def le_trans [OF length_filter_le])
  qed
  then have ok: "\<forall>k\<in>set ?K. of_application k (srt ps) \<noteq> [] \<and> length (of_application k (srt ps)) \<le> 2 ^ 21"
    by (simp add: sorted_group_results [OF assms(1)])
  show ?thesis
    by (simp add: run_results_def g groups_results [OF ok] sorted_group_results [OF assms(1)]
        reported_def [symmetric] mset_eq_length [OF m] Let_def)
qed

text \<open>When every packet is of a known application, the cost is that of all packets.\<close>

lemma cost_of_groups:
  assumes "fromApplication ` set ps \<subseteq> set ks" and "distinct ks"
  shows "sum_list (map (\<lambda>k. cost_of ifaces (of_application k ps)) ks) = cost_of ifaces ps"
  using assms(1)
proof (induction ps)
  case Nil
  then show ?case by (simp add: of_application_def)
next
  case (Cons p ps)
  have "sum_list (map (\<lambda>k. cost_of ifaces (of_application k (p # ps))) ks) =
      sum_list (map (\<lambda>k. (if k = fromApplication p then unat (rpi_getCost ifaces p) else 0) +
        cost_of ifaces (of_application k ps)) ks)"
    by (intro arg_cong [of _ _ sum_list] map_cong) (auto simp: of_application_def)
  also have "\<dots> = sum_list (map (\<lambda>k. if k = fromApplication p then unat (rpi_getCost ifaces p) else 0) ks) +
      cost_of ifaces ps"
    using Cons by (simp add: sum_list_addf)
  also have "sum_list (map (\<lambda>k. if k = fromApplication p then unat (rpi_getCost ifaces p) else 0) ks) =
      unat (rpi_getCost ifaces p)"
    using Cons.prems assms(2) by (simp add: sum_list_distinct_conv_sum_set sum.delta)
  finally show ?case by simp
qed

lemma reported_all:
  assumes "fromApplication ` set ps \<subseteq> app_id ` set apps"
  shows "reported apps ps = sorted_list_of_set (fromApplication ` set ps)"
  using assms by (auto simp: reported_def intro!: filter_True)

lemma reported_cost:
  assumes "fromApplication ` set ps \<subseteq> app_id ` set apps"
  shows "sum_list (map (\<lambda>k. cost_of ifaces (of_application k ps)) (reported apps ps)) = cost_of ifaces ps"
  unfolding reported_all [OF assms] by (rule cost_of_groups) simp_all

section \<open>Properties\<close>

text \<open>
  C27. What a run reports, exactly, for up to \<open>2^21\<close> received packets and whatever order the unstable
  sort gives packets of one application: the number of received packets, and, per known application
  that received something and in the order of the identifiers, the error rate computed from the
  number of its packets received and generated, the quotient of the sum of their data rates and
  their number; the cost is the sum over the packets of known applications when it fits into 32 bits,
  and otherwise the conversion of the sum back to an integer is undefined.
\<close>

theorem run_results_exact:
  assumes "sorts srt" and "length ps \<le> 2 ^ 21"
  shows "run_results srt ifaces apps ps params =
    (let ks = reported apps ps;
         total = sum_list (map (\<lambda>k. cost_of ifaces (of_application k ps)) ks) in
     if total < 4294967296 then
       Inr (RunInfo (of_nat (length ps)) (of_nat total)
              (map (\<lambda>k. error_rate (length (of_application k ps)) (generated_by apps k)) ks)
              (map (\<lambda>k. mean (rpi_getDataRateInPacketPerSeconds ifaces) (of_application k ps)) ks) params)
     else Inl (Undefined ''conversion of a double out of range''))"
  by (rule run_results_eq [OF assms])

text \<open>A stable sort is one of those; two interfaces, three packets of two applications.\<close>

lemma sort_key_sorts: "sorts (sort_key fromApplication)"
  by (simp add: sorts_def)

definition demo_ifaces :: "isp_interface list" where
  "demo_ifaces = [demo_iface, demo_iface\<lparr>cost := 4294967290\<rparr>]"

definition demo_apps :: "application list" where
  "demo_apps = map (\<lambda>i. StaticApp ((SDWanStaticApplication False i 10240 200 20 2)\<lparr>generatedPackets := 2\<rparr>)) [1, 2]"

definition demo_params :: run_parameters where
  "demo_params = RunParameters 1 1 1 1 1 1 50 50 50 ROUND_ROBIN"

theorem run_results_exact_witness:
  "(\<exists>info. run_results (sort_key fromApplication) demo_ifaces demo_apps
       [ReceivedPacketInfo 0 2, ReceivedPacketInfo 0 1, ReceivedPacketInfo 0 2] demo_params = Inr info \<and>
     totalAmountOfPackets info = 3 \<and> ri_totalCost info = 30 \<and> length (applicationErrorRates info) = 2) \<and>
   run_results (sort_key fromApplication) demo_ifaces demo_apps [ReceivedPacketInfo 0 1, ReceivedPacketInfo 1 1] demo_params =
     Inl (Undefined ''conversion of a double out of range'')"
proof -
  have 1: "reported demo_apps [ReceivedPacketInfo 0 2, ReceivedPacketInfo 0 1, ReceivedPacketInfo 0 2] = [1, 2]"
    "reported demo_apps [ReceivedPacketInfo 0 1, ReceivedPacketInfo 1 1] = [1]"
    by (simp_all add: reported_def demo_apps_def ReceivedPacketInfo_def insert_Diff_if word_le_nat_alt SDWanStaticApplication_def
        SDWanApplication_def sdwan_application.defs sdwan_static.defs)
  have 2: "rpi_getCost demo_ifaces (ReceivedPacketInfo 0 k) = 10" "rpi_getCost demo_ifaces (ReceivedPacketInfo 1 k) = 4294967290" for k
    by (simp_all add: rpi_getCost_def demo_ifaces_def ReceivedPacketInfo_def demo_iface_def ISPInterface_def)
  have 3: "fromApplication (ReceivedPacketInfo i k) = k" for i k by (simp add: ReceivedPacketInfo_def)
  show ?thesis
    by (simp add: run_results_exact [OF sort_key_sorts] 1 2 3 1 [unfolded One_nat_def] 2 [unfolded One_nat_def] of_application_def RunInfo_def)
qed

end
