(* ===== verification/Main_Run.thy ===== *)
theory Main_Run
  imports Main_Feasible Sink_Delivery Run_Results
begin

text \<open>
  \<open>RunSimulation\<close> of \<open>main.cpp\<close> as a whole: the network, the applications, the run of the sender, the
  sink, and what is reported; and the report of a run over a reliable network.
\<close>

section \<open>Calls that may not return\<close>

text \<open>\<open>None\<close> is a call that does not return.\<close>

type_synonym 'a outcome = "'a res option"

fun out_bind :: "'a outcome \<Rightarrow> ('a \<Rightarrow> 'b outcome) \<Rightarrow> 'b outcome" where
  "out_bind None f = None"
| "out_bind (Some (Inl e)) f = Some (Inl e)"
| "out_bind (Some (Inr x)) f = f x"

fun out_fold :: "('a \<Rightarrow> 's \<Rightarrow> 's outcome) \<Rightarrow> 'a list \<Rightarrow> 's \<Rightarrow> 's outcome" where
  "out_fold f [] s = Some (Inr s)"
| "out_fold f (x # xs) s = out_bind (f x s) (out_fold f xs)"

lemma out_bind_assoc: "out_bind (out_bind r f) g = out_bind r (\<lambda>x. out_bind (f x) g)"
  by (cases "(r, f)" rule: out_bind.cases) auto

lemma out_bind_Inr [simp]: "out_bind r (\<lambda>x. Some (Inr x)) = r"
  by (cases "(r, \<lambda>x :: 'a. Some (Inr x) :: 'a outcome)" rule: out_bind.cases) auto

lemma out_fold_append: "out_fold f (xs @ ys) s = out_bind (out_fold f xs s) (out_fold f ys)"
proof (induction xs arbitrary: s)
  case Nil
  then show ?case by simp
next
  case (Cons x xs)
  then have "out_fold f (xs @ ys) = (\<lambda>s. out_bind (out_fold f xs s) (out_fold f ys))" by (intro ext)
  then show ?case by (simp add: out_bind_assoc)
qed

lemma out_fold_concat: "out_fold f (concat xss) s = out_fold (out_fold f) xss s"
proof (induction xss arbitrary: s)
  case Nil
  then show ?case by simp
next
  case (Cons xs xss)
  then have "out_fold f (concat xss) = out_fold (out_fold f) xss" by (intro ext)
  then show ?case by (simp add: out_fold_append)
qed

lemma out_fold_map: "out_fold f (map g xs) s = out_fold (\<lambda>x. f (g x)) xs s"
proof (induction xs arbitrary: s)
  case Nil
  then show ?case by simp
next
  case (Cons x xs)
  then have "out_fold f (map g xs) = out_fold (\<lambda>x. f (g x)) xs" by (intro ext)
  then show ?case by simp
qed

lemma out_fold_total:
  assumes "\<And>x s. x \<in> set xs \<Longrightarrow> P s \<Longrightarrow> \<exists>t. f x s = Some (Inr t) \<and> P t" and "P s"
  shows "\<exists>t. out_fold f xs s = Some (Inr t) \<and> P t"
  using assms
proof (induction xs arbitrary: s)
  case Nil
  then show ?case by simp
next
  case (Cons x xs)
  then obtain s' where "f x s = Some (Inr s')" "P s'" by force
  then show ?case using Cons by auto
qed

section \<open>The surroundings of a run\<close>

text \<open>
  What a run of the simulation starts with: the random variables, the sockets of the two nodes, and
  what uninitialised memory holds. It comes from the state \<open>'p\<close> of the process, which every run changes.
  \<open>rn_network\<close> stands for TCP: what happens at the sink when the sender sends the packets of a trace.
\<close>

record ('r, 'k, 'n) boot =
  b_random :: 'r
  b_sockets :: 'k
  b_listening :: 'n
  b_shifts :: "u32 \<times> u32 \<times> u32"
  b_static :: bool
  b_generator :: "network_state list"

record ('g, 'r, 'k, 'n, 'h, 'p) run_env =
  rn_sin :: "dbl \<Rightarrow> dbl"
  rn_rand :: "'h rand_fun"
  rn_sender :: "('g, 'r, 'k) sender_env"
  rn_receiver :: "'n rx_env"
  rn_network :: "'p \<Rightarrow> (nat \<times> u32 \<times> bool) list \<Rightarrow> 'n sink_event list"
  rn_sort :: "received_packet_info list \<Rightarrow> received_packet_info list"
  rn_boot :: "'p \<Rightarrow> ('r, 'k, 'n) boot"
  rn_shut :: "'p \<Rightarrow> 'r \<Rightarrow> 'k \<Rightarrow> 'n \<Rightarrow> 'p"

type_synonym ('h, 'p) process = "'h \<times> 'p"

section \<open>\<open>RunSimulation\<close>\<close>

text \<open>
  The vector \<open>applications\<close> holds the objects the sender works with. The sink reads of the sender's
  interfaces only the addresses, which do not change once the sockets are open.
\<close>

definition sender_applications :: "'g sender \<Rightarrow> application list" where
  "sender_applications s = (case strategy_ptr s of None \<Rightarrow> sn_application s | Some so \<Rightarrow> so_applications so)"

definition RunSimulation ::
  "('g, 'r, 'k, 'n, 'h, 'p) run_env \<Rightarrow> run_parameters \<Rightarrow> ('h, 'p) process \<Rightarrow> (run_info \<times> ('h, 'p) process) outcome"
where
  "RunSimulation env runParameters proc =
     (case proc of (h, p) \<Rightarrow>
      let b = rn_boot env p in
      out_bind (Some (make_topology (Ipv4AddressGeneratorImpl (b_generator b)))) (\<lambda>(t, generator).
      out_bind (Some (make_applications (rn_sin env) (rn_rand env) (b_shifts b) (b_static b) runParameters h)) (\<lambda>(apps, h).
      out_bind (run_sender (rn_sender env) t
                  (sender_world t apps (rp_strategyType runParameters) (b_random b) (b_sockets b))) (\<lambda>(w, \<sigma>).
      let ifaces = getInterfaces (w_sender w) in
      out_bind (run_sink (rn_receiver env) (sink t) ifaces (rn_network env p (w_trace w)) (b_listening b)) (\<lambda>(sink1, n).
      out_bind (Some (run_results (rn_sort env) ifaces (sender_applications (w_sender w))
                        (getReceivedPacketInfo sink1) runParameters)) (\<lambda>info.
      Some (Inr (info, h, rn_shut env p (w_random w) (w_sockets w) n))))))))"

section \<open>What a run reports\<close>

text \<open>The report on a trace of the sender, if everything that left uncorrupted arrives.\<close>

definition main_rates :: "nat list" where "main_rates = [10, 20, 30]"

definition sent_count :: "(nat \<Rightarrow> nat) \<Rightarrow> (nat \<times> u32 \<times> bool) list \<Rightarrow> nat" where
  "sent_count g tr = (\<Sum>i<3. g i * length (sent_on i tr))"

definition sent_count_of :: "u32 \<Rightarrow> (nat \<Rightarrow> nat) \<Rightarrow> (nat \<times> u32 \<times> bool) list \<Rightarrow> nat" where
  "sent_count_of k g tr = (\<Sum>i<3. g i * count_list (sent_on i tr) k)"

definition report :: "(nat \<times> u32 \<times> bool) list \<Rightarrow> run_parameters \<Rightarrow> run_info" where
  "report tr params =
     (let ks = filter (\<lambda>k. 0 < delivered_from k tr) [1, 2, 3] in
      RunInfo (of_nat (sent_count (\<lambda>i. 1) tr)) (of_nat (sent_count (\<lambda>i. unat (main_costs ! i)) tr))
        (map (\<lambda>k. error_rate (delivered_from k tr) (of_nat (traced_from k tr))) ks)
        (map (\<lambda>k. ddiv (dbl_of_nat (sent_count_of k ((!) main_rates) tr)) (dbl_of_nat (delivered_from k tr))) ks)
        params)"

lemma sum_by_interface:
  assumes "\<forall>p\<in>set ps. fromInterface p < n"
  shows "sum_list (map (\<lambda>p. g (fromInterface p)) ps) = (\<Sum>i<n. g i * length (filter (\<lambda>p. fromInterface p = i) ps))"
  using assms
proof (induction ps)
  case Nil
  then show ?case by simp
next
  case (Cons p ps)
  have "(\<Sum>i<n. g i * length (filter (\<lambda>p. fromInterface p = i) (p # ps))) =
      (\<Sum>i<n. (if i = fromInterface p then g i else 0) + g i * length (filter (\<lambda>p. fromInterface p = i) ps))"
    by (intro sum.cong) auto
  also have "\<dots> = g (fromInterface p) + sum_list (map (\<lambda>p. g (fromInterface p)) ps)"
    using Cons by (simp add: sum.distrib)
  finally show ?case by simp
qed

lemma group_on_interface:
  "length (filter (\<lambda>p. fromInterface p = i) (of_application k ps)) =
     count_list (map fromApplication (filter (\<lambda>p. fromInterface p = i) ps)) k"
  by (induction ps) (auto simp: of_application_def)

text \<open>What the sink has noted of a trace.\<close>

definition noted :: "(nat \<times> u32 \<times> bool) list \<Rightarrow> received_packet_info list \<Rightarrow> bool" where
  "noted tr ps \<longleftrightarrow> trace_within 3 tr \<and> (\<forall>p\<in>set ps. fromInterface p < 3) \<and>
     (\<forall>i<3. map fromApplication (filter (\<lambda>p. fromInterface p = i) ps) = sent_on i tr)"

lemma noted_sum:
  assumes "noted tr ps"
  shows "sum_list (map (\<lambda>p. g (fromInterface p)) ps) = sent_count g tr"
proof -
  have "length (filter (\<lambda>p. fromInterface p = i) ps) = length (sent_on i tr)" if "i < 3" for i
    using assms that unfolding noted_def by (metis length_map)
  then show ?thesis
    using assms sum_by_interface [of ps 3 g] by (simp add: noted_def sent_count_def)
qed

lemma noted_sum_of:
  assumes "noted tr ps"
  shows "sum_list (map (\<lambda>p. g (fromInterface p)) (of_application k ps)) = sent_count_of k g tr"
proof -
  have "\<forall>p\<in>set (of_application k ps). fromInterface p < 3"
    using assms by (simp add: noted_def of_application_def)
  then show ?thesis
    using assms sum_by_interface [of "of_application k ps" 3 g]
    by (simp add: noted_def sent_count_of_def group_on_interface)
qed

lemma noted_length: "noted tr ps \<Longrightarrow> length ps = sent_count (\<lambda>i. 1) tr"
  using noted_sum [of tr ps "\<lambda>i. 1"] by (simp add: sum_list_triv)

lemma noted_of:
  assumes "noted tr ps"
  shows "length (of_application k ps) = delivered_from k tr"
  using received_delivered [of 3 tr ps k] assms by (simp add: noted_def received_of_def of_application_def)

lemma sent_count_bound:
  assumes "trace_within 3 tr" and "\<forall>i<3. g i \<le> c"
  shows "sent_count g tr \<le> c * length tr"
proof -
  have "sent_count g tr \<le> (\<Sum>i<3. c * length (sent_on i tr))"
    unfolding sent_count_def using assms(2) by (intro sum_mono mult_le_mono1) simp
  also have "\<dots> = c * (\<Sum>i<3. length (sent_on i tr))" by (simp add: sum_distrib_left)
  also have "(\<Sum>i<3. length (sent_on i tr)) \<le> length tr"
    using assms(1)
  proof (induction tr)
    case (Cons x tr)
    obtain j f c where x: "x = (j, f, c)" by (cases x)
    have "(\<Sum>i<3. length (sent_on i (x # tr))) =
        (\<Sum>i<3. (if i = j then of_bool (\<not> c) else 0) + length (sent_on i tr))"
      by (intro sum.cong) (auto simp: sent_on_def x)
    also have "\<dots> = of_bool (\<not> c) + (\<Sum>i<3. length (sent_on i tr))"
      using Cons.prems by (simp add: sum.distrib x trace_within_def)
    finally show ?case using Cons by (simp add: x trace_within_def)
  qed (simp add: sent_on_def)
  finally show ?thesis by simp
qed

lemma delivered_le_traced: "delivered_from k tr \<le> traced_from k tr"
  unfolding delivered_from_def traced_from_def by (induction tr) (auto split: prod.splits)

lemma reported_noted:
  assumes n: "noted tr ps" and t: "\<forall>k. k \<notin> {1, 2, 3} \<longrightarrow> traced_from k tr = 0"
    and ids: "app_id ` set apps = {1, 2, 3}"
  shows "fromApplication ` set ps \<subseteq> app_id ` set apps"
    and "reported apps ps = filter (\<lambda>k. 0 < delivered_from k tr) [1, 2, 3]"
proof -
  let ?S = "fromApplication ` set ps" and ?L = "filter (\<lambda>k. 0 < delivered_from k tr) [1, 2, 3 :: u32]"
  have S: "k \<in> ?S \<longleftrightarrow> 0 < delivered_from k tr" for k
    unfolding noted_of [OF n, of k, symmetric] of_application_def
    by (auto simp: filter_empty_conv)
  show sub: "?S \<subseteq> app_id ` set apps"
  proof
    fix k assume "k \<in> ?S"
    then have "0 < traced_from k tr" using S [of k] delivered_le_traced [of k tr] by simp
    then show "k \<in> app_id ` set apps" unfolding ids using t by (metis less_irrefl)
  qed
  have "set ?L = {k \<in> {1, 2, 3}. 0 < delivered_from k tr}" by (simp only: set_filter list.set)
  also have "\<dots> = ?S" using S sub unfolding ids by blast
  finally have "set ?L = ?S" .
  moreover have "sorted ?L" "distinct ?L"
    by (intro sorted_filter [where f = id, simplified] distinct_filter; simp add: word_le_nat_alt)+
  ultimately have "sorted_list_of_set ?S = ?L" by (metis sorted_list_of_set.idem_if_sorted_distinct)
  then show "reported apps ps = ?L" by (simp add: reported_all [OF sub])
qed

section \<open>A run over a reliable network\<close>

text \<open>What is relied on of the network: streams that deliver what the sender's interfaces send.\<close>

definition reliable_network :: "('g, 'r, 'k, 'n, 'h, 'p) run_env \<Rightarrow> bool" where
  "reliable_network env \<longleftrightarrow>
     (\<exists>queue. stream_sockets (rn_receiver env) queue \<and> (\<forall>p s. queue s (b_listening (rn_boot env p)) = []) \<and>
        (\<forall>p tr. trace_within 3 tr \<longrightarrow> reliable queue main_addresses tr (rn_network env p tr)))"

definition dependable :: "('g, 'r, 'k, 'n, 'h, 'p) run_env \<Rightarrow> StrategyTypes \<Rightarrow> bool" where
  "dependable env strategy \<longleftrightarrow>
     opening_sockets (rn_sender env) \<and> ready_sockets (rn_sender env) \<and> supported (rn_sender env) strategy \<and>
     sin_bounded (rn_sin env) \<and> sorts (rn_sort env) \<and> reliable_network env"

lemma generated_unknown: "k \<notin> app_id ` set apps \<Longrightarrow> generated_from k apps = 0"
  by (induction apps) auto

lemma generated_known:
  assumes "distinct (map app_id apps)" and "a \<in> set apps"
  shows "generated_from (app_id a) apps = app_generated a" and "generated_by apps (app_id a) = app_generated a"
proof -
  show "generated_from (app_id a) apps = app_generated a"
    using assms by (induction apps) (auto simp: generated_unknown image_iff)
  show "generated_by apps (app_id a) = app_generated a"
    using assms by (induction apps) (auto simp: generated_by_def image_iff)
qed

text \<open>The applications of a run, compared with the trace of the sender.\<close>

lemma traced_applications:
  assumes ids: "map app_id apps = [1, 2, 3]" and g: "\<forall>a\<in>set apps. app_generated a = of_nat (app_total a)"
    and le: "\<forall>a\<in>set apps. app_total a \<le> 18015" and tr: "length tr \<le> 54045"
    and f: "\<forall>i. generated_from i apps = of_nat (traced_from i tr)"
  shows "\<forall>k. k \<notin> {1, 2, 3} \<longrightarrow> traced_from k tr = 0"
    and "\<forall>a\<in>set apps. traced_from (app_id a) tr = app_total a \<and> generated_by apps (app_id a) = of_nat (traced_from (app_id a) tr)"
proof -
  have small: "traced_from k tr < 4294967296" for k
    using tr unfolding traced_from_def by (intro le_less_trans [OF length_filter_le]) simp
  have d: "distinct (map app_id apps)" "app_id ` set apps = {1, 2, 3}"
    unfolding set_map [symmetric] ids by simp_all
  show "\<forall>k. k \<notin> {1, 2, 3} \<longrightarrow> traced_from k tr = 0"
  proof (intro allI impI)
    fix k :: u32 assume "k \<notin> {1, 2, 3}"
    then have "(of_nat (traced_from k tr) :: u32) = 0"
      using f generated_unknown [of k apps] d(2) by metis
    then show "traced_from k tr = 0" using small unat_u32_of_nat_small by (metis unat_0)
  qed
  show "\<forall>a\<in>set apps. traced_from (app_id a) tr = app_total a \<and> generated_by apps (app_id a) = of_nat (traced_from (app_id a) tr)"
  proof
    fix a assume a: "a \<in> set apps"
    then have "(of_nat (app_total a) :: u32) = of_nat (traced_from (app_id a) tr)"
      using generated_known(1) [OF d(1) a] f g by metis
    moreover have "app_total a < 4294967296" using le a by (auto intro: le_less_trans)
    ultimately show "traced_from (app_id a) tr = app_total a \<and> generated_by apps (app_id a) = of_nat (traced_from (app_id a) tr)"
      using small [of "app_id a"] generated_known(2) [OF d(1) a] g a unat_u32_of_nat_small by metis
  qed
qed

text \<open>The rates and the costs the sink reads off the interfaces.\<close>

lemma channel_rate:
  assumes "netDevice x = make_channel pps ms" and "pps \<in> {10, 20, 30}"
  shows "ucast (getDataBitRate x div ucast PacketSizeBit) = pps"
proof -
  have "getDataBitRate x = ConvertPacketsPerSecondToBitPerSecond pps"
    using assms(1) by (simp add: getDataBitRate_def if_getDataRate_def make_channel_def)
  then show ?thesis
    using assms(2) by (auto simp: ConvertPacketsPerSecondToBitPerSecond_def
        ConvertPacketsPerSecondToBitPerSecondToDataRate_def PacketSizeBit_def)
qed

lemma main_interface_values:
  assumes "map if_fixed ifaces = main_interfaces" and "fromInterface p < 3"
  shows "unat (rpi_getCost ifaces p) = unat (main_costs ! fromInterface p)"
    and "unat (rpi_getDataRateInPacketPerSeconds ifaces p) = main_rates ! fromInterface p"
proof -
  have len: "length ifaces = 3"
    using arg_cong [OF assms(1), of length] by (simp add: main_interfaces_def main_addresses_def main_channels_def main_costs_def)
  have "map cost ifaces = main_costs" using map_if_fixedD(3) [OF assms(1)] by simp
  then have "cost (ifaces ! fromInterface p) = main_costs ! fromInterface p"
    using assms(2) len by (metis nth_map)
  then show "unat (rpi_getCost ifaces p) = unat (main_costs ! fromInterface p)"
    by (simp add: rpi_getCost_def)
  have "map netDevice ifaces = main_channels" using map_if_fixedD(2) [OF assms(1)] by simp
  then have dev: "netDevice (ifaces ! fromInterface p) = main_channels ! fromInterface p"
    using assms(2) len by (metis nth_map)
  consider "fromInterface p = 0" | "fromInterface p = 1" | "fromInterface p = 2" using assms(2) by linarith
  then show "unat (rpi_getDataRateInPacketPerSeconds ifaces p) = main_rates ! fromInterface p"
    unfolding rpi_getDataRateInPacketPerSeconds_def
    by cases (use dev channel_rate [of _ 10 150] channel_rate [of _ 20 100] channel_rate [of _ 30 30]
        in \<open>simp_all add: main_channels_def main_rates_def\<close>)
qed

lemma results_report:
  assumes n: "noted tr ps" and t: "\<forall>k. k \<notin> {1, 2, 3} \<longrightarrow> traced_from k tr = 0"
    and ids: "app_id ` set apps = {1, 2, 3}" and g: "\<forall>k\<in>{1, 2, 3}. generated_by apps k = of_nat (traced_from k tr)"
    and ifaces: "map if_fixed ifaces = main_interfaces" and srt: "sorts srt" and tr: "length tr \<le> 54045"
  shows "run_results srt ifaces apps ps params = Inr (report tr params)"
proof -
  let ?ks = "filter (\<lambda>k. 0 < delivered_from k tr) [1, 2, 3]"
  note rep = reported_noted [OF n t ids]
  have w: "trace_within 3 tr" and i3: "\<forall>p\<in>set ps. fromInterface p < 3" using n by (simp_all add: noted_def)
  have l: "length ps = sent_count (\<lambda>i. 1) tr" by (rule noted_length [OF n])
  also have "\<dots> \<le> 54045" using sent_count_bound [OF w, of "\<lambda>i. 1" 1] tr by simp
  finally have len: "length ps \<le> 2 ^ 21" by simp
  have "cost_of ifaces ps = sum_list (map (\<lambda>p. unat (main_costs ! fromInterface p)) ps)"
    unfolding cost_of_def using i3
    by (intro arg_cong [of _ _ sum_list] map_cong refl main_interface_values(1) [OF ifaces]) simp
  also have "\<dots> = sent_count (\<lambda>i. unat (main_costs ! i)) tr" by (rule noted_sum [OF n])
  finally have c: "cost_of ifaces ps = sent_count (\<lambda>i. unat (main_costs ! i)) tr" .
  have "\<forall>i<3. unat (main_costs ! i) \<le> 100"
    by (auto simp: main_costs_def less_Suc_eq numeral_3_eq_3)
  then have "sent_count (\<lambda>i. unat (main_costs ! i)) tr \<le> 100 * length tr" by (rule sent_count_bound [OF w])
  then have c': "cost_of ifaces ps < 4294967296" using tr c by simp
  have m: "mean (rpi_getDataRateInPacketPerSeconds ifaces) (of_application k ps) =
      ddiv (dbl_of_nat (sent_count_of k ((!) main_rates) tr)) (dbl_of_nat (delivered_from k tr))" for k
  proof -
    have "sum_list (map (\<lambda>p. unat (rpi_getDataRateInPacketPerSeconds ifaces p)) (of_application k ps)) =
        sum_list (map (\<lambda>p. main_rates ! fromInterface p) (of_application k ps))"
      using i3 by (intro arg_cong [of _ _ sum_list] map_cong refl main_interface_values(2) [OF ifaces])
        (simp add: of_application_def)
    also have "\<dots> = sent_count_of k ((!) main_rates) tr" by (rule noted_sum_of [OF n])
    finally show ?thesis by (simp add: mean_def noted_of [OF n])
  qed
  have e: "map (\<lambda>k. error_rate (length (of_application k ps)) (generated_by apps k)) ?ks =
      map (\<lambda>k. error_rate (delivered_from k tr) (of_nat (traced_from k tr))) ?ks"
    using g by (intro map_cong refl) (auto simp: noted_of [OF n] split: if_splits)
  show ?thesis
    unfolding run_results_eq [OF srt len] reported_cost [OF rep(1)] Let_def
    unfolding rep(2) e using c' by (simp add: c l m report_def Let_def)
qed

text \<open>What the sink and the report make of a run of the sender that has ended.\<close>

definition main_sink :: "nat list list" where
  "main_sink = [[2130706433], [0x0a010102], [0x0a010202], [0x0a010302]]"

lemma reported_run:
  fixes env :: "('g, 'r, 'k, 'n, 'h, 'p) run_env"
  assumes srt: "sorts (rn_sort env)" and net: "reliable_network env" and apps: "main_apps strategy apps"
    and so: "strategy_ptr (w_sender w') = Some so" "map if_fixed (so_interfaces so) = main_interfaces"
      "map app_fixed (so_applications so) = map app_fixed apps" "length (w_trace w') = app_totals apps"
      "trace_within 3 (w_trace w')" "\<forall>a\<in>set (so_applications so). app_generated a = of_nat (app_total a)"
      "\<forall>i. generated_from i (so_applications so) = of_nat (traced_from i (w_trace w'))"
  shows "length (w_trace w') \<le> 54045 \<and> (\<forall>k. k \<notin> {1, 2, 3} \<longrightarrow> traced_from k (w_trace w') = 0) \<and>
    map (\<lambda>k. traced_from k (w_trace w')) [1, 2, 3] = map app_total apps \<and>
    (\<exists>r' k'. run_sink (rn_receiver env) main_sink (so_interfaces so) (rn_network env p (w_trace w')) (b_listening (rn_boot env p)) =
        Some (Inr (r', k')) \<and>
      run_results (rn_sort env) (so_interfaces so) (so_applications so) (receivedPacketInfo r') params =
        Inr (report (w_trace w') params))"
proof -
  let ?tr = "w_trace w'" and ?so = "so_applications so" and ?ifaces = "so_interfaces so"
  have ids0: "map app_id apps = [1, 2, 3]" and le0: "\<forall>a\<in>set apps. app_total a \<le> 18015"
    using apps by (simp_all add: main_apps_def)
  have fix1: "map app_id ?so = map app_id apps" "map app_total ?so = map app_total apps"
    using arg_cong [OF so(3), of "map fst"] arg_cong [OF so(3), of "map snd"] by (simp_all add: app_fixed_def comp_def)
  have le: "\<forall>a\<in>set ?so. app_total a \<le> 18015"
    using le0 arg_cong [OF fix1(2), of set] by (auto simp: set_map image_iff set_eq_iff) metis
  have "app_totals apps \<le> sum_list (map (\<lambda>_. 18015) apps)"
    unfolding app_totals_def using le0 by (intro sum_list_mono) auto
  then have len: "length ?tr \<le> 54045" using so(4) main_apps_length [OF apps] by (simp add: sum_list_triv)
  note ids = fix1(1) [unfolded ids0]
  note ta = traced_applications [OF ids so(6) le len so(7)]
  obtain a1 a2 a3 where so3: "?so = [a1, a2, a3]" "app_id a1 = 1" "app_id a2 = 2" "app_id a3 = 3"
    using ids by (auto simp: map_eq_Cons_conv)
  have totals: "map (\<lambda>k. traced_from k ?tr) [1, 2, 3] = map app_total apps"
    using ta(2) so3 by (simp flip: fix1(2))
  have gen: "\<forall>k\<in>{1, 2, 3}. generated_by ?so k = of_nat (traced_from k ?tr)"
    using ta(2) so3 by auto
  have ids': "app_id ` set ?so = {1, 2, 3}" unfolding set_map [symmetric] ids by simp
  obtain queue where q: "stream_sockets (rn_receiver env) queue" "\<forall>s. queue s (b_listening (rn_boot env p)) = []"
      "reliable queue main_addresses ?tr (rn_network env p ?tr)"
    using net so(5) by (auto simp: reliable_network_def)
  have addr: "map outgoingAddress ?ifaces = main_addresses" using map_if_fixedD(1) [OF so(2)] by simp
  have i3: "length ?ifaces = 3" using arg_cong [OF addr, of length] by (simp add: main_addresses_def)
  have "distinct (map outgoingAddress ?ifaces)" unfolding addr by (simp add: main_addresses_def)
  moreover have "unicast main_sink" by (simp add: main_sink_def unicast_def Ipv4_IsMulticast_def)
  ultimately obtain r' k' where s: "run_sink (rn_receiver env) main_sink ?ifaces (rn_network env p ?tr) (b_listening (rn_boot env p)) = Some (Inr (r', k'))"
      "\<forall>p\<in>set (receivedPacketInfo r'). fromInterface p < length ?ifaces"
      "\<forall>i<length ?ifaces. map fromApplication (filter (\<lambda>p. fromInterface p = i) (receivedPacketInfo r')) = sent_on i ?tr"
    using reliable_received [OF q(1) _ q(3) [folded addr] q(2)] by blast
  have "noted ?tr (receivedPacketInfo r')" using so(5) s(2,3) i3 by (simp add: noted_def)
  then have "run_results (rn_sort env) ?ifaces ?so (receivedPacketInfo r') params = Inr (report ?tr params)"
    by (rule results_report [OF _ ta(1) ids' gen so(2) srt len])
  then show ?thesis using s(1) len ta(1) totals by blast
qed

lemma RunSimulation_reports:
  fixes env :: "('g, 'r, 'k, 'n, 'h, 'p) run_env"
  assumes env: "dependable env (rp_strategyType params)" and params: "small_parameters params"
  shows "\<exists>apps h'. make_applications (rn_sin env) (rn_rand env) (b_shifts (rn_boot env (snd proc)))
      (b_static (rn_boot env (snd proc))) params (fst proc) = Inr (apps, h') \<and>
    (if rp_strategyType params = REACTIVE \<and> \<not> starts_feasible apps
     then RunSimulation env params proc = Some (Inl (ThrownPointer ''Nessuna soluzione trovata''))
     else \<exists>tr proc'. RunSimulation env params proc = Some (Inr (report tr params, proc')) \<and>
       trace_within 3 tr \<and> length tr \<le> 54045 \<and> (\<forall>k. k \<notin> {1, 2, 3} \<longrightarrow> traced_from k tr = 0) \<and>
       map (\<lambda>k. traced_from k tr) [1, 2, 3] = map app_total apps)"
proof -
  obtain h p where proc: "proc = (h, p)" by (cases proc)
  let ?b = "rn_boot env p" and ?strategy = "rp_strategyType params"
  define t where "t = \<lparr>cpe = main_cpe, sink = main_sink, destinations = main_destinations\<rparr>"
  obtain g0 where t: "make_topology (Ipv4AddressGeneratorImpl (b_generator ?b)) = Inr (t, g0)"
      "cpe t = main_cpe" "sink t = main_sink" "destinations t = main_destinations"
    using make_topology_eq [of "b_generator ?b"] unfolding t_def main_sink_def by auto
  have d: "opening_sockets (rn_sender env)" "ready_sockets (rn_sender env)" "supported (rn_sender env) ?strategy"
      "sin_bounded (rn_sin env)" "sorts (rn_sort env)" "reliable_network env"
    using env by (simp_all add: dependable_def)
  obtain apps h' where apps: "make_applications (rn_sin env) (rn_rand env) (b_shifts ?b) (b_static ?b) params h = Inr (apps, h')"
      "main_apps ?strategy apps"
    using make_applications_ok [OF d(4) params, of "rn_rand env" "b_shifts ?b" "b_static ?b" h] by blast
  show ?thesis
  proof (cases "?strategy = REACTIVE \<and> \<not> starts_feasible apps")
    case True
    then have "run_sender (rn_sender env) t (sender_world t apps ?strategy (b_random ?b) (b_sockets ?b)) =
        Some (Inl (ThrownPointer ''Nessuna soluzione trovata''))"
      using run_sender_throws [OF d(1) _ t(2,4)] d(3) apps(2) by simp
    then show ?thesis using t(1) apps(1) True by (simp add: RunSimulation_def proc Let_def)
  next
    case False
    then obtain w' \<sigma>' so where r: "run_sender (rn_sender env) t (sender_world t apps ?strategy (b_random ?b) (b_sockets ?b)) = Some (Inr (w', \<sigma>'))"
        "strategy_ptr (w_sender w') = Some so" "map if_fixed (so_interfaces so) = main_interfaces"
        "map app_fixed (so_applications so) = map app_fixed apps" "length (w_trace w') = app_totals apps"
        "trace_within 3 (w_trace w')" "\<forall>a\<in>set (so_applications so). app_generated a = of_nat (app_total a)"
        "\<forall>i. generated_from i (so_applications so) = of_nat (traced_from i (w_trace w'))"
      using run_sender_complete [OF d(1-3) t(2,4) apps(2), of "b_random ?b" "b_sockets ?b"] by blast
    from reported_run [OF d(5,6) apps(2) r(2-8), of p params] obtain r' k' where
      s: "length (w_trace w') \<le> 54045" "\<forall>k. k \<notin> {1, 2, 3} \<longrightarrow> traced_from k (w_trace w') = 0"
        "map (\<lambda>k. traced_from k (w_trace w')) [1, 2, 3] = map app_total apps"
        "run_sink (rn_receiver env) main_sink (so_interfaces so) (rn_network env p (w_trace w')) (b_listening ?b) = Some (Inr (r', k'))"
        "run_results (rn_sort env) (so_interfaces so) (so_applications so) (receivedPacketInfo r') params = Inr (report (w_trace w') params)"
      by (elim exE conjE) (rule that, assumption+)
    have "RunSimulation env params proc =
        Some (Inr (report (w_trace w') params, h', rn_shut env p (w_random w') (w_sockets w') k'))"
      using t(1,3) apps(1) r(1,2) s(4,5)
      by (simp add: RunSimulation_def proc Let_def getInterfaces_def sender_applications_def getReceivedPacketInfo_def)
    then show ?thesis using r(6) s(1-3) apps(1) proc False by (intro exI [of _ apps] exI [of _ h']) auto
  qed
qed

section \<open>Properties\<close>


text \<open>An environment of this kind: the network brings, interface by interface, all that was sent.\<close>

definition demo_run_env :: "(nat, unit, nat, nat \<Rightarrow> (rx_packet \<times> address) list, unit, unit) run_env" where
  "demo_run_env = \<lparr>rn_sin = (\<lambda>z. Fin 1), rn_rand = (\<lambda>h. (0, h)), rn_sender = demo_env, rn_receiver = queues_env,
     rn_network = (\<lambda>p tr. map (\<lambda>i. brings ((!) main_addresses) i (sent_on i tr)) [0, 1, 2]),
     rn_sort = sort_key fromApplication,
     rn_boot = (\<lambda>p. \<lparr>b_random = (), b_sockets = 0, b_listening = (\<lambda>s. []), b_shifts = (0, 0, 0), b_static = False,
                     b_generator = []\<rparr>),
     rn_shut = (\<lambda>p r k n. p)\<rparr>"

lemma demo_network: "reliable_network demo_run_env"
proof -
  have l: "length main_addresses = 3" by (simp add: main_addresses_def)
  have "reliable (\<lambda>s k. k s) main_addresses tr (rn_network demo_run_env p tr)" for tr p
    unfolding reliable_def
  proof (intro exI conjI)
    show "list_all2 (arrives (\<lambda>s k. k s) main_addresses) (rn_network demo_run_env p tr)
        [(0, sent_on 0 tr), (1, sent_on 1 tr), (2, sent_on 2 tr)]"
      by (simp add: demo_run_env_def brings_arrives l)
    show "\<forall>i<length main_addresses. concat (map snd (filter (\<lambda>c. fst c = i)
        [(0, sent_on 0 tr), (1, sent_on 1 tr), (2, sent_on 2 tr)])) = sent_on i tr"
      by (simp add: l less_Suc_eq numeral_3_eq_3 numeral_2_eq_2)
  qed
  then show ?thesis
    unfolding reliable_network_def
    by (intro exI [of _ "\<lambda>s k. k s"]) (use queues_env_stream in \<open>simp add: demo_run_env_def\<close>)
qed

lemma demo_dependable: "dependable demo_run_env ROUND_ROBIN"
  using demo_network sort_key_sorts
  by (simp add: dependable_def demo_run_env_def opening_sockets_def ready_sockets_def demo_env_def 
      sin_bounded_def sample_env_def shuffle_keeps_length_def PacketSizeByte_eq)

text \<open>The same with another solver, for the linear and the reactive strategy.\<close>

definition with_solver ::
  "(mip_problem \<Rightarrow> solve_result) \<Rightarrow> ('g, 'r, 'k, 'n, 'h, 'p) run_env \<Rightarrow> ('g, 'r, 'k, 'n, 'h, 'p) run_env" where
  "with_solver solve env =
     env\<lparr>rn_sender := (rn_sender env)\<lparr>env_compute := (env_compute (rn_sender env))\<lparr>env_solve := solve\<rparr>\<rparr>\<rparr>"

lemma with_solver_dependable:
  assumes "dependable env ROUND_ROBIN" and "solver_contract solve" and "solver_complete solve"
  shows "dependable (with_solver solve env) LINEAR" and "dependable (with_solver solve env) REACTIVE"
  using assms
  by (simp_all add: dependable_def with_solver_def opening_sockets_def ready_sockets_def reliable_network_def)

lemma demo_applications:
  "make_applications (rn_sin (with_solver solve demo_run_env)) (rn_rand (with_solver solve demo_run_env))
      (b_shifts (rn_boot (with_solver solve demo_run_env) p)) (b_static (rn_boot (with_solver solve demo_run_env) p)) params h =
    make_applications (\<lambda>_. Fin 1) (\<lambda>h. (0, h)) (0, 0, 0) False params h"
  by (simp add: with_solver_def demo_run_env_def)


text \<open>
  C10. A reactive run can fail at its start. The parameters of the sweep allow peaks for which the first
  problem of the reactive strategy has no solution: the computation of time 0 sees the packets of two
  samples (that of the start and that of the update before the computation), the three channels take 60
  packets in a second, and whenever the first two samples of the three applications add up to more,
  the run throws the pointer to \<open>Nessuna soluzione trovata\<close> instead of returning its results.
\<close>

theorem reactive_run_overloaded:
  fixes env :: "('g, 'r, 'k, 'n, 'h, 'p) run_env"
  assumes env: "dependable env REACTIVE" and params: "small_parameters params" "rp_strategyType params = REACTIVE"
    and apps: "make_applications (rn_sin env) (rn_rand env) (b_shifts (rn_boot env (snd proc)))
      (b_static (rn_boot env (snd proc))) params (fst proc) = Inr (apps, h')"
    and over: "60 < sum_list (map first_two apps)"
  shows "RunSimulation env params proc = Some (Inl (ThrownPointer ''Nessuna soluzione trovata''))"
proof -
  have "sin_bounded (rn_sin env)" using env by (simp add: dependable_def)
  from make_applications_ok [OF this params(1), of "rn_rand env" "b_shifts (rn_boot env (snd proc))"
      "b_static (rn_boot env (snd proc))" "fst proc"]
  have "main_apps REACTIVE apps" using apps params(2) by simp
  then have "\<not> starts_feasible apps" using starts_feasibleD over by (fastforce simp: main_apps_def)
  then show ?thesis using RunSimulation_reports [of env params proc] env params apps by simp
qed

text \<open>All three applications start at the crest, with the largest peaks of the sweep: 72 packets.\<close>

theorem reactive_run_overloaded_witness:
  "\<exists>solve. RunSimulation (with_solver solve demo_run_env) (crest_params 12) ((), ()) =
     Some (Inl (ThrownPointer ''Nessuna soluzione trovata''))"
proof -
  obtain solve where sv: "solver_contract solve" "solver_complete solve" using solver_exists by blast
  have "sin_bounded (\<lambda>_. Fin 1)" by (simp add: sin_bounded_def)
  then obtain apps h' where m: "make_applications (\<lambda>_. Fin 1) (\<lambda>h. (0, h)) (0, 0, 0) False (crest_params 12) () = Inr (apps, h')"
    using make_applications_ok [of "\<lambda>_. Fin 1" "crest_params 12" "\<lambda>h. (0, h)" "(0, 0, 0)" False "()"] by auto
  have "60 < sum_list (map first_two apps)" unfolding crest_run(2) [OF _ m, simplified] by simp
  moreover have "make_applications (rn_sin (with_solver solve demo_run_env)) (rn_rand (with_solver solve demo_run_env))
      (b_shifts (rn_boot (with_solver solve demo_run_env) (snd ((), ())))) (b_static (rn_boot (with_solver solve demo_run_env) (snd ((), ()))))
      (crest_params 12) (fst ((), ())) = Inr (apps, h')"
    unfolding demo_applications by (simp add: m)
  ultimately have "RunSimulation (with_solver solve demo_run_env) (crest_params 12) ((), ()) =
      Some (Inl (ThrownPointer ''Nessuna soluzione trovata''))"
    by (intro reactive_run_overloaded with_solver_dependable(2) demo_dependable sv) simp_all
  then show ?thesis by blast
qed

end
