(* ===== verification/Main_Sweep.thy ===== *)
theory Main_Sweep
  imports Main_Run
begin

text \<open>
  \<open>main\<close> of \<open>main.cpp\<close>: under each strategy it runs the simulation for a random sample of all parameter
  tuples, one in 20000 on average, and writes one file per strategy.
\<close>

section \<open>The sweep\<close>

text \<open>
  The state of the nested loops. \<open>uniform\<close> draws from a \<open>std::uniform_int_distribution\<close> with the given
  bounds from the default random engine \<open>'e\<close>.
\<close>

record ('e, 'h, 'p) sweep_state =
  innerMost :: u32
  iteration :: u32
  sw_results :: "run_info list"
  sw_gen :: 'e
  sw_process :: "('h, 'p) process"

definition combination_parameters ::
  "u32 list list \<Rightarrow> u32 list list \<Rightarrow> u32 list list \<Rightarrow> StrategyTypes \<Rightarrow> nat \<Rightarrow> nat \<Rightarrow> nat \<Rightarrow> run_parameters res"
where
  "combination_parameters peakCombinations noiseCombinations shiftCombinations strategy i j l =
     res_bind (vec_at peakCombinations i) (\<lambda>currentPeaks.
     res_bind (vec_at noiseCombinations j) (\<lambda>currentNoises.
     res_bind (vec_at shiftCombinations l) (\<lambda>currentShifts.
     res_bind (vec_at currentPeaks 0) (\<lambda>p0.
     res_bind (vec_at currentPeaks 1) (\<lambda>p1.
     res_bind (vec_at currentPeaks 2) (\<lambda>p2.
     res_bind (vec_at currentNoises 0) (\<lambda>n0.
     res_bind (vec_at currentNoises 1) (\<lambda>n1.
     res_bind (vec_at currentNoises 2) (\<lambda>n2.
     res_bind (vec_at currentShifts 0) (\<lambda>s0.
     res_bind (vec_at currentShifts 1) (\<lambda>s1.
     res_bind (vec_at currentShifts 2) (\<lambda>s2.
     Inr (RunParameters p0 p1 p2 n0 n1 n2 (s0 * 50) (s1 * 50) (s2 * 50) strategy)))))))))))))"

definition sweep_body ::
  "('g, 'r, 'k, 'n, 'h, 'p) run_env \<Rightarrow> (int \<Rightarrow> int \<Rightarrow> 'e \<Rightarrow> int \<times> 'e) \<Rightarrow> run_parameters res \<Rightarrow>
     ('e, 'h, 'p) sweep_state \<Rightarrow> ('e, 'h, 'p) sweep_state outcome"
where
  "sweep_body env uniform combination s =
     (let s = s\<lparr>innerMost := innerMost s + 1\<rparr> in
      case uniform 1 20000 (sw_gen s) of (d, gen) \<Rightarrow>
      let s = s\<lparr>sw_gen := gen\<rparr> in
      if d = 1 then
        (let s = s\<lparr>iteration := iteration s + 1\<rparr> in
         if iteration s < 0 then Some (Inr s)
         else
           out_bind (Some combination) (\<lambda>parameters.
           out_bind (RunSimulation env parameters (sw_process s)) (\<lambda>(result, proc).
           Some (Inr (s\<lparr>sw_results := sw_results s @ [result], sw_process := proc\<rparr>)))))
      else Some (Inr s))"

definition sweep ::
  "('g, 'r, 'k, 'n, 'h, 'p) run_env \<Rightarrow> (int \<Rightarrow> int \<Rightarrow> 'e \<Rightarrow> int \<times> 'e) \<Rightarrow> StrategyTypes \<Rightarrow> 'e \<Rightarrow> ('h, 'p) process \<Rightarrow>
     ('e, 'h, 'p) sweep_state outcome"
where
  "sweep env uniform strategy gen proc =
     out_bind (Some (getPermutationsWithRepetitionOfKelementsOfLengthN 3 3)) (\<lambda>noiseCombinations.
     out_bind (Some (getPermutationsWithRepetitionOfKelementsOfLengthN 3 12)) (\<lambda>peakCombinations.
     out_bind (Some (getPermutationsWithRepetitionOfKelementsOfLengthN 3 3)) (\<lambda>shiftCombinations.
       out_fold (\<lambda>i. out_fold (\<lambda>j. out_fold (\<lambda>l. sweep_body env uniform
             (combination_parameters peakCombinations noiseCombinations shiftCombinations strategy i j l))
             [0..<length shiftCombinations]) [0..<length noiseCombinations]) [0..<length peakCombinations]
         \<lparr>innerMost = 0, iteration = 0, sw_results = [], sw_gen = gen, sw_process = proc\<rparr>)))"

section \<open>\<open>main\<close>\<close>

text \<open>Two digits per number of the local time.\<close>

definition two_digits :: "nat \<Rightarrow> string" where
  "two_digits n = (let s = to_string n in replicate (2 - length s) (CHR ''0'') @ s)"

definition timestamp :: "nat \<Rightarrow> nat \<Rightarrow> string" where
  "timestamp tm_hour tm_min = two_digits tm_hour @ ''_'' @ two_digits tm_min"

definition results_file :: "StrategyTypes \<Rightarrow> string \<Rightarrow> string" where
  "results_file strategy time = ''runs_data_'' @ to_string (StrategyTypes_value strategy) @ ''_'' @ time @ ''.csv''"

text \<open>
  The files written so far, and the exception that ended the program, if one did; \<open>opened\<close> says
  whether a file can be opened.
\<close>

fun run_strategies ::
  "('g, 'r, 'k, 'n, 'h, 'p) run_env \<Rightarrow> (int \<Rightarrow> int \<Rightarrow> 'e \<Rightarrow> int \<times> 'e) \<Rightarrow> (string \<Rightarrow> bool) \<Rightarrow> string \<Rightarrow>
     StrategyTypes list \<Rightarrow> 'e \<Rightarrow> ('h, 'p) process \<Rightarrow> ((string \<times> cell list list) list \<times> cpp_error option) option"
where
  "run_strategies env uniform opened time [] gen proc = Some ([], None)"
| "run_strategies env uniform opened time (strategy # strategies) gen proc =
     (case sweep env uniform strategy gen proc of
        None \<Rightarrow> None
      | Some (Inl e) \<Rightarrow> Some ([], Some e)
      | Some (Inr s) \<Rightarrow>
          (let name = results_file strategy time in
           case printRunInfosToFile (opened name) (sw_results s) of
             (rows, Some e) \<Rightarrow> Some (if opened name then [(name, rows)] else [], Some e)
           | (rows, None) \<Rightarrow>
               (case run_strategies env uniform opened time strategies (sw_gen s) (sw_process s) of
                  None \<Rightarrow> None
                | Some (files, e) \<Rightarrow> Some ((name, rows) # files, e))))"

definition main_program ::
  "('g, 'r, 'k, 'n, 'h, 'p) run_env \<Rightarrow> (int \<Rightarrow> int \<Rightarrow> 'e \<Rightarrow> int \<times> 'e) \<Rightarrow> (u32 \<Rightarrow> 'e) \<Rightarrow> (string \<Rightarrow> bool) \<Rightarrow>
     nat \<Rightarrow> nat \<Rightarrow> ('h, 'p) process \<Rightarrow> ((string \<times> cell list list) list \<times> cpp_error option) option"
where
  "main_program env uniform seed opened tm_hour tm_min proc =
     run_strategies env uniform opened (timestamp tm_hour tm_min)
       [ROUND_ROBIN, RANDOM, LINEAR, REACTIVE] (seed SeedForRandomGeneration) proc"

section \<open>The tuples of the sweep\<close>

text \<open>The runs of the sweep if every one were picked, in order.\<close>

fun tuple_parameters :: "StrategyTypes \<Rightarrow> u32 list \<times> u32 list \<times> u32 list \<Rightarrow> run_parameters" where
  "tuple_parameters strategy (ps, ns, ss) =
     RunParameters (ps ! 0) (ps ! 1) (ps ! 2) (ns ! 0) (ns ! 1) (ns ! 2) (ss ! 0 * 50) (ss ! 1 * 50) (ss ! 2 * 50) strategy"

definition sweep_tuples :: "(u32 list \<times> u32 list \<times> u32 list) list" where
  "sweep_tuples = List.product (tuples 3 12) (List.product (tuples 3 3) (tuples 3 3))"

definition sweep_parameters :: "StrategyTypes \<Rightarrow> run_parameters list" where
  "sweep_parameters strategy = map (tuple_parameters strategy) sweep_tuples"

lemma out_fold_cong:
  "(\<And>x. x \<in> set xs \<Longrightarrow> f x = g x) \<Longrightarrow> out_fold f xs s = out_fold g xs s"
proof (induction xs arbitrary: s)
  case Nil
  then show ?case by simp
next
  case (Cons x xs)
  then have "out_fold f xs = out_fold g xs" by (intro ext) simp
  then show ?case using Cons.prems by simp
qed

lemma out_fold_indices: "out_fold (\<lambda>i. f (xs ! i)) [0..<length xs] s = out_fold f xs s"
proof -
  have "out_fold (\<lambda>i. f (xs ! i)) [0..<length xs] s = out_fold f (map ((!) xs) [0..<length xs]) s"
    by (simp only: out_fold_map)
  then show ?thesis by (simp add: map_nth)
qed

lemma out_fold_product:
  "out_fold f (List.product xs ys) s = out_fold (\<lambda>x. out_fold (\<lambda>y. f (x, y)) ys) xs s"
proof -
  have "List.product xs ys = concat (map (\<lambda>x. map (Pair x) ys) xs)"
    by (induction xs) simp_all
  then have "out_fold f (List.product xs ys) s = out_fold (\<lambda>x. out_fold f (map (Pair x) ys)) xs s"
    by (simp add: out_fold_concat out_fold_map)
  also have "\<dots> = out_fold (\<lambda>x. out_fold (\<lambda>y. f (x, y)) ys) xs s"
    by (intro out_fold_cong ext) (simp add: out_fold_map)
  finally show ?thesis .
qed

lemma tuples_at:
  assumes "i < length (tuples d n)"
  shows "length (tuples d n ! i) = d"
  using assms set_tuples [of d n] nth_mem by blast

lemma combination_parameters_tuple:
  assumes "i < length (tuples 3 12)" and "j < length (tuples 3 3)" and "l < length (tuples 3 3)"
  shows "combination_parameters (tuples 3 12) (tuples 3 3) (tuples 3 3) strategy i j l =
    Inr (tuple_parameters strategy (tuples 3 12 ! i, tuples 3 3 ! j, tuples 3 3 ! l))"
  using assms by (simp add: combination_parameters_def tuples_at)

lemma all_tuples:
  "getPermutationsWithRepetitionOfKelementsOfLengthN 3 3 = Inr (tuples 3 3)"
  "getPermutationsWithRepetitionOfKelementsOfLengthN 3 12 = Inr (tuples 3 12)"
proof -
  have e: "(@) ([] :: u32 list) = id" by (rule ext) simp
  show "getPermutationsWithRepetitionOfKelementsOfLengthN 3 3 = Inr (tuples 3 3)"
      "getPermutationsWithRepetitionOfKelementsOfLengthN 3 12 = Inr (tuples 3 12)"
    using generateArrays_tuples [of 3 "[]" 3 "[]"] generateArrays_tuples [of 12 "[]" 3 "[]"]
    by (simp_all add: getPermutationsWithRepetitionOfKelementsOfLengthN_def e)
qed

text \<open>The three nested loops are one loop over the parameters.\<close>

lemma sweep_fold:
  "sweep env uniform strategy gen proc =
     out_fold (\<lambda>p. sweep_body env uniform (Inr p)) (sweep_parameters strategy)
       \<lparr>innerMost = 0, iteration = 0, sw_results = [], sw_gen = gen, sw_process = proc\<rparr>"
proof -
  let ?P = "tuples 3 12" and ?N = "tuples 3 3"
  let ?b = "\<lambda>p n s. sweep_body env uniform (Inr (tuple_parameters strategy (p, n, s)))"
  let ?c = "\<lambda>i j l. sweep_body env uniform (combination_parameters ?P ?N ?N strategy i j l)"
  have 1: "out_fold (?c i j) [0..<length ?N] = out_fold (?b (?P ! i) (?N ! j)) ?N"
    if "i < length ?P" "j < length ?N" for i j
  proof
    fix s
    have "out_fold (?c i j) [0..<length ?N] s = out_fold (\<lambda>l. ?b (?P ! i) (?N ! j) (?N ! l)) [0..<length ?N] s"
      by (intro out_fold_cong) (use that in \<open>simp add: combination_parameters_tuple del: tuple_parameters.simps tuples.simps\<close>)
    then show "out_fold (?c i j) [0..<length ?N] s = out_fold (?b (?P ! i) (?N ! j)) ?N s"
      by (simp only: out_fold_indices [of "?b (?P ! i) (?N ! j)"])
  qed
  have 2: "out_fold (\<lambda>j. out_fold (?c i j) [0..<length ?N]) [0..<length ?N] =
      out_fold (\<lambda>n. out_fold (?b (?P ! i) n) ?N) ?N" if "i < length ?P" for i
  proof
    fix s
    have "out_fold (\<lambda>j. out_fold (?c i j) [0..<length ?N]) [0..<length ?N] s =
        out_fold (\<lambda>j. out_fold (?b (?P ! i) (?N ! j)) ?N) [0..<length ?N] s"
      by (intro out_fold_cong 1 that) simp
    then show "out_fold (\<lambda>j. out_fold (?c i j) [0..<length ?N]) [0..<length ?N] s =
        out_fold (\<lambda>n. out_fold (?b (?P ! i) n) ?N) ?N s"
      by (simp only: out_fold_indices [of "\<lambda>n. out_fold (?b (?P ! i) n) ?N"])
  qed
  have 3: "out_fold (\<lambda>i. out_fold (\<lambda>j. out_fold (?c i j) [0..<length ?N]) [0..<length ?N]) [0..<length ?P] s =
      out_fold (\<lambda>p. out_fold (\<lambda>n. out_fold (?b p n) ?N) ?N) ?P s" for s
  proof -
    have "out_fold (\<lambda>i. out_fold (\<lambda>j. out_fold (?c i j) [0..<length ?N]) [0..<length ?N]) [0..<length ?P] s =
        out_fold (\<lambda>i. out_fold (\<lambda>n. out_fold (?b (?P ! i) n) ?N) ?N) [0..<length ?P] s"
      by (intro out_fold_cong 2) simp
    then show ?thesis by (simp only: out_fold_indices [of "\<lambda>p. out_fold (\<lambda>n. out_fold (?b p n) ?N) ?N"])
  qed
  show ?thesis
    unfolding sweep_def all_tuples out_bind.simps 3 sweep_parameters_def out_fold_map sweep_tuples_def out_fold_product ..
qed

section \<open>The sample\<close>

lemma outcome_cases:
  fixes r :: "'a outcome"
  obtains "r = None" | e where "r = Some (Inl e)" | x where "r = Some (Inr x)"
  by (cases "(r, \<lambda>x :: 'a. Some (Inr x) :: 'a outcome)" rule: out_bind.cases) auto

text \<open>The draws for a number of tuples, and the parameters they pick.\<close>

fun draws :: "(int \<Rightarrow> int \<Rightarrow> 'e \<Rightarrow> int \<times> 'e) \<Rightarrow> nat \<Rightarrow> 'e \<Rightarrow> bool list \<times> 'e" where
  "draws uniform 0 gen = ([], gen)"
| "draws uniform (Suc n) gen =
     (case uniform 1 20000 gen of (d, gen) \<Rightarrow>
      case draws uniform n gen of (picks, gen) \<Rightarrow> ((d = 1) # picks, gen))"

definition picked :: "bool list \<Rightarrow> 'a list \<Rightarrow> 'a list" where
  "picked picks xs = map snd (filter fst (zip picks xs))"

text \<open>Simulations one after the other.\<close>

fun run_all ::
  "('g, 'r, 'k, 'n, 'h, 'p) run_env \<Rightarrow> run_parameters list \<Rightarrow> run_info list \<times> ('h, 'p) process \<Rightarrow>
     (run_info list \<times> ('h, 'p) process) outcome"
where
  "run_all env [] s = Some (Inr s)"
| "run_all env (p # ps) (results, proc) =
     out_bind (RunSimulation env p proc) (\<lambda>(result, proc). run_all env ps (results @ [result], proc))"

lemma picked_Cons [simp]:
  "picked [] xs = []"
  "picked (b # bs) (x # xs) = (if b then x # picked bs xs else picked bs xs)"
  by (simp_all add: picked_def)

lemma length_picked: "length (picked picks xs) \<le> length xs"
  unfolding picked_def by (simp add: order_trans [OF length_filter_le])

lemma length_draws: "draws uniform n gen = (picks, gen') \<Longrightarrow> length picks = n"
  by (induction n arbitrary: gen picks gen') (auto split: prod.splits)

definition sampled_state ::
  "bool list \<Rightarrow> run_parameters list \<Rightarrow> 'e \<Rightarrow> ('e, 'h, 'p) sweep_state \<Rightarrow> run_info list \<times> ('h, 'p) process \<Rightarrow> ('e, 'h, 'p) sweep_state"
where
  "sampled_state picks params gen s r =
     \<lparr>innerMost = innerMost s + of_nat (length params), iteration = iteration s + of_nat (length (picked picks params)),
      sw_results = fst r, sw_gen = gen, sw_process = snd r\<rparr>"

lemma sweep_body_fold:
  "out_fold (\<lambda>p. sweep_body env uniform (Inr p)) params s =
     (case draws uniform (length params) (sw_gen s) of (picks, gen) \<Rightarrow>
      out_bind (run_all env (picked picks params) (sw_results s, sw_process s))
        (\<lambda>r. Some (Inr (sampled_state picks params gen s r))))"
proof (induction params arbitrary: s)
  case Nil
  then show ?case by (simp add: sampled_state_def)
next
  case (Cons p params)
  obtain d gen where u: "uniform 1 20000 (sw_gen s) = (d, gen)" by (cases "uniform 1 20000 (sw_gen s)")
  obtain picks gen' where r: "draws uniform (length params) gen = (picks, gen')"
    by (cases "draws uniform (length params) gen")
  let ?s = "s\<lparr>innerMost := innerMost s + 1, sw_gen := gen\<rparr>"
  show ?case
  proof (cases "d = 1")
    case True
    have "sampled_state picks params gen' (?s\<lparr>iteration := iteration s + 1, sw_results := rs, sw_process := proc\<rparr>) =
        sampled_state (True # picks) (p # params) gen' s" for rs proc
      by (rule ext) (simp add: sampled_state_def ac_simps)
    moreover have "sweep_body env uniform (Inr p) s = out_bind (RunSimulation env p (sw_process s))
        (\<lambda>(result, proc). Some (Inr (?s\<lparr>iteration := iteration s + 1, sw_results := sw_results s @ [result], sw_process := proc\<rparr>)))"
      using True u by (simp add: sweep_body_def Let_def)
    ultimately show ?thesis
      using True u r
      by (cases rule: outcome_cases [of "RunSimulation env p (sw_process s)"]) (auto simp: Cons.IH)
  next
    case False
    have "sampled_state picks params gen' ?s = sampled_state (False # picks) (p # params) gen' s"
      by (rule ext) (simp add: sampled_state_def ac_simps)
    moreover have "sweep_body env uniform (Inr p) s = Some (Inr ?s)"
      using False u by (simp add: sweep_body_def Let_def)
    ultimately show ?thesis using False u r by (simp add: Cons.IH)
  qed
qed

section \<open>Which parameters there are\<close>

text \<open>Peaks between 1 and 12, noises between 1 and 3, shifts of 50, 100 or 150 seconds.\<close>

definition sweep_typed :: "StrategyTypes \<Rightarrow> run_parameters \<Rightarrow> bool" where
  "sweep_typed strategy p \<longleftrightarrow>
     {unat (applicationOnePeak p), unat (applicationTwoPeak p), unat (applicationThreePeak p)} \<subseteq> {1..12} \<and>
     {unat (applicationOneNoise p), unat (applicationTwoNoise p), unat (applicationThreeNoise p)} \<subseteq> {1..3} \<and>
     {applicationOneShift p, applicationTwoShift p, applicationThreeShift p} \<subseteq> {50, 100, 150} \<and>
     rp_strategyType p = strategy"

lemma u32_range:
  fixes x :: u32
  assumes "n < 4294967296"
  shows "x \<in> of_nat ` {1..n} \<longleftrightarrow> 1 \<le> unat x \<and> unat x \<le> n"
proof
  assume "x \<in> of_nat ` {1..n}"
  then show "1 \<le> unat x \<and> unat x \<le> n" using assms by (elim imageE) (simp add: le_less_trans)
next
  assume "1 \<le> unat x \<and> unat x \<le> n"
  then show "x \<in> of_nat ` {1..n}" by (intro image_eqI [of _ _ "unat x"]) simp_all
qed

lemma three_tuple:
  assumes "n < 4294967296"
  shows "xs \<in> set (tuples 3 n) \<longleftrightarrow> (\<exists>a b c. xs = [a, b, c] \<and> {unat a, unat b, unat c} \<subseteq> {1..n})"
proof -
  have "length xs = 3 \<longleftrightarrow> (\<exists>a b c. xs = [a, b, c])"
    by (auto simp: numeral_3_eq_3 length_Suc_conv)
  then have "length xs = 3 \<and> set xs \<subseteq> of_nat ` {1..n} \<longleftrightarrow> (\<exists>a b c. xs = [a, b, c] \<and> {a, b, c} \<subseteq> of_nat ` {1..n})"
    by auto
  then show ?thesis by (simp only: set_tuples mem_Collect_eq insert_subset empty_subsetI u32_range [OF assms] atLeastAtMost_iff)
qed

lemma shift_range: "unat (x :: u32) \<in> {1..3} \<longleftrightarrow> x \<in> {1, 2, 3}"
  by (auto simp: word_unat_eq_iff)

lemma tuple_shifts: "unat (x :: u32) \<in> {1..3} \<Longrightarrow> x * 50 \<in> {50, 100, 150}"
  unfolding shift_range by auto

lemma sweep_tuples_iff:
  "(ps, ns, ss) \<in> set sweep_tuples \<longleftrightarrow>
     ps \<in> set (tuples 3 12) \<and> ns \<in> set (tuples 3 3) \<and> ss \<in> set (tuples 3 3)"
  by (simp add: sweep_tuples_def)

lemma sweep_parameters_typed:
  assumes "p \<in> set (sweep_parameters strategy)"
  shows "sweep_typed strategy p"
proof -
  obtain ps ns ss where t: "p = tuple_parameters strategy (ps, ns, ss)" "(ps, ns, ss) \<in> set sweep_tuples"
    using assms by (auto simp: sweep_parameters_def)
  obtain a b c d e f g h i where l: "ps = [a, b, c]" "ns = [d, e, f]" "ss = [g, h, i]"
      "{unat a, unat b, unat c} \<subseteq> {1..12}" "{unat d, unat e, unat f} \<subseteq> {1..3}" "{unat g, unat h, unat i} \<subseteq> {1..3}"
    using t(2) unfolding sweep_tuples_iff by (auto simp: three_tuple)
  have "g * 50 \<in> {50, 100, 150}" "h * 50 \<in> {50, 100, 150}" "i * 50 \<in> {50, 100, 150}"
    using l(6) by (intro tuple_shifts; blast)+
  then show ?thesis
    using l(4,5) unfolding t(1) l(1-3) by (simp add: sweep_typed_def RunParameters_def)
qed

lemma shift_tuple: "x \<in> {50, 100, 150} \<Longrightarrow> \<exists>y :: u32. x = y * 50 \<and> unat y \<in> {1..3}"
  unfolding shift_range by (elim insertE emptyE) (rule exI [of _ 1] exI [of _ 2] exI [of _ 3]; simp)+

lemma sweep_typed_parameters:
  assumes "sweep_typed strategy p"
  shows "p \<in> set (sweep_parameters strategy)"
proof -
  obtain a b c where s: "applicationOneShift p = a * 50" "applicationTwoShift p = b * 50" "applicationThreeShift p = c * 50"
      "unat a \<in> {1..3}" "unat b \<in> {1..3}" "unat c \<in> {1..3}"
    using assms shift_tuple unfolding sweep_typed_def by (metis insert_subset)
  let ?ps = "[applicationOnePeak p, applicationTwoPeak p, applicationThreePeak p]"
  let ?ns = "[applicationOneNoise p, applicationTwoNoise p, applicationThreeNoise p]"
  have "?ps \<in> set (tuples 3 12)" "?ns \<in> set (tuples 3 3)" "[a, b, c] \<in> set (tuples 3 3)"
    using assms s(4-6) by (auto simp: three_tuple sweep_typed_def)
  then have t: "(?ps, ?ns, [a, b, c]) \<in> set sweep_tuples" by (simp add: sweep_tuples_iff)
  have "p = tuple_parameters strategy (?ps, ?ns, [a, b, c])"
    using assms s(1-3) by (cases p) (simp add: RunParameters_def sweep_typed_def)
  then show ?thesis unfolding sweep_parameters_def using t by (simp only: set_map) (rule image_eqI)
qed

lemma length_sweep_parameters: "length (sweep_parameters strategy) = 1259712"
  by (simp add: sweep_parameters_def sweep_tuples_def length_tuples)

lemma times_50_inj: "unat (x :: u32) \<in> {1..3} \<Longrightarrow> unat (y :: u32) \<in> {1..3} \<Longrightarrow> x * 50 = y * 50 \<Longrightarrow> x = y"
  unfolding shift_range by auto

lemma tuple_parameters_inj: "inj_on (tuple_parameters strategy) (set sweep_tuples)"
proof (rule inj_onI)
  fix t u assume tu: "t \<in> set sweep_tuples" "u \<in> set sweep_tuples" and e: "tuple_parameters strategy t = tuple_parameters strategy u"
  obtain ps ns ss ps' ns' ss' where l: "t = (ps, ns, ss)" "u = (ps', ns', ss')" by (cases t; cases u)
  have three: "\<exists>a b c. xs = [a, b, c] \<and> {unat a, unat b, unat c} \<subseteq> {1..n}"
    if "xs \<in> set (tuples 3 n)" "n < 4294967296" for xs n
    using that by (simp add: three_tuple)
  obtain a1 a2 a3 where 1: "ps = [a1, a2, a3]" using tu(1) three [of ps 12] by (auto simp: l sweep_tuples_iff)
  obtain b1 b2 b3 where 2: "ps' = [b1, b2, b3]" using tu(2) three [of ps' 12] by (auto simp: l sweep_tuples_iff)
  obtain c1 c2 c3 where 3: "ns = [c1, c2, c3]" using tu(1) three [of ns 3] by (auto simp: l sweep_tuples_iff)
  obtain d1 d2 d3 where 4: "ns' = [d1, d2, d3]" using tu(2) three [of ns' 3] by (auto simp: l sweep_tuples_iff)
  obtain s1 s2 s3 where 5: "ss = [s1, s2, s3]" "{unat s1, unat s2, unat s3} \<subseteq> {1..3}"
    using tu(1) three [of ss 3] by (auto simp: l sweep_tuples_iff)
  obtain r1 r2 r3 where 6: "ss' = [r1, r2, r3]" "{unat r1, unat r2, unat r3} \<subseteq> {1..3}"
    using tu(2) three [of ss' 3] by (auto simp: l sweep_tuples_iff)
  have "s1 = r1" "s2 = r2" "s3 = r3"
    using e 5 6 unfolding l by (auto simp: RunParameters_def intro!: times_50_inj)
  then show "t = u" using e unfolding l 1 2 3 4 5(1) 6(1) by (simp add: RunParameters_def)
qed

lemma distinct_sweep_parameters: "distinct (sweep_parameters strategy)"
proof -
  have "distinct sweep_tuples"
    unfolding sweep_tuples_def by (intro distinct_product distinct_tuples) simp_all
  then show ?thesis unfolding sweep_parameters_def distinct_map using tuple_parameters_inj by blast
qed

text \<open>Every parameters of the type are found at exactly one position.\<close>

lemma position_unique:
  assumes "sweep_typed strategy p"
  shows "\<exists>!(i, j, l). i < length (tuples 3 12) \<and> j < length (tuples 3 3) \<and> l < length (tuples 3 3) \<and>
    combination_parameters (tuples 3 12) (tuples 3 3) (tuples 3 3) strategy i j l = Inr p"
proof -
  obtain ps ns ss where t: "p = tuple_parameters strategy (ps, ns, ss)" "(ps, ns, ss) \<in> set sweep_tuples"
    using sweep_typed_parameters [OF assms] by (auto simp: sweep_parameters_def)
  then obtain i j l where ijl: "i < length (tuples 3 12)" "ps = tuples 3 12 ! i" "j < length (tuples 3 3)" "ns = tuples 3 3 ! j"
      "l < length (tuples 3 3)" "ss = tuples 3 3 ! l"
    unfolding sweep_tuples_iff by (metis in_set_conv_nth)
  show ?thesis
  proof (rule ex1I [of _ "(i, j, l)"])
    show "case (i, j, l) of (i, j, l) \<Rightarrow> i < length (tuples 3 12) \<and> j < length (tuples 3 3) \<and> l < length (tuples 3 3) \<and>
        combination_parameters (tuples 3 12) (tuples 3 3) (tuples 3 3) strategy i j l = Inr p"
      using ijl t(1) by (simp add: combination_parameters_tuple)
  next
    fix u
    assume u: "case u of (i, j, l) \<Rightarrow> i < length (tuples 3 12) \<and> j < length (tuples 3 3) \<and> l < length (tuples 3 3) \<and>
        combination_parameters (tuples 3 12) (tuples 3 3) (tuples 3 3) strategy i j l = Inr p"
    obtain i' j' l' where u': "u = (i', j', l')" by (cases u)
    have r: "i' < length (tuples 3 12)" "j' < length (tuples 3 3)" "l' < length (tuples 3 3)"
      and c: "combination_parameters (tuples 3 12) (tuples 3 3) (tuples 3 3) strategy i' j' l' = Inr p"
      using u by (simp_all add: u')
    have "(tuples 3 12 ! i', tuples 3 3 ! j', tuples 3 3 ! l') \<in> set sweep_tuples"
      using r by (simp add: sweep_tuples_iff)
    moreover have "tuple_parameters strategy (tuples 3 12 ! i', tuples 3 3 ! j', tuples 3 3 ! l') = p"
      using c unfolding combination_parameters_tuple [OF r] by simp
    ultimately have "(tuples 3 12 ! i', tuples 3 3 ! j', tuples 3 3 ! l') = (ps, ns, ss)"
      using inj_onD [OF tuple_parameters_inj [of strategy] _ _ t(2)] t(1) by metis
    then show "u = (i, j, l)"
      using r ijl unfolding u' by (simp add: nth_eq_iff_index_eq distinct_tuples)
  qed
qed

section \<open>Sweeps that end\<close>

definition reports :: "run_info \<Rightarrow> run_parameters \<Rightarrow> bool" where
  "reports r p \<longleftrightarrow> (\<exists>tr. r = report tr p \<and> trace_within 3 tr \<and> length tr \<le> 54045)"

text \<open>A run that does not report throws, which only one under the reactive strategy can.\<close>

definition throws_unsolved :: "StrategyTypes \<Rightarrow> 'a outcome \<Rightarrow> bool" where
  "throws_unsolved strategy r \<longleftrightarrow> strategy = REACTIVE \<and> r = Some (Inl (ThrownPointer ''Nessuna soluzione trovata''))"

lemma run_reports:
  assumes "dependable env (rp_strategyType p)" and "small_parameters p"
  shows "throws_unsolved (rp_strategyType p) (RunSimulation env p proc) \<or>
    (\<exists>r proc'. RunSimulation env p proc = Some (Inr (r, proc')) \<and> reports r p)"
  using RunSimulation_reports [OF assms, of proc] by (auto simp: throws_unsolved_def reports_def split: if_splits)

lemma run_all_reports:
  assumes "\<forall>p\<in>set ps. dependable env strategy \<and> rp_strategyType p = strategy \<and> small_parameters p"
  shows "throws_unsolved strategy (run_all env ps (rs0, proc)) \<or>
    (\<exists>rs proc'. run_all env ps (rs0, proc) = Some (Inr (rs0 @ rs, proc')) \<and> list_all2 reports rs ps)"
  using assms
proof (induction ps arbitrary: rs0 proc)
  case Nil
  then show ?case by simp
next
  case (Cons p ps)
  have p: "dependable env (rp_strategyType p)" "small_parameters p" "rp_strategyType p = strategy" using Cons.prems by simp_all
  from run_reports [OF p(1,2), of proc] show ?case
  proof
    assume "throws_unsolved (rp_strategyType p) (RunSimulation env p proc)"
    then show ?thesis using p(3) by (simp add: throws_unsolved_def)
  next
    assume "\<exists>r proc'. RunSimulation env p proc = Some (Inr (r, proc')) \<and> reports r p"
    then obtain r proc1 where 1: "RunSimulation env p proc = Some (Inr (r, proc1))" "reports r p" by blast
    then have "run_all env (p # ps) (rs0, proc) = run_all env ps (rs0 @ [r], proc1)" by simp
    then show ?thesis using Cons.IH [of "rs0 @ [r]" proc1] Cons.prems 1(2)
      by (auto intro: exI [of _ "r # _"])
  qed
qed

lemma sweep_typed_small: "sweep_typed strategy p \<Longrightarrow> small_parameters p \<and> rp_strategyType p = strategy"
  by (simp add: sweep_typed_def small_parameters_def)

lemma set_picked: "set (picked picks xs) \<subseteq> set xs"
  unfolding picked_def by (auto dest: set_zip_rightD)

section \<open>Writing rows\<close>

lemma emit_cells_ok: "snd (emit_cells cs) = None \<longleftrightarrow> list_all res_ok cs"
  by (induction cs rule: emit_cells.induct) (auto split: prod.splits)

lemma emit_cells_error: "snd (emit_cells cs) = Some e \<Longrightarrow> Inl e \<in> set cs"
  by (induction cs rule: emit_cells.induct) (auto split: prod.splits)

lemma emit_rows_ok: "snd (emit_rows rs) = None \<longleftrightarrow> list_all (list_all res_ok) rs"
proof (induction rs)
  case (Cons r rs)
  then show ?case using emit_cells_ok [of r] by (auto split: prod.splits option.splits)
qed simp

lemma emit_rows_error: "snd (emit_rows rs) = Some e \<Longrightarrow> \<exists>r\<in>set rs. Inl e \<in> set r"
proof (induction rs)
  case (Cons r rs)
  then show ?case using emit_cells_error [of r e] by (auto split: prod.splits option.splits)
qed simp

lemma emit_rows_length:
  "length (fst (emit_rows rs)) = length (takeWhile (list_all res_ok) rs) + (if list_all (list_all res_ok) rs then 0 else 1)"
proof (induction rs)
  case (Cons r rs)
  then show ?case using emit_cells_ok [of r] by (auto split: prod.splits option.splits)
qed simp

text \<open>A result with an error rate and a bandwidth for each of the three applications.\<close>

definition has_three :: "run_info \<Rightarrow> bool" where
  "has_three r \<longleftrightarrow> 3 \<le> length (applicationBandWidth r) \<and> 3 \<le> length (applicationErrorRates r)"

lemma dbl_cell_ok: "res_ok (dbl_cell ds i) \<longleftrightarrow> i < length ds"
  by (simp add: dbl_cell_def vec_at_def)

lemma dbl_cell_error: "dbl_cell ds i = Inl e \<Longrightarrow> e = OutOfRange"
  by (auto simp: dbl_cell_def vec_at_def split: if_splits)

lemma run_info_row_ok: "list_all res_ok (run_info_row i r) \<longleftrightarrow> has_three r"
  by (auto simp: run_info_row_def Let_def dbl_cell_ok has_three_def)

lemma run_info_row_error: "Inl e \<in> set (run_info_row i r) \<Longrightarrow> e = OutOfRange"
  by (auto simp: run_info_row_def Let_def dest!: dbl_cell_error [OF sym])

lemma run_info_rows:
  "map (list_all res_ok) (map (\<lambda>i. run_info_row i (results ! i)) [0..<length results]) = map has_three results"
  by (intro nth_equalityI) (simp_all add: run_info_row_ok)

lemma takeWhile_length: "length (takeWhile P xs) = length (takeWhile id (map P xs))"
  by (simp add: takeWhile_map comp_def id_def)

lemma has_three_report: "has_three (report tr p) \<longleftrightarrow> 0 < delivered_from 1 tr \<and> 0 < delivered_from 2 tr \<and> 0 < delivered_from 3 tr"
  by (simp add: has_three_def report_def RunInfo_def Let_def)

section \<open>Properties\<close>

text \<open>
  C28. The sweep is a sample of all runs: the nested loops with their counters, indices and bounds-checked
  accesses do the same as drawing once for each of the 1259712 parameter tuples, in order, and then
  running the simulations of the picked ones one after the other; \<open>innerMost\<close> ends as the number of
  tuples and \<open>iteration\<close> as the number of runs. This holds whatever a run does, not returning included.
\<close>

theorem sweep_is_sampled_runs:
  "sweep env uniform strategy gen proc =
     (case draws uniform 1259712 gen of (picks, gen') \<Rightarrow>
      out_bind (run_all env (picked picks (sweep_parameters strategy)) ([], proc)) (\<lambda>(results, proc').
        Some (Inr \<lparr>innerMost = 1259712, iteration = of_nat (length (picked picks (sweep_parameters strategy))),
                   sw_results = results, sw_gen = gen', sw_process = proc'\<rparr>)))"
  unfolding sweep_fold sweep_body_fold length_sweep_parameters
  by (simp add: sampled_state_def length_sweep_parameters case_prod_unfold)

text \<open>
  C29. What the body of the loops passes to \<open>RunSimulation\<close> is well-typed, and complete: for the tuples
  the program computes no access is out of bounds, at every position of the loops the parameters have
  peaks from 1 to 12, noises from 1 to 3, shifts of 50, 100 or 150 seconds and the strategy of the
  sweep, and all parameters of this kind occur, each at exactly one of the 1259712 positions.
\<close>

theorem sweep_parameters_type:
  assumes "getPermutationsWithRepetitionOfKelementsOfLengthN 3 12 = Inr peaks"
    and "getPermutationsWithRepetitionOfKelementsOfLengthN 3 3 = Inr triples"
  shows "length peaks * length triples * length triples = 1259712 \<and>
    (\<forall>i<length peaks. \<forall>j<length triples. \<forall>l<length triples.
       \<exists>p. combination_parameters peaks triples triples strategy i j l = Inr p \<and> sweep_typed strategy p) \<and>
    (\<forall>p. sweep_typed strategy p \<longrightarrow>
       (\<exists>!(i, j, l). i < length peaks \<and> j < length triples \<and> l < length triples \<and>
          combination_parameters peaks triples triples strategy i j l = Inr p))"
proof -
  have e: "peaks = tuples 3 12" "triples = tuples 3 3" using assms by (simp_all add: all_tuples)
  have "sweep_typed strategy (tuple_parameters strategy (tuples 3 12 ! i, tuples 3 3 ! j, tuples 3 3 ! l))"
    if "i < length (tuples 3 12)" "j < length (tuples 3 3)" "l < length (tuples 3 3)" for i j l
    using that by (intro sweep_parameters_typed)
      (simp add: sweep_parameters_def sweep_tuples_iff image_eqI del: tuple_parameters.simps)
  then show ?thesis
    using position_unique unfolding e by (simp add: combination_parameters_tuple length_tuples del: tuple_parameters.simps)
qed

theorem sweep_parameters_type_witness:
  "\<exists>peaks triples. getPermutationsWithRepetitionOfKelementsOfLengthN 3 12 = Inr peaks \<and>
     getPermutationsWithRepetitionOfKelementsOfLengthN 3 3 = Inr triples \<and>
     (\<exists>!(i, j, l). i < length peaks \<and> j < length triples \<and> l < length triples \<and>
        combination_parameters peaks triples triples RANDOM i j l = Inr (RunParameters 12 1 7 3 2 1 50 150 100 RANDOM))"
proof -
  have "sweep_typed RANDOM (RunParameters 12 1 7 3 2 1 50 150 100 RANDOM)"
    by (simp add: sweep_typed_def RunParameters_def)
  then have "\<exists>!(i, j, l). i < length (tuples 3 12) \<and> j < length (tuples 3 3) \<and> l < length (tuples 3 3) \<and>
      combination_parameters (tuples 3 12) (tuples 3 3) (tuples 3 3) RANDOM i j l = Inr (RunParameters 12 1 7 3 2 1 50 150 100 RANDOM)"
    using conjunct2 [OF conjunct2 [OF sweep_parameters_type [OF all_tuples(2,1), of RANDOM]],
        THEN spec, of "RunParameters 12 1 7 3 2 1 50 150 100 RANDOM", THEN mp] by blast
  then show ?thesis by (intro exI conjI) (rule all_tuples, rule all_tuples)
qed


text \<open>A generator that picks the first tuple only.\<close>

definition first_only :: "int \<Rightarrow> int \<Rightarrow> nat \<Rightarrow> int \<times> nat" where
  "first_only a b n = (if n = 0 then a else b, n + 1)"


text \<open>
  C31. The results file is complete exactly when every result has three error rates and three bandwidths;
  otherwise the writer throws \<open>out_of_range\<close> in the row of the first result that has fewer, after which
  nothing is written, and the program ends. The report of a run has three exactly when every
  application had a packet that left uncorrupted.
\<close>

theorem results_file_needs_three:
  "snd (printRunInfosToFile True results) = (if list_all has_three results then None else Some OutOfRange) \<and>
   length (fst (printRunInfosToFile True results)) =
     length (takeWhile has_three results) + (if list_all has_three results then 0 else 1) \<and>
   (has_three (report tr p) \<longleftrightarrow> 0 < delivered_from 1 tr \<and> 0 < delivered_from 2 tr \<and> 0 < delivered_from 3 tr)"
proof -
  let ?rows = "map (\<lambda>i. run_info_row i (results ! i)) [0..<length results]"
  have all: "list_all (list_all res_ok) ?rows \<longleftrightarrow> list_all has_three results"
    using arg_cong [OF run_info_rows, of "list_all id" results] by (simp add: list_all_iff)
  have "snd (emit_rows ?rows) = (if list_all has_three results then None else Some OutOfRange)"
  proof (cases "snd (emit_rows ?rows)")
    case None
    then show ?thesis using emit_rows_ok [of ?rows] all by simp
  next
    case (Some e)
    then have "e = OutOfRange" using emit_rows_error [OF Some] run_info_row_error by auto
    then show ?thesis using Some emit_rows_ok [of ?rows] all by simp
  qed
  moreover have "length (takeWhile (list_all res_ok) ?rows) = length (takeWhile has_three results)"
    unfolding takeWhile_length [of "list_all res_ok"] takeWhile_length [of has_three] run_info_rows ..
  ultimately show ?thesis
    by (simp add: printRunInfosToFile_def emit_rows_length all has_three_report)
qed

end
