(* ===== verification/Ns3_Buffer.thy ===== *)
theory Ns3_Buffer
  imports Prelude
begin

text \<open>
  The offsets of a \<open>Buffer\<close> (\<open>network/model/buffer.h\<close>, \<open>buffer.cc\<close>): bytes up to a run of zeros that is not
  stored, the zeros, and bytes after them. Here are the operations that take bytes away, and what is left of the
  buffer's size. The stored bytes and the operations that add space for more are not modelled.
\<close>

section \<open>The offsets\<close>

record buffer_offsets =
  bo_start :: u32
  bo_zeroAreaStart :: u32
  bo_zeroAreaEnd :: u32
  bo_end :: u32
  bo_maxZeroAreaStart :: u32

definition Buffer_GetSize :: "buffer_offsets \<Rightarrow> u32" where
  "Buffer_GetSize b = bo_end b - bo_start b"

definition note_zeroArea :: "buffer_offsets \<Rightarrow> buffer_offsets" where
  "note_zeroArea b = b\<lparr>bo_maxZeroAreaStart := max (bo_maxZeroAreaStart b) (bo_zeroAreaStart b)\<rparr>"

definition Buffer_RemoveAtStart :: "u32 \<Rightarrow> buffer_offsets \<Rightarrow> buffer_offsets res" where
  "Buffer_RemoveAtStart start b =
     (let newStart = bo_start b + start in
      if newStart \<le> bo_zeroAreaStart b then Inr (note_zeroArea (b\<lparr>bo_start := newStart\<rparr>))
      else if newStart \<le> bo_zeroAreaEnd b then
        let delta = newStart - bo_zeroAreaStart b in
        Inr (note_zeroArea (b\<lparr>bo_start := bo_zeroAreaStart b, bo_zeroAreaEnd := bo_zeroAreaEnd b - delta,
                             bo_end := bo_end b - delta\<rparr>))
      else if newStart \<le> bo_end b then
        if \<not> start \<le> bo_end b then Inl (AssertFailed ''m_end >= start'')
        else
          let zeroSize = bo_zeroAreaEnd b - bo_zeroAreaStart b;
              m_start = newStart - zeroSize
          in Inr (note_zeroArea (b\<lparr>bo_start := m_start, bo_end := bo_end b - zeroSize,
                                  bo_zeroAreaStart := m_start, bo_zeroAreaEnd := m_start\<rparr>))
      else
        let m_end = bo_end b - (bo_zeroAreaEnd b - bo_zeroAreaStart b) in
        Inr (note_zeroArea (b\<lparr>bo_end := m_end, bo_start := m_end, bo_zeroAreaEnd := m_end, bo_zeroAreaStart := m_end\<rparr>)))"

definition Buffer_RemoveAtEnd :: "u32 \<Rightarrow> buffer_offsets \<Rightarrow> buffer_offsets" where
  "Buffer_RemoveAtEnd stop b =
     (let newEnd = bo_end b - min stop (bo_end b - bo_start b) in
      note_zeroArea
       (if bo_zeroAreaEnd b < newEnd then b\<lparr>bo_end := newEnd\<rparr>
        else if bo_zeroAreaStart b < newEnd then b\<lparr>bo_end := newEnd, bo_zeroAreaEnd := newEnd\<rparr>
        else if bo_start b < newEnd then
          b\<lparr>bo_end := newEnd, bo_zeroAreaEnd := newEnd, bo_zeroAreaStart := newEnd\<rparr>
        else b\<lparr>bo_end := bo_start b, bo_zeroAreaEnd := bo_start b, bo_zeroAreaStart := bo_start b\<rparr>))"

definition Buffer_CreateFragment :: "u32 \<Rightarrow> u32 \<Rightarrow> buffer_offsets \<Rightarrow> buffer_offsets res" where
  "Buffer_CreateFragment start len b =
     res_bind (Buffer_RemoveAtStart start b) (\<lambda>tmp.
     Inr (Buffer_RemoveAtEnd (Buffer_GetSize b - (start + len)) tmp))"

section \<open>What is left\<close>

definition offsets_ok :: "buffer_offsets \<Rightarrow> bool" where
  "offsets_ok b \<longleftrightarrow> bo_start b \<le> bo_zeroAreaStart b \<and> bo_zeroAreaStart b \<le> bo_zeroAreaEnd b \<and> bo_zeroAreaEnd b \<le> bo_end b"

lemma unat_less: "unat (b :: u32) \<le> unat a \<Longrightarrow> unat (a - b) = unat a - unat b"
  by (rule unat_sub) (simp add: word_le_nat_alt)

lemma RemoveAtEnd_ok:
  assumes ok: "offsets_ok b"
  shows "offsets_ok (Buffer_RemoveAtEnd stop b) \<and>
    unat (Buffer_GetSize (Buffer_RemoveAtEnd stop b)) = unat (Buffer_GetSize b) - unat stop"
proof -
  obtain s zs ze e m where b: "b = \<lparr>bo_start = s, bo_zeroAreaStart = zs, bo_zeroAreaEnd = ze, bo_end = e, bo_maxZeroAreaStart = m\<rparr>"
    by (cases b)
  have o: "unat s \<le> unat zs" "unat zs \<le> unat ze" "unat ze \<le> unat e"
    using ok by (simp_all add: offsets_ok_def b word_le_nat_alt)
  have se: "unat (e - s) = unat e - unat s" by (rule unat_less) (use o in linarith)
  define n where "n = e - min stop (e - s)"
  have m': "unat (min stop (e - s)) = min (unat stop) (unat e - unat s)" by (simp add: min_def word_le_nat_alt se)
  have "unat n = unat e - unat (min stop (e - s))" unfolding n_def by (rule unat_less) (simp add: m')
  then have n: "unat n = unat e - min (unat stop) (unat e - unat s)" by (simp add: m')
  have sn: "unat s \<le> unat n" "unat n \<le> unat e" "unat n - unat s = (unat e - unat s) - unat stop" using n o by linarith+
  have ns: "unat (n - s) = (unat e - unat s) - unat stop" using unat_less [OF sn(1)] sn(3) by simp
  have r: "Buffer_RemoveAtEnd stop b = note_zeroArea
       (if ze < n then b\<lparr>bo_end := n\<rparr> else if zs < n then b\<lparr>bo_end := n, bo_zeroAreaEnd := n\<rparr>
        else if s < n then b\<lparr>bo_end := n, bo_zeroAreaEnd := n, bo_zeroAreaStart := n\<rparr>
        else b\<lparr>bo_end := s, bo_zeroAreaEnd := s, bo_zeroAreaStart := s\<rparr>)"
    by (simp add: Buffer_RemoveAtEnd_def b n_def Let_def)
  consider "ze < n" | "\<not> ze < n" "zs < n" | "\<not> ze < n" "\<not> zs < n" "s < n" | "\<not> ze < n" "\<not> zs < n" "\<not> s < n" by blast
  then show ?thesis
  proof cases
    case 4
    then have "unat n = unat s" using sn(1) by (simp add: word_less_nat_alt)
    then show ?thesis using 4 o se sn by (simp add: b r [unfolded b] note_zeroArea_def offsets_ok_def Buffer_GetSize_def)
  qed (use o se ns sn in \<open>simp_all add: b r [unfolded b] note_zeroArea_def offsets_ok_def Buffer_GetSize_def word_le_nat_alt word_less_nat_alt\<close>)
qed

lemma RemoveAtStart_ok:
  assumes ok: "offsets_ok b" and small: "unat (bo_start b) + unat start < 4294967296"
  shows "\<exists>b'. Buffer_RemoveAtStart start b = Inr b' \<and> offsets_ok b' \<and>
    unat (Buffer_GetSize b') = unat (Buffer_GetSize b) - unat start"
proof -
  obtain s zs ze e m where b: "b = \<lparr>bo_start = s, bo_zeroAreaStart = zs, bo_zeroAreaEnd = ze, bo_end = e, bo_maxZeroAreaStart = m\<rparr>"
    by (cases b)
  have o: "unat s \<le> unat zs" "unat zs \<le> unat ze" "unat ze \<le> unat e"
    using ok by (simp_all add: offsets_ok_def b word_le_nat_alt)
  define n where "n = s + start"
  have n: "unat n = unat s + unat start" using small by (simp add: n_def b unat_u32_add)
  have se: "unat (e - s) = unat e - unat s" by (rule unat_less) (use o in linarith)
  have z: "unat (ze - zs) = unat ze - unat zs" using o by (simp add: unat_less)
  consider (a) "unat n \<le> unat zs" | (b) "unat zs < unat n" "unat n \<le> unat ze" | (c) "unat ze < unat n" "unat n \<le> unat e"
    | (d) "unat e < unat n" by linarith
  then show ?thesis
  proof cases
    case a
    then have "unat (e - n) = unat e - unat n" using o by (intro unat_less) linarith
    then show ?thesis using a o n se
      by (simp add: Buffer_RemoveAtStart_def n_def [symmetric] b note_zeroArea_def offsets_ok_def Buffer_GetSize_def word_le_nat_alt)
  next
    case b
    have d: "unat (n - zs) = unat n - unat zs" using b by (intro unat_less) linarith
    have x: "unat (ze - (n - zs)) = unat ze - unat (n - zs)" "unat (e - (n - zs)) = unat e - unat (n - zs)"
      using b o d by (intro unat_less; linarith)+
    have "unat (e - (n - zs) - zs) = unat (e - (n - zs)) - unat zs" using b o d x by (intro unat_less) linarith
    then show ?thesis using b o n se d x
      by (auto simp: Buffer_RemoveAtStart_def n_def [symmetric] \<open>b = _\<close> note_zeroArea_def offsets_ok_def Buffer_GetSize_def word_le_nat_alt Let_def)
  next
    case c
    have x: "unat (n - (ze - zs)) = unat n - unat (ze - zs)" "unat (e - (ze - zs)) = unat e - unat (ze - zs)"
      using c o z by (intro unat_less; linarith)+
    have "unat (e - (ze - zs) - (n - (ze - zs))) = unat (e - (ze - zs)) - unat (n - (ze - zs))"
      using c o z x by (intro unat_less) linarith
    then show ?thesis using c o n se z x
      by (auto simp: Buffer_RemoveAtStart_def n_def [symmetric] \<open>b = _\<close> note_zeroArea_def offsets_ok_def Buffer_GetSize_def word_le_nat_alt Let_def)
  next
    case d
    then show ?thesis using o n se
      by (auto simp: Buffer_RemoveAtStart_def n_def [symmetric] \<open>b = _\<close> note_zeroArea_def offsets_ok_def Buffer_GetSize_def word_le_nat_alt Let_def)
  qed
qed

end
