(* ===== verification/Ns3_Byte_Tags.thy ===== *)
theory Ns3_Byte_Tags
  imports Ns3_Address
begin

text \<open>
  \<open>ByteTagList\<close> (\<open>network/model/byte-tag-list.h\<close>, \<open>byte-tag-list.cc\<close>): the tags on the bytes of a packet,
  serialized one after the other into a block of memory that several lists may share. A list appends
  in place when it is the only one that uses the block or the last that wrote to it, and copies the
  block otherwise; freed blocks are kept in a free list. The blocks are an explicit store here.
\<close>

section \<open>The blocks\<close>

text \<open>\<open>td_data\<close> has all bytes that were allocated, which can be more than \<open>td_size\<close>.\<close>

record byte_tag_data =
  td_size :: u32
  td_count :: u32
  td_dirty :: u32
  td_data :: "u8 list"

text \<open>
  The heap of the blocks, the next address, \<open>g_freeList\<close> with the back first, and \<open>g_maxSize\<close>. \<open>ts_junk\<close>
  is what memory holds that was just allocated.
\<close>

record tag_store =
  ts_data :: "nat \<Rightarrow> byte_tag_data option"
  ts_next :: nat
  g_freeList :: "nat list"
  g_maxSize :: u32
  ts_junk :: "nat \<Rightarrow> u8"

definition td_at :: "tag_store \<Rightarrow> nat \<Rightarrow> byte_tag_data res" where
  "td_at h a = (case ts_data h a of None \<Rightarrow> Inl (Undefined ''dangling ByteTagListData'') | Some d \<Rightarrow> Inr d)"

definition td_put :: "nat \<Rightarrow> byte_tag_data \<Rightarrow> tag_store \<Rightarrow> tag_store" where
  "td_put a d h = h\<lparr>ts_data := (ts_data h)(a \<mapsto> d)\<rparr>"

definition td_delete :: "nat \<Rightarrow> tag_store \<Rightarrow> tag_store" where
  "td_delete a h = h\<lparr>ts_data := (ts_data h)(a := None)\<rparr>"

definition FREE_LIST_SIZE :: nat where "FREE_LIST_SIZE = 1000"

text \<open>Blocks of the free list that are too small are given back on the way.\<close>

fun Allocate_loop :: "u32 \<Rightarrow> nat list \<Rightarrow> tag_store \<Rightarrow> (nat option \<times> tag_store) res" where
  "Allocate_loop sz [] h = Inr (None, h\<lparr>g_freeList := []\<rparr>)"
| "Allocate_loop sz (a # as) h =
     res_bind (td_at h a) (\<lambda>d.
     if sz \<le> td_size d
     then Inr (Some a, td_put a (d\<lparr>td_count := 1, td_dirty := 0\<rparr>) (h\<lparr>g_freeList := as\<rparr>))
     else Allocate_loop sz as (td_delete a h))"

definition Allocate :: "u32 \<Rightarrow> tag_store \<Rightarrow> (nat \<times> tag_store) res" where
  "Allocate sz h =
     res_bind (Allocate_loop sz (g_freeList h) h) (\<lambda>(r, h).
     case r of
       Some a \<Rightarrow> Inr (a, h)
     | None \<Rightarrow>
         let data = \<lparr>td_size = sz, td_count = 1, td_dirty = 0,
                     td_data = map (ts_junk h) [0..<unat (max sz (g_maxSize h))]\<rparr>
         in Inr (ts_next h, (td_put (ts_next h) data h)\<lparr>ts_next := ts_next h + 1\<rparr>))"

definition Deallocate :: "nat option \<Rightarrow> tag_store \<Rightarrow> tag_store res" where
  "Deallocate data h =
     (case data of
        None \<Rightarrow> Inr h
      | Some a \<Rightarrow>
          res_bind (td_at h a) (\<lambda>d.
          let maxSize = max (g_maxSize h) (td_size d);
              d = d\<lparr>td_count := td_count d - 1\<rparr>;
              h = (td_put a d h)\<lparr>g_maxSize := maxSize\<rparr>
          in if td_count d = 0 then
               if FREE_LIST_SIZE < length (g_freeList h) \<or> td_size d < maxSize then Inr (td_delete a h)
               else Inr (h\<lparr>g_freeList := a # g_freeList h\<rparr>)
             else Inr h))"

section \<open>Signed arithmetic\<close>

text \<open>
  \<open>int32_t\<close> is an integer; its overflow is undefined. Mixed with \<open>uint32_t\<close> the arithmetic is unsigned and
  wraps.
\<close>

definition i32_arith :: "int \<Rightarrow> int res" where
  "i32_arith x = (if - 2147483648 \<le> x \<and> x \<le> 2147483647 then Inr x else Inl (Undefined ''signed overflow''))"

definition INT32_MAX :: int where "INT32_MAX = 2147483647"
definition INT32_MIN :: int where "INT32_MIN = - 2147483648"

section \<open>Buffers inside a block\<close>

text \<open>A \<open>TagBuffer\<close> that points into a block: from its current position to its end.\<close>

record tag_region =
  tr_data :: nat
  tr_from :: nat
  tr_to :: nat

definition region_bytes :: "tag_region \<Rightarrow> tag_store \<Rightarrow> u8 list res" where
  "region_bytes r h =
     res_bind (td_at h (tr_data r)) (\<lambda>d.
     if tr_from r \<le> tr_to r \<and> tr_to r \<le> length (td_data d)
     then Inr (take (tr_to r - tr_from r) (drop (tr_from r) (td_data d)))
     else Inl (Undefined ''TagBuffer outside of its data''))"

text \<open>What is written through a \<open>TagBuffer\<close> lands in the block.\<close>

definition write_region ::
  "(tag_buffer \<Rightarrow> tag_buffer res) \<Rightarrow> tag_region \<Rightarrow> tag_store \<Rightarrow> (tag_region \<times> tag_store) res" where
  "write_region f r h =
     res_bind (region_bytes r h) (\<lambda>bytes.
     res_bind (f (TagBuffer bytes)) (\<lambda>b.
     res_bind (td_at h (tr_data r)) (\<lambda>d.
     Inr (r\<lparr>tr_from := tr_from r + tb_current b\<rparr>,
          td_put (tr_data r) (d\<lparr>td_data := take (tr_from r) (td_data d) @ tb_bytes b @ drop (tr_to r) (td_data d)\<rparr>) h))))"

definition TagBuffer_CopyFrom :: "u8 list \<Rightarrow> tag_buffer \<Rightarrow> tag_buffer res" where
  "TagBuffer_CopyFrom bytes b =
     (let n = length bytes; c = tb_current b in
      if n \<le> length (tb_bytes b) - c
      then Inr \<lparr>tb_bytes = take c (tb_bytes b) @ bytes @ drop (c + n) (tb_bytes b), tb_current = c + n\<rparr>
      else Inl (AssertFailed ''size <= (uintptr_t)(m_end - m_current)''))"

definition copy_region :: "tag_region \<Rightarrow> tag_region \<Rightarrow> tag_store \<Rightarrow> tag_store res" where
  "copy_region dst src h =
     res_bind (region_bytes src h) (\<lambda>bytes.
     res_bind (write_region (TagBuffer_CopyFrom bytes) dst h) (\<lambda>(r, h). Inr h))"

section \<open>The list\<close>

record byte_tag_list =
  bt_minStart :: int
  bt_maxEnd :: int
  bt_adjustment :: int
  bt_used :: u32
  bt_data :: "nat option"

definition ByteTagList :: byte_tag_list where
  "ByteTagList = \<lparr>bt_minStart = INT32_MAX, bt_maxEnd = INT32_MIN, bt_adjustment = 0, bt_used = 0, bt_data = None\<rparr>"

text \<open>The copy constructor, the assignment of another list, and the destructor.\<close>

definition share :: "nat option \<Rightarrow> tag_store \<Rightarrow> tag_store res" where
  "share data h =
     (case data of
        None \<Rightarrow> Inr h
      | Some a \<Rightarrow> res_bind (td_at h a) (\<lambda>d. Inr (td_put a (d\<lparr>td_count := td_count d + 1\<rparr>) h)))"

definition ByteTagList_copy :: "byte_tag_list \<Rightarrow> tag_store \<Rightarrow> (byte_tag_list \<times> tag_store) res" where
  "ByteTagList_copy src h = res_bind (share (bt_data src) h) (\<lambda>h. Inr (src, h))"

definition ByteTagList_assign ::
  "byte_tag_list \<Rightarrow> byte_tag_list \<Rightarrow> tag_store \<Rightarrow> (byte_tag_list \<times> tag_store) res" where
  "ByteTagList_assign this src h =
     res_bind (Deallocate (bt_data this) h) (\<lambda>h. res_bind (share (bt_data src) h) (\<lambda>h. Inr (src, h)))"

definition ByteTagList_destroy :: "byte_tag_list \<Rightarrow> tag_store \<Rightarrow> tag_store res" where
  "ByteTagList_destroy this h = Deallocate (bt_data this) h"

text \<open>The block into which \<open>Add\<close> writes: a new one, a copy, or the one the list has.\<close>

definition block_for :: "u32 \<Rightarrow> byte_tag_list \<Rightarrow> tag_store \<Rightarrow> (nat \<times> tag_store) res" where
  "block_for spaceNeeded l h =
     (case bt_data l of
        None \<Rightarrow> Allocate spaceNeeded h
      | Some a \<Rightarrow>
          res_bind (td_at h a) (\<lambda>d.
          if td_size d < spaceNeeded \<or> (td_count d \<noteq> 1 \<and> td_dirty d \<noteq> bt_used l) then
            res_bind (Allocate spaceNeeded h) (\<lambda>(b, h).
            res_bind (td_at h a) (\<lambda>d.
            res_bind (td_at h b) (\<lambda>new.
            let n = unat (bt_used l) in
            if n \<le> length (td_data d) \<and> n \<le> length (td_data new) then
              res_bind (Deallocate (Some a)
                (td_put b (new\<lparr>td_data := take n (td_data d) @ drop n (td_data new)\<rparr>) h)) (\<lambda>h. Inr (b, h))
            else Inl (Undefined ''memcpy beyond the data''))))
          else Inr (a, h)))"

definition ByteTagList_Add ::
  "u32 \<Rightarrow> u32 \<Rightarrow> int \<Rightarrow> int \<Rightarrow> byte_tag_list \<Rightarrow> tag_store \<Rightarrow> (tag_region \<times> byte_tag_list \<times> tag_store) res" where
  "ByteTagList_Add tid bufferSize start stop l h =
     (let spaceNeeded = bt_used l + bufferSize + 4 + 4 + 4 + 4 in
      if \<not> bt_used l \<le> spaceNeeded then Inl (AssertFailed ''m_used <= spaceNeeded'')
      else
        res_bind (block_for spaceNeeded l h) (\<lambda>(a, h).
        let used = (if bt_data l = None then 0 else bt_used l) in
        res_bind (i32_arith (start - bt_adjustment l)) (\<lambda>s.
        res_bind (i32_arith (stop - bt_adjustment l)) (\<lambda>e.
        res_bind (write_region (\<lambda>b.
            res_bind (WriteU32 tid b) (\<lambda>b.
            res_bind (WriteU32 bufferSize b) (\<lambda>b.
            res_bind (WriteU32 (of_int s) b) (\<lambda>b.
            WriteU32 (of_int e) b))))
          \<lparr>tr_data = a, tr_from = unat used, tr_to = unat spaceNeeded\<rparr> h) (\<lambda>(tag, h).
        res_bind (td_at h a) (\<lambda>d.
        Inr (tag,
             l\<lparr>bt_minStart := min (bt_minStart l) s, bt_maxEnd := max (bt_maxEnd l) e,
               bt_used := spaceNeeded, bt_data := Some a\<rparr>,
             td_put a (d\<lparr>td_dirty := spaceNeeded\<rparr>) h)))))))"

definition ByteTagList_RemoveAll :: "byte_tag_list \<Rightarrow> tag_store \<Rightarrow> (byte_tag_list \<times> tag_store) res" where
  "ByteTagList_RemoveAll l h = res_bind (Deallocate (bt_data l) h) (\<lambda>h. Inr (ByteTagList, h))"

definition ByteTagList_Adjust :: "int \<Rightarrow> byte_tag_list \<Rightarrow> byte_tag_list res" where
  "ByteTagList_Adjust adjustment l =
     res_bind (i32_arith (bt_adjustment l + adjustment)) (\<lambda>x. Inr (l\<lparr>bt_adjustment := x\<rparr>))"

section \<open>The iterator\<close>

record byte_tag_iter =
  it_data :: "nat option"
  it_current :: nat
  it_end :: nat
  it_offsetStart :: int
  it_offsetEnd :: int
  it_adjustment :: int
  it_nextTid :: u32
  it_nextSize :: u32
  it_nextStart :: int
  it_nextEnd :: int

record byte_tag_item =
  bi_tid :: u32
  bi_size :: u32
  bi_start :: int
  bi_end :: int
  bi_buf :: tag_region

definition iter_HasNext :: "byte_tag_iter \<Rightarrow> bool" where
  "iter_HasNext it \<longleftrightarrow> it_current it < it_end it"

text \<open>The header of the tag at the current position.\<close>

definition read_header :: "byte_tag_iter \<Rightarrow> tag_store \<Rightarrow> byte_tag_iter res" where
  "read_header it h =
     (case it_data it of
        None \<Rightarrow> Inl (Undefined ''null pointer'')
      | Some a \<Rightarrow>
          res_bind (region_bytes \<lparr>tr_data = a, tr_from = it_current it, tr_to = it_end it\<rparr> h) (\<lambda>bytes.
          res_bind (ReadU32 (TagBuffer bytes)) (\<lambda>(tid, b).
          res_bind (ReadU32 b) (\<lambda>(sz, b).
          res_bind (ReadU32 b) (\<lambda>(start, b).
          res_bind (ReadU32 b) (\<lambda>(stop, b).
          Inr (it\<lparr>it_nextTid := tid, it_nextSize := sz,
                  it_nextStart := sint (start + of_int (it_adjustment it)),
                  it_nextEnd := sint (stop + of_int (it_adjustment it))\<rparr>)))))))"

text \<open>
  The loop over the tags outside of the range. A round that does not advance would repeat for ever, which is
  undefined for a loop without effects.
\<close>

fun PrepareForNext_loop :: "nat \<Rightarrow> byte_tag_iter \<Rightarrow> tag_store \<Rightarrow> byte_tag_iter res" where
  "PrepareForNext_loop 0 it h = Inl (Undefined ''endless loop'')"
| "PrepareForNext_loop (Suc n) it h =
     (if it_current it < it_end it then
        res_bind (read_header it h) (\<lambda>it.
        if it_offsetEnd it \<le> it_nextStart it \<or> it_nextEnd it \<le> it_offsetStart it
        then PrepareForNext_loop n (it\<lparr>it_current := it_current it + unat (4 + 4 + 4 + 4 + it_nextSize it)\<rparr>) h
        else Inr it)
      else Inr it)"

definition PrepareForNext :: "byte_tag_iter \<Rightarrow> tag_store \<Rightarrow> byte_tag_iter res" where
  "PrepareForNext it h = PrepareForNext_loop (Suc (it_end it - it_current it)) it h"

definition iter_Next :: "byte_tag_iter \<Rightarrow> tag_store \<Rightarrow> (byte_tag_item \<times> byte_tag_iter) res" where
  "iter_Next it h =
     (if \<not> iter_HasNext it then Inl (AssertFailed ''HasNext()'')
      else
        case it_data it of
          None \<Rightarrow> Inl (Undefined ''null pointer'')
        | Some a \<Rightarrow>
            let current = it_current it + unat (4 + 4 + 4 + 4 + it_nextSize it) in
            if \<not> (it_current it + 16 \<le> current \<and> current \<le> it_end it)
            then Inl (AssertFailed ''m_current <= (m_end - trim)'')
            else
              res_bind (PrepareForNext (it\<lparr>it_current := current\<rparr>) h) (\<lambda>it'.
              Inr (\<lparr>bi_tid = it_nextTid it, bi_size = it_nextSize it,
                    bi_start = max (it_nextStart it) (it_offsetStart it),
                    bi_end = min (it_nextEnd it) (it_offsetEnd it),
                    bi_buf = \<lparr>tr_data = a, tr_from = it_current it + 16, tr_to = current\<rparr>\<rparr>, it')))"

definition ByteTagList_Begin :: "int \<Rightarrow> int \<Rightarrow> byte_tag_list \<Rightarrow> tag_store \<Rightarrow> byte_tag_iter res" where
  "ByteTagList_Begin offsetStart offsetEnd l h =
     PrepareForNext
       \<lparr>it_data = bt_data l, it_current = 0,
        it_end = (if bt_data l = None then 0 else unat (bt_used l)), it_offsetStart = offsetStart,
        it_offsetEnd = offsetEnd, it_adjustment = (if bt_data l = None then 0 else bt_adjustment l),
        it_nextTid = 0, it_nextSize = 0, it_nextStart = 0, it_nextEnd = 0\<rparr> h"

definition ByteTagList_BeginAll :: "byte_tag_list \<Rightarrow> tag_store \<Rightarrow> byte_tag_iter res" where
  "ByteTagList_BeginAll l h = ByteTagList_Begin 0 INT32_MAX l h"

text \<open>
  \<open>while (i.HasNext ()) { item = i.Next (); body }\<close>; the list has at most as many tags as bytes.
\<close>

fun iter_loop ::
  "(byte_tag_item \<Rightarrow> 's \<times> tag_store \<Rightarrow> ('s \<times> tag_store) res) \<Rightarrow> nat \<Rightarrow> byte_tag_iter \<Rightarrow> 's \<times> tag_store \<Rightarrow>
     ('s \<times> tag_store) res" where
  "iter_loop body 0 it s = Inl (Undefined ''endless loop'')"
| "iter_loop body (Suc n) it s =
     (if iter_HasNext it then
        res_bind (iter_Next it (snd s)) (\<lambda>(item, it).
        res_bind (body item s) (iter_loop body n it))
      else Inr s)"

section \<open>Adding lists and cutting at offsets\<close>

text \<open>Adding a tag whose bytes are those of an item.\<close>

definition add_item ::
  "byte_tag_item \<Rightarrow> int \<Rightarrow> int \<Rightarrow> byte_tag_list \<times> tag_store \<Rightarrow> (byte_tag_list \<times> tag_store) res" where
  "add_item item start stop s =
     (case s of (l, h) \<Rightarrow>
        res_bind (ByteTagList_Add (bi_tid item) (bi_size item) start stop l h) (\<lambda>(buf, l, h).
        res_bind (copy_region buf (bi_buf item) h) (\<lambda>h. Inr (l, h))))"

definition ByteTagList_Add_list ::
  "byte_tag_list \<Rightarrow> byte_tag_list \<Rightarrow> tag_store \<Rightarrow> (byte_tag_list \<times> tag_store) res" where
  "ByteTagList_Add_list src this h =
     res_bind (ByteTagList_BeginAll src h) (\<lambda>i.
     iter_loop (\<lambda>item. add_item item (bi_start item) (bi_end item)) (Suc (unat (bt_used src))) i (this, h))"

definition ByteTagList_AddAtEnd :: "int \<Rightarrow> byte_tag_list \<Rightarrow> tag_store \<Rightarrow> (byte_tag_list \<times> tag_store) res" where
  "ByteTagList_AddAtEnd appendOffset this h =
     res_bind (i32_arith (appendOffset - bt_adjustment this)) (\<lambda>x.
     if bt_maxEnd this \<le> x then Inr (this, h)
     else
       res_bind (ByteTagList_BeginAll this h) (\<lambda>i.
       res_bind (iter_loop
           (\<lambda>item s. if appendOffset \<le> bi_start item then Inr s
                     else add_item item (bi_start item) (min (bi_end item) appendOffset) s)
           (Suc (unat (bt_used this))) i (ByteTagList, h)) (\<lambda>(list, h).
       res_bind (ByteTagList_assign this list h) (\<lambda>(this, h).
       res_bind (ByteTagList_destroy list h) (\<lambda>h. Inr (this, h))))))"

definition ByteTagList_AddAtStart :: "int \<Rightarrow> byte_tag_list \<Rightarrow> tag_store \<Rightarrow> (byte_tag_list \<times> tag_store) res" where
  "ByteTagList_AddAtStart prependOffset this h =
     res_bind (i32_arith (prependOffset - bt_adjustment this)) (\<lambda>x.
     if x \<le> bt_minStart this then Inr (this, h)
     else
       res_bind (ByteTagList_BeginAll this h) (\<lambda>i.
       res_bind (iter_loop
           (\<lambda>item s. if bi_end item \<le> prependOffset then Inr s
                     else add_item item (max (bi_start item) prependOffset) (bi_end item) s)
           (Suc (unat (bt_used this))) i (ByteTagList, h)) (\<lambda>(list, h).
       res_bind (ByteTagList_assign this list h) (\<lambda>(this, h).
       res_bind (ByteTagList_destroy list h) (\<lambda>h. Inr (this, h))))))"

end
