(* ===== verification/Ns3_Packet.thy ===== *)
theory Ns3_Packet
  imports Ns3_Buffer Ns3_Byte_Tags
begin

text \<open>
  \<open>Packet\<close> (\<open>network/model/packet.h\<close>, \<open>packet.cc\<close>) as far as its size and its byte tags go: the packet has the
  size of its \<open>Buffer\<close> and a \<open>ByteTagList\<close>. What the bytes are, the packet tags, the metadata and the nix vector
  do not act on either.
\<close>

record packet =
  pk_size :: u32
  pk_tags :: byte_tag_list

section \<open>The size of a buffer\<close>

text \<open>A \<open>Packet\<close> needs of its buffer how many bytes are left; \<open>Ns3_Buffer\<close> shows that these are.\<close>

definition size_RemoveAtStart :: "u32 \<Rightarrow> u32 \<Rightarrow> u32" where
  "size_RemoveAtStart start sz = sz - min start sz"

definition size_RemoveAtEnd :: "u32 \<Rightarrow> u32 \<Rightarrow> u32" where
  "size_RemoveAtEnd stop sz = sz - min stop sz"

definition size_CreateFragment :: "u32 \<Rightarrow> u32 \<Rightarrow> u32 \<Rightarrow> u32" where
  "size_CreateFragment start len sz = size_RemoveAtEnd (sz - (start + len)) (size_RemoveAtStart start sz)"

lemma unat_remove: "unat (sz - min n sz :: u32) = unat sz - unat n"
proof (cases "n \<le> sz")
  case True
  then show ?thesis by (simp add: min_def unat_sub)
next
  case False
  then have "sz \<le> n" by simp
  then show ?thesis using False by (simp add: min_def word_le_nat_alt)
qed

lemma size_buffer_left:
  assumes "offsets_ok b"
  shows "Buffer_GetSize (Buffer_RemoveAtEnd n b) = size_RemoveAtEnd n (Buffer_GetSize b)"
    and "unat (bo_start b) + unat n < 4294967296 \<Longrightarrow>
      \<exists>b'. Buffer_RemoveAtStart n b = Inr b' \<and> Buffer_GetSize b' = size_RemoveAtStart n (Buffer_GetSize b)"
    and "unat (bo_start b) + unat n < 4294967296 \<Longrightarrow>
      \<exists>b'. Buffer_CreateFragment n len b = Inr b' \<and> Buffer_GetSize b' = size_CreateFragment n len (Buffer_GetSize b)"
proof -
  have e: "Buffer_GetSize (Buffer_RemoveAtEnd k c) = size_RemoveAtEnd k (Buffer_GetSize c)" if "offsets_ok c" for c k
    using RemoveAtEnd_ok [OF that, of k] unat_remove [of "Buffer_GetSize c" k] by (simp add: word_unat_eq_iff size_RemoveAtEnd_def)
  then show "Buffer_GetSize (Buffer_RemoveAtEnd n b) = size_RemoveAtEnd n (Buffer_GetSize b)" using assms by blast
  assume "unat (bo_start b) + unat n < 4294967296"
  from RemoveAtStart_ok [OF assms this] obtain b' where b: "Buffer_RemoveAtStart n b = Inr b'" "offsets_ok b'"
      "Buffer_GetSize b' = size_RemoveAtStart n (Buffer_GetSize b)"
    using unat_remove [of "Buffer_GetSize b" n] by (auto simp: word_unat_eq_iff size_RemoveAtStart_def)
  then show "\<exists>b'. Buffer_RemoveAtStart n b = Inr b' \<and> Buffer_GetSize b' = size_RemoveAtStart n (Buffer_GetSize b)" by blast
  show "\<exists>b'. Buffer_CreateFragment n len b = Inr b' \<and> Buffer_GetSize b' = size_CreateFragment n len (Buffer_GetSize b)"
    using b e [OF b(2)] by (simp add: Buffer_CreateFragment_def size_CreateFragment_def)
qed

section \<open>Packets\<close>

definition Packet :: "u32 \<Rightarrow> packet" where
  "Packet sz = \<lparr>pk_size = sz, pk_tags = ByteTagList\<rparr>"

definition Packet_Copy :: "packet \<Rightarrow> tag_store \<Rightarrow> (packet \<times> tag_store) res" where
  "Packet_Copy p h = res_bind (ByteTagList_copy (pk_tags p) h) (\<lambda>(l, h). Inr (p\<lparr>pk_tags := l\<rparr>, h))"

definition Packet_destroy :: "packet \<Rightarrow> tag_store \<Rightarrow> tag_store res" where
  "Packet_destroy p h = ByteTagList_destroy (pk_tags p) h"

text \<open>\<open>Adjust (-start)\<close> takes an \<open>int32_t\<close>: the \<open>uint32_t\<close> wraps.\<close>

definition Packet_CreateFragment :: "u32 \<Rightarrow> u32 \<Rightarrow> packet \<Rightarrow> tag_store \<Rightarrow> (packet \<times> tag_store) res" where
  "Packet_CreateFragment start len p h =
     (let buffer = size_CreateFragment start len (pk_size p) in
      res_bind (ByteTagList_copy (pk_tags p) h) (\<lambda>(byteTagList, h).
      res_bind (ByteTagList_Adjust (sint (- start)) byteTagList) (\<lambda>byteTagList.
      if \<not> start + len \<le> pk_size p then Inl (AssertFailed ''m_buffer.GetSize() >= start + length'')
      else
        res_bind (ByteTagList_copy byteTagList h) (\<lambda>(l, h).
        res_bind (ByteTagList_destroy byteTagList h) (\<lambda>h.
        Inr (\<lparr>pk_size = buffer, pk_tags = l\<rparr>, h))))))"

section \<open>Headers and trailers\<close>

text \<open>\<open>sz\<close> is the serialized size of the header or trailer.\<close>

definition Packet_AddHeader :: "u32 \<Rightarrow> packet \<Rightarrow> tag_store \<Rightarrow> (packet \<times> tag_store) res" where
  "Packet_AddHeader sz p h =
     res_bind (ByteTagList_Adjust (sint sz) (pk_tags p)) (\<lambda>l.
     res_bind (ByteTagList_AddAtStart (sint sz) l h) (\<lambda>(l, h).
     Inr (\<lparr>pk_size = pk_size p + sz, pk_tags = l\<rparr>, h)))"

definition Packet_RemoveAtStart :: "u32 \<Rightarrow> packet \<Rightarrow> packet res" where
  "Packet_RemoveAtStart sz p =
     res_bind (ByteTagList_Adjust (sint (- sz)) (pk_tags p)) (\<lambda>l.
     Inr \<lparr>pk_size = size_RemoveAtStart sz (pk_size p), pk_tags = l\<rparr>)"

definition Packet_RemoveHeader :: "u32 \<Rightarrow> packet \<Rightarrow> packet res" where
  "Packet_RemoveHeader deserialized p =
     (let sz = size_RemoveAtStart deserialized (pk_size p) in
      res_bind (ByteTagList_Adjust (sint (- deserialized)) (pk_tags p)) (\<lambda>l.
      Inr \<lparr>pk_size = sz, pk_tags = l\<rparr>))"

definition Packet_AddTrailer :: "u32 \<Rightarrow> packet \<Rightarrow> tag_store \<Rightarrow> (packet \<times> tag_store) res" where
  "Packet_AddTrailer sz p h =
     res_bind (ByteTagList_AddAtEnd (sint (pk_size p)) (pk_tags p) h) (\<lambda>(l, h).
     Inr (\<lparr>pk_size = pk_size p + sz, pk_tags = l\<rparr>, h))"

definition Packet_RemoveTrailer :: "u32 \<Rightarrow> packet \<Rightarrow> packet" where
  "Packet_RemoveTrailer deserialized p = p\<lparr>pk_size := size_RemoveAtEnd deserialized (pk_size p)\<rparr>"

definition Packet_AddPaddingAtEnd :: "u32 \<Rightarrow> packet \<Rightarrow> tag_store \<Rightarrow> (packet \<times> tag_store) res" where
  "Packet_AddPaddingAtEnd sz p h =
     res_bind (ByteTagList_AddAtEnd (sint (pk_size p)) (pk_tags p) h) (\<lambda>(l, h).
     Inr (\<lparr>pk_size = pk_size p + sz, pk_tags = l\<rparr>, h))"

definition Packet_RemoveAtEnd :: "u32 \<Rightarrow> packet \<Rightarrow> packet" where
  "Packet_RemoveAtEnd sz p = p\<lparr>pk_size := size_RemoveAtEnd sz (pk_size p)\<rparr>"

text \<open>
  \<open>AddAtEnd\<close> adds a copy of the other packet's tags, without those before its start and moved to the end; the
  copy ends with the function. \<open>None\<close> stands for the packet itself.
\<close>

definition append_tags :: "u32 \<Rightarrow> byte_tag_list \<Rightarrow> byte_tag_list \<Rightarrow> tag_store \<Rightarrow> (byte_tag_list \<times> tag_store) res" where
  "append_tags sz other l h =
     res_bind (ByteTagList_copy other h) (\<lambda>(copy, h).
     res_bind (ByteTagList_AddAtStart 0 copy h) (\<lambda>(copy, h).
     res_bind (ByteTagList_Adjust (sint sz) copy) (\<lambda>copy.
     res_bind (ByteTagList_Add_list copy l h) (\<lambda>(l, h).
     res_bind (ByteTagList_destroy copy h) (\<lambda>h.
     Inr (l, h))))))"

definition Packet_AddAtEnd :: "packet option \<Rightarrow> packet \<Rightarrow> tag_store \<Rightarrow> (packet \<times> tag_store) res" where
  "Packet_AddAtEnd other p h =
     res_bind (ByteTagList_AddAtEnd (sint (pk_size p)) (pk_tags p) h) (\<lambda>(l, h).
     let p = p\<lparr>pk_tags := l\<rparr>;
         q = (case other of None \<Rightarrow> p | Some q \<Rightarrow> q)
     in
      res_bind (append_tags (pk_size p) (pk_tags q) (pk_tags p) h) (\<lambda>(l, h).
      Inr (\<lparr>pk_size = pk_size p + pk_size q, pk_tags = l\<rparr>, h)))"

section \<open>Byte tags\<close>

text \<open>A tag is given by its type, its serialized size and what its \<open>Serialize\<close> writes.\<close>

definition add_tag ::
  "u32 \<Rightarrow> u32 \<Rightarrow> (tag_buffer \<Rightarrow> tag_buffer res) \<Rightarrow> int \<Rightarrow> int \<Rightarrow> packet \<Rightarrow> tag_store \<Rightarrow> (packet \<times> tag_store) res" where
  "add_tag tid sz Serialize start stop p h =
     res_bind (ByteTagList_Add tid sz start stop (pk_tags p) h) (\<lambda>(buffer, l, h).
     res_bind (write_region Serialize buffer h) (\<lambda>(buffer, h).
     Inr (p\<lparr>pk_tags := l\<rparr>, h)))"

definition Packet_AddByteTag ::
  "u32 \<Rightarrow> u32 \<Rightarrow> (tag_buffer \<Rightarrow> tag_buffer res) \<Rightarrow> packet \<Rightarrow> tag_store \<Rightarrow> (packet \<times> tag_store) res" where
  "Packet_AddByteTag tid sz Serialize p h = add_tag tid sz Serialize 0 (sint (pk_size p)) p h"

definition Packet_AddByteTag_range ::
  "u32 \<Rightarrow> u32 \<Rightarrow> (tag_buffer \<Rightarrow> tag_buffer res) \<Rightarrow> u32 \<Rightarrow> u32 \<Rightarrow> packet \<Rightarrow> tag_store \<Rightarrow> (packet \<times> tag_store) res" where
  "Packet_AddByteTag_range tid sz Serialize start stop p h =
     (if stop < start then Inl (AbortMsg ''Invalid byte range'')
      else add_tag tid sz Serialize (sint start) (sint stop) p h)"

definition Packet_RemoveAllByteTags :: "packet \<Rightarrow> tag_store \<Rightarrow> (packet \<times> tag_store) res" where
  "Packet_RemoveAllByteTags p h =
     res_bind (ByteTagList_RemoveAll (pk_tags p) h) (\<lambda>(l, h). Inr (p\<lparr>pk_tags := l\<rparr>, h))"

definition GetByteTagIterator :: "packet \<Rightarrow> tag_store \<Rightarrow> byte_tag_iter res" where
  "GetByteTagIterator p h = ByteTagList_Begin 0 (sint (pk_size p)) (pk_tags p) h"

record tag_item =
  ti_tid :: u32
  ti_start :: u32
  ti_end :: u32
  ti_buffer :: tag_region

definition ByteTagIterator_Next :: "byte_tag_iter \<Rightarrow> tag_store \<Rightarrow> (tag_item \<times> byte_tag_iter) res" where
  "ByteTagIterator_Next it h =
     res_bind (iter_Next it h) (\<lambda>(i, it).
     Inr (\<lparr>ti_tid = bi_tid i, ti_start = of_int (bi_start i) - of_int (it_offsetStart it),
           ti_end = of_int (bi_end i) - of_int (it_offsetStart it), ti_buffer = bi_buf i\<rparr>, it))"

definition Item_GetTag :: "u32 \<Rightarrow> (tag_buffer \<Rightarrow> 'v res) \<Rightarrow> tag_item \<Rightarrow> tag_store \<Rightarrow> 'v res" where
  "Item_GetTag tid Deserialize item h =
     (if tid \<noteq> ti_tid item then Inl (FatalError ''The tag you provided is not of the right type.'')
      else res_bind (region_bytes (ti_buffer item) h) (\<lambda>bytes. Deserialize (TagBuffer bytes)))"

fun find_loop :: "u32 \<Rightarrow> (tag_buffer \<Rightarrow> 'v res) \<Rightarrow> nat \<Rightarrow> byte_tag_iter \<Rightarrow> tag_store \<Rightarrow> 'v option res" where
  "find_loop tid Deserialize 0 i h = Inl (Undefined ''endless loop'')"
| "find_loop tid Deserialize (Suc n) i h =
     (if iter_HasNext i then
        res_bind (ByteTagIterator_Next i h) (\<lambda>(item, i).
        if tid = ti_tid item
        then res_bind (Item_GetTag tid Deserialize item h) (\<lambda>v. Inr (Some v))
        else find_loop tid Deserialize n i h)
      else Inr None)"

text \<open>The value that the first matching tag is given, or \<open>None\<close> for \<open>false\<close>.\<close>

definition FindFirstMatchingByteTag ::
  "u32 \<Rightarrow> (tag_buffer \<Rightarrow> 'v res) \<Rightarrow> packet \<Rightarrow> tag_store \<Rightarrow> 'v option res" where
  "FindFirstMatchingByteTag tid Deserialize p h =
     res_bind (GetByteTagIterator p h) (\<lambda>i. find_loop tid Deserialize (Suc (unat (bt_used (pk_tags p)))) i h)"

end
