(* ===== verification/Byte_Tag_View.thy ===== *)
theory Byte_Tag_View
  imports Ns3_Byte_Tags
begin

text \<open>
  What a \<open>ByteTagList\<close> holds: the sequence of the tags that the first \<open>m_used\<close> bytes of its block encode.
  The invariant of the store counts the lists that use a block, and an operation on one list leaves what
  the others hold as it is, although they share blocks and the list may append in place.
\<close>

section \<open>Numbers in a buffer\<close>

definition le32 :: "u32 \<Rightarrow> u8 list" where
  "le32 v = [low_byte (drop_bit 0 v), low_byte (drop_bit 8 v), low_byte (drop_bit 16 v), low_byte (drop_bit 24 v)]"

lemma length_le32 [simp]: "length (le32 v) = 4"
  by (simp add: le32_def)

lemma WriteU32_append:
  assumes "4 \<le> length ys"
  shows "WriteU32 v \<lparr>tb_bytes = xs @ ys, tb_current = length xs\<rparr> =
    Inr \<lparr>tb_bytes = (xs @ le32 v) @ drop 4 ys, tb_current = length (xs @ le32 v)\<rparr>"
proof -
  obtain b0 b1 b2 b3 zs where "ys = b0 # b1 # b2 # b3 # zs"
    using assms by (auto simp: numeral_eq_Suc Suc_le_length_iff)
  then show ?thesis by (simp add: WriteU32_def WriteU8_def le32_def list_update_append nth_append)
qed

lemma ReadU32_append:
  "ReadU32 \<lparr>tb_bytes = xs @ le32 v @ ys, tb_current = length xs\<rparr> =
    Inr (v, \<lparr>tb_bytes = (xs @ le32 v) @ ys, tb_current = length (xs @ le32 v)\<rparr>)"
  using u32_bytes [of v] by (simp add: ReadU32_def ReadU8_def le32_def nth_append Let_def)

section \<open>The invariant of the store\<close>

text \<open>\<open>R\<close> has every block as often as there are lists that use it.\<close>

definition store_ok :: "tag_store \<Rightarrow> nat multiset \<Rightarrow> bool" where
  "store_ok h R \<longleftrightarrow>
     (\<forall>a d. ts_data h a = Some d \<longrightarrow>
        a < ts_next h \<and> unat (td_size d) \<le> length (td_data d) \<and> unat (td_count d) = count R a) \<and>
     (\<forall>a\<in>#R. ts_data h a \<noteq> None) \<and> distinct (g_freeList h) \<and>
     (\<forall>a\<in>set (g_freeList h). ts_data h a \<noteq> None \<and> a \<notin># R)"

text \<open>Blocks keep what lists hold that have used them before.\<close>

definition framed_by :: "nat multiset \<Rightarrow> tag_store \<Rightarrow> tag_store \<Rightarrow> bool" where
  "framed_by R h h' \<longleftrightarrow>
     (\<forall>a\<in>#R. \<forall>d. ts_data h a = Some d \<longrightarrow> (\<exists>d'. ts_data h' a = Some d' \<and> td_size d' = td_size d \<and> td_dirty d \<le> td_dirty d' \<and>
        (td_dirty d \<le> td_size d \<longrightarrow> td_dirty d' \<le> td_size d) \<and>
        take (unat (td_dirty d)) (td_data d') = take (unat (td_dirty d)) (td_data d)))"

lemma framed_by_refl [simp]: "framed_by R h h"
  by (simp add: framed_by_def)

lemma framed_by_trans:
  assumes "framed_by R h h1" and "framed_by R h1 h2"
  shows "framed_by R h h2"
  unfolding framed_by_def
proof (intro ballI allI impI)
  fix a d assume a: "a \<in># R" "ts_data h a = Some d"
  obtain d1 where d1: "ts_data h1 a = Some d1" "td_size d1 = td_size d" "td_dirty d \<le> td_dirty d1"
      "td_dirty d \<le> td_size d \<longrightarrow> td_dirty d1 \<le> td_size d"
      "take (unat (td_dirty d)) (td_data d1) = take (unat (td_dirty d)) (td_data d)"
    using assms(1) a unfolding framed_by_def by blast
  obtain d2 where d2: "ts_data h2 a = Some d2" "td_size d2 = td_size d1" "td_dirty d1 \<le> td_dirty d2"
      "td_dirty d1 \<le> td_size d1 \<longrightarrow> td_dirty d2 \<le> td_size d1"
      "take (unat (td_dirty d1)) (td_data d2) = take (unat (td_dirty d1)) (td_data d1)"
    using assms(2) a(1) d1(1) unfolding framed_by_def by blast
  have "unat (td_dirty d) \<le> unat (td_dirty d1)" using d1(3) by (simp add: word_le_nat_alt)
  then have "take (unat (td_dirty d)) (td_data d2) = take (unat (td_dirty d)) (td_data d)"
    using arg_cong [OF d2(5), of "take (unat (td_dirty d))"] d1(5) by (simp add: min_absorb1)
  then show "\<exists>d'. ts_data h2 a = Some d' \<and> td_size d' = td_size d \<and> td_dirty d \<le> td_dirty d' \<and>
      (td_dirty d \<le> td_size d \<longrightarrow> td_dirty d' \<le> td_size d) \<and>
      take (unat (td_dirty d)) (td_data d') = take (unat (td_dirty d)) (td_data d)"
    using d1(2-4) d2(1-4) by auto
qed

text \<open>The same block, the counter apart.\<close>

definition same_block :: "byte_tag_data \<Rightarrow> byte_tag_data \<Rightarrow> bool" where
  "same_block d d' \<longleftrightarrow> td_size d' = td_size d \<and> td_dirty d' = td_dirty d \<and> td_data d' = td_data d"

lemma same_block_simps [simp]: "same_block d d" "same_block d (d\<lparr>td_count := c\<rparr>)"
  by (simp_all add: same_block_def)

definition same_blocks :: "nat multiset \<Rightarrow> tag_store \<Rightarrow> tag_store \<Rightarrow> bool" where
  "same_blocks R h h' \<longleftrightarrow> (\<forall>a\<in>#R. \<forall>d. ts_data h a = Some d \<longrightarrow> (\<exists>d'. ts_data h' a = Some d' \<and> same_block d d'))"

lemma framed_by_same: "same_blocks R h h' \<Longrightarrow> framed_by R h h'"
  unfolding framed_by_def same_blocks_def same_block_def by force

section \<open>Allocation\<close>

lemma Allocate_loop_ok:
  assumes "store_ok (h\<lparr>g_freeList := as\<rparr>) R"
  shows "\<exists>r h'. Allocate_loop sz as h = Inr (r, h') \<and> (\<forall>b\<in>#R. ts_data h' b = ts_data h b) \<and>
    (case r of None \<Rightarrow> store_ok h' R
     | Some a \<Rightarrow> store_ok h' (add_mset a R) \<and> a \<notin># R \<and> (\<exists>d. ts_data h' a = Some d \<and> sz \<le> td_size d))"
  using assms
proof (induction as arbitrary: h)
  case Nil
  then show ?case by simp
next
  case (Cons a as)
  obtain d where d: "ts_data h a = Some d" and a: "a \<notin># R" "a \<notin> set as"
    using Cons.prems by (auto simp: store_ok_def)
  show ?case
  proof (cases "sz \<le> td_size d")
    case True
    let ?d = "d\<lparr>td_count := 1, td_dirty := 0\<rparr>"
    let ?h = "td_put a ?d (h\<lparr>g_freeList := as\<rparr>)"
    have e: "Allocate_loop sz (a # as) h = Inr (Some a, ?h)" using True d by (simp add: td_at_def)
    have c0: "count R a = 0" using a(1) by (simp add: not_in_iff)
    have "store_ok ?h (add_mset a R)"
      using Cons.prems d a c0 unfolding store_ok_def
      by (auto simp: td_put_def split: if_splits)
    then show ?thesis using e a(1) True by (intro exI [of _ "Some a"] exI [of _ ?h]) (auto simp: td_put_def)
  next
    case False
    have "store_ok ((td_delete a h)\<lparr>g_freeList := as\<rparr>) R"
      using Cons.prems a unfolding store_ok_def by (auto simp: td_delete_def split: if_splits)
    from Cons.IH [OF this] obtain r h' where r: "Allocate_loop sz as (td_delete a h) = Inr (r, h')"
        "\<forall>b\<in>#R. ts_data h' b = ts_data (td_delete a h) b"
        "case r of None \<Rightarrow> store_ok h' R
         | Some a \<Rightarrow> store_ok h' (add_mset a R) \<and> a \<notin># R \<and> (\<exists>d. ts_data h' a = Some d \<and> sz \<le> td_size d)" by blast
    have "\<forall>b\<in>#R. ts_data h' b = ts_data h b" using r(2) a(1) by (auto simp: td_delete_def)
    then show ?thesis using r(1,3) False d by (intro exI [of _ r] exI [of _ h']) (simp add: td_at_def)
  qed
qed

lemma Allocate_ok:
  assumes "store_ok h R"
  shows "\<exists>a h' d. Allocate sz h = Inr (a, h') \<and> store_ok h' (add_mset a R) \<and> a \<notin># R \<and>
    ts_data h' a = Some d \<and> sz \<le> td_size d \<and> (\<forall>b\<in>#R. ts_data h' b = ts_data h b)"
proof -
  have "store_ok (h\<lparr>g_freeList := g_freeList h\<rparr>) R" using assms by simp
  from Allocate_loop_ok [OF this, of sz] obtain r h1 where r: "Allocate_loop sz (g_freeList h) h = Inr (r, h1)"
      "\<forall>b\<in>#R. ts_data h1 b = ts_data h b"
      "case r of None \<Rightarrow> store_ok h1 R
         | Some a \<Rightarrow> store_ok h1 (add_mset a R) \<and> a \<notin># R \<and> (\<exists>d. ts_data h1 a = Some d \<and> sz \<le> td_size d)" by auto
  show ?thesis
  proof (cases r)
    case None
    let ?a = "ts_next h1"
    let ?d = "\<lparr>td_size = sz, td_count = 1, td_dirty = 0, td_data = map (ts_junk h1) [0..<unat (max sz (g_maxSize h1))]\<rparr>"
    let ?h = "(td_put ?a ?d h1)\<lparr>ts_next := ?a + 1\<rparr>"
    have ok: "store_ok h1 R" using r(3) None by simp
    have n: "ts_data h1 ?a = None" using ok by (auto simp: store_ok_def) (metis less_irrefl not_Some_eq)
    then have a: "?a \<notin># R" using ok by (auto simp: store_ok_def)
    then have c0: "count R ?a = 0" by (simp add: not_in_iff)
    have "unat sz \<le> unat (max sz (g_maxSize h1))" by (simp add: max_def word_le_nat_alt)
    then have "store_ok ?h (add_mset ?a R)"
      using ok n a c0 unfolding store_ok_def
      by (auto simp: td_put_def less_Suc_eq split: if_splits)
    moreover have "Allocate sz h = Inr (?a, ?h)" using r(1) None by (simp add: Allocate_def Let_def)
    ultimately show ?thesis using a r(2) by (intro exI [of _ ?a] exI [of _ ?h] exI [of _ ?d]) (auto simp: td_put_def)
  next
    case (Some a)
    then show ?thesis using r by (auto simp: Allocate_def)
  qed
qed

lemma Deallocate_ok:
  assumes ok: "store_ok h (add_mset a R)"
  shows "\<exists>h'. Deallocate (Some a) h = Inr h' \<and> store_ok h' R \<and> same_blocks R h h'"
proof -
  obtain d where d: "ts_data h a = Some d" and c: "unat (td_count d) = Suc (count R a)"
    using ok by (auto simp: store_ok_def)
  let ?d = "d\<lparr>td_count := td_count d - 1\<rparr>" and ?m = "max (g_maxSize h) (td_size d)"
  let ?h = "(td_put a ?d h)\<lparr>g_maxSize := ?m\<rparr>"
  have "td_count d \<noteq> 0" using c by auto
  then have c': "unat (td_count d - 1) = count R a" using c by (simp add: unat_minus_one)
  have z: "td_count d - 1 = 0 \<longleftrightarrow> a \<notin># R" using c' by (metis not_in_iff unat_eq_zero)
  have fl: "a \<notin> set (g_freeList h)" using ok by (auto simp: store_ok_def)
  have ok': "store_ok ?h R"
    using ok d c' unfolding store_ok_def by (auto simp: td_put_def split: if_splits)
  show ?thesis
  proof (cases "a \<in># R")
    case True
    then have "Deallocate (Some a) h = Inr ?h" using d z by (simp add: Deallocate_def td_at_def Let_def)
    then show ?thesis using ok' d by (intro exI [of _ ?h]) (auto simp: td_put_def same_blocks_def)
  next
    case False
    have del: "store_ok (td_delete a ?h) R" using ok' False fl
      unfolding store_ok_def by (auto simp: td_delete_def td_put_def split: if_splits)
    have push: "store_ok (?h\<lparr>g_freeList := a # g_freeList h\<rparr>) R" using ok' False fl
      unfolding store_ok_def by (auto simp: td_put_def)
    have same: "\<forall>b\<in>#R. b \<noteq> a" using False by blast
    show ?thesis
    proof (cases "FREE_LIST_SIZE < length (g_freeList h) \<or> td_size d < ?m")
      case True
      then have "Deallocate (Some a) h = Inr (td_delete a ?h)"
        using d z False by (simp add: Deallocate_def td_at_def Let_def td_put_def)
      then show ?thesis using del same
        by (intro exI [of _ "td_delete a ?h"]) (auto simp: td_put_def td_delete_def same_blocks_def)
    next
      case no: False
      then have "Deallocate (Some a) h = Inr (?h\<lparr>g_freeList := a # g_freeList h\<rparr>)"
        using d z False by (auto simp: Deallocate_def td_at_def Let_def td_put_def)
      then show ?thesis using push same
        by (intro exI [of _ "?h\<lparr>g_freeList := a # g_freeList h\<rparr>"]) (auto simp: td_put_def same_blocks_def)
    qed
  qed
qed

end
