(* ===== verification/Byte_Tag_Add.thy ===== *)
theory Byte_Tag_Add
  imports Byte_Tag_View
begin

text \<open>
  The copy constructor and \<open>Add\<close> of a \<open>ByteTagList\<close>: the block it writes to, the header and the bytes of the new
  tag, and that what other lists hold in the same block stays as it is.
\<close>

section \<open>Another list that uses a block\<close>

lemma share_ok:
  assumes ok: "store_ok h R" and a: "a \<in># R" and n: "size R + 1 < 4294967296"
  shows "\<exists>h'. share (Some a) h = Inr h' \<and> store_ok h' (add_mset a R) \<and> same_blocks R h h'"
proof -
  obtain d where d: "ts_data h a = Some d" "unat (td_count d) = count R a"
    using ok a by (auto simp: store_ok_def)
  have "count R a \<le> size R" by (rule count_le_size)
  then have "unat (td_count d) + 1 < 4294967296" using n d(2) by simp
  then have c: "unat (td_count d + 1) = Suc (count R a)" using d(2) by (simp add: unat_u32_add)
  have "store_ok (td_put a (d\<lparr>td_count := td_count d + 1\<rparr>) h) (add_mset a R)"
    using ok d c a unfolding store_ok_def by (auto simp: td_put_def split: if_splits)
  then show ?thesis using d
    by (intro exI [of _ "td_put a (d\<lparr>td_count := td_count d + 1\<rparr>) h"])
      (auto simp: share_def td_at_def td_put_def same_blocks_def)
qed

section \<open>What a list holds\<close>

text \<open>A tag as it is stored: its type, its bytes, and its range less the adjustment.\<close>

type_synonym stored_tag = "u32 \<times> u8 list \<times> int \<times> int"

definition i32 :: "int \<Rightarrow> bool" where
  "i32 x \<longleftrightarrow> - 2147483648 \<le> x \<and> x \<le> 2147483647"

lemma i32_arith_ok [simp]: "i32 x \<Longrightarrow> i32_arith x = Inr x"
  by (simp add: i32_arith_def i32_def)

fun header :: "stored_tag \<Rightarrow> u8 list" where
  "header (tid, bytes, s, e) = le32 tid @ le32 (of_nat (length bytes)) @ le32 (of_int s) @ le32 (of_int e)"

fun enc :: "stored_tag \<Rightarrow> u8 list" where
  "enc (tid, bytes, s, e) = header (tid, bytes, s, e) @ bytes"

fun in_bounds :: "byte_tag_list \<Rightarrow> stored_tag \<Rightarrow> bool" where
  "in_bounds l (tid, bytes, s, e) \<longleftrightarrow> i32 s \<and> i32 e \<and> bt_minStart l \<le> s \<and> e \<le> bt_maxEnd l"

definition holds :: "tag_store \<Rightarrow> byte_tag_list \<Rightarrow> stored_tag list \<Rightarrow> bool" where
  "holds h l ts \<longleftrightarrow> (\<forall>t\<in>set ts. in_bounds l t) \<and>
     (case bt_data l of
        None \<Rightarrow> bt_used l = 0 \<and> ts = []
      | Some a \<Rightarrow> \<exists>d. ts_data h a = Some d \<and> bt_used l \<le> td_dirty d \<and> td_dirty d \<le> td_size d \<and>
          unat (td_size d) \<le> length (td_data d) \<and> take (unat (bt_used l)) (td_data d) = concat (map enc ts))"

definition users :: "byte_tag_list \<Rightarrow> nat multiset" where
  "users l = (case bt_data l of None \<Rightarrow> {#} | Some a \<Rightarrow> {#a#})"

lemma users_simps [simp]:
  "bt_data l = None \<Longrightarrow> users l = {#}" "bt_data l = Some a \<Longrightarrow> users l = {#a#}"
  "users ByteTagList = {#}"
  by (simp_all add: users_def ByteTagList_def)

lemma holds_used: "holds h l ts \<Longrightarrow> unat (bt_used l) = length (concat (map enc ts))"
proof -
  assume h: "holds h l ts"
  show ?thesis
  proof (cases "bt_data l")
    case None
    then show ?thesis using h by (simp add: holds_def)
  next
    case (Some a)
    then obtain d where "ts_data h a = Some d" and d: "bt_used l \<le> td_dirty d" "td_dirty d \<le> td_size d" "unat (td_size d) \<le> length (td_data d)"
        "take (unat (bt_used l)) (td_data d) = concat (map enc ts)"
      using h by (auto simp: holds_def)
    have "unat (bt_used l) \<le> length (td_data d)" using d(1-3) by (simp add: word_le_nat_alt)
    then show ?thesis using arg_cong [OF d(4), of length] by simp
  qed
qed

lemma holds_empty [simp]: "holds h ByteTagList []"
  by (simp add: holds_def ByteTagList_def)

lemma take_prefix_eq:
  assumes "take m xs = take m ys" and "n \<le> m"
  shows "take n xs = take n ys"
  using arg_cong [OF assms(1), of "take n"] assms(2) by (simp add: min_absorb1)

lemma holds_framed:
  assumes h: "holds h l ts" and f: "framed_by R h h'" and u: "users l \<subseteq># R" and ok: "store_ok h' R'"
  shows "holds h' l ts"
proof (cases "bt_data l")
  case None
  then show ?thesis using h by (simp add: holds_def)
next
  case (Some a)
  obtain d where d: "ts_data h a = Some d" "bt_used l \<le> td_dirty d" "td_dirty d \<le> td_size d" "unat (td_size d) \<le> length (td_data d)"
      "take (unat (bt_used l)) (td_data d) = concat (map enc ts)"
    using h Some by (auto simp: holds_def)
  have "a \<in># R" using u Some by simp
  then obtain d' where d': "ts_data h' a = Some d'" "td_size d' = td_size d" "td_dirty d \<le> td_dirty d'"
      "td_dirty d \<le> td_size d \<longrightarrow> td_dirty d' \<le> td_size d"
      "take (unat (td_dirty d)) (td_data d') = take (unat (td_dirty d)) (td_data d)"
    using f d(1) unfolding framed_by_def by blast
  have "unat (bt_used l) \<le> unat (td_dirty d)" using d(2) by (simp add: word_le_nat_alt)
  from take_prefix_eq [OF d'(5) this] have "take (unat (bt_used l)) (td_data d') = concat (map enc ts)" using d(5) by simp
  moreover have "unat (td_size d') \<le> length (td_data d')" using ok d'(1) by (auto simp: store_ok_def)
  ultimately show ?thesis using h Some d(2,3) d'(1-4) by (auto simp: holds_def)
qed

section \<open>The block to write to\<close>

lemma block_for_ok:
  assumes ok: "store_ok h (users l + R)" and v: "holds h l ts" and le: "bt_used l \<le> needed"
  shows "\<exists>a h' d. block_for needed l h = Inr (a, h') \<and> store_ok h' (add_mset a R) \<and> framed_by R h h' \<and>
    ts_data h' a = Some d \<and> needed \<le> td_size d \<and> take (unat (bt_used l)) (td_data d) = concat (map enc ts) \<and>
    (\<forall>d0. a \<in># R \<longrightarrow> ts_data h a = Some d0 \<longrightarrow> td_dirty d0 = bt_used l)"
proof (cases "bt_data l")
  case None
  then have z: "bt_used l = 0" "ts = []" "store_ok h R" using v ok by (simp_all add: holds_def)
  from Allocate_ok [OF z(3), of needed] obtain a h' d where a: "Allocate needed h = Inr (a, h')"
      "store_ok h' (add_mset a R)" "a \<notin># R" "ts_data h' a = Some d" "needed \<le> td_size d"
      "\<forall>b\<in>#R. ts_data h' b = ts_data h b" by blast
  have "framed_by R h h'" using a(6) by (auto simp: framed_by_def)
  then show ?thesis using a None z by (intro exI [of _ a] exI [of _ h'] exI [of _ d]) (simp add: block_for_def)
next
  case (Some a)
  obtain d where d: "ts_data h a = Some d" "bt_used l \<le> td_dirty d" "td_dirty d \<le> td_size d" "unat (td_size d) \<le> length (td_data d)"
      "take (unat (bt_used l)) (td_data d) = concat (map enc ts)"
    using v Some by (auto simp: holds_def)
  have ok': "store_ok h (add_mset a R)" using ok Some by simp
  have ul: "unat (bt_used l) \<le> length (td_data d)" using d(2-4) by (simp add: word_le_nat_alt)
  show ?thesis
  proof (cases "td_size d < needed \<or> (td_count d \<noteq> 1 \<and> td_dirty d \<noteq> bt_used l)")
    case False
    have "td_dirty d = bt_used l" if "a \<in># R"
    proof -
      have "unat (td_count d) = Suc (count R a)" using ok' d(1) by (auto simp: store_ok_def)
      moreover have "count R a \<noteq> 0" using that by (simp add: not_in_iff)
      ultimately have "unat (td_count d) \<noteq> unat (1 :: u32)" unfolding unsigned_1 by linarith
      then have "td_count d \<noteq> 1" by metis
      then show ?thesis using False by blast
    qed
    then show ?thesis
      using False Some d ok' by (intro exI [of _ a] exI [of _ h] exI [of _ d]) (auto simp: block_for_def td_at_def)
  next
    case True
    from Allocate_ok [OF ok', of needed] obtain b h1 n where b: "Allocate needed h = Inr (b, h1)"
        "store_ok h1 (add_mset b (add_mset a R))" "b \<notin># add_mset a R" "ts_data h1 b = Some n" "needed \<le> td_size n"
        "\<forall>x\<in>#add_mset a R. ts_data h1 x = ts_data h x" by blast
    let ?k = "unat (bt_used l)"
    let ?n = "n\<lparr>td_data := take ?k (td_data d) @ drop ?k (td_data n)\<rparr>"
    let ?h = "td_put b ?n h1"
    have nl: "?k \<le> length (td_data n)"
    proof -
      have "unat (td_size n) \<le> length (td_data n)" using b(2,4) by (auto simp: store_ok_def)
      then show ?thesis using le b(5) by (simp add: word_le_nat_alt)
    qed
    have "store_ok ?h (add_mset b (add_mset a R))"
      using b(2,4) nl ul unfolding store_ok_def by (auto simp: td_put_def split: if_splits)
    then have "store_ok ?h (add_mset a (add_mset b R))" by (simp add: add_mset_commute)
    from Deallocate_ok [OF this] obtain h2 where h2: "Deallocate (Some a) ?h = Inr h2" "store_ok h2 (add_mset b R)"
        "same_blocks (add_mset b R) ?h h2" by blast
    have bh: "ts_data ?h b = Some ?n" by (simp add: td_put_def)
    obtain n2 where n2: "ts_data h2 b = Some n2" "same_block ?n n2" using h2(3) bh by (auto simp: same_blocks_def)
    have a1: "ts_data h1 a = Some d" using b(6) d(1) by simp
    have e: "block_for needed l h = Inr (b, h2)"
      using Some True d(1) b(1,4) a1 ul nl h2(1) by (simp add: block_for_def td_at_def)
    have "same_blocks R h h2"
      unfolding same_blocks_def
    proof (intro ballI allI impI)
      fix x dx assume x: "x \<in># R" "ts_data h x = Some dx"
      have "ts_data ?h x = Some dx" using x b(3,6) by (auto simp: td_put_def)
      then show "\<exists>d'. ts_data h2 x = Some d' \<and> same_block dx d'" using h2(3) x(1) by (auto simp: same_blocks_def)
    qed
    moreover have "take ?k (td_data n2) = concat (map enc ts)"
    proof -
      have "take ?k (td_data n2) = take ?k (td_data d)" using n2(2) ul by (simp add: same_block_def)
      then show ?thesis using d(5) by simp
    qed
    moreover have "needed \<le> td_size n2" using n2(2) b(5) by (simp add: same_block_def)
    ultimately show ?thesis
      using e h2(2) n2(1) b(3) by (intro exI [of _ b] exI [of _ h2] exI [of _ n2]) (simp add: framed_by_same)
  qed
qed

section \<open>Adding a tag\<close>

lemma write_header:
  assumes "16 \<le> length bytes"
  shows "res_bind (WriteU32 v1 (TagBuffer bytes)) (\<lambda>b. res_bind (WriteU32 v2 b) (\<lambda>b. res_bind (WriteU32 v3 b) (\<lambda>b. WriteU32 v4 b))) =
    Inr \<lparr>tb_bytes = (le32 v1 @ le32 v2 @ le32 v3 @ le32 v4) @ drop 16 bytes, tb_current = 16\<rparr>"
proof -
  have t: "TagBuffer bytes = \<lparr>tb_bytes = [] @ bytes, tb_current = length ([] :: u8 list)\<rparr>" by (simp add: TagBuffer_def)
  have l: "4 \<le> length bytes" "4 \<le> length (drop 4 bytes)" "4 \<le> length (drop 4 (drop 4 bytes))"
      "4 \<le> length (drop 4 (drop 4 (drop 4 bytes)))" using assms by simp_all
  show ?thesis
    unfolding t WriteU32_append [OF l(1)] res_bind.simps WriteU32_append [OF l(2)] WriteU32_append [OF l(3)] WriteU32_append [OF l(4)]
    by simp
qed

text \<open>Space for a tag, and the tag's bytes written into it.\<close>

definition writes :: "(tag_buffer \<Rightarrow> tag_buffer res) \<Rightarrow> u8 list \<Rightarrow> bool" where
  "writes f bytes \<longleftrightarrow> (\<forall>old. length old = length bytes \<longrightarrow> (\<exists>c. f (TagBuffer old) = Inr \<lparr>tb_bytes = bytes, tb_current = c\<rparr>))"

lemma region_middle: "n \<le> length xs \<Longrightarrow> drop n (take n xs @ ys) = ys"
  by simp

lemma framed_by_write:
  assumes f: "framed_by R h h1" and d1: "ts_data h1 a = Some d1" and d2: "ts_data h2 = (ts_data h1)(a \<mapsto> d2)"
    and s: "td_size d2 = td_size d1" and k: "td_dirty d2 \<le> td_size d2"
    and own: "\<And>d. \<lbrakk>a \<in># R; ts_data h a = Some d\<rbrakk> \<Longrightarrow> td_dirty d \<le> td_dirty d2 \<and>
       take (unat (td_dirty d)) (td_data d2) = take (unat (td_dirty d)) (td_data d1)"
  shows "framed_by R h h2"
  unfolding framed_by_def
proof (intro ballI allI impI)
  fix x d assume x: "x \<in># R" "ts_data h x = Some d"
  obtain d' where d': "ts_data h1 x = Some d'" "td_size d' = td_size d" "td_dirty d \<le> td_dirty d'"
      "td_dirty d \<le> td_size d \<longrightarrow> td_dirty d' \<le> td_size d"
      "take (unat (td_dirty d)) (td_data d') = take (unat (td_dirty d)) (td_data d)"
    using f x unfolding framed_by_def by blast
  show "\<exists>d'. ts_data h2 x = Some d' \<and> td_size d' = td_size d \<and> td_dirty d \<le> td_dirty d' \<and>
        (td_dirty d \<le> td_size d \<longrightarrow> td_dirty d' \<le> td_size d) \<and>
        take (unat (td_dirty d)) (td_data d') = take (unat (td_dirty d)) (td_data d)"
  proof (cases "x = a")
    case True
    then show ?thesis using d' d1 d2 s k own x by auto
  next
    case False
    then show ?thesis using d' d2 by auto
  qed
qed

lemma write_region_middle:
  assumes "ts_data h a = Some d" and "td_data d = xs @ old @ ys"
    and "f (TagBuffer old) = Inr \<lparr>tb_bytes = new, tb_current = c\<rparr>" and "length xs = m" and "n = m + length old"
  shows "write_region f \<lparr>tr_data = a, tr_from = m, tr_to = n\<rparr> h =
    Inr (\<lparr>tr_data = a, tr_from = m + c, tr_to = n\<rparr>, td_put a (d\<lparr>td_data := xs @ new @ ys\<rparr>) h)"
  using assms by (auto simp: write_region_def region_bytes_def td_at_def)

text \<open>\<open>Add\<close> leaves room for the bytes of the tag after its header.\<close>

lemma Add_ok:
  fixes tid :: u32
  assumes ok: "store_ok h (users l + R)" and v: "holds h l ts"
    and i: "i32 (start - bt_adjustment l)" "i32 (stop - bt_adjustment l)"
    and room: "unat (bt_used l) + 16 + length bytes < 4294967296"
    and t: "t = (tid, bytes, start - bt_adjustment l, stop - bt_adjustment l)"
  shows "\<exists>a d old rest l' h'. ByteTagList_Add tid (of_nat (length bytes)) start stop l h =
      Inr (\<lparr>tr_data = a, tr_from = unat (bt_used l) + 16, tr_to = unat (bt_used l')\<rparr>, l', h') \<and>
    store_ok h' (add_mset a R) \<and> framed_by R h h' \<and> bt_data l' = Some a \<and> ts_data h' a = Some d \<and>
    td_data d = (concat (map enc ts) @ header t) @ old @ rest \<and> length old = length bytes \<and>
    td_dirty d = bt_used l' \<and> bt_used l' \<le> td_size d \<and>
    unat (bt_used l') = unat (bt_used l) + 16 + length bytes \<and> bt_adjustment l' = bt_adjustment l \<and>
    (\<forall>x\<in>set (ts @ [t]). in_bounds l' x) \<and> (\<forall>d0. a \<in># R \<longrightarrow> ts_data h a = Some d0 \<longrightarrow> td_dirty d0 = bt_used l)"
proof -
  let ?n = "length bytes" and ?s = "start - bt_adjustment l" and ?e = "stop - bt_adjustment l" and ?u = "unat (bt_used l)"
  define needed :: u32 where "needed = bt_used l + of_nat ?n + 4 + 4 + 4 + 4"
  have un: "unat needed = ?u + 16 + ?n"
  proof -
    have "unat (of_nat ?n :: u32) = ?n" using room by (simp add: unat_u32_of_nat_small)
    then show ?thesis unfolding needed_def using room by (simp add: unat_u32_add)
  qed
  then have le: "bt_used l \<le> needed" by (simp add: word_le_nat_alt)
  obtain a h0 d where b: "block_for needed l h = Inr (a, h0)" "store_ok h0 (add_mset a R)" "framed_by R h h0"
      "ts_data h0 a = Some d" "needed \<le> td_size d" "take ?u (td_data d) = concat (map enc ts)"
      "\<forall>d0. a \<in># R \<longrightarrow> ts_data h a = Some d0 \<longrightarrow> td_dirty d0 = bt_used l"
    using block_for_ok [OF ok v le] by blast
  let ?old = "take (16 + ?n) (drop ?u (td_data d))" and ?rest = "drop (unat needed) (td_data d)"
  have ld: "unat needed \<le> length (td_data d)"
    using b(2,4,5) by (auto simp: store_ok_def word_le_nat_alt intro: order_trans)
  have lu: "length (concat (map enc ts)) = ?u" using holds_used [OF v] by simp
  have lo: "unat needed = ?u + length ?old" "16 \<le> length ?old" "length (drop 16 ?old) = ?n"
    using ld un by simp_all
  have dd: "td_data d = concat (map enc ts) @ ?old @ ?rest"
  proof -
    have "drop ?u (td_data d) = ?old @ drop (16 + ?n) (drop ?u (td_data d))" by (rule append_take_drop_id [symmetric])
    moreover have "drop (16 + ?n) (drop ?u (td_data d)) = ?rest" unfolding drop_drop un by (simp add: ac_simps)
    ultimately show ?thesis using b(6) by (metis append_take_drop_id)
  qed
  let ?w = "\<lambda>b. res_bind (WriteU32 tid b) (\<lambda>b. res_bind (WriteU32 (of_nat ?n) b) (\<lambda>b.
            res_bind (WriteU32 (of_int ?s) b) (\<lambda>b. WriteU32 (of_int ?e) b)))"
  have w: "?w (TagBuffer ?old) = Inr \<lparr>tb_bytes = header t @ drop 16 ?old, tb_current = 16\<rparr>"
    unfolding header.simps t by (rule write_header [OF lo(2)])
  let ?d = "d\<lparr>td_data := concat (map enc ts) @ (header t @ drop 16 ?old) @ ?rest, td_dirty := needed\<rparr>"
  let ?l = "l\<lparr>bt_minStart := min (bt_minStart l) ?s, bt_maxEnd := max (bt_maxEnd l) ?e, bt_used := needed, bt_data := Some a\<rparr>"
  note wr = write_region_middle [where f = ?w, OF b(4) dd w lu lo(1)]
  have used: "(if bt_data l = None then 0 else bt_used l) = bt_used l" using v by (auto simp: holds_def)
  have h: "td_put a (x\<lparr>td_dirty := needed\<rparr>) (td_put a x h0) = td_put a (x\<lparr>td_dirty := needed\<rparr>) h0" for x
    by (simp add: td_put_def)
  have add: "ByteTagList_Add tid (of_nat ?n) start stop l h =
      Inr (\<lparr>tr_data = a, tr_from = ?u + 16, tr_to = unat needed\<rparr>, ?l, td_put a ?d h0)"
    unfolding ByteTagList_Add_def Let_def needed_def [symmetric]
    using le b(1) used i wr h by (simp add: td_at_def td_put_def)
  have len: "length (concat (map enc ts) @ (header t @ drop 16 ?old) @ ?rest) = length (td_data d)"
    using lu lo(3) ld un by (simp add: t)
  have ok': "store_ok (td_put a ?d h0) (add_mset a R)"
    using b(2,4) len unfolding store_ok_def by (auto simp: td_put_def split: if_splits)
  have fr: "framed_by R h (td_put a ?d h0)"
  proof (rule framed_by_write [OF b(3,4), of _ ?d])
    fix d0 assume "a \<in># R" "ts_data h a = Some d0"
    then have "td_dirty d0 = bt_used l" using b(7) by blast
    then show "td_dirty d0 \<le> td_dirty ?d \<and> take (unat (td_dirty d0)) (td_data ?d) = take (unat (td_dirty d0)) (td_data d)"
      using le lu b(6) by simp
  qed (use b(5) in \<open>simp_all add: td_put_def\<close>)
  have "in_bounds ?l x" if "x \<in> set (ts @ [t])" for x
  proof (cases "x = t")
    case False
    then have "in_bounds l x" using that v by (auto simp: holds_def)
    then show ?thesis by (cases x) auto
  qed (use i t in simp)
  then show ?thesis
    using add ok' fr b(5,7) un lo(3)
    by (intro exI [of _ a] exI [of _ ?d] exI [of _ "drop 16 ?old"] exI [of _ ?rest] exI [of _ ?l] exI [of _ "td_put a ?d h0"])
      (simp add: td_put_def)
qed

text \<open>The tag's bytes written into that room.\<close>

lemma Add_write_ok:
  fixes tid :: u32
  assumes ok: "store_ok h (users l + R)" and v: "holds h l ts" and f: "writes f bytes"
    and i: "i32 (start - bt_adjustment l)" "i32 (stop - bt_adjustment l)"
    and room: "unat (bt_used l) + 16 + length bytes < 4294967296"
  shows "\<exists>buf l' h1 buf' h'. ByteTagList_Add tid (of_nat (length bytes)) start stop l h = Inr (buf, l', h1) \<and>
    write_region f buf h1 = Inr (buf', h') \<and> store_ok h' (users l' + R) \<and> framed_by R h h1 \<and> framed_by R h h' \<and> store_ok h1 (users l' + R) \<and>
    holds h' l' (ts @ [(tid, bytes, start - bt_adjustment l, stop - bt_adjustment l)]) \<and>
    bt_adjustment l' = bt_adjustment l \<and> unat (bt_used l') = unat (bt_used l) + 16 + length bytes"
proof -
  define t where "t = (tid, bytes, start - bt_adjustment l, stop - bt_adjustment l)"
  let ?u = "unat (bt_used l)"
  from Add_ok [OF ok v i room t_def] obtain a d old rest l' h1 where
      add: "ByteTagList_Add tid (of_nat (length bytes)) start stop l h =
        Inr (\<lparr>tr_data = a, tr_from = ?u + 16, tr_to = unat (bt_used l')\<rparr>, l', h1)"
    and h1: "store_ok h1 (add_mset a R)" "framed_by R h h1" "bt_data l' = Some a" "ts_data h1 a = Some d"
      "td_data d = (concat (map enc ts) @ header t) @ old @ rest" "length old = length bytes"
      "td_dirty d = bt_used l'" "bt_used l' \<le> td_size d"
    and l': "unat (bt_used l') = ?u + 16 + length bytes" "bt_adjustment l' = bt_adjustment l"
      "\<forall>x\<in>set (ts @ [t]). in_bounds l' x" "\<forall>d0. a \<in># R \<longrightarrow> ts_data h a = Some d0 \<longrightarrow> td_dirty d0 = bt_used l" by blast
  have lu: "length (concat (map enc ts)) = ?u" using holds_used [OF v] by simp
  have lx: "length (concat (map enc ts) @ header t) = ?u + 16" "unat (bt_used l') = (?u + 16) + length old"
    using lu l'(1) h1(6) by (simp_all add: t_def)
  obtain c where c: "f (TagBuffer old) = Inr \<lparr>tb_bytes = bytes, tb_current = c\<rparr>" using f h1(6) unfolding writes_def by blast
  let ?d = "d\<lparr>td_data := (concat (map enc ts) @ header t) @ bytes @ rest\<rparr>"
  note w = write_region_middle [where f = f, OF h1(4,5) c lx]
  have len: "length ((concat (map enc ts) @ header t) @ bytes @ rest) = length (td_data d)" using h1(5,6) by simp
  have ok2: "store_ok (td_put a ?d h1) (add_mset a R)"
    using h1(1,4) len unfolding store_ok_def by (auto simp: td_put_def split: if_splits)
  have fr: "framed_by R h (td_put a ?d h1)"
  proof (rule framed_by_write [OF h1(2,4), of _ ?d])
    fix d0 assume "a \<in># R" "ts_data h a = Some d0"
    then have "td_dirty d0 = bt_used l" using l'(4) by blast
    then show "td_dirty d0 \<le> td_dirty ?d \<and> take (unat (td_dirty d0)) (td_data ?d) = take (unat (td_dirty d0)) (td_data d)"
      using h1(5,7) l'(1) lu by (simp add: word_le_nat_alt)
  qed (use h1(7,8) in \<open>simp_all add: td_put_def\<close>)
  have "take (unat (bt_used l')) (td_data ?d) = concat (map enc ts) @ enc t"
    using lx l'(1) h1(6) by (simp add: t_def lu)
  moreover have "unat (td_size d) \<le> length (td_data ?d)"
    using h1(1,4) len unfolding store_ok_def by simp
  ultimately have "holds (td_put a ?d h1) l' (ts @ [t])"
    using l'(3) h1(3,7,8) by (auto simp: holds_def td_put_def)
  then have "write_region f \<lparr>tr_data = a, tr_from = ?u + 16, tr_to = unat (bt_used l')\<rparr> h1 =
      Inr (\<lparr>tr_data = a, tr_from = ?u + 16 + c, tr_to = unat (bt_used l')\<rparr>, td_put a ?d h1) \<and>
    holds (td_put a ?d h1) l' (ts @ [(tid, bytes, start - bt_adjustment l, stop - bt_adjustment l)])"
    using w by (simp add: t_def)
  then show ?thesis using add ok2 fr h1(1-3) l'(1,2) by (intro exI conjI) (assumption | simp)+
qed

end
