(* ===== verification/Byte_Tag_Iter.thy ===== *)
theory Byte_Tag_Iter
  imports Byte_Tag_Add
begin

text \<open>
  What the iterator of a \<open>ByteTagList\<close> yields: in their order the tags whose range in_window the window, clipped
  to it, whatever the loop does to other lists.
\<close>

section \<open>Ranges\<close>

fun clip :: "int \<Rightarrow> int \<Rightarrow> int \<Rightarrow> stored_tag \<Rightarrow> stored_tag" where
  "clip a b adj (tid, bytes, s, e) = (tid, bytes, max a (s + adj), min b (e + adj))"

fun in_window :: "int \<Rightarrow> int \<Rightarrow> int \<Rightarrow> stored_tag \<Rightarrow> bool" where
  "in_window a b adj (tid, bytes, s, e) \<longleftrightarrow> max a (s + adj) < min b (e + adj)"

definition shown :: "int \<Rightarrow> int \<Rightarrow> int \<Rightarrow> stored_tag list \<Rightarrow> stored_tag list" where
  "shown a b adj ts = map (clip a b adj) (filter (in_window a b adj) ts)"

lemma shown_simps [simp]:
  "shown a b adj [] = []"
  "shown a b adj (t # ts) = (if in_window a b adj t then clip a b adj t # shown a b adj ts else shown a b adj ts)"
  "shown a b adj (ts @ us) = shown a b adj ts @ shown a b adj us"
  by (simp_all add: shown_def)

lemma shown_shown: "shown a b d (shown a' b' d' ts) = shown (max a (a' + d)) (min b (b' + d)) (d' + d) ts"
proof (induction ts)
  case (Cons t ts)
  obtain tid bytes s e where t: "t = (tid, bytes, s, e)" by (cases t)
  have m: "max a (max a' (s + d') + d) = max (max a (a' + d)) (s + (d' + d))"
      "min b (min b' (e + d') + d) = min (min b (b' + d)) (e + (d' + d))" by linarith+
  show ?case
  proof (cases "in_window (max a (a' + d)) (min b (b' + d)) (d' + d) t")
    case True
    then have "in_window a' b' d' t" "in_window a b d (clip a' b' d' t)" using m by (auto simp: t)
    then show ?thesis using Cons.IH True m by (simp add: t)
  next
    case False
    then have "\<not> in_window a' b' d' t \<or> \<not> in_window a b d (clip a' b' d' t)" using m by (auto simp: t)
    then show ?thesis using Cons.IH False by auto
  qed
qed simp

lemma not_in_window: "b \<le> a \<Longrightarrow> \<not> in_window a b d t"
  by (cases t) (simp add: max_def min_def)

lemma shown_empty: "b \<le> a \<Longrightarrow> shown a b d ts = []"
  by (induction ts) (simp_all add: not_in_window)

lemma shown_cong:
  assumes "\<And>t. t \<in> set ts \<Longrightarrow> in_window a b d t = in_window a' b' d' t \<and> (in_window a b d t \<longrightarrow> clip a b d t = clip a' b' d' t)"
  shows "shown a b d ts = shown a' b' d' ts"
  using assms by (induction ts) simp_all

text \<open>The tags of a list whose ranges are not empty and, shifted by the adjustment, lie within \<open>r\<close> of the start.\<close>

fun near :: "int \<Rightarrow> int \<Rightarrow> stored_tag \<Rightarrow> bool" where
  "near r adj (tid, bytes, s, e) \<longleftrightarrow> s < e \<and> - r \<le> s + adj \<and> e + adj \<le> r"

section \<open>Positions\<close>

abbreviation bytes_of :: "stored_tag list \<Rightarrow> u8 list" where
  "bytes_of ts \<equiv> concat (map enc ts)"

text \<open>The iterator stands before \<open>ts2\<close>, and has read the header of the first of them.\<close>

fun read_of :: "byte_tag_iter \<Rightarrow> stored_tag \<Rightarrow> bool" where
  "read_of it (tid, bytes, s, e) \<longleftrightarrow> it_nextTid it = tid \<and> it_nextSize it = of_nat (length bytes) \<and>
     it_nextStart it = s + it_adjustment it \<and> it_nextEnd it = e + it_adjustment it"

definition stands :: "byte_tag_list \<Rightarrow> int \<Rightarrow> int \<Rightarrow> stored_tag list \<Rightarrow> stored_tag list \<Rightarrow> byte_tag_iter \<Rightarrow> bool" where
  "stands l a b ts1 ts2 it \<longleftrightarrow> it_data it = bt_data l \<and> it_current it = length (bytes_of ts1) \<and>
     it_end it = length (bytes_of (ts1 @ ts2)) \<and> it_offsetStart it = a \<and> it_offsetEnd it = b \<and>
     it_adjustment it = (if bt_data l = None then 0 else bt_adjustment l)"

lemma length_enc [simp]: "length (enc t) = 16 + length (fst (snd t))"
  by (cases t) simp

lemma stands_has_next: "stands l a b ts1 ts2 it \<Longrightarrow> iter_HasNext it \<longleftrightarrow> ts2 \<noteq> []"
  by (cases ts2) (auto simp: stands_def iter_HasNext_def)

lemma sint_shift:
  assumes "i32 (s + adj)"
  shows "sint (of_int s + of_int adj :: u32) = s + adj"
proof -
  have "(of_int s + of_int adj :: u32) = of_int (s + adj)" by simp
  moreover have "sint (of_int (s + adj) :: u32) = s + adj"
    unfolding sint_sbintrunc' using assms signed_take_bit_int_eq_self [of 31 "s + adj"] by (simp add: i32_def)
  ultimately show ?thesis by simp
qed

lemma holds_region:
  assumes h: "holds h l ts" and a: "bt_data l = Some a" and ts: "bytes_of ts = xs @ ys @ zs"
  shows "region_bytes \<lparr>tr_data = a, tr_from = length xs, tr_to = length xs + length ys\<rparr> h = Inr ys"
proof -
  obtain d where d: "ts_data h a = Some d" "bt_used l \<le> td_dirty d" "td_dirty d \<le> td_size d" "unat (td_size d) \<le> length (td_data d)"
      "take (unat (bt_used l)) (td_data d) = bytes_of ts"
    using h a by (auto simp: holds_def)
  obtain ws where w: "td_data d = xs @ ys @ zs @ ws"
    using d(5) ts by (metis append_take_drop_id append.assoc)
  show ?thesis using d(1) w by (simp add: region_bytes_def td_at_def)
qed

lemma read_header_ok:
  assumes h: "holds h l (ts1 @ t # ts2)" and st: "stands l a b ts1 (t # ts2) it"
    and i: "i32 (fst (snd (snd t)) + bt_adjustment l)" "i32 (snd (snd (snd t)) + bt_adjustment l)"
  shows "\<exists>it'. read_header it h = Inr it' \<and> stands l a b ts1 (t # ts2) it' \<and> read_of it' t"
proof -
  obtain tid bytes s e where t: "t = (tid, bytes, s, e)" by (cases t)
  obtain x where x: "bt_data l = Some x" using h by (cases "bt_data l") (auto simp: holds_def)
  let ?p = "length (bytes_of ts1)"
  let ?q = "length (bytes_of (ts1 @ t # ts2))"
  have r: "region_bytes \<lparr>tr_data = x, tr_from = ?p, tr_to = ?q\<rparr> h = Inr (bytes_of (t # ts2))"
    using holds_region [OF h x, of "bytes_of ts1" "bytes_of (t # ts2)" "[]"] by (simp add: add.assoc)
  have b: "TagBuffer (bytes_of (t # ts2)) = \<lparr>tb_bytes = [] @ le32 tid @ le32 (of_nat (length bytes)) @ le32 (of_int s) @ le32 (of_int e) @
      bytes @ bytes_of ts2, tb_current = length ([] :: u8 list)\<rparr>" by (simp add: t TagBuffer_def)
  let ?it = "it\<lparr>it_nextTid := tid, it_nextSize := of_nat (length bytes),
      it_nextStart := sint (of_int s + of_int (it_adjustment it) :: u32), it_nextEnd := sint (of_int e + of_int (it_adjustment it) :: u32)\<rparr>"
  have f: "it_data it = Some x" "\<lparr>tr_data = x, tr_from = it_current it, tr_to = it_end it\<rparr> = \<lparr>tr_data = x, tr_from = ?p, tr_to = ?q\<rparr>"
    using st x by (simp_all add: stands_def)
  have "read_header it h = Inr ?it"
    unfolding read_header_def f(1) option.case f(2) r by (simp only: option.case res_bind.simps b ReadU32_append prod.case)
  moreover have adj: "it_adjustment it = bt_adjustment l" using st x by (simp add: stands_def)
  ultimately show ?thesis
    using st i unfolding adj t by (intro exI [of _ ?it]) (simp add: stands_def sint_shift adj)
qed

section \<open>The next tag in the window\<close>

lemma near_i32:
  assumes "near r adj t" and "r \<le> 2147483647"
  shows "i32 (fst (snd (snd t)) + adj)" and "i32 (snd (snd (snd t)) + adj)"
  using assms by (cases t, simp add: i32_def)+

lemma enc_room:
  assumes "holds h l (ts1 @ t # ts2)"
  shows "unat (4 + 4 + 4 + 4 + of_nat (length (fst (snd t))) :: u32) = 16 + length (fst (snd t))"
proof -
  have "16 + length (fst (snd t)) \<le> length (bytes_of (ts1 @ t # ts2))" by simp
  also have "\<dots> = unat (bt_used l)" using holds_used [OF assms] by simp
  finally have "16 + length (fst (snd t)) < 4294967296" using unat_u32_lt [of "bt_used l"] by linarith
  then show ?thesis by (simp add: unat_u32_add)
qed

lemma out_of_window:
  assumes "near r adj t" and "a < b" and "read_of it t" and "it_adjustment it = adj"
    and "it_offsetStart it = a" and "it_offsetEnd it = b"
  shows "it_offsetEnd it \<le> it_nextStart it \<or> it_nextEnd it \<le> it_offsetStart it \<longleftrightarrow> \<not> in_window a b adj t"
  using assms by (cases t) (simp add: max_def min_def, linarith)

definition poised :: "byte_tag_list \<Rightarrow> int \<Rightarrow> int \<Rightarrow> stored_tag list \<Rightarrow> stored_tag list \<Rightarrow> byte_tag_iter \<Rightarrow> bool" where
  "poised l a b ts1 ts2 it \<longleftrightarrow> stands l a b ts1 ts2 it \<and>
     (case ts2 of [] \<Rightarrow> True | t # us \<Rightarrow> read_of it t \<and> in_window a b (bt_adjustment l) t)"

lemma stands_data: "\<lbrakk>holds h l (ts1 @ t # ts2); stands l a b ts1' ts2' it\<rbrakk> \<Longrightarrow> it_adjustment it = bt_adjustment l"
  by (auto simp: stands_def holds_def split: option.splits)

lemma PrepareForNext_loop_ok:
  assumes "holds h l (ts1 @ ts2)" and "stands l a b ts1 ts2 it" and "\<forall>t\<in>set ts2. near r (bt_adjustment l) t"
    and "r \<le> 2147483647" and "a < b" and "length ts2 < n"
  shows "\<exists>us vs it'. PrepareForNext_loop n it h = Inr it' \<and> poised l a b (ts1 @ us) vs it' \<and> ts2 = us @ vs \<and>
    shown a b (bt_adjustment l) us = []"
  using assms
proof (induction ts2 arbitrary: ts1 it n)
  case Nil
  then obtain m where "n = Suc m" by (cases n) auto
  moreover have "\<not> it_current it < it_end it" using Nil.prems(2) by (simp add: stands_def)
  ultimately show ?case using Nil.prems(2) by (intro exI [of _ "[]"] exI [of _ it]) (simp add: poised_def)
next
  case (Cons t ts2)
  obtain m where n: "n = Suc m" "length ts2 < m" using Cons.prems(6) by (cases n) auto
  have nt: "near r (bt_adjustment l) t" using Cons.prems(3) by simp
  obtain it1 where it1: "read_header it h = Inr it1" "stands l a b ts1 (t # ts2) it1" "read_of it1 t"
    using read_header_ok [OF Cons.prems(1,2) near_i32 [OF nt Cons.prems(4)]] by blast
  have lt: "it_current it < it_end it" using Cons.prems(2) by (simp add: stands_def)
  have w: "it_offsetEnd it1 \<le> it_nextStart it1 \<or> it_nextEnd it1 \<le> it_offsetStart it1 \<longleftrightarrow> \<not> in_window a b (bt_adjustment l) t"
    by (rule out_of_window [OF nt Cons.prems(5) it1(3) stands_data [OF Cons.prems(1) it1(2)]]) (use it1(2) in \<open>simp_all add: stands_def\<close>)
  show ?case
  proof (cases "in_window a b (bt_adjustment l) t")
    case True
    then have "PrepareForNext_loop n it h = Inr it1" using n(1) lt it1(1) w by simp
    then show ?thesis using it1 True by (intro exI [of _ "[]"] exI [of _ "t # ts2"] exI [of _ it1]) (simp add: poised_def)
  next
    case False
    let ?it = "it1\<lparr>it_current := it_current it1 + unat (4 + 4 + 4 + 4 + it_nextSize it1)\<rparr>"
    have sz: "it_nextSize it1 = of_nat (length (fst (snd t)))" using it1(3) by (cases t) simp
    have st: "stands l a b (ts1 @ [t]) ts2 ?it"
      using it1(2) enc_room [OF Cons.prems(1)] unfolding sz by (simp add: stands_def)
    have h: "holds h l ((ts1 @ [t]) @ ts2)" using Cons.prems(1) by simp
    have e: "PrepareForNext_loop n it h = PrepareForNext_loop m ?it h" using n(1) lt it1(1) w False by simp
    from Cons.IH [OF h st _ Cons.prems(4,5) n(2)] Cons.prems(3)
    obtain us vs it' where u: "PrepareForNext_loop m ?it h = Inr it'" "poised l a b ((ts1 @ [t]) @ us) vs it'" "ts2 = us @ vs"
        "shown a b (bt_adjustment l) us = []" by auto
    then show ?thesis using e False by (intro exI [of _ "t # us"] exI [of _ vs] exI [of _ it']) simp
  qed
qed

lemma length_bytes_of: "16 * length ts \<le> length (bytes_of ts)"
  by (induction ts) auto

lemma PrepareForNext_ok:
  assumes "holds h l (ts1 @ ts2)" and "stands l a b ts1 ts2 it" and "\<forall>t\<in>set ts2. near r (bt_adjustment l) t"
    and "r \<le> 2147483647" and "a < b"
  shows "\<exists>us vs it'. PrepareForNext it h = Inr it' \<and> poised l a b (ts1 @ us) vs it' \<and> ts2 = us @ vs \<and>
    shown a b (bt_adjustment l) us = []"
proof -
  have "it_end it - it_current it = length (bytes_of ts2)" using assms(2) by (simp add: stands_def)
  then have "length ts2 < Suc (it_end it - it_current it)" using length_bytes_of [of ts2] by linarith
  from PrepareForNext_loop_ok [OF assms this] show ?thesis unfolding PrepareForNext_def .
qed

section \<open>Items\<close>

text \<open>An item of the list that has a tag's type, bytes and clipped range.\<close>

fun item_of :: "byte_tag_list \<Rightarrow> stored_tag list \<Rightarrow> byte_tag_item \<Rightarrow> stored_tag \<Rightarrow> bool" where
  "item_of l ts item (tid, bytes, s, e) \<longleftrightarrow> bi_tid item = tid \<and> bi_size item = of_nat (length bytes) \<and>
     bi_start item = s \<and> bi_end item = e \<and>
     (\<exists>x xs zs. bt_data l = Some x \<and> bytes_of ts = xs @ bytes @ zs \<and>
        bi_buf item = \<lparr>tr_data = x, tr_from = length xs, tr_to = length xs + length bytes\<rparr>)"

lemma item_bytes:
  assumes "holds h l ts" and "item_of l ts item (tid, bytes, s, e)"
  shows "region_bytes (bi_buf item) h = Inr bytes"
  using assms holds_region by auto

lemma iter_Next_ok:
  assumes h: "holds h l (ts1 @ t # ts2)" and r: "poised l a b ts1 (t # ts2) it"
    and n: "\<forall>t\<in>set ts2. near r (bt_adjustment l) t" and le: "r \<le> 2147483647" and ab: "a < b"
  shows "\<exists>item us vs it'. iter_Next it h = Inr (item, it') \<and> item_of l (ts1 @ t # ts2) item (clip a b (bt_adjustment l) t) \<and>
    poised l a b (ts1 @ t # us) vs it' \<and> ts2 = us @ vs \<and> shown a b (bt_adjustment l) us = []"
proof -
  obtain tid bytes s e where t: "t = (tid, bytes, s, e)" by (cases t)
  obtain x where x: "bt_data l = Some x" using h by (cases "bt_data l") (auto simp: holds_def)
  have st: "stands l a b ts1 (t # ts2) it" and rd: "read_of it t" using r by (simp_all add: poised_def)
  have sz: "unat (4 + 4 + 4 + 4 + it_nextSize it) = 16 + length bytes" using enc_room [OF h] rd by (simp add: t)
  let ?it = "it\<lparr>it_current := it_current it + (16 + length bytes)\<rparr>"
  have "stands l a b (ts1 @ [t]) ts2 ?it" using st by (simp add: stands_def t)
  moreover have "holds h l ((ts1 @ [t]) @ ts2)" using h by simp
  ultimately obtain us vs it' where u: "PrepareForNext ?it h = Inr it'" "poised l a b ((ts1 @ [t]) @ us) vs it'" "ts2 = us @ vs"
      "shown a b (bt_adjustment l) us = []"
    using PrepareForNext_ok [OF _ _ n le ab] by blast
  let ?item = "\<lparr>bi_tid = it_nextTid it, bi_size = it_nextSize it,
      bi_start = max (it_nextStart it) (it_offsetStart it), bi_end = min (it_nextEnd it) (it_offsetEnd it),
      bi_buf = \<lparr>tr_data = x, tr_from = it_current it + 16, tr_to = it_current it + (16 + length bytes)\<rparr>\<rparr>"
  have c: "iter_HasNext it" using stands_has_next [OF st] by simp
  have le2: "it_current it + (16 + length bytes) \<le> it_end it" using st by (simp add: stands_def t)
  have d: "it_data it = Some x" using st x by (simp add: stands_def)
  have "iter_Next it h = Inr (?item, it')"
    unfolding iter_Next_def d option.case sz Let_def using c le2 u(1) by simp
  moreover have "item_of l (ts1 @ t # ts2) ?item (clip a b (bt_adjustment l) t)"
  proof -
    have "bytes_of (ts1 @ t # ts2) = (bytes_of ts1 @ header t) @ bytes @ bytes_of ts2" by (simp add: t)
    then show ?thesis
      using rd st x unfolding t clip.simps item_of.simps
      by (intro conjI exI [of _ x] exI [of _ "bytes_of ts1 @ header t"] exI [of _ "bytes_of ts2"])
        (auto simp: t stands_def max.commute min.commute)
  qed
  ultimately show ?thesis using u by (intro exI [of _ ?item] exI [of _ us] exI [of _ vs] exI [of _ it']) simp
qed

section \<open>The loop\<close>

lemma iter_loop_ok:
  assumes step: "\<And>us u ws item s. \<lbrakk>I us s; item_of l ts item u; shown a b (bt_adjustment l) ts = us @ u # ws\<rbrakk> \<Longrightarrow>
        \<exists>s'. body item s = Inr s' \<and> I (us @ [u]) s'"
    and src: "\<And>us s. I us s \<Longrightarrow> holds (snd s) l ts"
    and le: "r \<le> 2147483647" and ab: "a < b" and near: "\<forall>t\<in>set ts. near r (bt_adjustment l) t"
  shows "\<lbrakk>I (shown a b (bt_adjustment l) ts1) s; poised l a b ts1 ts2 it; ts = ts1 @ ts2; length ts2 < n\<rbrakk> \<Longrightarrow>
    \<exists>s'. iter_loop body n it s = Inr s' \<and> I (shown a b (bt_adjustment l) ts) s'"
proof (induction n arbitrary: s ts1 ts2 it)
  case (Suc n)
  have st: "stands l a b ts1 ts2 it" using Suc.prems(2) by (simp add: poised_def)
  show ?case
  proof (cases ts2)
    case Nil
    then show ?thesis using Suc.prems(1,3) stands_has_next [OF st] by auto
  next
    case (Cons t rest)
    let ?c = "clip a b (bt_adjustment l) t"
    have h: "holds (snd s) l (ts1 @ t # rest)" using src [OF Suc.prems(1)] Suc.prems(3) Cons by simp
    have m: "in_window a b (bt_adjustment l) t" using Suc.prems(2) Cons by (simp add: poised_def)
    have "\<forall>t\<in>set rest. near r (bt_adjustment l) t" using near Suc.prems(3) Cons by simp
    from iter_Next_ok [OF h Suc.prems(2) [unfolded Cons] this le ab]
    obtain item vs ws it' where x: "iter_Next it (snd s) = Inr (item, it')"
        "item_of l (ts1 @ t # rest) item ?c"
        "poised l a b (ts1 @ t # vs) ws it'" "rest = vs @ ws" "shown a b (bt_adjustment l) vs = []" by blast
    have i: "item_of l ts item ?c" using x(2) Suc.prems(3) Cons by simp
    have "shown a b (bt_adjustment l) ts = shown a b (bt_adjustment l) ts1 @ ?c # shown a b (bt_adjustment l) rest"
      using Suc.prems(3) Cons m by simp
    from step [OF Suc.prems(1) i this]
    obtain s1 where s1: "body item s = Inr s1" "I (shown a b (bt_adjustment l) ts1 @ [?c]) s1" by blast
    have "shown a b (bt_adjustment l) (ts1 @ t # vs) = shown a b (bt_adjustment l) ts1 @ [?c]" using m x(5) by simp
    with s1(2) have i1: "I (shown a b (bt_adjustment l) (ts1 @ t # vs)) s1" by simp
    have "ts = (ts1 @ t # vs) @ ws" using Suc.prems(3) Cons x(4) by simp
    moreover have "length ws < n" using Suc.prems(4) Cons x(4) by simp
    ultimately obtain s' where s': "iter_loop body n it' s1 = Inr s'" "I (shown a b (bt_adjustment l) ts) s'"
      using Suc.IH [OF i1 x(3)] by blast
    have "iter_loop body (Suc n) it s = Inr s'" using stands_has_next [OF st] Cons x(1) s1(1) s'(1) by simp
    then show ?thesis using s'(2) by blast
  qed
qed simp

lemma Begin_ok:
  assumes "holds h l ts" and "\<forall>t\<in>set ts. near r (bt_adjustment l) t" and "r \<le> 2147483647" and "a < b"
  shows "\<exists>us vs it. ByteTagList_Begin a b l h = Inr it \<and> poised l a b us vs it \<and> ts = us @ vs \<and> shown a b (bt_adjustment l) us = []"
proof -
  have "holds h l ([] @ ts)" using assms(1) by simp
  moreover have "stands l a b [] ts \<lparr>it_data = bt_data l, it_current = 0,
        it_end = (if bt_data l = None then 0 else unat (bt_used l)), it_offsetStart = a,
        it_offsetEnd = b, it_adjustment = (if bt_data l = None then 0 else bt_adjustment l),
        it_nextTid = 0, it_nextSize = 0, it_nextStart = 0, it_nextEnd = 0\<rparr>"
    using holds_used [OF assms(1)] assms(1) by (auto simp: stands_def holds_def)
  ultimately obtain us vs it where u: "PrepareForNext \<lparr>it_data = bt_data l, it_current = 0,
        it_end = (if bt_data l = None then 0 else unat (bt_used l)), it_offsetStart = a,
        it_offsetEnd = b, it_adjustment = (if bt_data l = None then 0 else bt_adjustment l),
        it_nextTid = 0, it_nextSize = 0, it_nextStart = 0, it_nextEnd = 0\<rparr> h = Inr it"
      "poised l a b ([] @ us) vs it" "ts = us @ vs" "shown a b (bt_adjustment l) us = []"
    using PrepareForNext_ok [OF _ _ assms(2-4)] by blast
  then show ?thesis unfolding ByteTagList_Begin_def by (intro exI [of _ us] exI [of _ vs] exI [of _ it]) simp
qed

theorem iterate_ok:
  assumes "\<And>us u ws item s. \<lbrakk>I us s; item_of l ts item u; shown a b (bt_adjustment l) ts = us @ u # ws\<rbrakk> \<Longrightarrow>
        \<exists>s'. body item s = Inr s' \<and> I (us @ [u]) s'"
    and "\<And>us s. I us s \<Longrightarrow> holds (snd s) l ts"
    and "r \<le> 2147483647" and "a < b" and "\<forall>t\<in>set ts. near r (bt_adjustment l) t"
    and "holds h l ts" and "I [] s"
  shows "\<exists>s'. res_bind (ByteTagList_Begin a b l h) (\<lambda>i. iter_loop body (Suc (unat (bt_used l))) i s) = Inr s' \<and>
    I (shown a b (bt_adjustment l) ts) s'"
proof -
  obtain us vs it where b: "ByteTagList_Begin a b l h = Inr it" "poised l a b us vs it" "ts = us @ vs"
      "shown a b (bt_adjustment l) us = []"
    using Begin_ok [OF assms(6,5,3,4)] by blast
  have i: "I (shown a b (bt_adjustment l) us) s" using assms(7) b(4) by simp
  have "length vs < Suc (unat (bt_used l))"
    using holds_used [OF assms(6)] length_bytes_of [of ts] b(3) by simp
  then have "\<exists>s'. iter_loop body (Suc (unat (bt_used l))) it s = Inr s' \<and> I (shown a b (bt_adjustment l) ts) s'"
    by - (rule iter_loop_ok [where I = I and ts = ts and r = r], (rule assms(1-5) i b | assumption)+)
  then show ?thesis using b(1) by simp
qed

end
