(* ===== verification/Byte_Tag_Cut.thy ===== *)
theory Byte_Tag_Cut
  imports Byte_Tag_Iter
begin

text \<open>
  \<open>Add\<close> of a list, \<open>AddAtEnd\<close> and \<open>AddAtStart\<close>: what the list holds afterwards, and what of it is shown in a
  window. Other lists keep what they hold.
\<close>

section \<open>Lists that share a block\<close>

lemma Deallocate_list_ok:
  assumes "store_ok h (users l + R)"
  shows "\<exists>h'. Deallocate (bt_data l) h = Inr h' \<and> store_ok h' R \<and> same_blocks R h h'"
proof (cases "bt_data l")
  case None
  then show ?thesis using assms by (auto simp: Deallocate_def same_blocks_def)
next
  case (Some a)
  then show ?thesis using assms Deallocate_ok [of h a R] by simp
qed

lemma share_list_ok:
  assumes ok: "store_ok h R" and u: "users l \<subseteq># R" and n: "size R + 1 < 4294967296"
  shows "\<exists>h'. share (bt_data l) h = Inr h' \<and> store_ok h' (users l + R) \<and> same_blocks R h h'"
proof (cases "bt_data l")
  case None
  then show ?thesis using ok by (auto simp: share_def same_blocks_def)
next
  case (Some a)
  then have "a \<in># R" using u by simp
  from share_ok [OF ok this n] show ?thesis using Some by simp
qed

lemma framed_by_subset: "\<lbrakk>framed_by R h h'; S \<subseteq># R\<rbrakk> \<Longrightarrow> framed_by S h h'"
  unfolding framed_by_def by (meson mset_subset_eqD)

lemma replace_ok:
  assumes ok: "store_ok h (users l + (users m + R))" and h: "holds h l ts" and n: "size R + 3 < 4294967296"
  shows "\<exists>h'. res_bind (ByteTagList_assign m l h) (\<lambda>(this, h). res_bind (ByteTagList_destroy l h) (\<lambda>h. Inr (this, h))) = Inr (l, h') \<and>
    store_ok h' (users l + R) \<and> framed_by R h h' \<and> holds h' l ts"
proof -
  have "store_ok h (users m + (users l + R))" using ok by (simp add: ac_simps)
  from Deallocate_list_ok [OF this] obtain h1 where h1: "Deallocate (bt_data m) h = Inr h1" "store_ok h1 (users l + R)"
      "same_blocks (users l + R) h h1" by blast
  have "size (users l) \<le> 1" by (cases "bt_data l") simp_all
  then have "size (users l + R) + 1 < 4294967296" using n by simp
  from share_list_ok [OF h1(2) _ this, of l] obtain h2 where h2: "share (bt_data l) h1 = Inr h2"
      "store_ok h2 (users l + (users l + R))" "same_blocks (users l + R) h1 h2" by auto
  from Deallocate_list_ok [OF h2(2)] obtain h3 where h3: "Deallocate (bt_data l) h2 = Inr h3" "store_ok h3 (users l + R)"
      "same_blocks (users l + R) h2 h3" by blast
  have f: "framed_by (users l + R) h h3"
    using h1(3) h2(3) h3(3) by (meson framed_by_same framed_by_trans)
  then have "holds h3 l ts" by (rule holds_framed [OF h]) (use h3(2) in simp_all)
  moreover have "framed_by R h h3" by (rule framed_by_subset [OF f]) simp
  ultimately show ?thesis
    using h1(1) h2(1) h3(1,2) by (intro exI [of _ h3]) (simp add: ByteTagList_assign_def ByteTagList_destroy_def)
qed

section \<open>Adding the tag of an item\<close>

definition shifted :: "int \<Rightarrow> stored_tag list \<Rightarrow> stored_tag list" where
  "shifted d ts = map (\<lambda>(tid, bytes, s, e). (tid, bytes, s + d, e + d)) ts"

lemma shifted_simps [simp]:
  "shifted d [] = []" "shifted d ((tid, bytes, s, e) # ts) = (tid, bytes, s + d, e + d) # shifted d ts"
  "shifted d (ts @ us) = shifted d ts @ shifted d us" "shifted d (shifted e ts) = shifted (e + d) ts" "shifted 0 ts = ts"
  by (auto simp: shifted_def)

lemma shown_shifted: "shown a b d (shifted d' ts) = shown a b (d' + d) ts"
  by (induction ts) (auto simp: add.assoc)

lemma writes_CopyFrom: "writes (TagBuffer_CopyFrom bytes) bytes"
  by (simp add: writes_def TagBuffer_CopyFrom_def TagBuffer_def)

lemma add_item_ok:
  assumes ok: "store_ok h (users l + (users src + R))" and v: "holds h l ts" and src: "holds h src ss"
    and it: "item_of src ss item (tid, bytes, s0, e0)"
    and i: "i32 (s - bt_adjustment l)" "i32 (e - bt_adjustment l)"
    and room: "unat (bt_used l) + 16 + length bytes < 4294967296"
  shows "\<exists>l' h'. add_item item s e (l, h) = Inr (l', h') \<and> store_ok h' (users l' + (users src + R)) \<and>
    framed_by (users src + R) h h' \<and> holds h' l' (ts @ shifted (- bt_adjustment l) [(tid, bytes, s, e)]) \<and>
    bt_adjustment l' = bt_adjustment l \<and> unat (bt_used l') = unat (bt_used l) + 16 + length bytes"
proof -
  obtain buf l' h1 buf' h' where a: "ByteTagList_Add tid (of_nat (length bytes)) s e l h = Inr (buf, l', h1)"
      "write_region (TagBuffer_CopyFrom bytes) buf h1 = Inr (buf', h')" "store_ok h' (users l' + (users src + R))"
      "framed_by (users src + R) h h1" "framed_by (users src + R) h h'" "store_ok h1 (users l' + (users src + R))"
      "holds h' l' (ts @ [(tid, bytes, s - bt_adjustment l, e - bt_adjustment l)])"
      "bt_adjustment l' = bt_adjustment l" "unat (bt_used l') = unat (bt_used l) + 16 + length bytes"
    using Add_write_ok [OF ok v writes_CopyFrom [of bytes] i room] by blast
  have "holds h1 src ss" by (rule holds_framed [OF src a(4) _ a(6)]) simp
  from item_bytes [OF this it] have "copy_region buf (bi_buf item) h1 = Inr h'" using a(2) by (simp add: copy_region_def)
  then have "add_item item s e (l, h) = Inr (l', h')" using it a(1) by (simp add: add_item_def)
  then show ?thesis using a by (intro exI [of _ l'] exI [of _ h']) simp
qed

section \<open>Gathering tags\<close>

text \<open>The loops add to a list what \<open>g\<close> makes of the items.\<close>

fun gathered :: "(stored_tag \<Rightarrow> (int \<times> int) option) \<Rightarrow> stored_tag list \<Rightarrow> stored_tag list" where
  "gathered g [] = []"
| "gathered g ((tid, bytes, s, e) # us) =
     (case g (tid, bytes, s, e) of None \<Rightarrow> gathered g us | Some (s', e') \<Rightarrow> (tid, bytes, s', e') # gathered g us)"

lemma gathered_append [simp]: "gathered g (us @ vs) = gathered g us @ gathered g vs"
  by (induction g us rule: gathered.induct) (auto split: option.splits)

lemma length_bytes_shown: "length (bytes_of (shown a b d ts)) \<le> length (bytes_of ts)"
  by (induction ts) auto

lemma gather_ok:
  assumes ok: "store_ok h (users l + (users src + R))" and v: "holds h l ts" and src: "holds h src ss"
    and near: "\<forall>t\<in>set ss. near r (bt_adjustment src) t" and r: "r \<le> 2147483647" and ab: "a < b"
    and body: "\<And>item tid bytes s e x. item_of src ss item (tid, bytes, s, e) \<Longrightarrow> body item x =
      (case g (tid, bytes, s, e) of None \<Rightarrow> Inr x | Some (s', e') \<Rightarrow> add_item item s' e' x)"
    and g: "\<And>tid bytes s e s' e'. \<lbrakk>(tid, bytes, s, e) \<in> set (shown a b (bt_adjustment src) ss); g (tid, bytes, s, e) = Some (s', e')\<rbrakk> \<Longrightarrow>
      i32 (s' - bt_adjustment l) \<and> i32 (e' - bt_adjustment l)"
    and room: "unat (bt_used l) + unat (bt_used src) < 4294967296"
  shows "\<exists>l' h'. res_bind (ByteTagList_Begin a b src h) (\<lambda>i. iter_loop body (Suc (unat (bt_used src))) i (l, h)) = Inr (l', h') \<and>
    store_ok h' (users l' + (users src + R)) \<and> framed_by (users src + R) h h' \<and>
    holds h' l' (ts @ shifted (- bt_adjustment l) (gathered g (shown a b (bt_adjustment src) ss))) \<and>
    bt_adjustment l' = bt_adjustment l \<and> unat (bt_used l') \<le> unat (bt_used l) + unat (bt_used src)"
proof -
  define I where "I us x \<longleftrightarrow> store_ok (snd x) (users (fst x) + (users src + R)) \<and> framed_by (users src + R) h (snd x) \<and>
      holds (snd x) (fst x) (ts @ shifted (- bt_adjustment l) (gathered g us)) \<and> holds (snd x) src ss \<and>
      bt_adjustment (fst x) = bt_adjustment l \<and> unat (bt_used (fst x)) \<le> unat (bt_used l) + length (bytes_of us)" for us x
  have sz: "length (bytes_of (shown a b (bt_adjustment src) ss)) \<le> unat (bt_used src)"
    using holds_used [OF src] length_bytes_shown [of a b "bt_adjustment src" ss] by simp
  have "\<exists>x. res_bind (ByteTagList_Begin a b src h) (\<lambda>i. iter_loop body (Suc (unat (bt_used src))) i (l, h)) = Inr x \<and>
      I (shown a b (bt_adjustment src) ss) x"
  proof (rule iterate_ok [where I = I, OF _ _ r ab near src])
    show "I [] (l, h)" using ok v src by (simp add: I_def)
    show "holds (snd x) src ss" if "I us x" for us x using that by (simp add: I_def)
    fix us u ws item x
    assume I: "I us x" and it: "item_of src ss item u" and u: "shown a b (bt_adjustment src) ss = us @ u # ws"
    obtain m k where x: "x = (m, k)" by (cases x)
    obtain tid bytes s e where t: "u = (tid, bytes, s, e)" by (cases u)
    show "\<exists>x'. body item x = Inr x' \<and> I (us @ [u]) x'"
    proof (cases "g u")
      case None
      then show ?thesis using I body [OF it [unfolded t]] by (intro exI [of _ x]) (auto simp: I_def t)
    next
      case (Some se)
      obtain s' e' where se: "se = (s', e')" by (cases se)
      have I': "store_ok k (users m + (users src + R))" "framed_by (users src + R) h k"
          "holds k m (ts @ shifted (- bt_adjustment l) (gathered g us))" "holds k src ss"
          "bt_adjustment m = bt_adjustment l" "unat (bt_used m) \<le> unat (bt_used l) + length (bytes_of us)"
        using I by (simp_all add: I_def x)
      have "length (bytes_of us) + 16 + length bytes \<le> unat (bt_used src)" using sz u by (simp add: t)
      then have "unat (bt_used m) + 16 + length bytes < 4294967296" using I'(6) room by linarith
      moreover have "i32 (s' - bt_adjustment m)" "i32 (e' - bt_adjustment m)"
        using g [of tid bytes s e s' e'] u Some se I'(5) t by auto
      ultimately obtain m' k' where m: "add_item item s' e' (m, k) = Inr (m', k')" "store_ok k' (users m' + (users src + R))"
          "framed_by (users src + R) k k'"
          "holds k' m' ((ts @ shifted (- bt_adjustment l) (gathered g us)) @ shifted (- bt_adjustment m) [(tid, bytes, s', e')])"
          "bt_adjustment m' = bt_adjustment m" "unat (bt_used m') = unat (bt_used m) + 16 + length bytes"
        using add_item_ok [OF I'(1,3,4) it [unfolded t]] by blast
      have "framed_by (users src + R) h k'" using I'(2) m(3) by (rule framed_by_trans)
      moreover have "holds k' src ss" by (rule holds_framed [OF I'(4) m(3) _ m(2)]) simp
      moreover have "body item x = Inr (m', k')" using body [OF it [unfolded t]] Some se m(1) x t by simp
      ultimately show ?thesis
        using m(2,4-6) I'(5,6) Some se by (intro exI [of _ "(m', k')"]) (simp add: I_def t)
    qed
  qed
  then obtain l' h' where l: "res_bind (ByteTagList_Begin a b src h) (\<lambda>i. iter_loop body (Suc (unat (bt_used src))) i (l, h)) = Inr (l', h')"
      "I (shown a b (bt_adjustment src) ss) (l', h')" by auto
  then show ?thesis using sz by (intro exI [of _ l'] exI [of _ h']) (auto simp: I_def)
qed

section \<open>Adding the tags of another list\<close>

lemma near_shown:
  assumes "\<forall>t\<in>set ts. near r adj t" and "(tid, bytes, s, e) \<in> set (shown a b adj ts)"
  shows "- r \<le> s \<and> e \<le> r \<and> s < e \<and> a \<le> s \<and> e \<le> b"
  using assms by (induction ts) (auto split: if_splits simp: max_def min_def)

lemma gathered_id: "gathered (\<lambda>(tid, bytes, s, e). Some (s, e)) us = us"
  by (induction us) auto

lemma Add_list_ok:
  assumes ok: "store_ok h (users l + (users src + R))" and v: "holds h l ts" and src: "holds h src ss"
    and near: "\<forall>t\<in>set ss. near r (bt_adjustment src) t" and r: "r < 1073741824"
    and adj: "\<bar>bt_adjustment l\<bar> < 1073741824"
    and room: "unat (bt_used l) + unat (bt_used src) < 4294967296"
  shows "\<exists>l' h'. ByteTagList_Add_list src l h = Inr (l', h') \<and>
    store_ok h' (users l' + (users src + R)) \<and> framed_by (users src + R) h h' \<and>
    holds h' l' (ts @ shifted (- bt_adjustment l) (shown 0 INT32_MAX (bt_adjustment src) ss)) \<and>
    bt_adjustment l' = bt_adjustment l \<and> unat (bt_used l') \<le> unat (bt_used l) + unat (bt_used src)"
proof -
  let ?g = "\<lambda>(tid :: u32, bytes :: u8 list, s :: int, e :: int). Some (s, e)"
  have "\<exists>l' h'. res_bind (ByteTagList_Begin 0 INT32_MAX src h)
      (\<lambda>i. iter_loop (\<lambda>item. add_item item (bi_start item) (bi_end item)) (Suc (unat (bt_used src))) i (l, h)) = Inr (l', h') \<and>
    store_ok h' (users l' + (users src + R)) \<and> framed_by (users src + R) h h' \<and>
    holds h' l' (ts @ shifted (- bt_adjustment l) (gathered ?g (shown 0 INT32_MAX (bt_adjustment src) ss))) \<and>
    bt_adjustment l' = bt_adjustment l \<and> unat (bt_used l') \<le> unat (bt_used l) + unat (bt_used src)"
  proof (rule gather_ok [OF ok v src near _ _ _ _ room])
    show "i32 (s' - bt_adjustment l) \<and> i32 (e' - bt_adjustment l)"
      if "(tid, bytes, s, e) \<in> set (shown 0 INT32_MAX (bt_adjustment src) ss)" "?g (tid, bytes, s, e) = Some (s', e')"
      for tid bytes s e s' e'
      using near_shown [OF near that(1)] that(2) r adj by (auto simp: i32_def)
  qed (use r in \<open>auto simp: INT32_MAX_def\<close>)
  then show ?thesis unfolding gathered_id ByteTagList_Add_list_def ByteTagList_BeginAll_def .
qed

section \<open>Cutting at the end\<close>

lemma gathered_end:
  "0 \<le> x \<Longrightarrow> x \<le> b \<Longrightarrow> gathered (\<lambda>(tid, bytes, s, e). if x \<le> s then None else Some (s, min e x)) (shown 0 b adj ts) = shown 0 x adj ts"
proof (induction ts)
  case (Cons t ts)
  obtain tid bytes s e where t: "t = (tid, bytes, s, e)" by (cases t)
  have "min (min b (e + adj)) x = min x (e + adj)" using Cons.prems by linarith
  then show ?case using Cons.IH [OF Cons.prems] Cons.prems by (auto simp: t)
qed simp

lemma gathered_start:
  "x \<le> b \<Longrightarrow> 0 \<le> x \<Longrightarrow> gathered (\<lambda>(tid, bytes, s, e). if e \<le> x then None else Some (max s x, e)) (shown 0 b adj ts) = shown x b adj ts"
proof (induction ts)
  case (Cons t ts)
  obtain tid bytes s e where t: "t = (tid, bytes, s, e)" by (cases t)
  have "max (max 0 (s + adj)) x = max x (s + adj)" using Cons.prems by linarith
  then show ?case using Cons.IH [OF Cons.prems] Cons.prems by (auto simp: t)
qed simp

text \<open>What a cut at \<open>x\<close> gives: the list \<open>l'\<close> instead of \<open>l\<close>.\<close>

definition kept :: "int \<Rightarrow> byte_tag_list \<Rightarrow> nat multiset \<Rightarrow> tag_store \<Rightarrow> byte_tag_list \<Rightarrow> tag_store \<Rightarrow> stored_tag list \<Rightarrow> bool" where
  "kept r l R h l' h' ts' \<longleftrightarrow> store_ok h' (users l' + R) \<and> framed_by R h h' \<and> holds h' l' ts' \<and>
     (\<forall>t\<in>set ts'. near r (bt_adjustment l') t) \<and> \<bar>bt_adjustment l'\<bar> \<le> r \<and> unat (bt_used l') \<le> unat (bt_used l)"

lemma kept_refl:
  assumes "store_ok h (users l + R)" and "holds h l ts" and "\<forall>t\<in>set ts. near r (bt_adjustment l) t" and "\<bar>bt_adjustment l\<bar> \<le> r"
  shows "kept r l R h l h ts"
  using assms by (simp add: kept_def)

text \<open>The list that the loop fills replaces the list.\<close>

lemma cut_ok:
  assumes ok: "store_ok h (users l + R)" and v: "holds h l ts" and near: "\<forall>t\<in>set ts. near r (bt_adjustment l) t"
    and r: "r < 1073741824" and x: "0 \<le> x" "x \<le> r"
    and n: "size R + 4 < 4294967296"
    and body: "\<And>item tid bytes s e y. item_of l ts item (tid, bytes, s, e) \<Longrightarrow> body item y =
      (case g (tid, bytes, s, e) of None \<Rightarrow> Inr y | Some (s', e') \<Rightarrow> add_item item s' e' y)"
    and g: "gathered g (shown 0 INT32_MAX (bt_adjustment l) ts) = shown a b (bt_adjustment l) ts"
    and gr: "\<And>tid bytes s e s' e'. \<lbrakk>(tid, bytes, s, e) \<in> set (shown 0 INT32_MAX (bt_adjustment l) ts);
        g (tid, bytes, s, e) = Some (s', e')\<rbrakk> \<Longrightarrow> i32 s' \<and> i32 e'"
  shows "\<exists>l' h'. res_bind (ByteTagList_BeginAll l h) (\<lambda>i. res_bind (iter_loop body (Suc (unat (bt_used l))) i (ByteTagList, h)) (\<lambda>(list, h).
       res_bind (ByteTagList_assign l list h) (\<lambda>(this, h). res_bind (ByteTagList_destroy list h) (\<lambda>h. Inr (this, h))))) = Inr (l', h') \<and>
    kept r l R h l' h' (shown a b (bt_adjustment l) ts) \<and> bt_adjustment l' = 0"
proof -
  have ok': "store_ok h (users ByteTagList + (users l + R))" using ok by simp
  have "\<exists>l' h'. res_bind (ByteTagList_Begin 0 INT32_MAX l h)
      (\<lambda>i. iter_loop body (Suc (unat (bt_used l))) i (ByteTagList, h)) = Inr (l', h') \<and>
    store_ok h' (users l' + (users l + R)) \<and> framed_by (users l + R) h h' \<and>
    holds h' l' ([] @ shifted (- bt_adjustment ByteTagList) (gathered g (shown 0 INT32_MAX (bt_adjustment l) ts))) \<and>
    bt_adjustment l' = bt_adjustment ByteTagList \<and> unat (bt_used l') \<le> unat (bt_used ByteTagList) + unat (bt_used l)"
    by (rule gather_ok [OF ok' holds_empty v near]) (use r gr in \<open>auto simp: INT32_MAX_def ByteTagList_def body\<close>)
  then obtain m h1 where m: "res_bind (ByteTagList_Begin 0 INT32_MAX l h)
        (\<lambda>i. iter_loop body (Suc (unat (bt_used l))) i (ByteTagList, h)) = Inr (m, h1)"
      "store_ok h1 (users m + (users l + R))" "framed_by (users l + R) h h1" "holds h1 m (shown a b (bt_adjustment l) ts)"
      "bt_adjustment m = 0" "unat (bt_used m) \<le> unat (bt_used l)"
    unfolding g by (auto simp: ByteTagList_def)
  have "size R + 3 < 4294967296" using n by simp
  from replace_ok [OF m(2,4) this] obtain h2 where h2:
      "res_bind (ByteTagList_assign l m h1) (\<lambda>(this, h). res_bind (ByteTagList_destroy m h) (\<lambda>h. Inr (this, h))) = Inr (m, h2)"
      "store_ok h2 (users m + R)" "framed_by R h1 h2" "holds h2 m (shown a b (bt_adjustment l) ts)" by blast
  obtain i where i: "ByteTagList_BeginAll l h = Inr i" "iter_loop body (Suc (unat (bt_used l))) i (ByteTagList, h) = Inr (m, h1)"
    using m(1) by (cases "ByteTagList_Begin 0 INT32_MAX l h") (auto simp: ByteTagList_BeginAll_def)
  have "framed_by R h h1" by (rule framed_by_subset [OF m(3)]) simp
  then have "framed_by R h h2" using h2(3) by (rule framed_by_trans)
  moreover have "near r 0 t" if "t \<in> set (shown a b (bt_adjustment l) ts)" for t
    using near_shown [OF near, of "fst t" "fst (snd t)" "fst (snd (snd t))" "snd (snd (snd t))" a b] that by (cases t) simp
  ultimately show ?thesis
    using i h2 m(5,6) x by (intro exI [of _ m] exI [of _ h2]) (simp add: kept_def)
qed

lemma AddAtEnd_ok:
  assumes ok: "store_ok h (users l + R)" and v: "holds h l ts" and near: "\<forall>t\<in>set ts. near r (bt_adjustment l) t"
    and adj: "\<bar>bt_adjustment l\<bar> \<le> r" and r: "r < 1073741824" and x: "0 \<le> x" "x \<le> r" and n: "size R + 4 < 4294967296"
  shows "\<exists>l' h' ts'. ByteTagList_AddAtEnd x l h = Inr (l', h') \<and> kept r l R h l' h' ts' \<and>
    (\<forall>b\<ge>x. shown 0 b (bt_adjustment l') ts' = shown 0 x (bt_adjustment l) ts)"
proof (cases "bt_maxEnd l \<le> x - bt_adjustment l")
  case True
  have "i32 (x - bt_adjustment l)" using x r adj by (auto simp: i32_def)
  then have e: "ByteTagList_AddAtEnd x l h = Inr (l, h)" using True by (simp add: ByteTagList_AddAtEnd_def)
  have "shown 0 b (bt_adjustment l) ts = shown 0 x (bt_adjustment l) ts" if "x \<le> b" for b
  proof (rule shown_cong)
    fix t assume t: "t \<in> set ts"
    obtain tid bytes s e where te: "t = (tid, bytes, s, e)" by (cases t)
    have "e \<le> bt_maxEnd l" using v t by (auto simp: holds_def te)
    then have "min b (e + bt_adjustment l) = e + bt_adjustment l" "min x (e + bt_adjustment l) = e + bt_adjustment l"
      using True that by linarith+
    then show "in_window 0 b (bt_adjustment l) t = in_window 0 x (bt_adjustment l) t \<and>
        (in_window 0 b (bt_adjustment l) t \<longrightarrow> clip 0 b (bt_adjustment l) t = clip 0 x (bt_adjustment l) t)" by (simp add: te)
  qed
  then show ?thesis using e kept_refl [OF ok v near adj] by blast
next
  case False
  have i: "i32 (x - bt_adjustment l)" using x r adj by (auto simp: i32_def)
  let ?g = "\<lambda>(tid :: u32, bytes :: u8 list, s :: int, e :: int). if x \<le> s then None else Some (s, min e x)"
  let ?body = "\<lambda>item s. if x \<le> bi_start item then Inr s else add_item item (bi_start item) (min (bi_end item) x) s"
  have g: "gathered ?g (shown 0 INT32_MAX (bt_adjustment l) ts) = shown 0 x (bt_adjustment l) ts"
    by (rule gathered_end) (use x r in \<open>simp_all add: INT32_MAX_def\<close>)
  have "\<exists>l' h'. res_bind (ByteTagList_BeginAll l h) (\<lambda>i. res_bind (iter_loop ?body (Suc (unat (bt_used l))) i (ByteTagList, h)) (\<lambda>(list, h).
       res_bind (ByteTagList_assign l list h) (\<lambda>(this, h). res_bind (ByteTagList_destroy list h) (\<lambda>h. Inr (this, h))))) = Inr (l', h') \<and>
    kept r l R h l' h' (shown 0 x (bt_adjustment l) ts) \<and> bt_adjustment l' = 0"
  proof (rule cut_ok [where g = ?g, OF ok v near r x n _ g])
    show "i32 s' \<and> i32 e'"
      if "(tid, bytes, s, e) \<in> set (shown 0 INT32_MAX (bt_adjustment l) ts)" "?g (tid, bytes, s, e) = Some (s', e')"
      for tid bytes s e s' e'
      using near_shown [OF near that(1)] that(2) r x by (auto simp: i32_def split: if_splits)
  qed auto
  then obtain l' h' where l: "ByteTagList_AddAtEnd x l h = Inr (l', h')" "kept r l R h l' h' (shown 0 x (bt_adjustment l) ts)"
      "bt_adjustment l' = 0"
    unfolding ByteTagList_AddAtEnd_def using i False by auto
  then show ?thesis
    by (intro exI [of _ l'] exI [of _ h'] exI [of _ "shown 0 x (bt_adjustment l) ts"]) (simp add: shown_shown min_absorb2)
qed

section \<open>Cutting at the start\<close>

lemma AddAtStart_ok:
  assumes ok: "store_ok h (users l + R)" and v: "holds h l ts" and near: "\<forall>t\<in>set ts. near r (bt_adjustment l) t"
    and adj: "\<bar>bt_adjustment l\<bar> \<le> r" and r: "r < 1073741824" and x: "0 \<le> x" "x \<le> r" and n: "size R + 4 < 4294967296"
  shows "\<exists>l' h' ts'. ByteTagList_AddAtStart x l h = Inr (l', h') \<and> kept r l R h l' h' ts' \<and>
    (\<forall>a b. a \<le> x \<longrightarrow> b \<le> INT32_MAX \<longrightarrow> shown a b (bt_adjustment l') ts' = shown x b (bt_adjustment l) ts)"
proof (cases "x - bt_adjustment l \<le> bt_minStart l")
  case True
  have "i32 (x - bt_adjustment l)" using x r adj by (auto simp: i32_def)
  then have e: "ByteTagList_AddAtStart x l h = Inr (l, h)" using True by (simp add: ByteTagList_AddAtStart_def)
  have "shown a b (bt_adjustment l) ts = shown x b (bt_adjustment l) ts" if "a \<le> x" for a b
  proof (rule shown_cong)
    fix t assume t: "t \<in> set ts"
    obtain tid bytes s e where te: "t = (tid, bytes, s, e)" by (cases t)
    have "bt_minStart l \<le> s" using v t by (auto simp: holds_def te)
    then have "max a (s + bt_adjustment l) = s + bt_adjustment l" "max x (s + bt_adjustment l) = s + bt_adjustment l"
      using True that by linarith+
    then show "in_window a b (bt_adjustment l) t = in_window x b (bt_adjustment l) t \<and>
        (in_window a b (bt_adjustment l) t \<longrightarrow> clip a b (bt_adjustment l) t = clip x b (bt_adjustment l) t)" by (simp add: te)
  qed
  then show ?thesis using e kept_refl [OF ok v near adj] by blast
next
  case False
  have i: "i32 (x - bt_adjustment l)" using x r adj by (auto simp: i32_def)
  let ?g = "\<lambda>(tid :: u32, bytes :: u8 list, s :: int, e :: int). if e \<le> x then None else Some (max s x, e)"
  let ?body = "\<lambda>item s. if bi_end item \<le> x then Inr s else add_item item (max (bi_start item) x) (bi_end item) s"
  have g: "gathered ?g (shown 0 INT32_MAX (bt_adjustment l) ts) = shown x INT32_MAX (bt_adjustment l) ts"
    by (rule gathered_start) (use x r in \<open>simp_all add: INT32_MAX_def\<close>)
  have "\<exists>l' h'. res_bind (ByteTagList_BeginAll l h) (\<lambda>i. res_bind (iter_loop ?body (Suc (unat (bt_used l))) i (ByteTagList, h)) (\<lambda>(list, h).
       res_bind (ByteTagList_assign l list h) (\<lambda>(this, h). res_bind (ByteTagList_destroy list h) (\<lambda>h. Inr (this, h))))) = Inr (l', h') \<and>
    kept r l R h l' h' (shown x INT32_MAX (bt_adjustment l) ts) \<and> bt_adjustment l' = 0"
  proof (rule cut_ok [where g = ?g, OF ok v near r x n _ g])
    show "i32 s' \<and> i32 e'"
      if "(tid, bytes, s, e) \<in> set (shown 0 INT32_MAX (bt_adjustment l) ts)" "?g (tid, bytes, s, e) = Some (s', e')"
      for tid bytes s e s' e'
      using near_shown [OF near that(1)] that(2) r x by (auto simp: i32_def split: if_splits)
  qed auto
  then obtain l' h' where l: "ByteTagList_AddAtStart x l h = Inr (l', h')" "kept r l R h l' h' (shown x INT32_MAX (bt_adjustment l) ts)"
      "bt_adjustment l' = 0"
    unfolding ByteTagList_AddAtStart_def using i False by auto
  then show ?thesis
    by (intro exI [of _ l'] exI [of _ h'] exI [of _ "shown x INT32_MAX (bt_adjustment l) ts"])
      (simp add: shown_shown min_absorb1 max_absorb2)
qed

end
