(* ===== verification/Packet_Spec.thy ===== *)
theory Packet_Spec
  imports Ns3_Packet Byte_Tag_Cut
begin

text \<open>
  What packets promise of their byte tags. An abstract packet has a size and the tags on its bytes, each with
  its range; every operation is defined on it without lists of bytes, adjustments or shared blocks. The
  operations of \<open>Packet\<close> implement those of the abstract packets: on the packet they are called on, and on no
  other.
\<close>

section \<open>Abstract packets\<close>

text \<open>
  \<open>ap_used\<close> and \<open>ap_reach\<close> bound the bytes that the tags take and the offsets they have had; the
  specification is defined as long as they are below a quarter of the 32 bit numbers.
\<close>

record apacket =
  ap_size :: nat
  ap_tags :: "stored_tag list"
  ap_used :: nat
  ap_reach :: nat

definition fits :: "apacket \<Rightarrow> bool" where
  "fits p \<longleftrightarrow> ap_used p < 1073741824 \<and> ap_reach p < 1073741824"

definition trimmed :: "nat \<Rightarrow> stored_tag list \<Rightarrow> stored_tag list" where
  "trimmed n ts = shown 0 (int n) 0 ts"

definition sp_new :: "nat \<Rightarrow> apacket" where
  "sp_new n = \<lparr>ap_size = n, ap_tags = [], ap_used = 0, ap_reach = n\<rparr>"

definition sp_fragment :: "nat \<Rightarrow> nat \<Rightarrow> apacket \<Rightarrow> apacket option" where
  "sp_fragment s n p =
     (if s + n \<le> ap_size p
      then Some (p\<lparr>ap_size := n, ap_tags := trimmed n (shifted (- int s) (ap_tags p)), ap_reach := ap_reach p + s\<rparr>)
      else None)"

definition sp_header :: "nat \<Rightarrow> apacket \<Rightarrow> apacket option" where
  "sp_header n p = Some (p\<lparr>ap_size := ap_size p + n, ap_tags := shifted (int n) (ap_tags p), ap_reach := ap_reach p + n\<rparr>)"

definition sp_remove_start :: "nat \<Rightarrow> apacket \<Rightarrow> apacket option" where
  "sp_remove_start n p =
     Some (p\<lparr>ap_size := ap_size p - n, ap_tags := trimmed (ap_size p - n) (shifted (- int n) (ap_tags p)), ap_reach := ap_reach p + n\<rparr>)"

definition sp_pad :: "nat \<Rightarrow> apacket \<Rightarrow> apacket option" where
  "sp_pad n p = Some (p\<lparr>ap_size := ap_size p + n, ap_reach := ap_reach p + n\<rparr>)"

definition sp_remove_end :: "nat \<Rightarrow> apacket \<Rightarrow> apacket option" where
  "sp_remove_end n p = Some (p\<lparr>ap_size := ap_size p - n, ap_tags := trimmed (ap_size p - n) (ap_tags p)\<rparr>)"

definition sp_append :: "apacket \<Rightarrow> apacket \<Rightarrow> apacket option" where
  "sp_append q p =
     Some (p\<lparr>ap_size := ap_size p + ap_size q, ap_tags := ap_tags p @ shifted (int (ap_size p)) (ap_tags q),
             ap_used := ap_used p + ap_used q, ap_reach := ap_reach p + ap_reach q\<rparr>)"

definition sp_tag :: "u32 \<Rightarrow> u8 list \<Rightarrow> nat \<Rightarrow> nat \<Rightarrow> apacket \<Rightarrow> apacket option" where
  "sp_tag tid bytes s e p =
     (if s < e
      then Some (p\<lparr>ap_tags := ap_tags p @ trimmed (ap_size p) [(tid, bytes, int s, int e)],
                   ap_used := ap_used p + 16 + length bytes, ap_reach := max (ap_reach p) e\<rparr>)
      else None)"

definition sp_clear :: "apacket \<Rightarrow> apacket option" where
  "sp_clear p = Some (p\<lparr>ap_tags := []\<rparr>)"

section \<open>The packet that an abstract packet stands for\<close>

definition repr :: "tag_store \<Rightarrow> packet \<Rightarrow> apacket \<Rightarrow> bool" where
  "repr h p ap \<longleftrightarrow> unat (pk_size p) = ap_size ap \<and> unat (bt_used (pk_tags p)) \<le> ap_used ap \<and> ap_size ap \<le> ap_reach ap \<and>
     \<bar>bt_adjustment (pk_tags p)\<bar> \<le> int (ap_reach ap) \<and>
     (\<exists>ts. holds h (pk_tags p) ts \<and> shown 0 (int (ap_size ap)) (bt_adjustment (pk_tags p)) ts = ap_tags ap \<and>
        (\<forall>t\<in>set ts. near (int (ap_reach ap)) (bt_adjustment (pk_tags p)) t))"

lemma reprE:
  assumes "repr h p ap"
  obtains ts where "holds h (pk_tags p) ts" "shown 0 (int (ap_size ap)) (bt_adjustment (pk_tags p)) ts = ap_tags ap"
    "\<forall>t\<in>set ts. near (int (ap_reach ap)) (bt_adjustment (pk_tags p)) t" "unat (pk_size p) = ap_size ap"
    "unat (bt_used (pk_tags p)) \<le> ap_used ap" "ap_size ap \<le> ap_reach ap" "\<bar>bt_adjustment (pk_tags p)\<bar> \<le> int (ap_reach ap)"
  using assms unfolding repr_def by blast

lemma reprI:
  assumes "holds h (pk_tags p) ts" and "shown 0 (int (ap_size ap)) (bt_adjustment (pk_tags p)) ts = ap_tags ap"
    and "\<forall>t\<in>set ts. near (int (ap_reach ap)) (bt_adjustment (pk_tags p)) t" and "unat (pk_size p) = ap_size ap"
    and "unat (bt_used (pk_tags p)) \<le> ap_used ap" and "ap_size ap \<le> ap_reach ap" and "\<bar>bt_adjustment (pk_tags p)\<bar> \<le> int (ap_reach ap)"
  shows "repr h p ap"
  using assms unfolding repr_def by blast

lemma repr_framed:
  assumes "repr h p ap" and "framed_by R h h'" and "users (pk_tags p) \<subseteq># R" and "store_ok h' R'"
  shows "repr h' p ap"
  using assms holds_framed unfolding repr_def by meson

text \<open>An operation implements an abstract one: on its packet, and framing the lists of \<open>R\<close>.\<close>

definition refines ::
  "(packet \<Rightarrow> tag_store \<Rightarrow> (packet \<times> tag_store) res) \<Rightarrow> (apacket \<Rightarrow> apacket option) \<Rightarrow> bool" where
  "refines f g \<longleftrightarrow> (\<forall>h p ap ap' R. g ap = Some ap' \<longrightarrow> fits ap \<longrightarrow> fits ap' \<longrightarrow> size R + 8 < 4294967296 \<longrightarrow>
     store_ok h (users (pk_tags p) + R) \<longrightarrow> repr h p ap \<longrightarrow>
     (\<exists>p' h'. f p h = Inr (p', h') \<and> store_ok h' (users (pk_tags p') + R) \<and> framed_by R h h' \<and> repr h' p' ap'))"

lemma sint_small: "unat (n :: u32) < 1073741824 \<Longrightarrow> sint n = int (unat n)"
proof -
  assume n: "unat n < 1073741824"
  have "n = of_int (int (unat n))" by simp
  moreover have "sint (of_int (int (unat n)) :: u32) = int (unat n)"
    unfolding sint_sbintrunc' using n signed_take_bit_int_eq_self [of 31 "int (unat n)"] by simp
  ultimately show ?thesis by metis
qed

lemma sint_minus_small: "unat (n :: u32) < 1073741824 \<Longrightarrow> sint (- n) = - int (unat n)"
proof -
  assume n: "unat n < 1073741824"
  have "- n = of_int (- int (unat n))" by simp
  moreover have "sint (of_int (- int (unat n)) :: u32) = - int (unat n)"
    unfolding sint_sbintrunc' using n signed_take_bit_int_eq_self [of 31 "- int (unat n)"] by simp
  ultimately show ?thesis by metis
qed

lemma near_mono: "near r adj t \<Longrightarrow> r \<le> r' \<Longrightarrow> near r' adj t"
  by (cases t) simp

lemma near_shift: "near r adj t \<Longrightarrow> \<bar>d\<bar> \<le> k \<Longrightarrow> near (r + k) (adj + d) t"
  by (cases t) auto

lemma holds_adjust [simp]: "holds h (l\<lparr>bt_adjustment := x\<rparr>) ts = holds h l ts"
proof -
  have "in_bounds (l\<lparr>bt_adjustment := x\<rparr>) t = in_bounds l t" for t by (cases t) simp
  then show ?thesis by (cases "bt_data l") (simp_all add: holds_def)
qed

lemma users_adjust [simp]: "users (l\<lparr>bt_adjustment := x\<rparr>) = users l"
  by (simp add: users_def)

lemma Adjust_ok:
  assumes "\<bar>bt_adjustment l\<bar> \<le> r" and "\<bar>d\<bar> \<le> k" and "r + k < 1073741824"
  shows "ByteTagList_Adjust d l = Inr (l\<lparr>bt_adjustment := bt_adjustment l + d\<rparr>)"
proof -
  have "i32 (bt_adjustment l + d)" using assms by (auto simp: i32_def)
  then show ?thesis by (simp add: ByteTagList_Adjust_def)
qed

lemma shifted_shown: "shifted d (shown a b adj ts) = shown (a + d) (b + d) (adj + d) ts"
proof (induction ts)
  case (Cons t ts)
  obtain tid bytes s e where t: "t = (tid, bytes, s, e)" by (cases t)
  have "max (a + d) (s + (adj + d)) = max a (s + adj) + d" "min (b + d) (e + (adj + d)) = min b (e + adj) + d" by linarith+
  then show ?case using Cons.IH by (simp add: t)
qed simp

lemma trimmed_shown: "trimmed n (shown a b adj ts) = shown (max 0 a) (min (int n) b) adj ts"
  by (simp add: trimmed_def shown_shown)

section \<open>The operations on one packet\<close>

lemma refines_AddHeader: "refines (Packet_AddHeader n) (sp_header (unat n))"
  unfolding refines_def
proof (intro allI impI)
  fix h p ap ap' R
  assume g: "sp_header (unat n) ap = Some ap'" and f: "fits ap" "fits ap'" and R: "size R + 8 < 4294967296"
    and ok: "store_ok h (users (pk_tags p) + R)" and rp: "repr h p ap"
  let ?l = "pk_tags p" and ?n = "int (unat n)" and ?r = "int (ap_reach ap) + int (unat n)"
  obtain ts where ts: "holds h ?l ts" "shown 0 (int (ap_size ap)) (bt_adjustment ?l) ts = ap_tags ap"
      "\<forall>t\<in>set ts. near (int (ap_reach ap)) (bt_adjustment ?l) t" "unat (pk_size p) = ap_size ap"
      "unat (bt_used ?l) \<le> ap_used ap" "ap_size ap \<le> ap_reach ap" "\<bar>bt_adjustment ?l\<bar> \<le> int (ap_reach ap)"
    using rp by (rule reprE)
  have r: "?r < 1073741824" using f(2) g by (auto simp: fits_def sp_header_def)
  let ?m = "?l\<lparr>bt_adjustment := bt_adjustment ?l + ?n\<rparr>"
  have sn: "sint n = ?n" by (rule sint_small) (use r in linarith)
  have adj: "ByteTagList_Adjust ?n ?l = Inr ?m" by (rule Adjust_ok [OF ts(7) _ r]) simp
  have m: "store_ok h (users ?m + R)" "holds h ?m ts" "\<forall>t\<in>set ts. near ?r (bt_adjustment ?m) t" "\<bar>bt_adjustment ?m\<bar> \<le> ?r"
    using ok ts near_shift [of "int (ap_reach ap)" "bt_adjustment ?l" _ ?n ?n] by auto
  have "size R + 4 < 4294967296" using R by simp
  from AddAtStart_ok [OF m r _ _ this, of ?n] obtain l' h' ts' where l: "ByteTagList_AddAtStart ?n ?m h = Inr (l', h')"
      "kept ?r ?m R h l' h' ts'"
      "\<And>a b. a \<le> ?n \<Longrightarrow> b \<le> INT32_MAX \<Longrightarrow> shown a b (bt_adjustment l') ts' = shown ?n b (bt_adjustment ?m) ts" by auto
  have sz: "unat (pk_size p + n) = ap_size ap + unat n" using ts(4,6) r by (simp add: unat_u32_add)
  have "shown 0 (int (ap_size ap + unat n)) (bt_adjustment l') ts' = shifted ?n (ap_tags ap)"
    unfolding ts(2) [symmetric] shifted_shown using l(3) [of 0 "int (ap_size ap + unat n)"] ts(6) r by (simp add: INT32_MAX_def)
  then have "repr h' \<lparr>pk_size = pk_size p + n, pk_tags = l'\<rparr> ap'"
    using l(2) g sz ts(5,6) by (auto simp: repr_def kept_def sp_header_def intro!: exI [of _ ts'])
  moreover have "Packet_AddHeader n p h = Inr (\<lparr>pk_size = pk_size p + n, pk_tags = l'\<rparr>, h')"
    using adj l(1) by (simp add: Packet_AddHeader_def sn)
  ultimately show "\<exists>p' h'. Packet_AddHeader n p h = Inr (p', h') \<and> store_ok h' (users (pk_tags p') + R) \<and> framed_by R h h' \<and> repr h' p' ap'"
    using l(2) by (intro exI [of _ "\<lparr>pk_size = pk_size p + n, pk_tags = l'\<rparr>"] exI [of _ h']) (simp add: kept_def)
qed

text \<open>Operations that leave the store as it is.\<close>

lemma refines_pure:
  assumes "\<And>h p ap ap'. \<lbrakk>g ap = Some ap'; fits ap; fits ap'; repr h p ap\<rbrakk> \<Longrightarrow>
    \<exists>p'. f p = Inr p' \<and> users (pk_tags p') = users (pk_tags p) \<and> repr h p' ap'"
  shows "refines (\<lambda>p h. res_bind (f p) (\<lambda>p. Inr (p, h))) g"
  unfolding refines_def
proof (intro allI impI)
  fix h p ap ap' R
  assume "g ap = Some ap'" "fits ap" "fits ap'" and ok: "store_ok h (users (pk_tags p) + R)" and "repr h p ap"
  then obtain p' where "f p = Inr p'" "users (pk_tags p') = users (pk_tags p)" "repr h p' ap'" using assms by blast
  then show "\<exists>p' h'. res_bind (f p) (\<lambda>p. Inr (p, h)) = Inr (p', h') \<and> store_ok h' (users (pk_tags p') + R) \<and>
      framed_by R h h' \<and> repr h' p' ap'"
    using ok by (intro exI [of _ p'] exI [of _ h]) simp
qed

lemma shown_removed:
  "shown 0 (int (m - n)) (adj - int n) ts = trimmed (m - n) (shifted (- int n) (shown 0 (int m) adj ts))"
proof (cases "n \<le> m")
  case True
  then show ?thesis by (simp add: shifted_shown trimmed_shown of_nat_diff)
next
  case False
  then show ?thesis by (simp add: shifted_shown trimmed_shown shown_empty)
qed

lemma refines_RemoveAtStart: "refines (\<lambda>p h. res_bind (Packet_RemoveAtStart n p) (\<lambda>p. Inr (p, h))) (sp_remove_start (unat n))"
proof (rule refines_pure)
  fix h p ap ap' assume g: "sp_remove_start (unat n) ap = Some ap'" and f: "fits ap" "fits ap'" and rp: "repr h p ap"
  let ?l = "pk_tags p" and ?n = "int (unat n)"
  let ?m = "?l\<lparr>bt_adjustment := bt_adjustment ?l - ?n\<rparr>"
  let ?p = "\<lparr>pk_size = size_RemoveAtStart n (pk_size p), pk_tags = ?m\<rparr>"
  obtain ts where ts: "holds h ?l ts" "shown 0 (int (ap_size ap)) (bt_adjustment ?l) ts = ap_tags ap"
      "\<forall>t\<in>set ts. near (int (ap_reach ap)) (bt_adjustment ?l) t" "unat (pk_size p) = ap_size ap"
      "unat (bt_used ?l) \<le> ap_used ap" "ap_size ap \<le> ap_reach ap" "\<bar>bt_adjustment ?l\<bar> \<le> int (ap_reach ap)"
    using rp by (rule reprE)
  have r: "int (ap_reach ap) + ?n < 1073741824" using f(2) g by (auto simp: fits_def sp_remove_start_def)
  have "sint (- n) = - ?n" by (rule sint_minus_small) (use r in linarith)
  then have "Packet_RemoveAtStart n p = Inr ?p"
    using Adjust_ok [OF ts(7) _ r, of "- ?n"] by (simp add: Packet_RemoveAtStart_def)
  moreover have "\<forall>t\<in>set ts. near (int (ap_reach ap) + ?n) (bt_adjustment ?m) t"
    using ts(3) near_shift [of "int (ap_reach ap)" "bt_adjustment ?l" _ "- ?n" ?n] by auto
  moreover have "shown 0 (int (ap_size ap - unat n)) (bt_adjustment ?m) ts = trimmed (ap_size ap - unat n) (shifted (- ?n) (ap_tags ap))"
    using shown_removed [of "ap_size ap" "unat n" "bt_adjustment ?l" ts] ts(2) by simp
  ultimately show "\<exists>p'. Packet_RemoveAtStart n p = Inr p' \<and> users (pk_tags p') = users (pk_tags p) \<and> repr h p' ap'"
    using g ts(1,4-7) unat_remove [of "pk_size p" n]
    by (intro exI [of _ ?p]) (auto simp: repr_def sp_remove_start_def size_RemoveAtStart_def intro!: exI [of _ ts])
qed

lemma RemoveHeader_same: "Packet_RemoveHeader = Packet_RemoveAtStart"
  by (intro ext) (simp add: Packet_RemoveHeader_def Packet_RemoveAtStart_def Let_def)

lemma refines_RemoveAtEnd: "refines (\<lambda>p h. res_bind (Inr (Packet_RemoveAtEnd n p)) (\<lambda>p. Inr (p, h))) (sp_remove_end (unat n))"
proof (rule refines_pure)
  fix h p ap ap' assume g: "sp_remove_end (unat n) ap = Some ap'" and f: "fits ap" "fits ap'" and rp: "repr h p ap"
  from rp obtain ts where ts: "holds h (pk_tags p) ts" "shown 0 (int (ap_size ap)) (bt_adjustment (pk_tags p)) ts = ap_tags ap"
      "\<forall>t\<in>set ts. near (int (ap_reach ap)) (bt_adjustment (pk_tags p)) t" "unat (pk_size p) = ap_size ap"
      "unat (bt_used (pk_tags p)) \<le> ap_used ap" "ap_size ap \<le> ap_reach ap" "\<bar>bt_adjustment (pk_tags p)\<bar> \<le> int (ap_reach ap)"
    by (rule reprE)
  have "shown 0 (int (ap_size ap - unat n)) (bt_adjustment (pk_tags p)) ts = trimmed (ap_size ap - unat n) (ap_tags ap)"
    unfolding ts(2) [symmetric] trimmed_shown by (simp add: min_def)
  then have "repr h (Packet_RemoveAtEnd n p) ap'"
    using g ts unat_remove [of "pk_size p" n]
    by (intro reprI [of _ _ ts]) (auto simp: sp_remove_end_def Packet_RemoveAtEnd_def size_RemoveAtEnd_def)
  then show "\<exists>p'. Inr (Packet_RemoveAtEnd n p) = Inr p' \<and> users (pk_tags p') = users (pk_tags p) \<and> repr h p' ap'"
    by (simp add: Packet_RemoveAtEnd_def)
qed

lemma RemoveTrailer_same: "Packet_RemoveTrailer = Packet_RemoveAtEnd"
  by (intro ext) (simp add: Packet_RemoveTrailer_def Packet_RemoveAtEnd_def)

lemma refines_AddPaddingAtEnd: "refines (Packet_AddPaddingAtEnd n) (sp_pad (unat n))"
  unfolding refines_def
proof (intro allI impI)
  fix h p ap ap' R
  assume g: "sp_pad (unat n) ap = Some ap'" and f: "fits ap" "fits ap'" and R: "size R + 8 < 4294967296"
    and ok: "store_ok h (users (pk_tags p) + R)" and rp: "repr h p ap"
  let ?l = "pk_tags p" and ?n = "int (unat n)" and ?r = "int (ap_reach ap)"
  obtain ts where ts: "holds h ?l ts" "shown 0 (int (ap_size ap)) (bt_adjustment ?l) ts = ap_tags ap"
      "\<forall>t\<in>set ts. near ?r (bt_adjustment ?l) t" "unat (pk_size p) = ap_size ap"
      "unat (bt_used ?l) \<le> ap_used ap" "ap_size ap \<le> ap_reach ap" "\<bar>bt_adjustment ?l\<bar> \<le> ?r"
    using rp by (rule reprE)
  have r: "?r + ?n < 1073741824" using f(2) g by (auto simp: fits_def sp_pad_def)
  have sp: "sint (pk_size p) = int (ap_size ap)" using sint_small [of "pk_size p"] ts(4,6) r by simp
  have R4: "size R + 4 < 4294967296" and r': "?r < 1073741824" and sr: "int (ap_size ap) \<le> ?r" using R r ts(6) by simp_all
  from AddAtEnd_ok [OF ok ts(1,3,7) r' _ sr R4] obtain l' h' ts' where l: "ByteTagList_AddAtEnd (int (ap_size ap)) ?l h = Inr (l', h')" "kept ?r ?l R h l' h' ts'"
      "\<And>b. int (ap_size ap) \<le> b \<Longrightarrow> shown 0 b (bt_adjustment l') ts' = shown 0 (int (ap_size ap)) (bt_adjustment ?l) ts"
    by auto
  let ?p = "\<lparr>pk_size = pk_size p + n, pk_tags = l'\<rparr>"
  have "unat (pk_size p + n) = ap_size ap + unat n" using ts(4,6) r by (simp add: unat_u32_add)
  moreover have "shown 0 (int (ap_size ap + unat n)) (bt_adjustment l') ts' = ap_tags ap" using l(3) ts(2) by simp
  moreover have "\<forall>t\<in>set ts'. near (int (ap_reach ap + unat n)) (bt_adjustment l') t"
    using l(2) near_mono [of ?r "bt_adjustment l'" _ "int (ap_reach ap + unat n)"] by (auto simp: kept_def)
  ultimately have "repr h' ?p ap'" using l(2) g ts(5,6) by (intro reprI [of _ _ ts']) (auto simp: kept_def sp_pad_def)
  moreover have "Packet_AddPaddingAtEnd n p h = Inr (?p, h')" using l(1) by (simp add: Packet_AddPaddingAtEnd_def sp)
  ultimately show "\<exists>p' h'. Packet_AddPaddingAtEnd n p h = Inr (p', h') \<and> store_ok h' (users (pk_tags p') + R) \<and>
      framed_by R h h' \<and> repr h' p' ap'"
    using l(2) by (intro exI [of _ ?p] exI [of _ h']) (simp add: kept_def)
qed

lemma AddTrailer_same: "Packet_AddTrailer = Packet_AddPaddingAtEnd"
  by (intro ext) (simp add: Packet_AddTrailer_def Packet_AddPaddingAtEnd_def)

section \<open>Tags\<close>

lemma refines_add_tag:
  assumes w: "writes Serialize bytes"
  shows "refines (add_tag tid (of_nat (length bytes)) Serialize (int s) (int e)) (sp_tag tid bytes s e)"
  unfolding refines_def
proof (intro allI impI)
  fix h p ap ap' R
  assume g: "sp_tag tid bytes s e ap = Some ap'" and f: "fits ap" "fits ap'" and R: "size R + 8 < 4294967296"
    and ok: "store_ok h (users (pk_tags p) + R)" and rp: "repr h p ap"
  let ?l = "pk_tags p" and ?r = "int (ap_reach ap')"
  obtain ts where ts: "holds h ?l ts" "shown 0 (int (ap_size ap)) (bt_adjustment ?l) ts = ap_tags ap"
      "\<forall>t\<in>set ts. near (int (ap_reach ap)) (bt_adjustment ?l) t" "unat (pk_size p) = ap_size ap"
      "unat (bt_used ?l) \<le> ap_used ap" "ap_size ap \<le> ap_reach ap" "\<bar>bt_adjustment ?l\<bar> \<le> int (ap_reach ap)"
    using rp by (rule reprE)
  have se: "s < e" and ap': "ap' = ap\<lparr>ap_tags := ap_tags ap @ trimmed (ap_size ap) [(tid, bytes, int s, int e)],
      ap_used := ap_used ap + 16 + length bytes, ap_reach := max (ap_reach ap) e\<rparr>"
    using g by (auto simp: sp_tag_def split: if_splits)
  have r: "int (ap_reach ap) < 1073741824" "int e < 1073741824" "int (ap_reach ap) \<le> ?r" "int e \<le> ?r"
    using f(2) unfolding ap' fits_def by simp_all
  have i: "i32 (int s - bt_adjustment ?l)" "i32 (int e - bt_adjustment ?l)" using r ts(7) se by (auto simp: i32_def)
  have room: "unat (bt_used ?l) + 16 + length bytes < 4294967296" using ts(5) f(2) by (simp add: ap' fits_def)
  from Add_write_ok [OF ok ts(1) w i room, of tid]
  obtain buf l' h1 buf' h' where a: "ByteTagList_Add tid (of_nat (length bytes)) (int s) (int e) ?l h = Inr (buf, l', h1)"
      "write_region Serialize buf h1 = Inr (buf', h')" "store_ok h' (users l' + R)" "framed_by R h h'"
      "holds h' l' (ts @ [(tid, bytes, int s - bt_adjustment ?l, int e - bt_adjustment ?l)])"
      "bt_adjustment l' = bt_adjustment ?l" "unat (bt_used l') = unat (bt_used ?l) + 16 + length bytes" by blast
  let ?p = "p\<lparr>pk_tags := l'\<rparr>" and ?ts = "ts @ [(tid, bytes, int s - bt_adjustment ?l, int e - bt_adjustment ?l)]"
  have "repr h' ?p ap'"
  proof (rule reprI [of _ _ ?ts])
    show "shown 0 (int (ap_size ap')) (bt_adjustment (pk_tags ?p)) ?ts = ap_tags ap'"
      using ts(2) by (simp add: ap' a(6) trimmed_def)
    show "\<forall>t\<in>set ?ts. near ?r (bt_adjustment (pk_tags ?p)) t"
      using ts(3) near_mono [of "int (ap_reach ap)" "bt_adjustment ?l" _ ?r] r se by (auto simp: a(6))
  qed (use a ts r in \<open>simp_all add: ap'\<close>)
  moreover have "add_tag tid (of_nat (length bytes)) Serialize (int s) (int e) p h = Inr (?p, h')"
    using a(1,2) by (simp add: add_tag_def)
  ultimately show "\<exists>p' h'. add_tag tid (of_nat (length bytes)) Serialize (int s) (int e) p h = Inr (p', h') \<and>
      store_ok h' (users (pk_tags p') + R) \<and> framed_by R h h' \<and> repr h' p' ap'"
    using a(3,4) by (intro exI [of _ ?p] exI [of _ h']) simp
qed

lemma refines_RemoveAllByteTags: "refines Packet_RemoveAllByteTags sp_clear"
  unfolding refines_def
proof (intro allI impI)
  fix h p ap ap' R
  assume g: "sp_clear ap = Some ap'" and ok: "store_ok h (users (pk_tags p) + R)" and rp: "repr h p ap"
  from Deallocate_list_ok [OF ok] obtain h' where h': "Deallocate (bt_data (pk_tags p)) h = Inr h'" "store_ok h' R" "same_blocks R h h'"
    by blast
  let ?p = "p\<lparr>pk_tags := ByteTagList\<rparr>"
  have "repr h' ?p ap'"
    by (rule reprI [of _ _ "[]"]) (use rp g in \<open>auto simp: repr_def sp_clear_def ByteTagList_def holds_def\<close>)
  moreover have "Packet_RemoveAllByteTags p h = Inr (?p, h')"
    using h'(1) by (simp add: Packet_RemoveAllByteTags_def ByteTagList_RemoveAll_def)
  ultimately show "\<exists>p' h'. Packet_RemoveAllByteTags p h = Inr (p', h') \<and> store_ok h' (users (pk_tags p') + R) \<and>
      framed_by R h h' \<and> repr h' p' ap'"
    using h'(2,3) by (intro exI [of _ ?p] exI [of _ h']) (simp add: framed_by_same)
qed

section \<open>New packets\<close>

lemma Copy_ok:
  assumes "store_ok h R" and "users (pk_tags p) \<subseteq># R" and "size R + 1 < 4294967296"
  shows "\<exists>h'. Packet_Copy p h = Inr (p, h') \<and> store_ok h' (users (pk_tags p) + R) \<and> framed_by R h h'"
proof -
  obtain h' where "share (bt_data (pk_tags p)) h = Inr h'" "store_ok h' (users (pk_tags p) + R)" "same_blocks R h h'"
    using share_list_ok [OF assms] by blast
  then show ?thesis by (intro exI [of _ h']) (simp add: Packet_Copy_def ByteTagList_copy_def framed_by_same)
qed

lemma unat_fragment:
  assumes "unat s + unat n \<le> unat (sz :: u32)"
  shows "s + n \<le> sz" and "unat (size_CreateFragment s n sz) = unat n"
proof -
  have "unat s + unat n < 4294967296" using assms unat_u32_lt [of sz] by linarith
  then have sn: "unat (s + n) = unat s + unat n" by (simp add: unat_u32_add)
  then show "s + n \<le> sz" using assms by (simp add: word_le_nat_alt)
  then have "unat (sz - (s + n)) = unat sz - (unat s + unat n)" by (simp add: unat_sub sn)
  then show "unat (size_CreateFragment s n sz) = unat n"
    unfolding size_CreateFragment_def size_RemoveAtEnd_def size_RemoveAtStart_def unat_remove using assms by simp
qed

lemma CreateFragment_ok:
  assumes g: "sp_fragment (unat s) (unat n) ap = Some ap'" and f: "fits ap" "fits ap'" and R: "size R + 8 < 4294967296"
    and ok: "store_ok h R" and u: "users (pk_tags p) \<subseteq># R" and rp: "repr h p ap"
  shows "\<exists>q h'. Packet_CreateFragment s n p h = Inr (q, h') \<and> store_ok h' (users (pk_tags q) + R) \<and> framed_by R h h' \<and> repr h' q ap'"
proof -
  let ?l = "pk_tags p" and ?s = "int (unat s)"
  let ?m = "?l\<lparr>bt_adjustment := bt_adjustment ?l - ?s\<rparr>"
  let ?q = "\<lparr>pk_size = size_CreateFragment s n (pk_size p), pk_tags = ?m\<rparr>"
  obtain ts where ts: "holds h ?l ts" "shown 0 (int (ap_size ap)) (bt_adjustment ?l) ts = ap_tags ap"
      "\<forall>t\<in>set ts. near (int (ap_reach ap)) (bt_adjustment ?l) t" "unat (pk_size p) = ap_size ap"
      "unat (bt_used ?l) \<le> ap_used ap" "ap_size ap \<le> ap_reach ap" "\<bar>bt_adjustment ?l\<bar> \<le> int (ap_reach ap)"
    using rp by (rule reprE)
  have le: "unat s + unat n \<le> ap_size ap" and ap': "ap' = ap\<lparr>ap_size := unat n,
      ap_tags := trimmed (unat n) (shifted (- ?s) (ap_tags ap)), ap_reach := ap_reach ap + unat s\<rparr>"
    using g by (auto simp: sp_fragment_def split: if_splits)
  have r: "int (ap_reach ap) + ?s < 1073741824" using f(2) unfolding ap' fits_def by simp
  have sz: "s + n \<le> pk_size p" "unat (pk_size ?q) = unat n" using unat_fragment [of s n "pk_size p"] le ts(4) by simp_all
  have "sint (- s) = - ?s" by (rule sint_minus_small) (use r in linarith)
  then have adj: "ByteTagList_Adjust (sint (- s)) ?l = Inr ?m" using Adjust_ok [OF ts(7) _ r, of "- ?s"] by simp
  have n: "size R + 1 < 4294967296" using R by simp
  obtain h1 where h1: "share (bt_data ?l) h = Inr h1" "store_ok h1 (users ?l + R)" "same_blocks R h h1"
    using share_list_ok [OF ok u n] by blast
  have "size (users ?l) \<le> 1" by (cases "bt_data ?l") simp_all
  then have "size (users ?l + R) + 1 < 4294967296" using R by simp
  from share_list_ok [OF h1(2) _ this, of ?m] obtain h2 where h2: "share (bt_data ?l) h1 = Inr h2"
      "store_ok h2 (users ?l + (users ?l + R))" "same_blocks (users ?l + R) h1 h2" by auto
  from Deallocate_list_ok [OF h2(2)] obtain h3 where h3: "Deallocate (bt_data ?l) h2 = Inr h3" "store_ok h3 (users ?l + R)"
      "same_blocks (users ?l + R) h2 h3" by blast
  have "framed_by (users ?l + R) h1 h3" using h2(3) h3(3) by (meson framed_by_same framed_by_trans)
  then have "framed_by R h1 h3" by (rule framed_by_subset) simp
  then have fr: "framed_by R h h3" using h1(3) by (meson framed_by_same framed_by_trans)
  have "repr h3 ?q ap'"
  proof (rule reprI [of _ _ ts])
    have "holds h3 ?l ts" by (rule holds_framed [OF ts(1) fr u h3(2)])
    then show "holds h3 (pk_tags ?q) ts" by simp
    show "\<forall>t\<in>set ts. near (int (ap_reach ap')) (bt_adjustment (pk_tags ?q)) t"
      using ts(3) near_shift [of "int (ap_reach ap)" "bt_adjustment ?l" _ "- ?s" ?s] by (auto simp: ap')
    show "shown 0 (int (ap_size ap')) (bt_adjustment (pk_tags ?q)) ts = ap_tags ap'"
      unfolding ap' using le by (simp add: ts(2) [symmetric] shifted_shown trimmed_shown min_absorb1)
  qed (use sz ts le in \<open>simp_all add: ap'\<close>)
  moreover have "Packet_CreateFragment s n p h = Inr (?q, h3)"
    using adj sz(1) h1(1) h2(1) h3(1) by (simp add: Packet_CreateFragment_def ByteTagList_copy_def ByteTagList_destroy_def)
  ultimately show ?thesis using h3(2) fr by (intro exI [of _ ?q] exI [of _ h3]) simp
qed

section \<open>Appending a packet\<close>

lemma near_shifted:
  assumes "\<forall>t\<in>set ts. near r adj t" and "0 \<le> d" and "t \<in> set (shifted (- c) (shown 0 b (adj + d) ts))"
  shows "near (r + d) c t"
proof -
  obtain tid bytes s e where t: "t = (tid, bytes, s - c, e - c)" "(tid, bytes, s, e) \<in> set (shown 0 b (adj + d) ts)"
    using assms(3) by (auto simp: shifted_def)
  have "\<forall>t\<in>set ts. near (r + d) (adj + d) t" using assms(1,2) near_shift [of r adj _ d d] by simp
  from near_shown [OF this t(2)] show ?thesis by (simp add: t(1))
qed

text \<open>The tags of another list, cut at its start, come after those of the list.\<close>

lemma append_tags_ok:
  assumes ok: "store_ok h (users l + R)" and v: "holds h l ts" and n: "\<forall>t\<in>set ts. near r (bt_adjustment l) t"
    and q: "holds h lq ss" "users lq \<subseteq># users l + R" "\<forall>t\<in>set ss. near rq (bt_adjustment lq) t"
    and adj: "\<bar>bt_adjustment l\<bar> \<le> r" "\<bar>bt_adjustment lq\<bar> \<le> rq" and z: "int (unat sz) \<le> r" "r + rq < 1073741824" "0 \<le> rq"
    and room: "unat (bt_used l) + unat (bt_used lq) < 4294967296" and R: "size R + 8 < 4294967296"
  shows "\<exists>l' h' ts'. append_tags sz lq l h = Inr (l', h') \<and> store_ok h' (users l' + R) \<and> framed_by R h h' \<and> holds h' l' ts' \<and>
    bt_adjustment l' = bt_adjustment l \<and> unat (bt_used l') \<le> unat (bt_used l) + unat (bt_used lq) \<and>
    (\<forall>t\<in>set ts'. near (r + rq) (bt_adjustment l) t) \<and>
    (\<forall>b. 0 \<le> b \<and> b \<le> rq \<longrightarrow> shown 0 (int (unat sz) + b) (bt_adjustment l) ts' =
       shown 0 (int (unat sz) + b) (bt_adjustment l) ts @ shifted (int (unat sz)) (shown 0 b (bt_adjustment lq) ss))"
proof -
  let ?z = "int (unat sz)"
  have "size (users l) \<le> 1" by (cases "bt_data l") simp_all
  then have R1: "size (users l + R) + 1 < 4294967296" "size (users l + R) + 4 < 4294967296" using R by simp_all
  from share_list_ok [OF ok q(2) R1(1)] obtain h2 where h2: "share (bt_data lq) h = Inr h2"
      "store_ok h2 (users lq + (users l + R))" "same_blocks (users l + R) h h2" by blast
  note f2 = framed_by_same [OF h2(3)]
  have "holds h2 lq ss" by (rule holds_framed [OF q(1) f2 q(2) h2(2)])
  from AddAtStart_ok [OF h2(2) this q(3) adj(2) _ _ _ R1(2), of 0] z obtain c h3 ss' where c:
      "ByteTagList_AddAtStart 0 lq h2 = Inr (c, h3)" "kept rq lq (users l + R) h2 c h3 ss'"
      "\<And>a b. a \<le> 0 \<Longrightarrow> b \<le> INT32_MAX \<Longrightarrow> shown a b (bt_adjustment c) ss' = shown 0 b (bt_adjustment lq) ss" by auto
  have k3: "store_ok h3 (users c + (users l + R))" "framed_by (users l + R) h2 h3" "holds h3 c ss'"
      "\<forall>t\<in>set ss'. near rq (bt_adjustment c) t" "\<bar>bt_adjustment c\<bar> \<le> rq" "unat (bt_used c) \<le> unat (bt_used lq)"
    using c(2) by (simp_all add: kept_def)
  let ?c = "c\<lparr>bt_adjustment := bt_adjustment c + ?z\<rparr>"
  have rz: "rq + ?z < 1073741824" using z by simp
  have "sint sz = ?z" by (rule sint_small) (use z in linarith)
  then have adj': "ByteTagList_Adjust (sint sz) c = Inr ?c" using Adjust_ok [OF k3(5) _ rz, of ?z] by simp
  have f3: "framed_by (users l + R) h h3" using f2 k3(2) by (rule framed_by_trans)
  have l3: "holds h3 l ts" by (rule holds_framed [OF v f3 _ k3(1)]) simp
  have ok3: "store_ok h3 (users l + (users ?c + R))" using k3(1) by (simp add: ac_simps)
  have near_c: "\<forall>t\<in>set ss'. near (rq + ?z) (bt_adjustment ?c) t" using k3(4) near_shift [of rq "bt_adjustment c" _ ?z ?z] by simp
  have "holds h3 ?c ss'" "\<bar>bt_adjustment l\<bar> < 1073741824" "unat (bt_used l) + unat (bt_used ?c) < 4294967296"
    using k3(3,6) adj(1) z room by simp_all
  from Add_list_ok [OF ok3 l3 this(1) near_c rz this(2,3)] obtain l2 h4 where l2: "ByteTagList_Add_list ?c l h3 = Inr (l2, h4)"
      "store_ok h4 (users l2 + (users ?c + R))" "framed_by (users ?c + R) h3 h4"
      "holds h4 l2 (ts @ shifted (- bt_adjustment l) (shown 0 INT32_MAX (bt_adjustment ?c) ss'))"
      "bt_adjustment l2 = bt_adjustment l" "unat (bt_used l2) \<le> unat (bt_used l) + unat (bt_used ?c)" by blast
  let ?ts = "ts @ shifted (- bt_adjustment l) (shown 0 INT32_MAX (bt_adjustment ?c) ss')"
  have "store_ok h4 (users ?c + (users l2 + R))" using l2(2) by (simp add: ac_simps)
  from Deallocate_list_ok [OF this] obtain h5 where h5: "Deallocate (bt_data c) h4 = Inr h5" "store_ok h5 (users l2 + R)"
      "same_blocks (users l2 + R) h4 h5" by auto
  note f5 = framed_by_same [OF h5(3)]
  have "framed_by R h h3" "framed_by R h3 h4" "framed_by R h4 h5"
    using framed_by_subset [OF f3, of R] framed_by_subset [OF l2(3), of R] framed_by_subset [OF f5, of R] by simp_all
  then have "framed_by R h h5" by (meson framed_by_trans)
  moreover have "holds h5 l2 ?ts" by (rule holds_framed [OF l2(4) f5 _ h5(2)]) simp
  moreover have "append_tags sz lq l h = Inr (l2, h5)"
    using h2(1) c(1) adj' l2(1) h5(1) by (simp add: append_tags_def ByteTagList_copy_def ByteTagList_destroy_def)
  moreover have "near (r + rq) (bt_adjustment l) t" if "t \<in> set ?ts" for t
    using that n near_mono [of r "bt_adjustment l" t "r + rq"]
      near_mono [OF near_shifted [OF k3(4), of ?z t "bt_adjustment l" INT32_MAX], of "r + rq"] z by auto
  moreover have "shown 0 (?z + b) (bt_adjustment l) ?ts =
      shown 0 (?z + b) (bt_adjustment l) ts @ shifted ?z (shown 0 b (bt_adjustment lq) ss)" if b: "0 \<le> b" "b \<le> rq" for b
  proof -
    have "shown (- ?z) b (bt_adjustment c) ss' = shown 0 b (bt_adjustment lq) ss"
      using c(3) [of "- ?z" b] b z by (simp add: INT32_MAX_def)
    then have "shifted ?z (shown 0 b (bt_adjustment lq) ss) = shown 0 (?z + b) (bt_adjustment ?c) ss'"
      using shifted_shown [of ?z "- ?z" b "bt_adjustment c" ss'] by (simp add: add.commute)
    also have "\<dots> = shown 0 (?z + b) 0 (shown 0 INT32_MAX (bt_adjustment ?c) ss')"
      using b z by (simp add: shown_shown INT32_MAX_def min_absorb1)
    finally show ?thesis by (simp add: shown_shifted)
  qed
  ultimately show ?thesis
    using h5(2) l2(5,6) k3(6) by (intro exI [of _ l2] exI [of _ h5] exI [of _ ?ts]) auto
qed

text \<open>The other packet is one that \<open>R\<close> counts, or the packet itself.\<close>

lemma AddAtEnd_packet_ok:
  assumes g: "sp_append aq ap = Some ap'" and f: "fits ap" "fits aq" "fits ap'" and R: "size R + 8 < 4294967296"
    and ok: "store_ok h (users (pk_tags p) + R)" and rp: "repr h p ap"
    and other: "case other of None \<Rightarrow> aq = ap | Some q \<Rightarrow> repr h q aq \<and> users (pk_tags q) \<subseteq># R"
  shows "\<exists>p' h'. Packet_AddAtEnd other p h = Inr (p', h') \<and> store_ok h' (users (pk_tags p') + R) \<and> framed_by R h h' \<and> repr h' p' ap'"
proof -
  let ?l = "pk_tags p" and ?r = "int (ap_reach ap)" and ?rq = "int (ap_reach aq)" and ?z = "int (ap_size ap)"
  obtain ts where ts: "holds h ?l ts" "shown 0 ?z (bt_adjustment ?l) ts = ap_tags ap"
      "\<forall>t\<in>set ts. near ?r (bt_adjustment ?l) t" "unat (pk_size p) = ap_size ap"
      "unat (bt_used ?l) \<le> ap_used ap" "ap_size ap \<le> ap_reach ap" "\<bar>bt_adjustment ?l\<bar> \<le> ?r"
    using rp by (rule reprE)
  have ap': "ap' = ap\<lparr>ap_size := ap_size ap + ap_size aq, ap_tags := ap_tags ap @ shifted ?z (ap_tags aq),
      ap_used := ap_used ap + ap_used aq, ap_reach := ap_reach ap + ap_reach aq\<rparr>" using g by (simp add: sp_append_def)
  have r: "?r + ?rq < 1073741824" "ap_used ap + ap_used aq < 1073741824" using f(3) by (simp_all add: ap' fits_def)
  have sp: "sint (pk_size p) = ?z" using sint_small [of "pk_size p"] ts(4,6) r by simp
  have R4: "size R + 4 < 4294967296" "?r < 1073741824" "?z \<le> ?r" using R r ts(6) by simp_all
  from AddAtEnd_ok [OF ok ts(1,3,7) R4(2) _ R4(3,1)] obtain l1 h1 ts1 where l1: "ByteTagList_AddAtEnd ?z ?l h = Inr (l1, h1)"
      "kept ?r ?l R h l1 h1 ts1" "\<And>b. ?z \<le> b \<Longrightarrow> shown 0 b (bt_adjustment l1) ts1 = shown 0 ?z (bt_adjustment ?l) ts" by auto
  have k1: "store_ok h1 (users l1 + R)" "framed_by R h h1" "holds h1 l1 ts1" "\<forall>t\<in>set ts1. near ?r (bt_adjustment l1) t"
      "\<bar>bt_adjustment l1\<bar> \<le> ?r" "unat (bt_used l1) \<le> unat (bt_used ?l)" using l1(2) by (simp_all add: kept_def)
  let ?p1 = "p\<lparr>pk_tags := l1\<rparr>"
  have rp1: "repr h1 ?p1 ap" by (rule reprI [of _ _ ts1]) (use k1 l1(3) ts in simp_all)
  define q where "q = (case other of None \<Rightarrow> ?p1 | Some q \<Rightarrow> q)"
  have q: "repr h1 q aq" "users (pk_tags q) \<subseteq># users l1 + R"
    using other rp1 repr_framed [OF _ k1(2) _ k1(1)] by (auto simp: q_def split: option.splits intro: subset_mset.add_increasing)
  obtain ss where ss: "holds h1 (pk_tags q) ss" "shown 0 (int (ap_size aq)) (bt_adjustment (pk_tags q)) ss = ap_tags aq"
      "\<forall>t\<in>set ss. near ?rq (bt_adjustment (pk_tags q)) t" "unat (pk_size q) = ap_size aq"
      "unat (bt_used (pk_tags q)) \<le> ap_used aq" "ap_size aq \<le> ap_reach aq" "\<bar>bt_adjustment (pk_tags q)\<bar> \<le> ?rq"
    using q(1) by (rule reprE)
  have z: "int (unat (pk_size p)) \<le> ?r" "0 \<le> ?rq" "unat (bt_used l1) + unat (bt_used (pk_tags q)) < 4294967296"
    using ts(4-6) ss(5) k1(6) r by simp_all
  from append_tags_ok [OF k1(1,3,4) ss(1) q(2) ss(3) k1(5) ss(7) z(1) r(1) z(2,3) R] obtain l2 h2 ts2 where l2:
      "append_tags (pk_size p) (pk_tags q) l1 h1 = Inr (l2, h2)" "store_ok h2 (users l2 + R)" "framed_by R h1 h2" "holds h2 l2 ts2"
      "bt_adjustment l2 = bt_adjustment l1" "unat (bt_used l2) \<le> unat (bt_used l1) + unat (bt_used (pk_tags q))"
      "\<forall>t\<in>set ts2. near (?r + ?rq) (bt_adjustment l1) t"
      "\<And>b. 0 \<le> b \<Longrightarrow> b \<le> ?rq \<Longrightarrow> shown 0 (int (unat (pk_size p)) + b) (bt_adjustment l1) ts2 =
       shown 0 (int (unat (pk_size p)) + b) (bt_adjustment l1) ts1 @ shifted (int (unat (pk_size p))) (shown 0 b (bt_adjustment (pk_tags q)) ss)"
    by blast
  let ?p = "\<lparr>pk_size = pk_size p + pk_size q, pk_tags = l2\<rparr>"
  have "repr h2 ?p ap'"
  proof (rule reprI [of _ _ ts2])
    show "unat (pk_size ?p) = ap_size ap'" using ts(4,6) ss(4,6) r by (simp add: ap' unat_u32_add)
    show "shown 0 (int (ap_size ap')) (bt_adjustment (pk_tags ?p)) ts2 = ap_tags ap'"
      using l2(8) [of "int (ap_size aq)"] l1(3) [of "?z + int (ap_size aq)"] ts(2,4) ss(2,6) by (simp add: ap' l2(5))
  qed (use l2 k1 ts ss in \<open>simp_all add: ap'\<close>)
  moreover have "Packet_AddAtEnd other p h = Inr (?p, h2)"
    using l1(1) l2(1) by (simp add: Packet_AddAtEnd_def sp q_def [symmetric] Let_def)
  moreover have "framed_by R h h2" using k1(2) l2(3) by (rule framed_by_trans)
  ultimately show ?thesis using l2(2) by (intro exI [of _ ?p] exI [of _ h2]) simp
qed

end
