(* ===== verification/Packet_Runs.thy ===== *)
theory Packet_Runs
  imports Packet_Spec
begin

text \<open>
  Sequences of operations on packets that are copied from and appended to each other: they run as their
  specification says, and every packet has at the end the size and the tags of its abstract packet, although
  the packets share blocks of tags.
\<close>

section \<open>What the iterator of a packet yields\<close>

text \<open>The tags in the order of the iterator, as \<open>PrintByteTags\<close> goes over them.\<close>

fun tags_loop :: "nat \<Rightarrow> byte_tag_iter \<Rightarrow> tag_store \<Rightarrow> stored_tag list res" where
  "tags_loop 0 i h = Inl (Undefined ''endless loop'')"
| "tags_loop (Suc n) i h =
     (if iter_HasNext i then
        res_bind (ByteTagIterator_Next i h) (\<lambda>(item, i).
        res_bind (region_bytes (ti_buffer item) h) (\<lambda>bytes.
        res_bind (tags_loop n i h) (\<lambda>rest.
        Inr ((ti_tid item, bytes, uint (ti_start item), uint (ti_end item)) # rest))))
      else Inr [])"

definition byte_tags :: "packet \<Rightarrow> tag_store \<Rightarrow> stored_tag list res" where
  "byte_tags p h = res_bind (GetByteTagIterator p h) (\<lambda>i. tags_loop (Suc (unat (bt_used (pk_tags p)))) i h)"

lemma uint_small: "0 \<le> x \<Longrightarrow> x < 1073741824 \<Longrightarrow> uint (of_int x :: u32) = x"
  by (simp add: uint_word_of_int)

lemma ByteTagIterator_Next_ok:
  assumes h: "holds h l (ts1 @ t # ts2)" and p: "poised l 0 b ts1 (t # ts2) it"
    and n: "\<forall>t\<in>set ts2. near r (bt_adjustment l) t" and le: "r \<le> 2147483647" and b: "0 < b" "b < 1073741824"
    and c: "clip 0 b (bt_adjustment l) t = (tid, bytes, s, e)"
  shows "\<exists>item us vs it'. ByteTagIterator_Next it h = Inr (item, it') \<and> ti_tid item = tid \<and> uint (ti_start item) = s \<and>
    uint (ti_end item) = e \<and> region_bytes (ti_buffer item) h = Inr bytes \<and>
    poised l 0 b (ts1 @ t # us) vs it' \<and> ts2 = us @ vs \<and> shown 0 b (bt_adjustment l) us = []"
proof -
  obtain i us vs it' where i: "iter_Next it h = Inr (i, it')" "item_of l (ts1 @ t # ts2) i (tid, bytes, s, e)"
      "poised l 0 b (ts1 @ t # us) vs it'" "ts2 = us @ vs" "shown 0 b (bt_adjustment l) us = []"
    using iter_Next_ok [OF h p n le b(1)] unfolding c by blast
  have o: "it_offsetStart it' = 0" using i(3) by (simp add: poised_def stands_def)
  have m: "in_window 0 b (bt_adjustment l) t" using p by (simp add: poised_def)
  obtain tid' bytes' s' e' where t: "t = (tid', bytes', s', e')" by (cases t)
  have "0 \<le> s" "s < e" "e \<le> b" using c m by (auto simp: t)
  then have u: "uint (of_int s :: u32) = s" "uint (of_int e :: u32) = e" using b by (simp_all add: uint_small)
  have "region_bytes (bi_buf i) h = Inr bytes" by (rule item_bytes [OF h i(2)])
  then show ?thesis
    using i o u by (intro exI [of _ "\<lparr>ti_tid = bi_tid i, ti_start = of_int (bi_start i) - of_int (it_offsetStart it'),
        ti_end = of_int (bi_end i) - of_int (it_offsetStart it'), ti_buffer = bi_buf i\<rparr>"] exI [of _ us] exI [of _ vs] exI [of _ it'])
      (simp add: ByteTagIterator_Next_def)
qed

lemma tags_loop_ok:
  assumes le: "r \<le> 2147483647" and b: "0 < b" "b < 1073741824"
  shows "\<lbrakk>holds h l (ts1 @ ts2); poised l 0 b ts1 ts2 it; \<forall>t\<in>set ts2. near r (bt_adjustment l) t; length ts2 < n\<rbrakk> \<Longrightarrow>
    tags_loop n it h = Inr (shown 0 b (bt_adjustment l) ts2)"
proof (induction n arbitrary: ts1 ts2 it)
  case (Suc n)
  have st: "stands l 0 b ts1 ts2 it" using Suc.prems(2) by (simp add: poised_def)
  show ?case
  proof (cases ts2)
    case Nil
    then show ?thesis using stands_has_next [OF st] by simp
  next
    case (Cons t rest)
    obtain tid bytes s e where c: "clip 0 b (bt_adjustment l) t = (tid, bytes, s, e)" by (cases "clip 0 b (bt_adjustment l) t")
    have m: "in_window 0 b (bt_adjustment l) t" using Suc.prems(2) Cons by (simp add: poised_def)
    have "\<forall>t\<in>set rest. near r (bt_adjustment l) t" using Suc.prems(3) Cons by simp
    from ByteTagIterator_Next_ok [OF Suc.prems(1,2) [unfolded Cons] this le b c]
    obtain item us vs it' where i: "ByteTagIterator_Next it h = Inr (item, it')" "ti_tid item = tid" "uint (ti_start item) = s"
        "uint (ti_end item) = e" "region_bytes (ti_buffer item) h = Inr bytes"
        "poised l 0 b (ts1 @ t # us) vs it'" "rest = us @ vs" "shown 0 b (bt_adjustment l) us = []" by blast
    have "tags_loop n it' h = Inr (shown 0 b (bt_adjustment l) vs)"
      by (rule Suc.IH [OF _ i(6)]) (use Suc.prems Cons i(7) in simp_all)
    then show ?thesis using stands_has_next [OF st] Cons i m c by simp
  qed
qed simp

lemma find_loop_ok:
  assumes le: "r \<le> 2147483647" and b: "0 < b" "b < 1073741824"
  shows "\<lbrakk>holds h l (ts1 @ ts2); poised l 0 b ts1 ts2 it; \<forall>t\<in>set ts2. near r (bt_adjustment l) t; length ts2 < n\<rbrakk> \<Longrightarrow>
    find_loop tid f n it h =
      (case find (\<lambda>t. fst t = tid) (shown 0 b (bt_adjustment l) ts2) of
         None \<Rightarrow> Inr None | Some t \<Rightarrow> res_bind (f (TagBuffer (fst (snd t)))) (\<lambda>v. Inr (Some v)))"
proof (induction n arbitrary: ts1 ts2 it)
  case (Suc n)
  have st: "stands l 0 b ts1 ts2 it" using Suc.prems(2) by (simp add: poised_def)
  show ?case
  proof (cases ts2)
    case Nil
    then show ?thesis using stands_has_next [OF st] by simp
  next
    case (Cons t rest)
    obtain tid' bytes s e where c: "clip 0 b (bt_adjustment l) t = (tid', bytes, s, e)" by (cases "clip 0 b (bt_adjustment l) t")
    have m: "in_window 0 b (bt_adjustment l) t" using Suc.prems(2) Cons by (simp add: poised_def)
    have "\<forall>t\<in>set rest. near r (bt_adjustment l) t" using Suc.prems(3) Cons by simp
    from ByteTagIterator_Next_ok [OF Suc.prems(1,2) [unfolded Cons] this le b c]
    obtain item us vs it' where i: "ByteTagIterator_Next it h = Inr (item, it')" "ti_tid item = tid'"
        "region_bytes (ti_buffer item) h = Inr bytes"
        "poised l 0 b (ts1 @ t # us) vs it'" "rest = us @ vs" "shown 0 b (bt_adjustment l) us = []" by blast
    show ?thesis
    proof (cases "tid = tid'")
      case True
      then show ?thesis using stands_has_next [OF st] Cons i m c by (simp add: Item_GetTag_def)
    next
      case False
      have "find_loop tid f n it' h = (case find (\<lambda>t. fst t = tid) (shown 0 b (bt_adjustment l) vs) of
         None \<Rightarrow> Inr None | Some t \<Rightarrow> res_bind (f (TagBuffer (fst (snd t)))) (\<lambda>v. Inr (Some v)))"
        by (rule Suc.IH [OF _ i(4)]) (use Suc.prems Cons i(5) in simp_all)
      then show ?thesis using False stands_has_next [OF st] Cons i m c by simp
    qed
  qed
qed simp

lemma iterator_ok:
  assumes rp: "repr h p ap" and f: "fits ap" and z: "0 < ap_size ap"
  shows "byte_tags p h = Inr (ap_tags ap)"
    and "FindFirstMatchingByteTag tid g p h =
      (case find (\<lambda>t. fst t = tid) (ap_tags ap) of
         None \<Rightarrow> Inr None | Some t \<Rightarrow> res_bind (g (TagBuffer (fst (snd t)))) (\<lambda>v. Inr (Some v)))"
proof -
  let ?l = "pk_tags p" and ?r = "int (ap_reach ap)" and ?z = "int (ap_size ap)"
  obtain ts where ts: "holds h ?l ts" "shown 0 ?z (bt_adjustment ?l) ts = ap_tags ap"
      "\<forall>t\<in>set ts. near ?r (bt_adjustment ?l) t" "unat (pk_size p) = ap_size ap"
      "unat (bt_used ?l) \<le> ap_used ap" "ap_size ap \<le> ap_reach ap" "\<bar>bt_adjustment ?l\<bar> \<le> ?r"
    using rp by (rule reprE)
  have r: "?r \<le> 2147483647" "0 < ?z" "?z < 1073741824" using f z ts(6) by (simp_all add: fits_def)
  have sz: "sint (pk_size p) = ?z" using sint_small [of "pk_size p"] ts(4) r by simp
  obtain us vs it where b: "ByteTagList_Begin 0 ?z ?l h = Inr it" "poised ?l 0 ?z us vs it" "ts = us @ vs"
      "shown 0 ?z (bt_adjustment ?l) us = []"
    using Begin_ok [OF ts(1,3) r(1,2)] by blast
  have hold: "holds h ?l (us @ vs)" and near: "\<forall>t\<in>set vs. near ?r (bt_adjustment ?l) t" using ts(1,3) b(3) by simp_all
  have n: "length vs < Suc (unat (bt_used ?l))" using holds_used [OF ts(1)] length_bytes_of [of ts] b(3) by simp
  have v: "shown 0 ?z (bt_adjustment ?l) vs = ap_tags ap" using ts(2) b(3,4) by simp
  show "byte_tags p h = Inr (ap_tags ap)"
    unfolding byte_tags_def GetByteTagIterator_def sz b(1) res_bind.simps tags_loop_ok [OF r hold b(2) near n] v ..
  show "FindFirstMatchingByteTag tid g p h =
      (case find (\<lambda>t. fst t = tid) (ap_tags ap) of
         None \<Rightarrow> Inr None | Some t \<Rightarrow> res_bind (g (TagBuffer (fst (snd t)))) (\<lambda>v. Inr (Some v)))"
    unfolding FindFirstMatchingByteTag_def GetByteTagIterator_def sz b(1) res_bind.simps find_loop_ok [OF r hold b(2) near n] v ..
qed

section \<open>Operations on packets\<close>

text \<open>The packets that were made, \<open>None\<close> where one was deleted; an operation names its packet by its place.\<close>

datatype packet_op =
    PNew u32
  | PCopy nat
  | PFragment nat u32 u32
  | PAddHeader nat u32
  | PRemoveHeader nat u32
  | PAddTrailer nat u32
  | PRemoveTrailer nat u32
  | PAddAtEnd nat nat
  | PAddPadding nat u32
  | PRemoveAtEnd nat u32
  | PRemoveAtStart nat u32
  | PAddByteTag nat u32 "u8 list"
  | PAddByteTagRange nat u32 "u8 list" u32 u32
  | PRemoveAllByteTags nat
  | PDelete nat

type_synonym packets = "packet option list \<times> tag_store"

fun TagBuffer_Write :: "u8 list \<Rightarrow> tag_buffer \<Rightarrow> tag_buffer res" where
  "TagBuffer_Write [] b = Inr b"
| "TagBuffer_Write (x # xs) b = res_bind (WriteU8 x b) (TagBuffer_Write xs)"

definition on_packet :: "nat \<Rightarrow> (packet \<Rightarrow> tag_store \<Rightarrow> (packet \<times> tag_store) res) \<Rightarrow> packets \<Rightarrow> packets res" where
  "on_packet i f s =
     (if i < length (fst s) then
        case fst s ! i of
          None \<Rightarrow> Inl (Undefined ''dangling Packet'')
        | Some p \<Rightarrow> res_bind (f p (snd s)) (\<lambda>(p, h). Inr ((fst s)[i := Some p], h))
      else Inl (Undefined ''dangling Packet''))"

definition from_packet :: "nat \<Rightarrow> (packet \<Rightarrow> tag_store \<Rightarrow> (packet \<times> tag_store) res) \<Rightarrow> packets \<Rightarrow> packets res" where
  "from_packet i f s =
     (if i < length (fst s) then
        case fst s ! i of
          None \<Rightarrow> Inl (Undefined ''dangling Packet'')
        | Some p \<Rightarrow> res_bind (f p (snd s)) (\<lambda>(p, h). Inr (fst s @ [Some p], h))
      else Inl (Undefined ''dangling Packet''))"

definition append_packet :: "nat \<Rightarrow> nat \<Rightarrow> packets \<Rightarrow> packets res" where
  "append_packet i j s =
     (if j < length (fst s) then
        case fst s ! j of
          None \<Rightarrow> Inl (Undefined ''dangling Packet'')
        | Some q \<Rightarrow> on_packet i (Packet_AddAtEnd (if i = j then None else Some q)) s
      else Inl (Undefined ''dangling Packet''))"

definition delete_packet :: "nat \<Rightarrow> packets \<Rightarrow> packets res" where
  "delete_packet i s =
     (if i < length (fst s) then
        case fst s ! i of
          None \<Rightarrow> Inl (Undefined ''dangling Packet'')
        | Some p \<Rightarrow> res_bind (Packet_destroy p (snd s)) (\<lambda>h. Inr ((fst s)[i := None], h))
      else Inl (Undefined ''dangling Packet''))"

fun packet_step :: "packet_op \<Rightarrow> packets \<Rightarrow> packets res" where
  "packet_step (PNew n) s = Inr (fst s @ [Some (Packet n)], snd s)"
| "packet_step (PCopy i) s = from_packet i Packet_Copy s"
| "packet_step (PFragment i start n) s = from_packet i (Packet_CreateFragment start n) s"
| "packet_step (PAddHeader i n) s = on_packet i (Packet_AddHeader n) s"
| "packet_step (PRemoveHeader i n) s = on_packet i (\<lambda>p h. res_bind (Packet_RemoveHeader n p) (\<lambda>p. Inr (p, h))) s"
| "packet_step (PAddTrailer i n) s = on_packet i (Packet_AddTrailer n) s"
| "packet_step (PRemoveTrailer i n) s = on_packet i (\<lambda>p h. res_bind (Inr (Packet_RemoveTrailer n p)) (\<lambda>p. Inr (p, h))) s"
| "packet_step (PAddAtEnd i j) s = append_packet i j s"
| "packet_step (PAddPadding i n) s = on_packet i (Packet_AddPaddingAtEnd n) s"
| "packet_step (PRemoveAtEnd i n) s = on_packet i (\<lambda>p h. res_bind (Inr (Packet_RemoveAtEnd n p)) (\<lambda>p. Inr (p, h))) s"
| "packet_step (PRemoveAtStart i n) s = on_packet i (\<lambda>p h. res_bind (Packet_RemoveAtStart n p) (\<lambda>p. Inr (p, h))) s"
| "packet_step (PAddByteTag i tid bytes) s =
     on_packet i (Packet_AddByteTag tid (of_nat (length bytes)) (TagBuffer_Write bytes)) s"
| "packet_step (PAddByteTagRange i tid bytes start stop) s =
     on_packet i (Packet_AddByteTag_range tid (of_nat (length bytes)) (TagBuffer_Write bytes) start stop) s"
| "packet_step (PRemoveAllByteTags i) s = on_packet i Packet_RemoveAllByteTags s"
| "packet_step (PDelete i) s = delete_packet i s"

fun packet_run :: "packet_op list \<Rightarrow> packets \<Rightarrow> packets res" where
  "packet_run [] s = Inr s"
| "packet_run (x # xs) s = res_bind (packet_step x s) (packet_run xs)"

section \<open>The specification\<close>

type_synonym apackets = "apacket option list"

definition sp_put :: "nat \<Rightarrow> apacket \<Rightarrow> apackets \<Rightarrow> apackets option" where
  "sp_put i p as = (if fits p then Some (as[i := Some p]) else None)"

definition sp_add :: "apacket \<Rightarrow> apackets \<Rightarrow> apackets option" where
  "sp_add p as = (if fits p \<and> length as < 1073741824 then Some (as @ [Some p]) else None)"

definition sp_at :: "nat \<Rightarrow> apackets \<Rightarrow> apacket option" where
  "sp_at i as = (if i < length as then as ! i else None)"

definition sp_on :: "nat \<Rightarrow> (apacket \<Rightarrow> apacket option) \<Rightarrow> apackets \<Rightarrow> apackets option" where
  "sp_on i g as = Option.bind (sp_at i as) (\<lambda>p. Option.bind (g p) (\<lambda>p. sp_put i p as))"

definition sp_from :: "nat \<Rightarrow> (apacket \<Rightarrow> apacket option) \<Rightarrow> apackets \<Rightarrow> apackets option" where
  "sp_from i g as = Option.bind (sp_at i as) (\<lambda>p. Option.bind (g p) (\<lambda>p. sp_add p as))"

fun spec_step :: "packet_op \<Rightarrow> apackets \<Rightarrow> apackets option" where
  "spec_step (PNew n) as = sp_add (sp_new (unat n)) as"
| "spec_step (PCopy i) as = sp_from i Some as"
| "spec_step (PFragment i start n) as = sp_from i (sp_fragment (unat start) (unat n)) as"
| "spec_step (PAddHeader i n) as = sp_on i (sp_header (unat n)) as"
| "spec_step (PRemoveHeader i n) as = sp_on i (sp_remove_start (unat n)) as"
| "spec_step (PAddTrailer i n) as = sp_on i (sp_pad (unat n)) as"
| "spec_step (PRemoveTrailer i n) as = sp_on i (sp_remove_end (unat n)) as"
| "spec_step (PAddAtEnd i j) as = Option.bind (sp_at j as) (\<lambda>q. sp_on i (sp_append q) as)"
| "spec_step (PAddPadding i n) as = sp_on i (sp_pad (unat n)) as"
| "spec_step (PRemoveAtEnd i n) as = sp_on i (sp_remove_end (unat n)) as"
| "spec_step (PRemoveAtStart i n) as = sp_on i (sp_remove_start (unat n)) as"
| "spec_step (PAddByteTag i tid bytes) as = sp_on i (\<lambda>p. sp_tag tid bytes 0 (ap_size p) p) as"
| "spec_step (PAddByteTagRange i tid bytes start stop) as = sp_on i (sp_tag tid bytes (unat start) (unat stop)) as"
| "spec_step (PRemoveAllByteTags i) as = sp_on i sp_clear as"
| "spec_step (PDelete i) as = Option.bind (sp_at i as) (\<lambda>p. Some (as[i := None]))"

fun spec_run :: "packet_op list \<Rightarrow> apackets \<Rightarrow> apackets option" where
  "spec_run [] as = Some as"
| "spec_run (x # xs) as = Option.bind (spec_step x as) (spec_run xs)"

section \<open>The packets that the abstract packets stand for\<close>

definition packet_users :: "packet option list \<Rightarrow> nat multiset" where
  "packet_users ps = sum_list (map (\<lambda>p. case p of None \<Rightarrow> {#} | Some p \<Rightarrow> users (pk_tags p)) ps)"

lemma packet_users_simps [simp]:
  "packet_users [] = {#}"
  "packet_users (ps @ [Some p]) = users (pk_tags p) + packet_users ps"
  by (simp_all add: packet_users_def)

lemma packet_users_update:
  "i < length ps \<Longrightarrow> ps ! i = Some p \<Longrightarrow> packet_users ps = users (pk_tags p) + packet_users (ps[i := None])"
  "i < length ps \<Longrightarrow> packet_users (ps[i := Some q]) = users (pk_tags q) + packet_users (ps[i := None])"
  unfolding packet_users_def
  by (induction ps arbitrary: i; auto simp: nth_Cons' ac_simps split: nat.splits option.splits)+

lemma packet_users_nth:
  "j < length ps \<Longrightarrow> ps ! j = Some p \<Longrightarrow> users (pk_tags p) \<subseteq># packet_users ps"
  by (simp add: packet_users_update)

lemma size_packet_users: "size (packet_users ps) \<le> length ps"
proof (induction ps)
  case (Cons p ps)
  have "size (case p of None \<Rightarrow> {#} | Some p \<Rightarrow> users (pk_tags p)) \<le> 1"
    by (cases p; simp) (cases "bt_data (pk_tags (the p))"; simp)
  then show ?case using Cons.IH by (simp add: packet_users_def)
qed simp

definition stand_for :: "packets \<Rightarrow> apackets \<Rightarrow> bool" where
  "stand_for s as \<longleftrightarrow> length as \<le> 1073741824 \<and> store_ok (snd s) (packet_users (fst s)) \<and>
     list_all2 (rel_option (\<lambda>p ap. fits ap \<and> repr (snd s) p ap)) (fst s) as"

lemma stand_for_at:
  assumes "stand_for (ps, h) as" and "sp_at i as = Some ap"
  obtains p where "i < length ps" "ps ! i = Some p" "fits ap" "repr h p ap" "i < length as" "as ! i = Some ap"
proof -
  have "i < length as" "as ! i = Some ap" using assms(2) by (simp_all add: sp_at_def split: if_splits)
  moreover from this have "i < length ps" "rel_option (\<lambda>p ap. fits ap \<and> repr h p ap) (ps ! i) (as ! i)"
    using assms(1) by (auto simp: stand_for_def list_all2_conv_all_nth)
  ultimately show ?thesis using that by (cases "ps ! i") auto
qed

lemma stand_for_framed:
  assumes s: "list_all2 (rel_option (\<lambda>p ap. fits ap \<and> repr h p ap)) ps as" and f: "framed_by R h h'" and R: "packet_users ps \<subseteq># R"
    and ok: "store_ok h' R'"
  shows "list_all2 (rel_option (\<lambda>p ap. fits ap \<and> repr h' p ap)) ps as"
  unfolding list_all2_conv_all_nth
proof (intro conjI allI impI)
  show "length ps = length as" using s by (rule list_all2_lengthD)
  fix i assume i: "i < length ps"
  then have r: "rel_option (\<lambda>p ap. fits ap \<and> repr h p ap) (ps ! i) (as ! i)" using s by (simp add: list_all2_conv_all_nth)
  show "rel_option (\<lambda>p ap. fits ap \<and> repr h' p ap) (ps ! i) (as ! i)"
  proof (cases "ps ! i")
    case None
    then show ?thesis using r by simp
  next
    case (Some p)
    have "users (pk_tags p) \<subseteq># R" using packet_users_nth [OF i Some] R by (rule subset_mset.order_trans)
    then show ?thesis using r Some repr_framed [OF _ f _ ok] by (auto simp: option_rel_Some1)
  qed
qed

lemma stand_for_None:
  assumes "stand_for (ps, h) as" and "i < length ps"
  shows "list_all2 (rel_option (\<lambda>p ap. fits ap \<and> repr h p ap)) (ps[i := None]) (as[i := None])"
  using assms by (simp add: stand_for_def list_all2_update_cong)

lemma stand_for_update:
  assumes s: "stand_for (ps, h) as" and i: "i < length ps" and ok: "store_ok h' (users (pk_tags p) + packet_users (ps[i := None]))"
    and f: "framed_by (packet_users (ps[i := None])) h h'" and p: "repr h' p ap" "fits ap"
  shows "stand_for (ps[i := Some p], h') (as[i := Some ap])"
proof -
  have "list_all2 (rel_option (\<lambda>p ap. fits ap \<and> repr h' p ap)) (ps[i := None]) (as[i := None])"
    by (rule stand_for_framed [OF stand_for_None [OF s i] f _ ok]) simp
  then have "list_all2 (rel_option (\<lambda>p ap. fits ap \<and> repr h' p ap)) ((ps[i := None])[i := Some p]) ((as[i := None])[i := Some ap])"
    by (rule list_all2_update_cong) (use p in simp)
  then show ?thesis using s ok packet_users_update(2) [OF i, of p] by (simp add: stand_for_def)
qed

lemma stand_for_add:
  assumes s: "stand_for (ps, h) as" and ok: "store_ok h' (users (pk_tags p) + packet_users ps)"
    and f: "framed_by (packet_users ps) h h'" and p: "repr h' p ap" and a: "sp_add ap as = Some as'"
  shows "stand_for (ps @ [Some p], h') as'"
proof -
  have as': "as' = as @ [Some ap]" "fits ap" "length as < 1073741824" using a by (auto simp: sp_add_def split: if_splits)
  have "list_all2 (rel_option (\<lambda>p ap. fits ap \<and> repr h' p ap)) ps as"
    by (rule stand_for_framed [OF _ f _ ok]) (use s in \<open>simp_all add: stand_for_def\<close>)
  then show ?thesis using ok as' p by (simp add: stand_for_def list_all2_appendI)
qed

lemma stand_for_size:
  assumes "stand_for (ps, h) as"
  shows "size (packet_users ps) + 8 < 4294967296" and "i < length ps \<Longrightarrow> size (packet_users (ps[i := None])) + 8 < 4294967296"
proof -
  have "length ps \<le> 1073741824" using assms by (auto simp: stand_for_def dest: list_all2_lengthD)
  then show "size (packet_users ps) + 8 < 4294967296" "i < length ps \<Longrightarrow> size (packet_users (ps[i := None])) + 8 < 4294967296"
    using size_packet_users [of ps] size_packet_users [of "ps[i := None]"] by simp_all
qed

section \<open>Every step\<close>

lemma on_packet_ok:
  assumes s: "stand_for s as" and g: "sp_on i g as = Some as'"
    and f: "\<And>h p ap ap' R. \<lbrakk>g ap = Some ap'; fits ap; fits ap'; size R + 8 < 4294967296; store_ok h (users (pk_tags p) + R);
        repr h p ap; snd s = h; packet_users (fst s) = users (pk_tags p) + R; sp_at i as = Some ap; R = packet_users ((fst s)[i := None])\<rbrakk> \<Longrightarrow>
      \<exists>p' h'. f p h = Inr (p', h') \<and> store_ok h' (users (pk_tags p') + R) \<and> framed_by R h h' \<and> repr h' p' ap'"
  shows "\<exists>s'. on_packet i f s = Inr s' \<and> stand_for s' as'"
proof -
  obtain ps h where sh: "s = (ps, h)" by (cases s)
  obtain ap ap' where a: "sp_at i as = Some ap" "g ap = Some ap'" "fits ap'" "as' = as[i := Some ap']"
    using g by (auto simp: sp_on_def sp_put_def Option.bind_eq_Some_conv split: if_splits)
  obtain p where p: "i < length ps" "ps ! i = Some p" "fits ap" "repr h p ap"
    using stand_for_at [OF s [unfolded sh] a(1)] by blast
  let ?R = "packet_users (ps[i := None])"
  have u: "packet_users ps = users (pk_tags p) + ?R" using packet_users_update(1) p(1,2) by blast
  have ok: "store_ok h (users (pk_tags p) + ?R)" using s u by (simp add: sh stand_for_def)
  have e: "snd s = h" "packet_users (fst s) = users (pk_tags p) + ?R" "?R = packet_users ((fst s)[i := None])"
    using u by (simp_all add: sh)
  from f [OF a(2) p(3) a(3) stand_for_size(2) [OF s [unfolded sh] p(1)] ok p(4) e(1,2) a(1) e(3)]
  obtain p' h' where r: "f p h = Inr (p', h')" "store_ok h' (users (pk_tags p') + ?R)" "framed_by ?R h h'" "repr h' p' ap'"
    by blast
  then have "stand_for (ps[i := Some p'], h') as'"
    using stand_for_update [OF s [unfolded sh] p(1)] a(3,4) by blast
  then show ?thesis using r(1) p(1,2) by (intro exI [of _ "(ps[i := Some p'], h')"]) (simp add: sh on_packet_def)
qed

lemma refinesD:
  assumes "refines f g" and "g ap = Some ap'" and "fits ap" and "fits ap'" and "size R + 8 < 4294967296"
    and "store_ok h (users (pk_tags p) + R)" and "repr h p ap"
  shows "\<exists>p' h'. f p h = Inr (p', h') \<and> store_ok h' (users (pk_tags p') + R) \<and> framed_by R h h' \<and> repr h' p' ap'"
  by (rule assms(1) [unfolded refines_def, rule_format, OF assms(2-7)])

lemma on_refines:
  assumes "stand_for s as" and "sp_on i g as = Some as'" and "refines f g"
  shows "\<exists>s'. on_packet i f s = Inr s' \<and> stand_for s' as'"
  using assms(1,2) by (rule on_packet_ok) (rule refinesD [OF assms(3)]; assumption)

lemma from_packet_ok:
  assumes s: "stand_for s as" and g: "sp_from i g as = Some as'"
    and f: "\<And>h p ap ap' R. \<lbrakk>g ap = Some ap'; fits ap; fits ap'; size R + 8 < 4294967296; store_ok h R; users (pk_tags p) \<subseteq># R; repr h p ap\<rbrakk> \<Longrightarrow>
      \<exists>p' h'. f p h = Inr (p', h') \<and> store_ok h' (users (pk_tags p') + R) \<and> framed_by R h h' \<and> repr h' p' ap'"
  shows "\<exists>s'. from_packet i f s = Inr s' \<and> stand_for s' as'"
proof -
  obtain ps h where sh: "s = (ps, h)" by (cases s)
  obtain ap ap' where a: "sp_at i as = Some ap" "g ap = Some ap'" "sp_add ap' as = Some as'"
    using g by (auto simp: sp_from_def Option.bind_eq_Some_conv)
  then have "fits ap'" by (simp add: sp_add_def split: if_splits)
  obtain p where p: "i < length ps" "ps ! i = Some p" "fits ap" "repr h p ap"
    using stand_for_at [OF s [unfolded sh] a(1)] by blast
  have "store_ok h (packet_users ps)" using s by (simp add: sh stand_for_def)
  from f [OF a(2) p(3) \<open>fits ap'\<close> stand_for_size(1) [OF s [unfolded sh]] this packet_users_nth [OF p(1,2)] p(4)]
  obtain p' h' where r: "f p h = Inr (p', h')" "store_ok h' (users (pk_tags p') + packet_users ps)" "framed_by (packet_users ps) h h'" "repr h' p' ap'"
    by blast
  then have "stand_for (ps @ [Some p'], h') as'" using stand_for_add [OF s [unfolded sh] _ _ _ a(3)] by blast
  then show ?thesis using r(1) p(1,2) by (intro exI [of _ "(ps @ [Some p'], h')"]) (simp add: sh from_packet_def)
qed

lemma Write_append:
  "length zs = length ys \<Longrightarrow> TagBuffer_Write ys \<lparr>tb_bytes = xs @ zs, tb_current = length xs\<rparr> =
     Inr \<lparr>tb_bytes = xs @ ys, tb_current = length xs + length ys\<rparr>"
proof (induction ys arbitrary: xs zs)
  case (Cons y ys)
  then obtain z ws where z: "zs = z # ws" "length ws = length ys" by (cases zs) auto
  have "WriteU8 y \<lparr>tb_bytes = xs @ zs, tb_current = length xs\<rparr> = Inr \<lparr>tb_bytes = (xs @ [y]) @ ws, tb_current = length (xs @ [y])\<rparr>"
    by (simp add: WriteU8_def z)
  then show ?case using Cons.IH [OF z(2), of "xs @ [y]"] by simp
qed simp

lemma writes_Write: "writes (TagBuffer_Write bytes) bytes"
  unfolding writes_def TagBuffer_def using Write_append [of _ bytes "[]"] by simp

lemma AddByteTag_ok:
  assumes "stand_for s as" and "sp_on i (\<lambda>p. sp_tag tid bytes 0 (ap_size p) p) as = Some as'"
  shows "\<exists>s'. on_packet i (Packet_AddByteTag tid (of_nat (length bytes)) (TagBuffer_Write bytes)) s = Inr s' \<and> stand_for s' as'"
  using assms
proof (rule on_packet_ok)
  fix h p ap ap' R
  assume g: "sp_tag tid bytes 0 (ap_size ap) ap = Some ap'" and f: "fits ap" "fits ap'" and R: "size R + 8 < 4294967296"
    and ok: "store_ok h (users (pk_tags p) + R)" and rp: "repr h p ap"
  have "sint (pk_size p) = int (ap_size ap)" using sint_small [of "pk_size p"] rp f(1) by (simp add: repr_def fits_def)
  then show "\<exists>p' h'. Packet_AddByteTag tid (of_nat (length bytes)) (TagBuffer_Write bytes) p h = Inr (p', h') \<and>
      store_ok h' (users (pk_tags p') + R) \<and> framed_by R h h' \<and> repr h' p' ap'"
    using refinesD [OF refines_add_tag [OF writes_Write] g f R ok rp] by (simp add: Packet_AddByteTag_def)
qed

lemma AddByteTag_range_ok:
  assumes "stand_for s as" and "sp_on i (sp_tag tid bytes (unat start) (unat stop)) as = Some as'"
  shows "\<exists>s'. on_packet i (Packet_AddByteTag_range tid (of_nat (length bytes)) (TagBuffer_Write bytes) start stop) s = Inr s' \<and>
    stand_for s' as'"
  using assms
proof (rule on_packet_ok)
  fix h p ap ap' R
  assume g: "sp_tag tid bytes (unat start) (unat stop) ap = Some ap'" and f: "fits ap" "fits ap'" and R: "size R + 8 < 4294967296"
    and ok: "store_ok h (users (pk_tags p) + R)" and rp: "repr h p ap"
  have lt: "unat start < unat stop" and "unat stop < 1073741824"
    using g f(2) by (auto simp: sp_tag_def fits_def split: if_splits)
  then have "sint start = int (unat start)" "sint stop = int (unat stop)" "\<not> stop < start"
    by (simp_all add: sint_small word_less_nat_alt)
  then show "\<exists>p' h'. Packet_AddByteTag_range tid (of_nat (length bytes)) (TagBuffer_Write bytes) start stop p h = Inr (p', h') \<and>
      store_ok h' (users (pk_tags p') + R) \<and> framed_by R h h' \<and> repr h' p' ap'"
    using refinesD [OF refines_add_tag [OF writes_Write] g f R ok rp] by (simp add: Packet_AddByteTag_range_def)
qed

lemma append_packet_ok:
  assumes s: "stand_for s as" and g: "Option.bind (sp_at j as) (\<lambda>q. sp_on i (sp_append q) as) = Some as'"
  shows "\<exists>s'. append_packet i j s = Inr s' \<and> stand_for s' as'"
proof -
  obtain ps h where sh: "s = (ps, h)" by (cases s)
  obtain aq where a: "sp_at j as = Some aq" "sp_on i (sp_append aq) as = Some as'"
    using g by (auto simp: Option.bind_eq_Some_conv)
  obtain q where q: "j < length ps" "ps ! j = Some q" "fits aq" "repr h q aq"
    using stand_for_at [OF s [unfolded sh] a(1)] by blast
  let ?o = "if i = j then None else Some q"
  have "\<exists>s'. on_packet i (Packet_AddAtEnd ?o) s = Inr s' \<and> stand_for s' as'"
  proof (rule on_packet_ok [OF s a(2)])
    fix k p ap ap' R
    assume x: "sp_append aq ap = Some ap'" "fits ap" "fits ap'" "size R + 8 < 4294967296" "store_ok k (users (pk_tags p) + R)"
        "repr k p ap" and e: "snd s = k" "sp_at i as = Some ap" "R = packet_users ((fst s)[i := None])"
    have "users (pk_tags q) \<subseteq># R" if "i \<noteq> j"
      using that q(1,2) packet_users_nth [of j "ps[i := None]" q] by (simp add: e(3) sh)
    then have "case ?o of None \<Rightarrow> aq = ap | Some q \<Rightarrow> repr k q aq \<and> users (pk_tags q) \<subseteq># R"
      using a(1) e(1,2) q(4) by (auto simp: sh)
    from AddAtEnd_packet_ok [OF x(1,2) q(3) x(3-6) this]
    show "\<exists>p' h'. Packet_AddAtEnd ?o p k = Inr (p', h') \<and> store_ok h' (users (pk_tags p') + R) \<and> framed_by R k h' \<and> repr h' p' ap'" .
  qed
  then show ?thesis using q(1,2) by (simp add: append_packet_def sh)
qed

lemma delete_packet_ok:
  assumes s: "stand_for s as" and g: "Option.bind (sp_at i as) (\<lambda>p. Some (as[i := None])) = Some as'"
  shows "\<exists>s'. delete_packet i s = Inr s' \<and> stand_for s' as'"
proof -
  obtain ps h where sh: "s = (ps, h)" by (cases s)
  obtain ap where a: "sp_at i as = Some ap" "as' = as[i := None]" using g by (auto simp: Option.bind_eq_Some_conv)
  obtain p where p: "i < length ps" "ps ! i = Some p" using stand_for_at [OF s [unfolded sh] a(1)] by blast
  let ?R = "packet_users (ps[i := None])"
  have "store_ok h (users (pk_tags p) + ?R)" using s packet_users_update(1) [OF p] by (simp add: sh stand_for_def)
  from Deallocate_list_ok [OF this] obtain h' where h': "Deallocate (bt_data (pk_tags p)) h = Inr h'" "store_ok h' ?R" "same_blocks ?R h h'"
    by blast
  have "list_all2 (rel_option (\<lambda>p ap. fits ap \<and> repr h' p ap)) (ps[i := None]) (as[i := None])"
    by (rule stand_for_framed [OF stand_for_None [OF s [unfolded sh] p(1)] framed_by_same [OF h'(3)] _ h'(2)]) simp
  then have "stand_for (ps[i := None], h') as'" using s h'(2) a(2) by (simp add: stand_for_def sh)
  moreover have "delete_packet i s = Inr (ps[i := None], h')"
    using h'(1) p by (simp add: delete_packet_def sh Packet_destroy_def ByteTagList_destroy_def)
  ultimately show ?thesis by blast
qed

lemma new_packet_ok:
  assumes s: "stand_for s as" and g: "sp_add (sp_new (unat n)) as = Some as'"
  shows "stand_for (fst s @ [Some (Packet n)], snd s) as'"
proof -
  have "repr (snd s) (Packet n) (sp_new (unat n))"
    by (rule reprI [of _ _ "[]"]) (simp_all add: Packet_def sp_new_def ByteTagList_def holds_def)
  moreover have "users (pk_tags (Packet n)) = {#}" by (simp add: Packet_def)
  ultimately show ?thesis using stand_for_add [of "fst s" "snd s" as "snd s" "Packet n", OF _ _ _ _ g] s
    by (simp add: stand_for_def)
qed

lemma packet_step_ok:
  assumes s: "stand_for s as" and g: "spec_step x as = Some as'"
  shows "\<exists>s'. packet_step x s = Inr s' \<and> stand_for s' as'"
proof (cases x)
  case (PNew n)
  then show ?thesis using new_packet_ok [OF s] g by auto
next
  case (PCopy i)
  have "\<exists>s'. from_packet i Packet_Copy s = Inr s' \<and> stand_for s' as'"
    by (rule from_packet_ok [OF s, of _ Some]) (use g PCopy Copy_ok repr_framed in \<open>fastforce+\<close>)
  then show ?thesis by (simp add: PCopy)
next
  case (PFragment i b n)
  have "\<exists>s'. from_packet i (Packet_CreateFragment b n) s = Inr s' \<and> stand_for s' as'"
    by (rule from_packet_ok [OF s, of _ "sp_fragment (unat b) (unat n)"]) (use g PFragment CreateFragment_ok in simp_all)
  then show ?thesis by (simp add: PFragment)
next
  case (PAddHeader i n)
  then show ?thesis using on_refines [OF s _ refines_AddHeader] g by simp
next
  case (PRemoveHeader i n)
  then show ?thesis using on_refines [OF s _ refines_RemoveAtStart] g by (simp add: RemoveHeader_same)
next
  case (PAddTrailer i n)
  then show ?thesis using on_refines [OF s _ refines_AddPaddingAtEnd] g by (simp add: AddTrailer_same)
next
  case (PRemoveTrailer i n)
  then show ?thesis using on_refines [OF s _ refines_RemoveAtEnd] g by (simp add: RemoveTrailer_same)
next
  case (PAddAtEnd i j)
  then show ?thesis using append_packet_ok [OF s] g by simp
next
  case (PAddPadding i n)
  then show ?thesis using on_refines [OF s _ refines_AddPaddingAtEnd] g by simp
next
  case (PRemoveAtEnd i n)
  then show ?thesis using on_refines [OF s _ refines_RemoveAtEnd] g by simp
next
  case (PRemoveAtStart i n)
  then show ?thesis using on_refines [OF s _ refines_RemoveAtStart] g by simp
next
  case (PAddByteTag i tid bytes)
  then show ?thesis using AddByteTag_ok [OF s] g by simp
next
  case (PAddByteTagRange i tid bytes b e)
  then show ?thesis using AddByteTag_range_ok [OF s] g by simp
next
  case (PRemoveAllByteTags i)
  then show ?thesis using on_refines [OF s _ refines_RemoveAllByteTags] g by simp
next
  case (PDelete i)
  then show ?thesis using delete_packet_ok [OF s] g by simp
qed

lemma packet_run_ok:
  assumes "stand_for s as" and "spec_run xs as = Some as'"
  shows "\<exists>s'. packet_run xs s = Inr s' \<and> stand_for s' as'"
  using assms
proof (induction xs arbitrary: s as)
  case (Cons x xs)
  obtain bs where b: "spec_step x as = Some bs" "spec_run xs bs = Some as'"
    using Cons.prems(2) by (auto simp: Option.bind_eq_Some_conv)
  obtain t where t: "packet_step x s = Inr t" "stand_for t bs" using packet_step_ok [OF Cons.prems(1) b(1)] by blast
  then show ?case using Cons.IH [OF t(2) b(2)] by simp
qed simp

text \<open>A program starts with no block; \<open>junk\<close> is what its memory holds.\<close>

definition no_blocks :: "(nat \<Rightarrow> u8) \<Rightarrow> tag_store" where
  "no_blocks junk = \<lparr>ts_data = (\<lambda>_. None), ts_next = 0, g_freeList = [], g_maxSize = 0, ts_junk = junk\<rparr>"

lemma stand_for_no_blocks: "stand_for ([], no_blocks junk) []"
  by (simp add: stand_for_def no_blocks_def store_ok_def)

section \<open>The specification is met\<close>

lemma repr_size: "repr h p ap \<Longrightarrow> unat (pk_size p) = ap_size ap"
  by (simp add: repr_def)

text \<open>
  C35. Whatever packets a program makes, copies, cuts, appends to each other, tags and deletes, and in whatever
  order it does so: while sizes, offsets and tags stay below a quarter of the 32 bit range, no operation fails,
  and at the end every packet has the size and yields the byte tags that the specification gives it, with their
  bytes and ranges and in their order. The packets share blocks of tags and write to them in place, and an
  operation on one of them changes nothing of another. (A packet of size 0 has no bytes that a tag could be on.)
\<close>

theorem packets_keep_their_tags:
  assumes "spec_run ops [] = Some as"
  shows "\<exists>ps h. packet_run ops ([], no_blocks junk) = Inr (ps, h) \<and> length ps = length as \<and>
    (\<forall>i < length as. case as ! i of
        None \<Rightarrow> ps ! i = None
      | Some ap \<Rightarrow> \<exists>p. ps ! i = Some p \<and> unat (pk_size p) = ap_size ap \<and>
          (0 < ap_size ap \<longrightarrow> byte_tags p h = Inr (ap_tags ap)))"
proof -
  obtain ps h where r: "packet_run ops ([], no_blocks junk) = Inr (ps, h)" "stand_for (ps, h) as"
    using packet_run_ok [OF stand_for_no_blocks assms] by fastforce
  have l: "length ps = length as" "\<And>i. i < length as \<Longrightarrow> rel_option (\<lambda>p ap. fits ap \<and> repr h p ap) (ps ! i) (as ! i)"
    using r(2) by (auto simp: stand_for_def list_all2_conv_all_nth)
  have "case as ! i of None \<Rightarrow> ps ! i = None
      | Some ap \<Rightarrow> \<exists>p. ps ! i = Some p \<and> unat (pk_size p) = ap_size ap \<and> (0 < ap_size ap \<longrightarrow> byte_tags p h = Inr (ap_tags ap))"
    if "i < length as" for i
    using l(2) [OF that] iterator_ok(1) repr_size by (cases "as ! i") (auto simp: option_rel_Some2)
  then show ?thesis using r(1) l(1) by blast
qed

text \<open>
  Two packets of ten bytes are tagged; the second is appended to the first, the first is copied, and six bytes
  from the eighth on are cut from the copy. The copy is deleted and the first tagged again.
\<close>

definition sample_ops :: "packet_op list" where
  "sample_ops =
     [PNew 10, PAddByteTag 0 1 [65], PNew 10, PAddByteTagRange 1 1 [66] 2 9, PAddAtEnd 0 1, PCopy 0,
      PFragment 2 8 6, PDelete 2, PAddByteTag 0 2 [67], PAddHeader 3 4]"

theorem packets_keep_their_tags_witness:
  "\<exists>ps h. packet_run sample_ops ([], no_blocks (\<lambda>_. 0)) = Inr (ps, h) \<and> length ps = 4 \<and>
    (\<exists>p q. ps ! 0 = Some p \<and> byte_tags p h = Inr [(1, [65], 0, 10), (1, [66], 12, 19), (2, [67], 0, 20)] \<and>
       ps ! 3 = Some q \<and> byte_tags q h = Inr [(1, [65], 4, 6), (1, [66], 8, 10)])"
proof -
  have "\<exists>as. spec_run sample_ops [] = Some as \<and> length as = 4 \<and>
      map_option ap_tags (as ! 0) = Some [(1, [65], 0, 10), (1, [66], 12, 19), (2, [67], 0, 20)] \<and>
      map_option ap_size (as ! 0) = Some 20 \<and>
      map_option ap_tags (as ! 3) = Some [(1, [65], 4, 6), (1, [66], 8, 10)] \<and> map_option ap_size (as ! 3) = Some 10"
    by (simp add: sample_ops_def sp_add_def sp_on_def sp_from_def sp_at_def sp_put_def sp_new_def sp_tag_def sp_append_def
        sp_fragment_def sp_header_def fits_def trimmed_def shown_def)
  then obtain as where as: "spec_run sample_ops [] = Some as" "length as = 4"
      "map_option ap_tags (as ! 0) = Some [(1, [65], 0, 10), (1, [66], 12, 19), (2, [67], 0, 20)]"
      "map_option ap_size (as ! 0) = Some 20"
      "map_option ap_tags (as ! 3) = Some [(1, [65], 4, 6), (1, [66], 8, 10)]" "map_option ap_size (as ! 3) = Some 10" by blast
  from packets_keep_their_tags [OF as(1), of "\<lambda>_. 0"] obtain ps h where
      r: "packet_run sample_ops ([], no_blocks (\<lambda>_. 0)) = Inr (ps, h)" "length ps = length as"
      "\<And>i. i < length as \<Longrightarrow> case as ! i of None \<Rightarrow> ps ! i = None
        | Some ap \<Rightarrow> \<exists>p. ps ! i = Some p \<and> unat (pk_size p) = ap_size ap \<and> (0 < ap_size ap \<longrightarrow> byte_tags p h = Inr (ap_tags ap))"
    by blast
  obtain a b where ab: "as ! 0 = Some a" "as ! 3 = Some b" using as(4,6) by auto
  have "\<exists>p. ps ! 0 = Some p \<and> byte_tags p h = Inr (ap_tags a)" using r(3) [of 0] ab as(2,4) by auto
  moreover have "\<exists>q. ps ! 3 = Some q \<and> byte_tags q h = Inr (ap_tags b)" using r(3) [of 3] ab as(2,6) by auto
  ultimately show ?thesis using r(1,2) as(2,3,5) ab by auto
qed

text \<open>
  A packet of size 0 is left out above for a reason: a tag that was on bytes before and after the place where the
  packet is empty is still found, with an empty range.
\<close>

lemma empty_packet_shows_tag:
  "(case packet_run [PNew 10, PAddByteTag 0 1 [65], PRemoveAtStart 0 5, PRemoveAtEnd 0 5] ([], no_blocks (\<lambda>_. 0)) of
      Inl e \<Rightarrow> None
    | Inr (ps, h) \<Rightarrow> map_option (\<lambda>p. (pk_size p, byte_tags p h)) (ps ! 0)) = Some (0, Inr [(1, [65], 0, 0)])"
  by code_simp

end
