(* ===== verification/Flow_Stream.thy ===== *)
theory Flow_Stream
  imports Packet_Runs
begin

text \<open>
  The identifier of an application on a stream of packets: the sender tags every packet it makes with a
  \<open>FlowIdTag\<close>, the packets are appended to a stream, and the receiver looks for the tag in a chunk of the stream
  (\<open>SenderApplication::SendPacket\<close>, \<open>ReceiverApplication::HandleRead\<close>).
\<close>

section \<open>The tag\<close>

lemma FlowIdTag_bytes:
  "FlowIdTag_GetSerializedSize = of_nat (length (le32 v))"
  "FlowIdTag_Serialize v = TagBuffer_Write (le32 v)"
  "FlowIdTag_Deserialize (TagBuffer (le32 v)) = Inr v"
proof -
  show "FlowIdTag_GetSerializedSize = of_nat (length (le32 v))" by (simp add: FlowIdTag_GetSerializedSize_def)
  have "res_bind x Inr = x" for x :: "tag_buffer res" by (cases x) simp_all
  moreover have "TagBuffer_Write [] = Inr" "TagBuffer_Write (x # xs) = (\<lambda>b. res_bind (WriteU8 x b) (TagBuffer_Write xs))" for x xs
    by (intro ext, simp)+
  ultimately show "FlowIdTag_Serialize v = TagBuffer_Write (le32 v)"
    by (intro ext) (simp add: FlowIdTag_Serialize_def WriteU32_def le32_def)
  show "FlowIdTag_Deserialize (TagBuffer (le32 v)) = Inr v"
    using ReadU32_append [of "[]" v "[]"] by (simp add: FlowIdTag_Deserialize_def TagBuffer_def)
qed

section \<open>The stream\<close>

text \<open>
  The packets of \<open>sz\<close> bytes for the flows \<open>vs\<close>, each appended to the stream, the packet 0. Then \<open>len\<close> bytes at
  \<open>start\<close> are cut from the stream, get a header of \<open>hlen\<close> bytes and lose it.
\<close>

fun send_ops :: "nat \<Rightarrow> u32 \<Rightarrow> u32 \<Rightarrow> u32 list \<Rightarrow> packet_op list" where
  "send_ops k sz tid [] = []"
| "send_ops k sz tid (v # vs) =
     [PNew sz, PAddByteTag k tid (le32 v), PAddAtEnd 0 k, PDelete k] @ send_ops (Suc k) sz tid vs"

definition stream_ops :: "u32 \<Rightarrow> u32 \<Rightarrow> u32 list \<Rightarrow> u32 \<Rightarrow> u32 \<Rightarrow> u32 \<Rightarrow> packet_op list" where
  "stream_ops sz tid vs start len hlen =
     PNew 0 # send_ops 1 sz tid vs @
     [PFragment 0 start len, PAddHeader (Suc (length vs)) hlen, PRemoveHeader (Suc (length vs)) hlen]"

definition flow_tags :: "nat \<Rightarrow> u32 \<Rightarrow> u32 list \<Rightarrow> stored_tag list" where
  "flow_tags z tid vs = map (\<lambda>i. (tid, le32 (vs ! i), int (i * z), int (Suc i * z))) [0..<length vs]"

lemma flow_tags_snoc: "flow_tags z tid (vs @ [v]) = flow_tags z tid vs @ [(tid, le32 v, int (length vs * z), int (Suc (length vs) * z))]"
  by (simp add: flow_tags_def nth_append)

definition sp_stream :: "nat \<Rightarrow> u32 \<Rightarrow> u32 list \<Rightarrow> apacket" where
  "sp_stream z tid vs =
     \<lparr>ap_size = z * length vs, ap_tags = flow_tags z tid vs, ap_used = 20 * length vs, ap_reach = z * length vs\<rparr>"

lemma send_ops_spec:
  assumes "0 < unat sz" and "unat sz * (length us + length vs) < 1073741824" and "20 * (length us + length vs) < 1073741824"
  shows "spec_run (send_ops (Suc (length us)) sz tid vs @ rest) (Some (sp_stream (unat sz) tid us) # replicate (length us) None) =
    spec_run rest (Some (sp_stream (unat sz) tid (us @ vs)) # replicate (length us + length vs) None)"
  using assms
proof (induction vs arbitrary: us)
  case (Cons v vs)
  let ?z = "unat sz" and ?n = "length us"
  have b: "?z * Suc ?n < 1073741824" "20 * Suc ?n < 1073741824" "?z < 1073741824"
  proof -
    have "?z * Suc ?n \<le> ?z * (?n + length (v # vs))" by (intro mult_le_mono) simp_all
    then show "?z * Suc ?n < 1073741824" using Cons.prems(2) by linarith
    then show "?z < 1073741824" by simp
    show "20 * Suc ?n < 1073741824" using Cons.prems(3) by simp
  qed
  let ?s = "sp_stream ?z tid us" and ?p = "sp_new ?z"
  let ?q = "\<lparr>ap_size = ?z, ap_tags = [(tid, le32 v, 0, int ?z)], ap_used = 20, ap_reach = ?z\<rparr>"
  let ?as = "Some ?s # replicate ?n None"
  have l: "?n < 1073741824" using b(2) by simp
  have 1: "spec_step (PNew sz) ?as = Some (?as @ [Some ?p])"
    using b l by (simp add: sp_add_def fits_def sp_new_def)
  have at: "(?as @ [x]) ! Suc ?n = x" for x :: "apacket option" by (simp add: nth_append)
  have up: "(?as @ [x])[Suc ?n := y] = ?as @ [y]" for x y :: "apacket option" by (simp add: list_update_append)
  have t: "sp_tag tid (le32 v) 0 (ap_size ?p) ?p = Some ?q"
    using Cons.prems(1) by (simp add: sp_tag_def sp_new_def trimmed_def)
  have 2: "spec_step (PAddByteTag (Suc ?n) tid (le32 v)) (?as @ [Some ?p]) = Some (?as @ [Some ?q])"
    using t b by (simp add: sp_on_def sp_at_def sp_put_def fits_def nth_append list_update_append)
  have a: "sp_append ?q ?s = Some (sp_stream ?z tid (us @ [v]))"
    by (simp add: sp_append_def sp_stream_def flow_tags_snoc algebra_simps)
  have 3: "spec_step (PAddAtEnd 0 (Suc ?n)) (?as @ [Some ?q]) = Some (Some (sp_stream ?z tid (us @ [v])) # replicate ?n None @ [Some ?q])"
    using a b by (simp add: sp_on_def sp_at_def sp_put_def nth_append) (simp add: fits_def sp_stream_def)
  have 4: "spec_step (PDelete (Suc ?n)) (Some (sp_stream ?z tid (us @ [v])) # replicate ?n None @ [Some ?q]) =
      Some (Some (sp_stream ?z tid (us @ [v])) # replicate (Suc ?n) None)"
    by (simp add: sp_at_def nth_append list_update_append replicate_append_same)
  have "spec_run (send_ops (Suc ?n) sz tid (v # vs) @ rest) ?as =
      spec_run (send_ops (Suc (length (us @ [v]))) sz tid vs @ rest) (Some (sp_stream ?z tid (us @ [v])) # replicate (length (us @ [v])) None)"
    using 1 2 3 4 by simp
  then show ?case using Cons.IH [of "us @ [v]"] Cons.prems by simp
qed simp

section \<open>A chunk of the stream\<close>

definition flow_tag :: "nat \<Rightarrow> u32 \<Rightarrow> u32 list \<Rightarrow> nat \<Rightarrow> stored_tag" where
  "flow_tag z tid vs i = (tid, le32 (vs ! i), int (i * z), int (Suc i * z))"

lemma shown_before:
  assumes "k * z \<le> o'"
  shows "shown 0 b (- int o') (map (flow_tag z tid vs) [0..<k]) = []"
proof -
  have "\<not> in_window 0 b (- int o') (flow_tag z tid vs i)" if "i < k" for i
  proof -
    have "Suc i * z \<le> k * z" using that by (intro mult_le_mono1) simp
    then have "Suc i * z \<le> o'" using assms by linarith
    then have "int (Suc i * z) \<le> int o'" by (simp only: of_nat_le_iff)
    then show ?thesis unfolding flow_tag_def in_window.simps by linarith
  qed
  then show ?thesis by (auto simp: shown_def filter_empty_conv)
qed

text \<open>The first tag in a chunk is that of the packet from which its first byte comes.\<close>

lemma first_flow:
  assumes n: "0 < len" "start + len \<le> z * length vs"
  shows "\<exists>s e us. trimmed len (shifted (- int start) (flow_tags z tid vs)) = (tid, le32 (vs ! (start div z)), s, e) # us"
proof -
  let ?d = "start div z"
  have z: "0 < z" using n by (cases z) auto
  have d: "?d * z \<le> start" "start < Suc ?d * z"
    using dividend_less_div_times [OF z, of start] by (simp_all add: add.commute)
  have "start < length vs * z" using n by (simp add: mult.commute)
  then have dn: "?d < length vs" using less_mult_imp_div_less by blast
  then have "[0..<length vs] = [0..<?d] @ ?d # [Suc ?d..<length vs]"
    using upt_add_eq_append [of 0 ?d "length vs - ?d"] upt_conv_Cons [of ?d "length vs"] by simp
  then have "flow_tags z tid vs = map (flow_tag z tid vs) [0..<?d] @ flow_tag z tid vs ?d # map (flow_tag z tid vs) [Suc ?d..<length vs]"
    by (simp add: flow_tags_def flow_tag_def)
  moreover have "in_window 0 (int len) (- int start) (flow_tag z tid vs ?d)"
  proof -
    have "int (?d * z) \<le> int start" "int start < int (Suc ?d * z)" using d by (simp_all only: of_nat_le_iff of_nat_less_iff)
    then show ?thesis using n(1) unfolding flow_tag_def in_window.simps by linarith
  qed
  ultimately show ?thesis
    using shown_before [OF d(1), of "int len" tid vs] by (simp add: trimmed_def shown_shifted) (simp add: flow_tag_def)
qed

lemma stream_ops_spec:
  assumes len: "0 < unat len" "unat start + unat len \<le> unat sz * length vs"
    and b: "unat sz * length vs + unat start + 2 * unat hlen < 1073741824" "20 * length vs < 1073741824"
  shows "\<exists>as ap. spec_run (stream_ops sz tid vs start len hlen) [] = Some as \<and> Suc (length vs) < length as \<and>
    as ! Suc (length vs) = Some ap \<and> ap_size ap = unat len \<and>
    ap_tags ap = trimmed (unat len) (shifted (- int (unat start)) (flow_tags (unat sz) tid vs))"
proof -
  let ?n = "length vs" and ?z = "unat sz" and ?s = "unat start" and ?l = "unat len" and ?h = "unat hlen"
  let ?frag = "[PFragment 0 start len, PAddHeader (Suc ?n) hlen, PRemoveHeader (Suc ?n) hlen]"
  let ?ts = "trimmed ?l (shifted (- int ?s) (flow_tags ?z tid vs))"
  have z: "0 < ?z" using len by (cases ?z) auto
  have l: "?n < 1073741824" using b(2) by simp
  let ?as = "Some (sp_stream ?z tid vs) # replicate ?n None"
  let ?f = "\<lparr>ap_size = ?l, ap_tags = ?ts, ap_used = 20 * ?n, ap_reach = ?z * ?n + ?s\<rparr>"
  let ?g = "\<lparr>ap_size = ?l + ?h, ap_tags = shifted (int ?h) ?ts, ap_used = 20 * ?n, ap_reach = ?z * ?n + ?s + ?h\<rparr>"
  let ?e = "\<lparr>ap_size = ?l, ap_tags = ?ts, ap_used = 20 * ?n, ap_reach = ?z * ?n + ?s + ?h + ?h\<rparr>"
  have st: "sp_stream ?z tid [] = sp_new 0" by (simp add: sp_stream_def sp_new_def flow_tags_def)
  have "spec_run (stream_ops sz tid vs start len hlen) [] = spec_run (send_ops 1 sz tid vs @ ?frag) [Some (sp_new 0)]"
    unfolding stream_ops_def by (simp add: sp_add_def fits_def) (simp add: sp_new_def)
  also have "\<dots> = spec_run ?frag ?as"
    using send_ops_spec [of sz "[]" vs tid ?frag] z b st by simp
  finally have r: "spec_run (stream_ops sz tid vs start len hlen) [] = spec_run ?frag ?as" .
  have 1: "spec_step (PFragment 0 start len) ?as = Some (?as @ [Some ?f])"
    using len(2) b l by (simp add: sp_from_def sp_at_def sp_add_def sp_fragment_def) (simp add: sp_stream_def fits_def)
  have 2: "spec_step (PAddHeader (Suc ?n) hlen) (?as @ [Some ?f]) = Some (?as @ [Some ?g])"
    using b by (simp add: sp_on_def sp_at_def sp_put_def sp_header_def fits_def nth_append list_update_append)
  have "trimmed ?l (shifted (- int ?h) (shifted (int ?h) ?ts)) = ?ts"
    by (simp add: trimmed_def shown_shown)
  then have 3: "spec_step (PRemoveHeader (Suc ?n) hlen) (?as @ [Some ?g]) = Some (?as @ [Some ?e])"
    using b by (simp add: sp_on_def sp_at_def sp_put_def sp_remove_start_def fits_def nth_append list_update_append)
  show ?thesis
    unfolding r using 1 2 3 by (intro exI [of _ "?as @ [Some ?e]"] exI [of _ ?e]) (simp add: nth_append)
qed

text \<open>
  C36. The identifier of an application goes with its bytes. Packets of \<open>sz\<close> bytes are made, each gets a
  \<open>FlowIdTag\<close> with the identifier of its application, and each is appended to a stream; then any chunk of the
  stream is cut out, gets a header and loses it. The first \<open>FlowIdTag\<close> that the receiver finds in the chunk is
  the identifier of the application whose packet the first byte of the chunk belongs to, wherever the chunk
  starts and however many packets it goes over.
\<close>

theorem chunk_has_its_flow:
  assumes "0 < unat len" and "unat start + unat len \<le> unat sz * length vs"
    and "unat sz * length vs + unat start + 2 * unat hlen < 1073741824" and "20 * length vs < 1073741824"
  shows "\<exists>ps h p. packet_run (stream_ops sz tid vs start len hlen) ([], no_blocks junk) = Inr (ps, h) \<and>
    Suc (length vs) < length ps \<and> ps ! Suc (length vs) = Some p \<and> pk_size p = len \<and>
    FindFirstMatchingByteTag tid FlowIdTag_Deserialize p h = Inr (Some (vs ! (unat start div unat sz)))"
proof -
  obtain as ap where s: "spec_run (stream_ops sz tid vs start len hlen) [] = Some as" "Suc (length vs) < length as"
      "as ! Suc (length vs) = Some ap" "ap_size ap = unat len"
      "ap_tags ap = trimmed (unat len) (shifted (- int (unat start)) (flow_tags (unat sz) tid vs))"
    using stream_ops_spec [OF assms] by blast
  obtain ps h where r: "packet_run (stream_ops sz tid vs start len hlen) ([], no_blocks junk) = Inr (ps, h)" "stand_for (ps, h) as"
    using packet_run_ok [OF stand_for_no_blocks s(1)] by fastforce
  have "sp_at (Suc (length vs)) as = Some ap" using s(2,3) by (simp add: sp_at_def)
  from stand_for_at [OF r(2) this] obtain p where p: "Suc (length vs) < length ps" "ps ! Suc (length vs) = Some p"
      "fits ap" "repr h p ap" by blast
  obtain x e us where t: "ap_tags ap = (tid, le32 (vs ! (unat start div unat sz)), x, e) # us"
    using first_flow [OF assms(1,2), of tid] s(5) by auto
  have "0 < ap_size ap" using assms(1) s(4) by simp
  from iterator_ok(2) [OF p(4,3) this, of tid FlowIdTag_Deserialize]
  have "FindFirstMatchingByteTag tid FlowIdTag_Deserialize p h = Inr (Some (vs ! (unat start div unat sz)))"
    by (simp add: t FlowIdTag_bytes(3))
  moreover have "pk_size p = len" using repr_size [OF p(4)] s(4) by (simp add: word_unat_eq_iff)
  ultimately show ?thesis using r(1) p(1,2) by blast
qed

theorem chunk_has_its_flow_witness:
  "\<exists>ps h p. packet_run (stream_ops 1450 9 [4, 7, 5] 2000 2000 20) ([], no_blocks (\<lambda>_. 0)) = Inr (ps, h) \<and>
    ps ! 4 = Some p \<and> pk_size p = 2000 \<and> FindFirstMatchingByteTag 9 FlowIdTag_Deserialize p h = Inr (Some 7)"
proof -
  have "0 < unat (2000 :: u32)" "unat (2000 :: u32) + unat (2000 :: u32) \<le> unat (1450 :: u32) * length [4, 7, 5 :: u32]"
    "unat (1450 :: u32) * length [4, 7, 5 :: u32] + unat (2000 :: u32) + 2 * unat (20 :: u32) < 1073741824"
    "20 * length [4, 7, 5 :: u32] < 1073741824" by simp_all
  from chunk_has_its_flow [OF this, of 9 "\<lambda>_. 0"] obtain ps h p where
      "packet_run (stream_ops 1450 9 [4, 7, 5] 2000 2000 20) ([], no_blocks (\<lambda>_. 0)) = Inr (ps, h)"
      "ps ! Suc (length [4, 7, 5 :: u32]) = Some p" "pk_size p = 2000"
      "FindFirstMatchingByteTag 9 FlowIdTag_Deserialize p h = Inr (Some ([4, 7, 5] ! (unat (2000 :: u32) div unat (1450 :: u32))))"
    by blast
  moreover have "Suc (length [4, 7, 5 :: u32]) = 4" "[4, 7, 5 :: u32] ! (unat (2000 :: u32) div unat (1450 :: u32)) = 7" by simp_all
  ultimately show ?thesis by metis
qed

end
