(* ===== verification/Spec2Isabelle.thy ===== *)
theory Spec2Isabelle
  imports Random_Strat Reactive_Strat Main_Sweep Flow_Stream
begin

text \<open>
  Verification of the SD-WAN simulator in \<open>src/code\<close>: a CPE (the sender) spreads the packets of three
  applications over three ISP interfaces, by one of four strategies, and a sink (the receiver) notes
  what arrives. The program runs on ns-3.42, which is vendored below \<open>src/code/external\<close>; of ns-3
  the parts are modelled that the program's behaviour rests on and that are small enough: the event
  schedulers and the sequential simulator, the time arithmetic, the error models, the addresses and
  their allocation, the byte tags of packets, one of which carries the application of a packet.

  How the parts interact. \<open>main.cpp\<close> sets up the network and the applications and runs the
  simulator. Its first event starts \<open>SenderApplication\<close>, which opens a socket and makes an
  \<open>ISPInterface\<close> per address, creates the \<open>Strategy\<close>, starts the applications (which generate their
  first packets), schedules one sending loop per interface and computes the strategy. Once per
  second every application generates the packets of one sample and \<open>Strategy::Compute\<close> moves all
  pending packets to queues of interfaces; meanwhile each sending loop takes a packet from its
  queue at the pace of its channel, asks the error model, and hands a correct packet with its
  \<open>FlowIdTag\<close> to the socket. \<open>ReceiverApplication\<close> reads packets of 128 bytes and notes for each the
  interface and the application.

  The theories, in the order of their dependencies, and the code they model:

  \<^item> \<open>Prelude\<close>: integer types, outcomes (\<open>res\<close>: a value, or the exception, abort, failed assertion or
    undefined behaviour), \<open>std::vector::at\<close>, loops over lists, generic lemmas.
  \<^item> \<open>Binary64\<close>: IEEE double arithmetic with round-to-nearest-even on rationals.
  \<^item> \<open>Run_Data\<close> (\<open>StrategyTypes\<close>, \<open>RunParameters\<close>, \<open>RunInfo\<close>, \<open>StrategyDataPoint\<close>, \<open>SendPacketInfo\<close>),
    \<open>Sim_Utils\<close> (\<open>Utils\<close>), \<open>Sin_Gen\<close> (\<open>SinGenerator\<close>), \<open>Sdwan_App\<close> (\<open>SDWanApplication\<close> and its two
    subclasses), \<open>Isp_Iface\<close> (\<open>ISPInterface\<close>).
  \<^item> \<open>Strategy_Base\<close>, \<open>Round_Robin\<close>, \<open>Random_Strat\<close>, \<open>Mip_Model\<close>, \<open>Linear_Strat\<close>, \<open>Reactive_Strat\<close>,
    \<open>Strategy_Object\<close>: the four strategies and the virtual \<open>Compute\<close>. \<open>Routed_Solution\<close>,
    \<open>Linear_Feasible\<close>, \<open>Reactive_Feasible\<close>: when their problems have solutions.
  \<^item> \<open>Int64x64\<close>, \<open>Ns3_Time\<close>, \<open>Ns3_Sched\<close>, \<open>Ns3_Heap\<close>, \<open>Ns3_Sim\<close>, \<open>Ns3_Error\<close>, \<open>Ns3_Address\<close>,
    \<open>Ns3_Ip_Alloc\<close>: the parts of ns-3.
  \<^item> \<open>Ns3_Byte_Tags\<close> (\<open>ByteTagList\<close>), \<open>Ns3_Buffer\<close>, \<open>Ns3_Packet\<close>: the byte tags of packets, in blocks of memory that
    packets share. \<open>Byte_Tag_View\<close> (what a list holds, and the invariant of the blocks), \<open>Byte_Tag_Add\<close>,
    \<open>Byte_Tag_Iter\<close>, \<open>Byte_Tag_Cut\<close>: each operation of a list; \<open>Packet_Spec\<close>, \<open>Packet_Runs\<close>: packets implement
    their specification; \<open>Flow_Stream\<close>: the identifier of an application on a stream.
  \<^item> \<open>Sender_App\<close> (\<open>SenderApplication\<close> and its helper), with its bookkeeping in \<open>Sender_Books\<close>; the
    end of its run: \<open>App_Progress\<close> (what the applications have left), \<open>Sender_Step\<close> (one call),
    \<open>Sender_Timetable\<close> (the invariant), \<open>Sender_Events\<close>, \<open>Sender_Start\<close>, \<open>Sender_Run\<close>; \<open>Receiver_App\<close> (\<open>ReceiverApplication\<close>, \<open>ReceivedPacketInfo\<close>), whose
    maps are those of \<open>Std_Map\<close> (\<open>std::map\<close>); \<open>Sink_Delivery\<close>: the run of the sink behind the network.
  \<^item> \<open>main.cpp\<close>: \<open>Main_Setup\<close> (network, applications and run of the sender), \<open>Main_Routes\<close> (what its
    channels offer to its applications), \<open>Main_Ready\<close> (why its run succeeds), \<open>Main_Feasible\<close> (when that of the
    reactive strategy does), \<open>Run_Results\<close> (groups and statistics), \<open>Main_Run\<close> (\<open>RunSimulation\<close> as a whole), \<open>Main_Sweep\<close> (\<open>main\<close>: the sweep and the files).

  The interfaces are locales, interpreted on the models that provide them: \<open>packet_fifo\<close>
  (\<open>Queue_Contract\<close>: the queue of an interface), \<open>packet_spreader\<close> and \<open>cyclic_spreader\<close>
  (\<open>Spread_Contract\<close>: strategies that send one packet at a time), \<open>matrix_sender\<close> (\<open>Mip_Model\<close>:
  strategies that send a solution), \<open>packet_mover\<close> (\<open>Strategy_Object\<close>: what every strategy owes the
  sender), \<open>event_queue\<close> and \<open>removable_event_queue\<close> (\<open>Ns3_Sched_Contract\<close>: what \<open>scheduler.h\<close> asks
  of its implementations), \<open>ordered_map\<close> and \<open>grouping_map\<close> (\<open>Std_Map\<close>: what \<open>std::map\<close> gives to its
  users), \<open>simulator_client\<close>, \<open>terminating_client\<close> (\<open>Ns3_Sim\<close>) and \<open>timetable_client\<close>
  (\<open>Ns3_Agenda\<close>: what a client of the simulator has to keep so that \<open>Run\<close> ends).

  How state corresponds. A class is a record with its members; a vector of shared pointers is a list
  of the objects, an object being named by its position. Integers have the width of the code and
  wrap; simulated time is an integer number of nanoseconds where the code converts it and a 64-bit
  word in the simulator. A call that may throw, abort, fail an assertion or be undefined returns
  \<open>Inl\<close> with the reason. \<open>NS_ASSERT\<close> is checked, as in the default build. Uninitialised members are
  arguments (\<open>garbage\<close>). \<open>w_trace\<close> in the world of the sender is a history variable, no member.

  What the lemmas show. Each strategy: what one computation does on every branch, conservation of the
  packets, fairness of round robin, errors. The applications: how much they generate and when they
  stop. The solver's problems: a solution moves exactly its matrix. The schedulers: they implement
  one contract and hand out the same events; the heap's \<open>Remove\<close> does not meet it. The simulator:
  events run in order of time and identifier, and \<open>Run\<close> ends for a client with a bound. The sender:
  at every moment each generated packet is pending, queued or handed over, the run ends, and then
  everything has been handed over. The receiver: reading ends and notes every packet, reassembly
  keeps the byte stream. Packets: under any sequence of operations each has the byte tags an abstract packet has,
  whatever blocks they share, so the first flow tag of a chunk of a stream is that of its first byte.
  Addresses: round trips, consecutive distinct addresses in a subnet. The sink:
  over streams that lose nothing it notes, per interface and in order, what was sent uncorrupted. A
  run: \<open>RunSimulation\<close> returns under the four strategies and reports exactly what the sender sent; only
  the reactive one can throw instead, at its first computation, whose problem has two samples of every
  application and need not have a solution. After that its problems are solvable, because at every
  computation the loops have sent all the last one distributed. \<open>main\<close>: the loops
  are a sample of all parameters, each of which occurs once; a sweep ends;
  the file is complete unless an application delivered nothing.

  Bounds and fuel. \<open>Run\<close> and the reading loop are \<open>partial_function (option)\<close> and need no fuel: that they
  return is proved. \<open>Sim_Destroy\<close> and \<open>transfer_events\<close> take fuel; one more than the number of events is
  enough (\<open>SetScheduler_keeps_events\<close>). The loops over byte tags take one more round than the list has bytes, and
  a tag has at least 16 (\<open>iterate_ok\<close>). The specification of packets is defined while their sizes, offsets and tags
  stay below 2 to the 30, and the theorems on packets hold for these. \<open>prefix_loop\<close> takes the 32 rounds a 32-bit mask needs.

  Parameters. The mixed-integer solver (OR-tools), \<open>std::sin\<close>, \<open>std::rand\<close>, \<open>std::pow\<close>,
  \<open>std::shuffle\<close>, the random engines and distributions, which of the sorted permutations
  \<open>std::ranges::sort\<close> returns, whether a file can be opened, the sockets, the network between the two
  nodes, and what of the process outlives a run (\<open>run_env\<close>). What is relied on of them are named hypotheses: \<open>solver_contract\<close>, \<open>sin_bounded\<close>, \<open>shuffle_keeps_length\<close>,
  \<open>ready_sockets\<close>, \<open>opening_sockets\<close>, \<open>delivers\<close>, \<open>stream_sockets\<close>, \<open>reliable\<close>, \<open>sorts\<close>,
  \<open>solver_complete\<close>; \<open>dependable\<close> collects those of a run.

  Not modelled: TCP, IP, ARP and CSMA of ns-3 (third-party code; the sockets stand for them), the
  modules of ns-3 the program does not use, of a packet all but its size and byte tags, NetAnim, the build scripts, the decimal formatting of
  numbers, logging and attribute registration.
\<close>

end
